(* ===== verification/Ircd_Prelude.thy ===== *)
theory Ircd_Prelude
  imports Main "HOL-Library.Word" "HOL-Library.Char_ord"
begin

unbundle bit_operations_syntax

section \<open>Prelude\<close>

text \<open>
  What every component of the model shares: C strings, reads through a C pointer, and the
  collections of simplification rules the component proofs use.

  A C string is the list of its characters before the terminating NUL.  A pointer into the
  string is an index; reading at the index of the terminator gives NUL, and reading beyond it
  is outside the object, which the loops of the code must never do.
\<close>

named_theorems char_class \<open>what the character tables say of a character\<close>
named_theorems cstr_simps \<open>reads and copies of C strings\<close>
named_theorems wf_intros \<open>preservation of the components' invariants\<close>

type_synonym cstring = string

abbreviation NUL :: char where
  "NUL \<equiv> CHR 0x00"

definition cstr :: "string \<Rightarrow> bool" where
  "cstr s \<longleftrightarrow> NUL \<notin> set s"

definition rd :: "string \<Rightarrow> nat \<Rightarrow> char" where
  "rd s i = (if i < length s then s ! i else NUL)"

lemma cstr_Nil [simp, cstr_simps]: "cstr []"
  by (simp add: cstr_def)

lemma cstr_Cons [simp, cstr_simps]: "cstr (c # s) \<longleftrightarrow> c \<noteq> NUL \<and> cstr s"
  by (auto simp: cstr_def)

lemma cstr_append [simp, cstr_simps]: "cstr (s @ t) \<longleftrightarrow> cstr s \<and> cstr t"
  by (auto simp: cstr_def)

lemma cstr_drop [simp, intro]: "cstr s \<Longrightarrow> cstr (drop n s)"
  by (auto simp: cstr_def dest: in_set_dropD)

lemma cstr_take [simp, intro]: "cstr s \<Longrightarrow> cstr (take n s)"
  by (auto simp: cstr_def dest: in_set_takeD)

lemma cstr_filter [simp, intro]: "cstr s \<Longrightarrow> cstr (filter P s)"
  by (auto simp: cstr_def)

lemma rd_end [simp, cstr_simps]: "rd s (length s) = NUL"
  by (simp add: rd_def)

lemma rd_NUL_iff: "cstr s \<Longrightarrow> rd s i = NUL \<longleftrightarrow> length s \<le> i"
  by (auto simp: rd_def cstr_def in_set_conv_nth)

lemma rd_inside: "rd s i \<noteq> NUL \<Longrightarrow> i < length s"
  by (auto simp: rd_def split: if_splits)

lemma rd_cases: "rd s i = NUL \<or> rd s i \<in> set s"
  by (simp add: rd_def)

lemma drop_rd: "i < length s \<Longrightarrow> drop i s = rd s i # drop (Suc i) s"
  by (simp add: rd_def Cons_nth_drop_Suc)

text \<open>A statement about all characters is a statement about 256 of them.\<close>

lemma all_char_iff: "(\<forall>c::char. P c) \<longleftrightarrow> (\<forall>n\<in>set [0..<256]. P (char_of n))"
proof
  assume "\<forall>c. P c" then show "\<forall>n\<in>set [0..<256]. P (char_of n)" by simp
next
  assume a: "\<forall>n\<in>set [0..<256]. P (char_of n)"
  show "\<forall>c. P c"
  proof
    fix c :: char
    have "of_char c \<in> set [0..<256::nat]" using nat_of_char_less_256 [of c] by simp
    with a have "P (char_of (of_char c :: nat))" by blast
    then show "P c" by simp
  qed
qed

end
