(* ===== verification/Char_Tables.thy ===== *)
theory Char_Tables
  imports Ircd_Prelude
begin

section \<open>Character tables (\<^verbatim>\<open>src/match.c\<close>, \<^verbatim>\<open>include/irc_string.h\<close>)\<close>

text \<open>
  The case-folding tables and the attribute table of \<^verbatim>\<open>src/match.c\<close>, entry by entry, and the
  character macros of \<^verbatim>\<open>include/irc_string.h\<close>.  Case folding is that of RFC 1459: the four
  characters above the letters fold as well.  An attribute macro is a bit test; its C result is
  used as a truth value, which is what the model returns.
\<close>

definition PRINT_C :: nat where
  "PRINT_C = 0x00001"

definition CNTRL_C :: nat where
  "CNTRL_C = 0x00002"

definition ALPHA_C :: nat where
  "ALPHA_C = 0x00004"

definition PUNCT_C :: nat where
  "PUNCT_C = 0x00008"

definition DIGIT_C :: nat where
  "DIGIT_C = 0x00010"

definition SPACE_C :: nat where
  "SPACE_C = 0x00020"

definition NICK_C :: nat where
  "NICK_C = 0x00040"

definition CHAN_C :: nat where
  "CHAN_C = 0x00080"

definition KWILD_C :: nat where
  "KWILD_C = 0x00100"

definition CHANPFX_C :: nat where
  "CHANPFX_C = 0x00200"

definition USER_C :: nat where
  "USER_C = 0x00400"

definition HOST_C :: nat where
  "HOST_C = 0x00800"

definition NONEOS_C :: nat where
  "NONEOS_C = 0x01000"

definition SERV_C :: nat where
  "SERV_C = 0x02000"

definition EOL_C :: nat where
  "EOL_C = 0x04000"

definition MWILD_C :: nat where
  "MWILD_C = 0x08000"

definition VCHAN_C :: nat where
  "VCHAN_C = 0x10000"

lemmas attr_bits = PRINT_C_def CNTRL_C_def ALPHA_C_def PUNCT_C_def DIGIT_C_def SPACE_C_def NICK_C_def CHAN_C_def KWILD_C_def CHANPFX_C_def USER_C_def HOST_C_def NONEOS_C_def SERV_C_def EOL_C_def MWILD_C_def VCHAN_C_def

definition ToLowerTab :: "nat list" where
  "ToLowerTab = [
    0, 1, 2, 3, 4, 5, 6, 7, 8, 9, 10, 11, 12, 13, 14, 15,
    16, 17, 18, 19, 20, 21, 22, 23, 24, 25, 26, 27, 28, 29, 30, 31,
    32, 33, 34, 35, 36, 37, 38, 39, 40, 41, 42, 43, 44, 45, 46, 47,
    48, 49, 50, 51, 52, 53, 54, 55, 56, 57, 58, 59, 60, 61, 62, 63,
    64, 97, 98, 99, 100, 101, 102, 103, 104, 105, 106, 107, 108, 109, 110, 111,
    112, 113, 114, 115, 116, 117, 118, 119, 120, 121, 122, 123, 124, 125, 126, 95,
    96, 97, 98, 99, 100, 101, 102, 103, 104, 105, 106, 107, 108, 109, 110, 111,
    112, 113, 114, 115, 116, 117, 118, 119, 120, 121, 122, 123, 124, 125, 126, 127,
    128, 129, 130, 131, 132, 133, 134, 135, 136, 137, 138, 139, 140, 141, 142, 143,
    144, 145, 146, 147, 148, 149, 150, 151, 152, 153, 154, 155, 156, 157, 158, 159,
    160, 161, 162, 163, 164, 165, 166, 167, 168, 169, 170, 171, 172, 173, 174, 175,
    176, 177, 178, 179, 180, 181, 182, 183, 184, 185, 186, 187, 188, 189, 190, 191,
    192, 193, 194, 195, 196, 197, 198, 199, 200, 201, 202, 203, 204, 205, 206, 207,
    208, 209, 210, 211, 212, 213, 214, 215, 216, 217, 218, 219, 220, 221, 222, 223,
    224, 225, 226, 227, 228, 229, 230, 231, 232, 233, 234, 235, 236, 237, 238, 239,
    240, 241, 242, 243, 244, 245, 246, 247, 248, 249, 250, 251, 252, 253, 254, 255]"

definition ToUpperTab :: "nat list" where
  "ToUpperTab = [
    0, 1, 2, 3, 4, 5, 6, 7, 8, 9, 10, 11, 12, 13, 14, 15,
    16, 17, 18, 19, 20, 21, 22, 23, 24, 25, 26, 27, 28, 29, 30, 31,
    32, 33, 34, 35, 36, 37, 38, 39, 40, 41, 42, 43, 44, 45, 46, 47,
    48, 49, 50, 51, 52, 53, 54, 55, 56, 57, 58, 59, 60, 61, 62, 63,
    64, 65, 66, 67, 68, 69, 70, 71, 72, 73, 74, 75, 76, 77, 78, 79,
    80, 81, 82, 83, 84, 85, 86, 87, 88, 89, 90, 91, 92, 93, 94, 95,
    96, 65, 66, 67, 68, 69, 70, 71, 72, 73, 74, 75, 76, 77, 78, 79,
    80, 81, 82, 83, 84, 85, 86, 87, 88, 89, 90, 91, 92, 93, 94, 127,
    128, 129, 130, 131, 132, 133, 134, 135, 136, 137, 138, 139, 140, 141, 142, 143,
    144, 145, 146, 147, 148, 149, 150, 151, 152, 153, 154, 155, 156, 157, 158, 159,
    160, 161, 162, 163, 164, 165, 166, 167, 168, 169, 170, 171, 172, 173, 174, 175,
    176, 177, 178, 179, 180, 181, 182, 183, 184, 185, 186, 187, 188, 189, 190, 191,
    192, 193, 194, 195, 196, 197, 198, 199, 200, 201, 202, 203, 204, 205, 206, 207,
    208, 209, 210, 211, 212, 213, 214, 215, 216, 217, 218, 219, 220, 221, 222, 223,
    224, 225, 226, 227, 228, 229, 230, 231, 232, 233, 234, 235, 236, 237, 238, 239,
    240, 241, 242, 243, 244, 245, 246, 247, 248, 249, 250, 251, 252, 253, 254, 255]"

definition CharAttrs_low :: "nat list" where
  "CharAttrs_low = [
    CNTRL_C,
    CNTRL_C OR CHAN_C OR VCHAN_C OR NONEOS_C,
    CNTRL_C OR CHAN_C OR NONEOS_C,
    CNTRL_C OR CHAN_C OR NONEOS_C,
    CNTRL_C OR CHAN_C OR VCHAN_C OR NONEOS_C,
    CNTRL_C OR CHAN_C OR VCHAN_C OR NONEOS_C,
    CNTRL_C OR CHAN_C OR VCHAN_C OR NONEOS_C,
    CNTRL_C OR NONEOS_C,
    CNTRL_C OR CHAN_C OR VCHAN_C OR NONEOS_C,
    CNTRL_C OR SPACE_C OR CHAN_C OR VCHAN_C OR NONEOS_C,
    CNTRL_C OR SPACE_C OR CHAN_C OR VCHAN_C OR NONEOS_C OR EOL_C,
    CNTRL_C OR SPACE_C OR CHAN_C OR VCHAN_C OR NONEOS_C,
    CNTRL_C OR SPACE_C OR CHAN_C OR VCHAN_C OR NONEOS_C,
    CNTRL_C OR SPACE_C OR CHAN_C OR VCHAN_C OR NONEOS_C OR EOL_C,
    CNTRL_C OR CHAN_C OR VCHAN_C OR NONEOS_C,
    CNTRL_C OR CHAN_C OR NONEOS_C,
    CNTRL_C OR CHAN_C OR VCHAN_C OR NONEOS_C,
    CNTRL_C OR CHAN_C OR VCHAN_C OR NONEOS_C,
    CNTRL_C OR CHAN_C OR VCHAN_C OR NONEOS_C,
    CNTRL_C OR CHAN_C OR VCHAN_C OR NONEOS_C,
    CNTRL_C OR CHAN_C OR VCHAN_C OR NONEOS_C,
    CNTRL_C OR CHAN_C OR VCHAN_C OR NONEOS_C,
    CNTRL_C OR CHAN_C OR NONEOS_C,
    CNTRL_C OR CHAN_C OR VCHAN_C OR NONEOS_C,
    CNTRL_C OR CHAN_C OR VCHAN_C OR NONEOS_C,
    CNTRL_C OR CHAN_C OR VCHAN_C OR NONEOS_C,
    CNTRL_C OR CHAN_C OR VCHAN_C OR NONEOS_C,
    CNTRL_C OR CHAN_C OR VCHAN_C OR NONEOS_C,
    CNTRL_C OR CHAN_C OR VCHAN_C OR NONEOS_C,
    CNTRL_C OR CHAN_C OR VCHAN_C OR NONEOS_C,
    CNTRL_C OR CHAN_C OR VCHAN_C OR NONEOS_C,
    CNTRL_C OR CHAN_C OR NONEOS_C,
    PRINT_C OR SPACE_C,
    PRINT_C OR KWILD_C OR CHAN_C OR VCHAN_C OR NONEOS_C,
    PRINT_C OR CHAN_C OR VCHAN_C OR NONEOS_C,
    PRINT_C OR KWILD_C OR MWILD_C OR CHANPFX_C OR CHAN_C OR VCHAN_C OR NONEOS_C,
    PRINT_C OR CHAN_C OR VCHAN_C OR NONEOS_C OR USER_C,
    PRINT_C OR CHAN_C OR VCHAN_C OR NONEOS_C,
    PRINT_C OR CHANPFX_C OR CHAN_C OR VCHAN_C OR NONEOS_C,
    PRINT_C OR CHAN_C OR VCHAN_C OR NONEOS_C,
    PRINT_C OR CHAN_C OR VCHAN_C OR NONEOS_C,
    PRINT_C OR CHAN_C OR VCHAN_C OR NONEOS_C,
    PRINT_C OR KWILD_C OR MWILD_C OR CHAN_C OR VCHAN_C OR NONEOS_C OR SERV_C,
    PRINT_C OR CHAN_C OR VCHAN_C OR NONEOS_C,
    PRINT_C OR NONEOS_C,
    PRINT_C OR NICK_C OR CHAN_C OR VCHAN_C OR NONEOS_C OR USER_C OR HOST_C,
    PRINT_C OR KWILD_C OR CHAN_C OR VCHAN_C OR NONEOS_C OR USER_C OR HOST_C OR SERV_C,
    PRINT_C OR CHAN_C OR VCHAN_C OR NONEOS_C,
    PRINT_C OR DIGIT_C OR NICK_C OR CHAN_C OR VCHAN_C OR NONEOS_C OR USER_C OR HOST_C,
    PRINT_C OR DIGIT_C OR NICK_C OR CHAN_C OR VCHAN_C OR NONEOS_C OR USER_C OR HOST_C,
    PRINT_C OR DIGIT_C OR NICK_C OR CHAN_C OR VCHAN_C OR NONEOS_C OR USER_C OR HOST_C,
    PRINT_C OR DIGIT_C OR NICK_C OR CHAN_C OR VCHAN_C OR NONEOS_C OR USER_C OR HOST_C,
    PRINT_C OR DIGIT_C OR NICK_C OR CHAN_C OR VCHAN_C OR NONEOS_C OR USER_C OR HOST_C,
    PRINT_C OR DIGIT_C OR NICK_C OR CHAN_C OR VCHAN_C OR NONEOS_C OR USER_C OR HOST_C,
    PRINT_C OR DIGIT_C OR NICK_C OR CHAN_C OR VCHAN_C OR NONEOS_C OR USER_C OR HOST_C,
    PRINT_C OR DIGIT_C OR NICK_C OR CHAN_C OR VCHAN_C OR NONEOS_C OR USER_C OR HOST_C,
    PRINT_C OR DIGIT_C OR NICK_C OR CHAN_C OR VCHAN_C OR NONEOS_C OR USER_C OR HOST_C,
    PRINT_C OR DIGIT_C OR NICK_C OR CHAN_C OR VCHAN_C OR NONEOS_C OR USER_C OR HOST_C,
    PRINT_C OR KWILD_C OR CHAN_C OR VCHAN_C OR NONEOS_C OR HOST_C,
    PRINT_C OR CHAN_C OR VCHAN_C OR NONEOS_C,
    PRINT_C OR CHAN_C OR VCHAN_C OR NONEOS_C,
    PRINT_C OR CHAN_C OR VCHAN_C OR NONEOS_C,
    PRINT_C OR CHAN_C OR VCHAN_C OR NONEOS_C,
    PRINT_C OR KWILD_C OR MWILD_C OR CHAN_C OR VCHAN_C OR NONEOS_C,
    PRINT_C OR KWILD_C OR CHAN_C OR VCHAN_C OR NONEOS_C,
    PRINT_C OR ALPHA_C OR NICK_C OR CHAN_C OR VCHAN_C OR NONEOS_C OR USER_C OR HOST_C,
    PRINT_C OR ALPHA_C OR NICK_C OR CHAN_C OR VCHAN_C OR NONEOS_C OR USER_C OR HOST_C,
    PRINT_C OR ALPHA_C OR NICK_C OR CHAN_C OR VCHAN_C OR NONEOS_C OR USER_C OR HOST_C,
    PRINT_C OR ALPHA_C OR NICK_C OR CHAN_C OR VCHAN_C OR NONEOS_C OR USER_C OR HOST_C,
    PRINT_C OR ALPHA_C OR NICK_C OR CHAN_C OR VCHAN_C OR NONEOS_C OR USER_C OR HOST_C,
    PRINT_C OR ALPHA_C OR NICK_C OR CHAN_C OR VCHAN_C OR NONEOS_C OR USER_C OR HOST_C,
    PRINT_C OR ALPHA_C OR NICK_C OR CHAN_C OR VCHAN_C OR NONEOS_C OR USER_C OR HOST_C,
    PRINT_C OR ALPHA_C OR NICK_C OR CHAN_C OR VCHAN_C OR NONEOS_C OR USER_C OR HOST_C,
    PRINT_C OR ALPHA_C OR NICK_C OR CHAN_C OR VCHAN_C OR NONEOS_C OR USER_C OR HOST_C,
    PRINT_C OR ALPHA_C OR NICK_C OR CHAN_C OR VCHAN_C OR NONEOS_C OR USER_C OR HOST_C,
    PRINT_C OR ALPHA_C OR NICK_C OR CHAN_C OR VCHAN_C OR NONEOS_C OR USER_C OR HOST_C,
    PRINT_C OR ALPHA_C OR NICK_C OR CHAN_C OR VCHAN_C OR NONEOS_C OR USER_C OR HOST_C,
    PRINT_C OR ALPHA_C OR NICK_C OR CHAN_C OR VCHAN_C OR NONEOS_C OR USER_C OR HOST_C,
    PRINT_C OR ALPHA_C OR NICK_C OR CHAN_C OR VCHAN_C OR NONEOS_C OR USER_C OR HOST_C,
    PRINT_C OR ALPHA_C OR NICK_C OR CHAN_C OR VCHAN_C OR NONEOS_C OR USER_C OR HOST_C,
    PRINT_C OR ALPHA_C OR NICK_C OR CHAN_C OR VCHAN_C OR NONEOS_C OR USER_C OR HOST_C,
    PRINT_C OR ALPHA_C OR NICK_C OR CHAN_C OR VCHAN_C OR NONEOS_C OR USER_C OR HOST_C,
    PRINT_C OR ALPHA_C OR NICK_C OR CHAN_C OR VCHAN_C OR NONEOS_C OR USER_C OR HOST_C,
    PRINT_C OR ALPHA_C OR NICK_C OR CHAN_C OR VCHAN_C OR NONEOS_C OR USER_C OR HOST_C,
    PRINT_C OR ALPHA_C OR NICK_C OR CHAN_C OR VCHAN_C OR NONEOS_C OR USER_C OR HOST_C,
    PRINT_C OR ALPHA_C OR NICK_C OR CHAN_C OR VCHAN_C OR NONEOS_C OR USER_C OR HOST_C,
    PRINT_C OR ALPHA_C OR NICK_C OR CHAN_C OR VCHAN_C OR NONEOS_C OR USER_C OR HOST_C,
    PRINT_C OR ALPHA_C OR NICK_C OR CHAN_C OR VCHAN_C OR NONEOS_C OR USER_C OR HOST_C,
    PRINT_C OR ALPHA_C OR NICK_C OR CHAN_C OR VCHAN_C OR NONEOS_C OR USER_C OR HOST_C,
    PRINT_C OR ALPHA_C OR NICK_C OR CHAN_C OR VCHAN_C OR NONEOS_C OR USER_C OR HOST_C,
    PRINT_C OR ALPHA_C OR NICK_C OR CHAN_C OR VCHAN_C OR NONEOS_C OR USER_C OR HOST_C,
    PRINT_C OR ALPHA_C OR NICK_C OR CHAN_C OR VCHAN_C OR NONEOS_C OR USER_C,
    PRINT_C OR ALPHA_C OR NICK_C OR CHAN_C OR VCHAN_C OR NONEOS_C OR USER_C,
    PRINT_C OR ALPHA_C OR NICK_C OR CHAN_C OR VCHAN_C OR NONEOS_C OR USER_C,
    PRINT_C OR ALPHA_C OR NICK_C OR CHAN_C OR VCHAN_C OR NONEOS_C OR USER_C,
    PRINT_C OR NICK_C OR CHAN_C OR VCHAN_C OR NONEOS_C OR USER_C,
    PRINT_C OR NICK_C OR CHAN_C OR VCHAN_C OR NONEOS_C OR USER_C,
    PRINT_C OR ALPHA_C OR NICK_C OR CHAN_C OR VCHAN_C OR NONEOS_C OR USER_C OR HOST_C,
    PRINT_C OR ALPHA_C OR NICK_C OR CHAN_C OR VCHAN_C OR NONEOS_C OR USER_C OR HOST_C,
    PRINT_C OR ALPHA_C OR NICK_C OR CHAN_C OR VCHAN_C OR NONEOS_C OR USER_C OR HOST_C,
    PRINT_C OR ALPHA_C OR NICK_C OR CHAN_C OR VCHAN_C OR NONEOS_C OR USER_C OR HOST_C,
    PRINT_C OR ALPHA_C OR NICK_C OR CHAN_C OR VCHAN_C OR NONEOS_C OR USER_C OR HOST_C,
    PRINT_C OR ALPHA_C OR NICK_C OR CHAN_C OR VCHAN_C OR NONEOS_C OR USER_C OR HOST_C,
    PRINT_C OR ALPHA_C OR NICK_C OR CHAN_C OR VCHAN_C OR NONEOS_C OR USER_C OR HOST_C,
    PRINT_C OR ALPHA_C OR NICK_C OR CHAN_C OR VCHAN_C OR NONEOS_C OR USER_C OR HOST_C,
    PRINT_C OR ALPHA_C OR NICK_C OR CHAN_C OR VCHAN_C OR NONEOS_C OR USER_C OR HOST_C,
    PRINT_C OR ALPHA_C OR NICK_C OR CHAN_C OR VCHAN_C OR NONEOS_C OR USER_C OR HOST_C,
    PRINT_C OR ALPHA_C OR NICK_C OR CHAN_C OR VCHAN_C OR NONEOS_C OR USER_C OR HOST_C,
    PRINT_C OR ALPHA_C OR NICK_C OR CHAN_C OR VCHAN_C OR NONEOS_C OR USER_C OR HOST_C,
    PRINT_C OR ALPHA_C OR NICK_C OR CHAN_C OR VCHAN_C OR NONEOS_C OR USER_C OR HOST_C,
    PRINT_C OR ALPHA_C OR NICK_C OR CHAN_C OR VCHAN_C OR NONEOS_C OR USER_C OR HOST_C,
    PRINT_C OR ALPHA_C OR NICK_C OR CHAN_C OR VCHAN_C OR NONEOS_C OR USER_C OR HOST_C,
    PRINT_C OR ALPHA_C OR NICK_C OR CHAN_C OR VCHAN_C OR NONEOS_C OR USER_C OR HOST_C,
    PRINT_C OR ALPHA_C OR NICK_C OR CHAN_C OR VCHAN_C OR NONEOS_C OR USER_C OR HOST_C,
    PRINT_C OR ALPHA_C OR NICK_C OR CHAN_C OR VCHAN_C OR NONEOS_C OR USER_C OR HOST_C,
    PRINT_C OR ALPHA_C OR NICK_C OR CHAN_C OR VCHAN_C OR NONEOS_C OR USER_C OR HOST_C,
    PRINT_C OR ALPHA_C OR NICK_C OR CHAN_C OR VCHAN_C OR NONEOS_C OR USER_C OR HOST_C,
    PRINT_C OR ALPHA_C OR NICK_C OR CHAN_C OR VCHAN_C OR NONEOS_C OR USER_C OR HOST_C,
    PRINT_C OR ALPHA_C OR NICK_C OR CHAN_C OR VCHAN_C OR NONEOS_C OR USER_C OR HOST_C,
    PRINT_C OR ALPHA_C OR NICK_C OR CHAN_C OR VCHAN_C OR NONEOS_C OR USER_C OR HOST_C,
    PRINT_C OR ALPHA_C OR NICK_C OR CHAN_C OR VCHAN_C OR NONEOS_C OR USER_C OR HOST_C,
    PRINT_C OR ALPHA_C OR NICK_C OR CHAN_C OR VCHAN_C OR NONEOS_C OR USER_C OR HOST_C,
    PRINT_C OR ALPHA_C OR NICK_C OR CHAN_C OR VCHAN_C OR NONEOS_C OR USER_C OR HOST_C,
    PRINT_C OR ALPHA_C OR NICK_C OR CHAN_C OR VCHAN_C OR NONEOS_C OR USER_C,
    PRINT_C OR ALPHA_C OR NICK_C OR CHAN_C OR VCHAN_C OR NONEOS_C OR USER_C,
    PRINT_C OR ALPHA_C OR NICK_C OR CHAN_C OR VCHAN_C OR NONEOS_C OR USER_C,
    PRINT_C OR ALPHA_C OR CHAN_C OR VCHAN_C OR NONEOS_C OR USER_C,
    CHAN_C OR VCHAN_C OR NONEOS_C]"

definition CharAttrs_high :: "nat list" where
  "CharAttrs_high = [
    CHAN_C OR VCHAN_C OR NONEOS_C,
    CHAN_C OR VCHAN_C OR NONEOS_C,
    CHAN_C OR VCHAN_C OR NONEOS_C,
    CHAN_C OR VCHAN_C OR NONEOS_C,
    CHAN_C OR VCHAN_C OR NONEOS_C,
    CHAN_C OR VCHAN_C OR NONEOS_C,
    CHAN_C OR VCHAN_C OR NONEOS_C,
    CHAN_C OR VCHAN_C OR NONEOS_C,
    CHAN_C OR VCHAN_C OR NONEOS_C,
    CHAN_C OR VCHAN_C OR NONEOS_C,
    CHAN_C OR VCHAN_C OR NONEOS_C,
    CHAN_C OR VCHAN_C OR NONEOS_C,
    CHAN_C OR VCHAN_C OR NONEOS_C,
    CHAN_C OR VCHAN_C OR NONEOS_C,
    CHAN_C OR VCHAN_C OR NONEOS_C,
    CHAN_C OR VCHAN_C OR NONEOS_C,
    CHAN_C OR VCHAN_C OR NONEOS_C,
    CHAN_C OR VCHAN_C OR NONEOS_C,
    CHAN_C OR VCHAN_C OR NONEOS_C,
    CHAN_C OR VCHAN_C OR NONEOS_C,
    CHAN_C OR VCHAN_C OR NONEOS_C,
    CHAN_C OR VCHAN_C OR NONEOS_C,
    CHAN_C OR VCHAN_C OR NONEOS_C,
    CHAN_C OR VCHAN_C OR NONEOS_C,
    CHAN_C OR VCHAN_C OR NONEOS_C,
    CHAN_C OR VCHAN_C OR NONEOS_C,
    CHAN_C OR VCHAN_C OR NONEOS_C,
    CHAN_C OR VCHAN_C OR NONEOS_C,
    CHAN_C OR VCHAN_C OR NONEOS_C,
    CHAN_C OR VCHAN_C OR NONEOS_C,
    CHAN_C OR VCHAN_C OR NONEOS_C,
    CHAN_C OR VCHAN_C OR NONEOS_C,
    CHAN_C OR NONEOS_C,
    CHAN_C OR VCHAN_C OR NONEOS_C,
    CHAN_C OR VCHAN_C OR NONEOS_C,
    CHAN_C OR VCHAN_C OR NONEOS_C,
    CHAN_C OR VCHAN_C OR NONEOS_C,
    CHAN_C OR VCHAN_C OR NONEOS_C,
    CHAN_C OR VCHAN_C OR NONEOS_C,
    CHAN_C OR VCHAN_C OR NONEOS_C,
    CHAN_C OR VCHAN_C OR NONEOS_C,
    CHAN_C OR VCHAN_C OR NONEOS_C,
    CHAN_C OR VCHAN_C OR NONEOS_C,
    CHAN_C OR VCHAN_C OR NONEOS_C,
    CHAN_C OR VCHAN_C OR NONEOS_C,
    CHAN_C OR VCHAN_C OR NONEOS_C,
    CHAN_C OR VCHAN_C OR NONEOS_C,
    CHAN_C OR VCHAN_C OR NONEOS_C,
    CHAN_C OR VCHAN_C OR NONEOS_C,
    CHAN_C OR VCHAN_C OR NONEOS_C,
    CHAN_C OR VCHAN_C OR NONEOS_C,
    CHAN_C OR VCHAN_C OR NONEOS_C,
    CHAN_C OR VCHAN_C OR NONEOS_C,
    CHAN_C OR VCHAN_C OR NONEOS_C,
    CHAN_C OR VCHAN_C OR NONEOS_C,
    CHAN_C OR VCHAN_C OR NONEOS_C,
    CHAN_C OR VCHAN_C OR NONEOS_C,
    CHAN_C OR VCHAN_C OR NONEOS_C,
    CHAN_C OR VCHAN_C OR NONEOS_C,
    CHAN_C OR VCHAN_C OR NONEOS_C,
    CHAN_C OR VCHAN_C OR NONEOS_C,
    CHAN_C OR VCHAN_C OR NONEOS_C,
    CHAN_C OR VCHAN_C OR NONEOS_C,
    CHAN_C OR VCHAN_C OR NONEOS_C,
    CHAN_C OR VCHAN_C OR NONEOS_C,
    CHAN_C OR VCHAN_C OR NONEOS_C,
    CHAN_C OR VCHAN_C OR NONEOS_C,
    CHAN_C OR VCHAN_C OR NONEOS_C,
    CHAN_C OR VCHAN_C OR NONEOS_C,
    CHAN_C OR VCHAN_C OR NONEOS_C,
    CHAN_C OR VCHAN_C OR NONEOS_C,
    CHAN_C OR VCHAN_C OR NONEOS_C,
    CHAN_C OR VCHAN_C OR NONEOS_C,
    CHAN_C OR VCHAN_C OR NONEOS_C,
    CHAN_C OR VCHAN_C OR NONEOS_C,
    CHAN_C OR VCHAN_C OR NONEOS_C,
    CHAN_C OR VCHAN_C OR NONEOS_C,
    CHAN_C OR VCHAN_C OR NONEOS_C,
    CHAN_C OR VCHAN_C OR NONEOS_C,
    CHAN_C OR VCHAN_C OR NONEOS_C,
    CHAN_C OR VCHAN_C OR NONEOS_C,
    CHAN_C OR VCHAN_C OR NONEOS_C,
    CHAN_C OR VCHAN_C OR NONEOS_C,
    CHAN_C OR VCHAN_C OR NONEOS_C,
    CHAN_C OR VCHAN_C OR NONEOS_C,
    CHAN_C OR VCHAN_C OR NONEOS_C,
    CHAN_C OR VCHAN_C OR NONEOS_C,
    CHAN_C OR VCHAN_C OR NONEOS_C,
    CHAN_C OR VCHAN_C OR NONEOS_C,
    CHAN_C OR VCHAN_C OR NONEOS_C,
    CHAN_C OR VCHAN_C OR NONEOS_C,
    CHAN_C OR VCHAN_C OR NONEOS_C,
    CHAN_C OR VCHAN_C OR NONEOS_C,
    CHAN_C OR VCHAN_C OR NONEOS_C,
    CHAN_C OR VCHAN_C OR NONEOS_C,
    CHAN_C OR VCHAN_C OR NONEOS_C,
    CHAN_C OR VCHAN_C OR NONEOS_C,
    CHAN_C OR VCHAN_C OR NONEOS_C,
    CHAN_C OR VCHAN_C OR NONEOS_C,
    CHAN_C OR VCHAN_C OR NONEOS_C,
    CHAN_C OR VCHAN_C OR NONEOS_C,
    CHAN_C OR VCHAN_C OR NONEOS_C,
    CHAN_C OR VCHAN_C OR NONEOS_C,
    CHAN_C OR VCHAN_C OR NONEOS_C,
    CHAN_C OR VCHAN_C OR NONEOS_C,
    CHAN_C OR VCHAN_C OR NONEOS_C,
    CHAN_C OR VCHAN_C OR NONEOS_C,
    CHAN_C OR VCHAN_C OR NONEOS_C,
    CHAN_C OR VCHAN_C OR NONEOS_C,
    CHAN_C OR VCHAN_C OR NONEOS_C,
    CHAN_C OR VCHAN_C OR NONEOS_C,
    CHAN_C OR VCHAN_C OR NONEOS_C,
    CHAN_C OR VCHAN_C OR NONEOS_C,
    CHAN_C OR VCHAN_C OR NONEOS_C,
    CHAN_C OR VCHAN_C OR NONEOS_C,
    CHAN_C OR VCHAN_C OR NONEOS_C,
    CHAN_C OR VCHAN_C OR NONEOS_C,
    CHAN_C OR VCHAN_C OR NONEOS_C,
    CHAN_C OR VCHAN_C OR NONEOS_C,
    CHAN_C OR VCHAN_C OR NONEOS_C,
    CHAN_C OR VCHAN_C OR NONEOS_C,
    CHAN_C OR VCHAN_C OR NONEOS_C,
    CHAN_C OR VCHAN_C OR NONEOS_C,
    CHAN_C OR VCHAN_C OR NONEOS_C,
    CHAN_C OR VCHAN_C OR NONEOS_C,
    CHAN_C OR VCHAN_C OR NONEOS_C,
    CHAN_C OR VCHAN_C OR NONEOS_C,
    CHAN_C OR VCHAN_C OR NONEOS_C]"

definition CharAttrs :: "nat list" where
  "CharAttrs = CharAttrs_low @ CharAttrs_high"

definition ToLower :: "char \<Rightarrow> char" where
  "ToLower c = char_of (ToLowerTab ! of_char c)"

definition ToUpper :: "char \<Rightarrow> char" where
  "ToUpper c = char_of (ToUpperTab ! of_char c)"

definition attr :: "char \<Rightarrow> nat" where
  "attr c = CharAttrs ! of_char c"

definition IsVisibleChanChar :: "char \<Rightarrow> bool" where
  "IsVisibleChanChar c \<longleftrightarrow> attr c AND VCHAN_C \<noteq> 0"

definition IsHostChar :: "char \<Rightarrow> bool" where
  "IsHostChar c \<longleftrightarrow> attr c AND HOST_C \<noteq> 0"

definition IsUserChar :: "char \<Rightarrow> bool" where
  "IsUserChar c \<longleftrightarrow> attr c AND USER_C \<noteq> 0"

definition IsChanPrefix :: "char \<Rightarrow> bool" where
  "IsChanPrefix c \<longleftrightarrow> attr c AND CHANPFX_C \<noteq> 0"

definition IsChanChar :: "char \<Rightarrow> bool" where
  "IsChanChar c \<longleftrightarrow> attr c AND CHAN_C \<noteq> 0"

definition IsKWildChar :: "char \<Rightarrow> bool" where
  "IsKWildChar c \<longleftrightarrow> attr c AND KWILD_C \<noteq> 0"

definition IsMWildChar :: "char \<Rightarrow> bool" where
  "IsMWildChar c \<longleftrightarrow> attr c AND MWILD_C \<noteq> 0"

definition IsNickChar :: "char \<Rightarrow> bool" where
  "IsNickChar c \<longleftrightarrow> attr c AND NICK_C \<noteq> 0"

definition IsServChar :: "char \<Rightarrow> bool" where
  "IsServChar c \<longleftrightarrow> attr c AND (NICK_C OR SERV_C) \<noteq> 0"

definition IsCntrl :: "char \<Rightarrow> bool" where
  "IsCntrl c \<longleftrightarrow> attr c AND CNTRL_C \<noteq> 0"

definition IsAlpha :: "char \<Rightarrow> bool" where
  "IsAlpha c \<longleftrightarrow> attr c AND ALPHA_C \<noteq> 0"

definition IsSpace :: "char \<Rightarrow> bool" where
  "IsSpace c \<longleftrightarrow> attr c AND SPACE_C \<noteq> 0"

definition IsLower :: "char \<Rightarrow> bool" where
  "IsLower c \<longleftrightarrow> IsAlpha c \<and> (of_char c :: nat) > 0x5f"

definition IsUpper :: "char \<Rightarrow> bool" where
  "IsUpper c \<longleftrightarrow> IsAlpha c \<and> (of_char c :: nat) < 0x60"

definition IsDigit :: "char \<Rightarrow> bool" where
  "IsDigit c \<longleftrightarrow> attr c AND DIGIT_C \<noteq> 0"

definition IsXDigit :: "char \<Rightarrow> bool" where
  "IsXDigit c \<longleftrightarrow> IsDigit c \<or> (CHR ''a'' \<le> c \<and> c \<le> CHR ''f'') \<or> (CHR ''A'' \<le> c \<and> c \<le> CHR ''F'')"

definition IsAlNum :: "char \<Rightarrow> bool" where
  "IsAlNum c \<longleftrightarrow> attr c AND (DIGIT_C OR ALPHA_C) \<noteq> 0"

definition IsPrint :: "char \<Rightarrow> bool" where
  "IsPrint c \<longleftrightarrow> attr c AND PRINT_C \<noteq> 0"

definition IsAscii :: "char \<Rightarrow> bool" where
  "IsAscii c \<longleftrightarrow> (of_char c :: nat) < 0x80"

definition IsGraph :: "char \<Rightarrow> bool" where
  "IsGraph c \<longleftrightarrow> IsPrint c \<and> (of_char c :: nat) \<noteq> 0x32"

definition IsPunct :: "char \<Rightarrow> bool" where
  "IsPunct c \<longleftrightarrow> attr c AND (CNTRL_C OR ALPHA_C OR DIGIT_C) = 0"

definition IsNonEOS :: "char \<Rightarrow> bool" where
  "IsNonEOS c \<longleftrightarrow> attr c AND NONEOS_C \<noteq> 0"

definition IsEol :: "char \<Rightarrow> bool" where
  "IsEol c \<longleftrightarrow> attr c AND EOL_C \<noteq> 0"

subsection \<open>What the tables say\<close>

text \<open>
  The facts below are checked over the 256 entries of the tables.  First the attribute table with
  its flags added up.
\<close>

lemma CharAttrs_eval [code]: "CharAttrs = [
    2, 69762, 4226, 4226, 69762, 69762, 69762, 4098, 69762, 69794, 86178, 69794, 69794, 86178, 69762, 4226,
    69762, 69762, 69762, 69762, 69762, 69762, 4226, 69762, 69762, 69762, 69762, 69762, 69762, 69762, 69762, 4226,
    33, 70017, 69761, 103297, 70785, 69761, 70273, 69761, 69761, 69761, 110977, 69761, 4097, 72897, 81281, 69761,
    72913, 72913, 72913, 72913, 72913, 72913, 72913, 72913, 72913, 72913, 72065, 69761, 69761, 69761, 69761, 102785,
    70017, 72901, 72901, 72901, 72901, 72901, 72901, 72901, 72901, 72901, 72901, 72901, 72901, 72901, 72901, 72901,
    72901, 72901, 72901, 72901, 72901, 72901, 72901, 72901, 72901, 72901, 72901, 70853, 70853, 70853, 70853, 70849,
    70849, 72901, 72901, 72901, 72901, 72901, 72901, 72901, 72901, 72901, 72901, 72901, 72901, 72901, 72901, 72901,
    72901, 72901, 72901, 72901, 72901, 72901, 72901, 72901, 72901, 72901, 72901, 70853, 70853, 70853, 70789, 69760,
    69760, 69760, 69760, 69760, 69760, 69760, 69760, 69760, 69760, 69760, 69760, 69760, 69760, 69760, 69760, 69760,
    69760, 69760, 69760, 69760, 69760, 69760, 69760, 69760, 69760, 69760, 69760, 69760, 69760, 69760, 69760, 69760,
    4224, 69760, 69760, 69760, 69760, 69760, 69760, 69760, 69760, 69760, 69760, 69760, 69760, 69760, 69760, 69760,
    69760, 69760, 69760, 69760, 69760, 69760, 69760, 69760, 69760, 69760, 69760, 69760, 69760, 69760, 69760, 69760,
    69760, 69760, 69760, 69760, 69760, 69760, 69760, 69760, 69760, 69760, 69760, 69760, 69760, 69760, 69760, 69760,
    69760, 69760, 69760, 69760, 69760, 69760, 69760, 69760, 69760, 69760, 69760, 69760, 69760, 69760, 69760, 69760,
    69760, 69760, 69760, 69760, 69760, 69760, 69760, 69760, 69760, 69760, 69760, 69760, 69760, 69760, 69760, 69760,
    69760, 69760, 69760, 69760, 69760, 69760, 69760, 69760, 69760, 69760, 69760, 69760, 69760, 69760, 69760, 69760]"
  unfolding CharAttrs_def CharAttrs_low_def CharAttrs_high_def attr_bits by simp

lemma CharAttrs_len: "length CharAttrs = 256"
  by (simp add: CharAttrs_eval)

lemma ToLowerTab_closed: "ToLowerTab = map (\<lambda>n. if 65 \<le> n \<and> n \<le> 94 then n + 32 else n) [0..<256]"
  by code_simp

lemma ToUpperTab_closed: "ToUpperTab = map (\<lambda>n. if 97 \<le> n \<and> n \<le> 126 then n - 32 else n) [0..<256]"
  by code_simp

lemma of_char_ToLower: "(of_char (ToLower c) :: nat) =
    (if 65 \<le> (of_char c :: nat) \<and> (of_char c :: nat) \<le> 94 then of_char c + 32 else of_char c)"
  using nat_of_char_less_256 [of c]
  by (simp add: ToLower_def ToLowerTab_closed nth_map_upt of_char_of)

lemma of_char_ToUpper: "(of_char (ToUpper c) :: nat) =
    (if 97 \<le> (of_char c :: nat) \<and> (of_char c :: nat) \<le> 126 then of_char c - 32 else of_char c)"
  using nat_of_char_less_256 [of c]
  by (auto simp add: ToUpper_def ToUpperTab_closed nth_map_upt of_char_of intro!: mod_less)

lemma char_eq_nat_iff: "c = d \<longleftrightarrow> (of_char c :: nat) = of_char d"
  by simp

lemma ToLower_ToUpper [simp]: "ToLower (ToUpper c) = ToLower c"
  by (subst char_eq_nat_iff) (auto simp only: of_char_ToLower of_char_ToUpper split: if_splits)

lemma ToUpper_ToLower [simp]: "ToUpper (ToLower c) = ToUpper c"
  by (subst char_eq_nat_iff) (auto simp: of_char_ToLower of_char_ToUpper simp del: of_char_eq_iff)

lemma ToLower_NUL_iff [simp, char_class]: "ToLower c = NUL \<longleftrightarrow> c = NUL"
  by (subst (1 2) char_eq_nat_iff) (auto simp: of_char_ToLower simp del: of_char_eq_iff)

lemma ToLower_NUL [simp]: "ToLower NUL = NUL"
  by simp

text \<open>Both folding tables identify the same characters.\<close>

lemma ToUpper_eq_iff: "ToUpper c = ToUpper d \<longleftrightarrow> ToLower c = ToLower d"
  by (metis ToLower_ToUpper ToUpper_ToLower)

lemma ToUpper_NUL_iff [simp, char_class]: "ToUpper c = NUL \<longleftrightarrow> c = NUL"
  by (metis ToLower_NUL_iff ToLower_ToUpper ToUpper_ToLower)

lemma ToUpper_NUL [simp]: "ToUpper NUL = NUL"
  by simp

lemma ToLower_idem [simp]: "ToLower (ToLower c) = ToLower c"
  by (metis ToLower_ToUpper ToUpper_ToLower)

text \<open>A class of the attribute table is a property of the character's code.\<close>

lemma attr_classI:
  assumes "map f CharAttrs = map g [0..<256]"
  shows "f (attr c) = g (of_char c)"
proof -
  have b: "(of_char c :: nat) < 256" using nat_of_char_less_256 [of c] by simp
  then have "f (attr c) = map f CharAttrs ! of_char c"
    by (simp add: attr_def CharAttrs_len)
  also have "\<dots> = g (of_char c)" using b by (simp add: assms nth_map_upt)
  finally show ?thesis .
qed

lemma IsDigit_iff [char_class]: "IsDigit c \<longleftrightarrow> 48 \<le> (of_char c :: nat) \<and> (of_char c :: nat) \<le> 57"
  unfolding IsDigit_def
  by (rule attr_classI [where f = "\<lambda>a. a AND DIGIT_C \<noteq> 0" and g = "\<lambda>n. 48 \<le> n \<and> n \<le> 57"])
      (simp add: CharAttrs_eval DIGIT_C_def, code_simp)

lemma IsMWildChar_iff [char_class]: "IsMWildChar c \<longleftrightarrow> c = CHR ''*'' \<or> c = CHR ''?'' \<or> c = CHR ''#''"
proof -
  have "IsMWildChar c \<longleftrightarrow> (of_char c :: nat) \<in> {42, 63, 35}"
    unfolding IsMWildChar_def
    by (rule attr_classI [where f = "\<lambda>a. a AND MWILD_C \<noteq> 0" and g = "\<lambda>n. n \<in> {42, 63, 35}"])
      (simp add: CharAttrs_eval MWILD_C_def, code_simp)
  then show ?thesis by (auto simp: char_eq_nat_iff simp del: of_char_eq_iff)
qed

lemma IsSpace_iff [char_class]: "IsSpace c \<longleftrightarrow> (of_char c :: nat) = 32 \<or> 9 \<le> (of_char c :: nat) \<and> (of_char c :: nat) \<le> 13"
  unfolding IsSpace_def
  by (rule attr_classI [where f = "\<lambda>a. a AND SPACE_C \<noteq> 0" and g = "\<lambda>n. n = 32 \<or> 9 \<le> n \<and> n \<le> 13"])
      (simp add: CharAttrs_eval SPACE_C_def, code_simp)

lemma IsPrint_iff [char_class]: "IsPrint c \<longleftrightarrow> 32 \<le> (of_char c :: nat) \<and> (of_char c :: nat) \<le> 126"
  unfolding IsPrint_def
  by (rule attr_classI [where f = "\<lambda>a. a AND PRINT_C \<noteq> 0" and g = "\<lambda>n. 32 \<le> n \<and> n \<le> 126"])
      (simp add: CharAttrs_eval PRINT_C_def, code_simp)

lemma IsChanPrefix_iff [char_class]: "IsChanPrefix c \<longleftrightarrow> c = CHR ''#'' \<or> c = CHR ''&''"
proof -
  have "IsChanPrefix c \<longleftrightarrow> (of_char c :: nat) \<in> {35, 38}"
    unfolding IsChanPrefix_def
    by (rule attr_classI [where f = "\<lambda>a. a AND CHANPFX_C \<noteq> 0" and g = "\<lambda>n. n \<in> {35, 38}"])
        (simp add: CharAttrs_eval CHANPFX_C_def, code_simp)
  then show ?thesis by (auto simp: char_eq_nat_iff simp del: of_char_eq_iff)
qed

lemma IsChanChar_iff [char_class]: "IsChanChar c \<longleftrightarrow> (of_char c :: nat) \<notin> {0, 7, 32, 44}"
  unfolding IsChanChar_def
  by (rule attr_classI [where f = "\<lambda>a. a AND CHAN_C \<noteq> 0" and g = "\<lambda>n. n \<notin> {0, 7, 32, 44}"])
      (simp add: CharAttrs_eval CHAN_C_def, code_simp)

lemma IsVisibleChanChar_iff [char_class]: "IsVisibleChanChar c \<longleftrightarrow>
    (of_char c :: nat) \<notin> {0, 2, 3, 7, 15, 22, 31, 32, 44, 160}"
  unfolding IsVisibleChanChar_def
  by (rule attr_classI [where f = "\<lambda>a. a AND VCHAN_C \<noteq> 0"
        and g = "\<lambda>n. n \<notin> {0, 2, 3, 7, 15, 22, 31, 32, 44, 160}"])
      (simp add: CharAttrs_eval VCHAN_C_def, code_simp)

lemma IsEol_iff [char_class]: "IsEol c \<longleftrightarrow> (of_char c :: nat) = 10 \<or> (of_char c :: nat) = 13"
  unfolding IsEol_def
  by (rule attr_classI [where f = "\<lambda>a. a AND EOL_C \<noteq> 0" and g = "\<lambda>n. n = 10 \<or> n = 13"])
      (simp add: CharAttrs_eval EOL_C_def, code_simp)

lemma IsAlpha_iff [char_class]: "IsAlpha c \<longleftrightarrow>
    65 \<le> (of_char c :: nat) \<and> (of_char c :: nat) \<le> 94 \<or> 97 \<le> (of_char c :: nat) \<and> (of_char c :: nat) \<le> 126"
  unfolding IsAlpha_def
  by (rule attr_classI [where f = "\<lambda>a. a AND ALPHA_C \<noteq> 0" and g = "\<lambda>n. 65 \<le> n \<and> n \<le> 94 \<or> 97 \<le> n \<and> n \<le> 126"])
      (simp add: CharAttrs_eval ALPHA_C_def, code_simp)

end
