(* ===== verification/Irc_String.thy ===== *)
theory Irc_String
  imports Char_Tables
begin

section \<open>String helpers (\<^verbatim>\<open>src/irc_string.c\<close>)\<close>

text \<open>
  \<open>clean_string\<close>, \<open>strip_tabs\<close>, \<open>strtoken\<close>, \<open>inetntoa\<close> and its table, \<open>basename\<close>, the address printers
  \<open>inet_ntop4\<close>, \<open>inet_ntop6\<close>, \<open>inetntop\<close>, and \<open>strlcat\<close>, \<open>strlcpy\<close>.  A destination buffer is a list of
  characters of the buffer's size; a write outside it, or a read past the terminator of the source,
  is \<open>None\<close>.  A \<open>size_t\<close> that the code lets wrap is a 64-bit word.
\<close>

subsection \<open>Buffers\<close>

definition put :: "char list \<Rightarrow> nat \<Rightarrow> char \<Rightarrow> char list option" where
  "put buf i c = (if i < length buf then Some (buf[i := c]) else None)"

text \<open>The C string a buffer holds.\<close>

definition contents :: "char list \<Rightarrow> string" where
  "contents buf = takeWhile (\<lambda>c. c \<noteq> NUL) buf"

subsection \<open>Copying\<close>

fun strlcpy_copy :: "char list \<Rightarrow> string \<Rightarrow> nat \<Rightarrow> nat \<Rightarrow> (char list \<times> nat \<times> nat) option" where
  "strlcpy_copy buf src i 0 = Some (buf, i, 0)"
| "strlcpy_copy buf src i (Suc n) =
    (if length src < i then None else
     case put buf i (rd src i) of
       None \<Rightarrow> None
     | Some buf' \<Rightarrow> (if rd src i = NUL then Some (buf', Suc i, Suc n) else strlcpy_copy buf' src (Suc i) n))"

text \<open>
  \<open>d\<close> and \<open>s\<close> move together, so one index serves both.  The result is the buffer and the returned
  length; \<open>n\<close> is what is left of the size when the copy loop stops.
\<close>

definition strlcpy :: "char list \<Rightarrow> string \<Rightarrow> nat \<Rightarrow> (char list \<times> nat) option" where
  "strlcpy buf src siz =
    (case strlcpy_copy buf src 0 (siz - 1) of
       None \<Rightarrow> None
     | Some (buf', i, n) \<Rightarrow>
         (if n = 0 then
            (if siz \<noteq> 0 then
               (case put buf' i NUL of None \<Rightarrow> None | Some buf'' \<Rightarrow> Some (buf'', i + length (drop i src)))
             else Some (buf', i + length (drop i src)))
          else Some (buf', i - 1)))"

fun strlcat_end :: "char list \<Rightarrow> nat \<Rightarrow> nat \<Rightarrow> nat option" where
  "strlcat_end buf d 0 = Some d"
| "strlcat_end buf d (Suc n) =
    (if length buf \<le> d then None else if buf ! d \<noteq> NUL then strlcat_end buf (Suc d) n else Some d)"

fun strlcat_copy :: "char list \<Rightarrow> string \<Rightarrow> nat \<Rightarrow> nat \<Rightarrow> (char list \<times> nat) option" where
  "strlcat_copy buf [] d n = Some (buf, d)"
| "strlcat_copy buf (c # s) d n =
    (if n \<noteq> 1 then (case put buf d c of None \<Rightarrow> None | Some buf' \<Rightarrow> strlcat_copy buf' s (Suc d) (n - 1))
     else strlcat_copy buf s d n)"

definition strlcat :: "char list \<Rightarrow> string \<Rightarrow> nat \<Rightarrow> (char list \<times> nat) option" where
  "strlcat buf src siz =
    (case strlcat_end buf 0 siz of
       None \<Rightarrow> None
     | Some dlen \<Rightarrow>
         (if siz - dlen = 0 then Some (buf, dlen + length src)
          else case strlcat_copy buf src dlen (siz - dlen) of
            None \<Rightarrow> None
          | Some (buf', d) \<Rightarrow>
              (case put buf' d NUL of None \<Rightarrow> None | Some buf'' \<Rightarrow> Some (buf'', dlen + length src))))"

subsection \<open>Cleaning\<close>

fun clean_loop :: "char list \<Rightarrow> nat \<Rightarrow> string \<Rightarrow> 64 word \<Rightarrow> char list option" where
  "clean_loop buf d [] len = put buf d NUL"
| "clean_loop buf d (c # src) len =
    (if \<not> len > 0 then put buf d NUL
     else if 0x80 \<le> (of_char c :: nat) then
       (case put buf d CHR ''.'' of None \<Rightarrow> None
        | Some buf1 \<Rightarrow> clean_loop buf1 (Suc d) src (len - 1 - 1))
     else if \<not> IsPrint c then
       (case put buf d (CHR 0x5E) of None \<Rightarrow> None
        | Some buf1 \<Rightarrow> (case put buf1 (Suc d) (char_of (0x40 + of_char c :: nat)) of None \<Rightarrow> None
          | Some buf2 \<Rightarrow> clean_loop buf2 (Suc (Suc d)) src (len - 1 - 1)))
     else
       (case put buf d c of None \<Rightarrow> None
        | Some buf1 \<Rightarrow> clean_loop buf1 (Suc d) src (len - 1)))"

definition clean_string :: "char list \<Rightarrow> string \<Rightarrow> 64 word \<Rightarrow> char list option" where
  "clean_string dest src len = clean_loop dest 0 src (len - 3)"

fun strip_tabs_loop :: "char list \<Rightarrow> nat \<Rightarrow> string \<Rightarrow> 64 word \<Rightarrow> char list option" where
  "strip_tabs_loop buf d [] len = put buf d NUL"
| "strip_tabs_loop buf d (c # src) len =
    (if len - 1 = 0 then put buf d NUL
     else case put buf d (if c = CHR 0x09 then CHR '' '' else c) of None \<Rightarrow> None
       | Some buf' \<Rightarrow> strip_tabs_loop buf' (Suc d) src (len - 1))"

definition strip_tabs :: "char list \<Rightarrow> string \<Rightarrow> 64 word \<Rightarrow> char list option" where
  "strip_tabs dest src len = strip_tabs_loop dest 0 src len"

subsection \<open>Tokens\<close>

text \<open>
  A pointer into the scanned string is the rest of the string from there.  The result is the token
  (the code puts a NUL after it) and the saved position; \<open>None\<close> is the null pointer.
\<close>

definition strtoken :: "string option \<Rightarrow> string option \<Rightarrow> string \<Rightarrow> string option \<times> string option" where
  "strtoken save str fs =
    (case (case str of Some s \<Rightarrow> Some s | None \<Rightarrow> save) of
       None \<Rightarrow> (None, None)
     | Some pos0 \<Rightarrow>
         (let pos = dropWhile (\<lambda>c. c \<in> set fs) pos0 in
          if pos = [] then (None, None)
          else (let tmp = takeWhile (\<lambda>c. c \<notin> set fs) pos;
                    pos' = dropWhile (\<lambda>c. c \<notin> set fs) pos
                in (Some tmp, if pos' \<noteq> [] then Some (tl pos') else None))))"

definition strrchr_slash :: "string \<Rightarrow> string option" where
  "strrchr_slash path = (if CHR ''/'' \<in> set path
     then Some (CHR ''/'' # rev (takeWhile (\<lambda>c. c \<noteq> CHR ''/'') (rev path))) else None)"

definition basename :: "string \<Rightarrow> string" where
  "basename path = (case strrchr_slash path of None \<Rightarrow> path | Some s \<Rightarrow> drop 1 s)"

subsection \<open>Addresses as text\<close>

definition IpQuadTab :: "string list" where
  "IpQuadTab = [
    ''0'', ''1'', ''2'', ''3'', ''4'', ''5'', ''6'', ''7'', ''8'', ''9'',
    ''10'', ''11'', ''12'', ''13'', ''14'', ''15'', ''16'', ''17'', ''18'', ''19'',
    ''20'', ''21'', ''22'', ''23'', ''24'', ''25'', ''26'', ''27'', ''28'', ''29'',
    ''30'', ''31'', ''32'', ''33'', ''34'', ''35'', ''36'', ''37'', ''38'', ''39'',
    ''40'', ''41'', ''42'', ''43'', ''44'', ''45'', ''46'', ''47'', ''48'', ''49'',
    ''50'', ''51'', ''52'', ''53'', ''54'', ''55'', ''56'', ''57'', ''58'', ''59'',
    ''60'', ''61'', ''62'', ''63'', ''64'', ''65'', ''66'', ''67'', ''68'', ''69'',
    ''70'', ''71'', ''72'', ''73'', ''74'', ''75'', ''76'', ''77'', ''78'', ''79'',
    ''80'', ''81'', ''82'', ''83'', ''84'', ''85'', ''86'', ''87'', ''88'', ''89'',
    ''90'', ''91'', ''92'', ''93'', ''94'', ''95'', ''96'', ''97'', ''98'', ''99'',
    ''100'', ''101'', ''102'', ''103'', ''104'', ''105'', ''106'', ''107'', ''108'', ''109'',
    ''110'', ''111'', ''112'', ''113'', ''114'', ''115'', ''116'', ''117'', ''118'', ''119'',
    ''120'', ''121'', ''122'', ''123'', ''124'', ''125'', ''126'', ''127'', ''128'', ''129'',
    ''130'', ''131'', ''132'', ''133'', ''134'', ''135'', ''136'', ''137'', ''138'', ''139'',
    ''140'', ''141'', ''142'', ''143'', ''144'', ''145'', ''146'', ''147'', ''148'', ''149'',
    ''150'', ''151'', ''152'', ''153'', ''154'', ''155'', ''156'', ''157'', ''158'', ''159'',
    ''160'', ''161'', ''162'', ''163'', ''164'', ''165'', ''166'', ''167'', ''168'', ''169'',
    ''170'', ''171'', ''172'', ''173'', ''174'', ''175'', ''176'', ''177'', ''178'', ''179'',
    ''180'', ''181'', ''182'', ''183'', ''184'', ''185'', ''186'', ''187'', ''188'', ''189'',
    ''190'', ''191'', ''192'', ''193'', ''194'', ''195'', ''196'', ''197'', ''198'', ''199'',
    ''200'', ''201'', ''202'', ''203'', ''204'', ''205'', ''206'', ''207'', ''208'', ''209'',
    ''210'', ''211'', ''212'', ''213'', ''214'', ''215'', ''216'', ''217'', ''218'', ''219'',
    ''220'', ''221'', ''222'', ''223'', ''224'', ''225'', ''226'', ''227'', ''228'', ''229'',
    ''230'', ''231'', ''232'', ''233'', ''234'', ''235'', ''236'', ''237'', ''238'', ''239'',
    ''240'', ''241'', ''242'', ''243'', ''244'', ''245'', ''246'', ''247'', ''248'', ''249'',
    ''250'', ''251'', ''252'', ''253'', ''254'', ''255'']"

definition inetntoa :: "8 word list \<Rightarrow> string" where
  "inetntoa a =
    IpQuadTab ! unat (a ! 0) @ ''.'' @ IpQuadTab ! unat (a ! 1) @ ''.'' @
    IpQuadTab ! unat (a ! 2) @ ''.'' @ IpQuadTab ! unat (a ! 3)"

definition inet_ntop4 :: "8 word list \<Rightarrow> nat \<Rightarrow> string option" where
  "inet_ntop4 src siz = (if siz < 16 then None else Some (inetntoa src))"

definition hex_digit :: "nat \<Rightarrow> char" where
  "hex_digit n = (if n < 10 then char_of (48 + n) else char_of (87 + n))"

text \<open>The conversion \<^verbatim>\<open>%x\<close>.\<close>

fun hex :: "nat \<Rightarrow> string" where
  "hex n = (if n < 16 then [hex_digit n] else hex (n div 16) @ [hex_digit (n mod 16)])"

declare hex.simps [simp del]

type_synonym run = "(nat \<times> nat) option" \<comment> \<open>\<open>base\<close> and \<open>len\<close>; \<open>base == -1\<close> is \<open>None\<close>\<close>

definition better_run :: "run \<Rightarrow> run \<Rightarrow> run" where
  "better_run best cur =
    (case cur of None \<Rightarrow> best
     | Some (b, l) \<Rightarrow> (case best of None \<Rightarrow> cur | Some (b', l') \<Rightarrow> if l > l' then cur else best))"

fun zero_runs :: "nat list \<Rightarrow> nat \<Rightarrow> run \<Rightarrow> run \<Rightarrow> run" where
  "zero_runs [] i best cur = better_run best cur"
| "zero_runs (w # ws) i best cur =
    (if w = 0 then
       zero_runs ws (Suc i) best (case cur of None \<Rightarrow> Some (i, 1) | Some (b, l) \<Rightarrow> Some (b, Suc l))
     else zero_runs ws (Suc i) (better_run best cur) None)"

definition best_zero_run :: "nat list \<Rightarrow> run" where
  "best_zero_run ws =
    (case zero_runs ws 0 None None of None \<Rightarrow> None | Some (b, l) \<Rightarrow> if l < 2 then None else Some (b, l))"

fun ntop6_groups :: "8 word list \<Rightarrow> nat list \<Rightarrow> run \<Rightarrow> nat list \<Rightarrow> nat \<Rightarrow> string \<Rightarrow> string option" where
  "ntop6_groups src ws best [] i tmp = Some tmp"
| "ntop6_groups src ws best (w # rest) i tmp =
    (if (case best of None \<Rightarrow> False | Some (b, l) \<Rightarrow> b \<le> i \<and> i < b + l) then
       ntop6_groups src ws best rest (Suc i) (if map_option fst best = Some i then tmp @ '':'' else tmp)
     else
       (let tmp = (if i \<noteq> 0 then tmp @ '':'' else tmp) in
        if i = 6 \<and> (\<exists>l\<in>set_option best. fst l = 0 \<and> (snd l = 6 \<or> snd l = 5 \<and> ws ! 5 = 0xffff)) then
          (case inet_ntop4 (drop 12 src) (46 - length tmp) of None \<Rightarrow> None | Some s \<Rightarrow> Some (tmp @ s))
        else ntop6_groups src ws best rest (Suc i) (tmp @ hex w)))"

definition inet_ntop6 :: "8 word list \<Rightarrow> nat \<Rightarrow> string option" where
  "inet_ntop6 src siz =
    (let ws = map (\<lambda>i. unat (src ! (2 * i)) * 256 + unat (src ! (2 * i + 1))) [0..<8];
         best = best_zero_run ws
     in case ntop6_groups src ws best ws 0 [] of
          None \<Rightarrow> None
        | Some tmp \<Rightarrow>
            (let tmp = (if \<exists>l\<in>set_option best. fst l + snd l = 8 then tmp @ '':'' else tmp)
             in if length tmp + 1 > siz then None else Some tmp))"

datatype address_family = AF_INET | AF_INET6 | AF_OTHER

text \<open>\<^verbatim>\<open>IN6_IS_ADDR_V4MAPPED\<close> and \<^verbatim>\<open>IN6_IS_ADDR_V4COMPAT\<close> of the system headers.\<close>

definition v4mapped :: "8 word list \<Rightarrow> bool" where
  "v4mapped a \<longleftrightarrow> take 10 a = replicate 10 0 \<and> a ! 10 = 0xff \<and> a ! 11 = 0xff"

definition v4compat :: "8 word list \<Rightarrow> bool" where
  "v4compat a \<longleftrightarrow> take 12 a = replicate 12 0 \<and>
     \<not> (a ! 12 = 0 \<and> a ! 13 = 0 \<and> a ! 14 = 0 \<and> (a ! 15 = 0 \<or> a ! 15 = 1))"

definition inetntop :: "address_family \<Rightarrow> 8 word list \<Rightarrow> nat \<Rightarrow> string option" where
  "inetntop af src siz =
    (case af of
       AF_INET \<Rightarrow> inet_ntop4 src siz
     | AF_INET6 \<Rightarrow> (if v4mapped src \<or> v4compat src then inet_ntop4 (drop 12 src) siz else inet_ntop6 src siz)
     | AF_OTHER \<Rightarrow> None)"


subsection \<open>What the copies leave behind\<close>

lemma put_Some [simp, cstr_simps]: "i < length buf \<Longrightarrow> put buf i c = Some (take i buf @ c # drop (Suc i) buf)"
  by (simp add: put_def upd_conv_take_nth_drop)

lemma contents_prefix [cstr_simps]: "cstr s \<Longrightarrow> contents (s @ NUL # r) = s"
  unfolding contents_def cstr_def by (subst takeWhile_append2) auto

lemma cstr_contents [simp, intro]: "cstr (contents buf)"
  unfolding contents_def cstr_def by (auto dest: set_takeWhileD)

lemma contents_split:
  assumes "length (contents buf) < length buf"
  obtains r where "buf = contents buf @ NUL # r"
proof -
  have d: "dropWhile (\<lambda>c. c \<noteq> NUL) buf \<noteq> []"
  proof
    assume "dropWhile (\<lambda>c. c \<noteq> NUL) buf = []"
    then have "takeWhile (\<lambda>c. c \<noteq> NUL) buf = buf" by (simp add: takeWhile_eq_all_conv)
    with assms show False by (simp add: contents_def)
  qed
  then have "hd (dropWhile (\<lambda>c. c \<noteq> NUL) buf) = NUL" using hd_dropWhile by blast
  then have "dropWhile (\<lambda>c. c \<noteq> NUL) buf = NUL # tl (dropWhile (\<lambda>c. c \<noteq> NUL) buf)"
    using d list.collapse [of "dropWhile (\<lambda>c. c \<noteq> NUL) buf"] by simp
  then have "buf = contents buf @ NUL # tl (dropWhile (\<lambda>c. c \<noteq> NUL) buf)"
    unfolding contents_def using takeWhile_dropWhile_id [of "\<lambda>c. c \<noteq> NUL" buf] by simp
  then show thesis by (rule that)
qed

lemma strlcpy_copy_fits:
  assumes "cstr src" "i \<le> length src" "length src - i < n" "i + n \<le> length buf"
  shows "strlcpy_copy buf src i n =
    Some (take i buf @ drop i src @ NUL # drop (Suc (length src)) buf, Suc (length src), n - (length src - i))"
  using assms
proof (induction n arbitrary: i buf)
  case (Suc n)
  show ?case
  proof (cases "i = length src")
    case True
    with Suc.prems show ?thesis by simp
  next
    case False
    then have i: "i < length src" using Suc.prems by simp
    have "rd src i \<noteq> NUL" using Suc.prems i by (simp add: rd_NUL_iff)
    with Suc.prems i Suc.IH [of "Suc i" "take i buf @ rd src i # drop (Suc i) buf"]
    have e: "Suc (length src) - i = Suc (length src - i)" using i by simp
    have d: "drop (Suc (length src) - i) (rd src i # drop (Suc i) buf) = drop (Suc (length src)) buf"
      unfolding e using i by simp
    show ?thesis using Suc.prems i \<open>rd src i \<noteq> NUL\<close> d
        Suc.IH [of "Suc i" "take i buf @ rd src i # drop (Suc i) buf"]
      by (simp add: drop_rd [of i src] min_def)
  qed
qed simp

lemma strlcpy_copy_cut:
  assumes "cstr src" "i \<le> length src" "n \<le> length src - i" "i + n \<le> length buf"
  shows "strlcpy_copy buf src i n = Some (take i buf @ take n (drop i src) @ drop (i + n) buf, i + n, 0)"
  using assms
proof (induction n arbitrary: i buf)
  case (Suc n)
  then have i: "i < length src" by simp
  have "rd src i \<noteq> NUL" using Suc.prems i by (simp add: rd_NUL_iff)
  with Suc.prems i Suc.IH [of "Suc i" "take i buf @ rd src i # drop (Suc i) buf"]
  show ?case by (simp add: drop_rd [of i src] min_def add.commute)
qed simp

lemma strlcpy_result:
  assumes "cstr src" "0 < siz" "siz \<le> length buf"
  shows "strlcpy buf src siz =
    Some (take (siz - 1) src @ NUL # drop (Suc (length (take (siz - 1) src))) buf, length src)"
proof (cases "length src < siz - 1")
  case True
  with assms strlcpy_copy_fits [of src 0 "siz - 1" buf] show ?thesis by (simp add: strlcpy_def)
next
  case False
  with assms strlcpy_copy_cut [of src 0 "siz - 1" buf] show ?thesis
    by (auto simp: strlcpy_def min_def)
qed

lemma strlcat_end_contents:
  "d + n \<le> length buf \<Longrightarrow>
   strlcat_end buf d n = Some (d + min n (length (contents (drop d buf))))"
proof (induction n arbitrary: d)
  case (Suc n)
  then have "drop d buf = buf ! d # drop (Suc d) buf" by (simp add: Cons_nth_drop_Suc)
  with Suc show ?case by (simp add: contents_def)
qed simp

lemma strlcat_copy_result:
  assumes "0 < n" "d + n \<le> length buf"
  shows "strlcat_copy buf src d n =
    Some (take d buf @ take (n - 1) src @ drop (d + length (take (n - 1) src)) buf, d + length (take (n - 1) src))"
  using assms
proof (induction src arbitrary: buf d n)
  case (Cons c src)
  show ?case
  proof (cases "n = 1")
    case False
    then obtain k where n: "n = Suc (Suc k)" using Cons.prems by (cases n; cases "n - 1") auto
    from Cons.prems n Cons.IH [of "Suc k" "Suc d" "take d buf @ c # drop (Suc d) buf"]
    show ?thesis by (simp add: add.commute)
  qed (use Cons in simp)
qed simp

lemma strlcat_result:
  assumes "cstr src" "cstr dst" "buf = dst @ NUL # r" "length dst < siz" "siz \<le> length buf"
  shows "strlcat buf src siz =
    Some (take (siz - 1) (dst @ src) @ NUL # drop (Suc (length (take (siz - 1) (dst @ src)))) buf,
          length dst + length src)"
proof -
  have "contents buf = dst" using assms by (simp add: contents_prefix)
  then have e: "strlcat_end buf 0 siz = Some (length dst)"
    using strlcat_end_contents [of 0 siz buf] assms by simp
  have c: "strlcat_copy buf src (length dst) (siz - length dst) =
      Some (dst @ take (siz - length dst - 1) src @ drop (length dst + length (take (siz - length dst - 1) src)) buf,
            length dst + length (take (siz - length dst - 1) src))"
    using strlcat_copy_result [of "siz - length dst" "length dst" buf src] assms by simp
  have t: "take (siz - 1) (dst @ src) = dst @ take (siz - length dst - 1) src"
    using assms by simp
  have l: "length dst + length (take (siz - length dst - 1) src) < length buf"
    using assms by simp
  show ?thesis using assms(4) unfolding strlcat_def e option.case c prod.case t using l by (simp add: min_def)
qed


lemma contents_put_end: "cstr t \<Longrightarrow> contents (t @ NUL # r) = t"
  by (simp add: contents_prefix)

lemma cstr_octet [simp]: "n < 256 \<Longrightarrow> cstr (IpQuadTab ! n)"
proof -
  have "\<forall>s\<in>set IpQuadTab. cstr s" "length IpQuadTab = 256" by (simp_all add: IpQuadTab_def cstr_def)
  then show "n < 256 \<Longrightarrow> cstr (IpQuadTab ! n)" by (simp add: nth_mem)
qed

text \<open>The decimal numeral of an octet, and what a reader makes of it.\<close>

definition digit :: "nat \<Rightarrow> char" where
  "digit n = ''0123456789'' ! n"

definition octet_text :: "nat \<Rightarrow> string" where
  "octet_text n =
    (if n < 10 then [digit n]
     else if n < 100 then [digit (n div 10), digit (n mod 10)]
     else [digit (n div 100), digit (n div 10 mod 10), digit (n mod 10)])"

lemma digit_simps:
  "digit 0 = CHR ''0''" "digit 1 = CHR ''1''" "digit (Suc 0) = CHR ''1''" "digit 2 = CHR ''2''"
  "digit 3 = CHR ''3''" "digit 4 = CHR ''4''" "digit 5 = CHR ''5''" "digit 6 = CHR ''6''"
  "digit 7 = CHR ''7''" "digit 8 = CHR ''8''" "digit 9 = CHR ''9''"
  by (simp_all add: digit_def)

lemma IpQuadTab_eq: "IpQuadTab = map octet_text [0..<256]"
  by (simp add: IpQuadTab_def octet_text_def upt_rec digit_simps, simp add: digit_def)

lemma IpQuadTab_nth: "n < 256 \<Longrightarrow> IpQuadTab ! n = octet_text n"
  by (simp add: IpQuadTab_eq)

subsection \<open>What cleaning does to printable text\<close>

lemma clean_loop_plain:
  assumes "\<forall>c\<in>set src. (of_char c :: nat) < 0x80 \<and> IsPrint c" "d + min (length src) (unat len) < length buf"
  shows "clean_loop buf d src len =
    Some (take d buf @ take (unat len) src @ NUL # drop (Suc (d + length (take (unat len) src))) buf)"
  using assms
proof (induction src arbitrary: buf d len)
  case (Cons c src)
  show ?case
  proof (cases "len > 0")
    case True
    then have "0 < unat len" by (simp add: word_less_nat_alt)
    then have u: "unat len = Suc (unat (len - 1))" by (metis One_nat_def Suc_pred True less_irrefl unat_minus_one)
    from Cons.prems u Cons.IH [of "Suc d" "len - 1" "take d buf @ c # drop (Suc d) buf"] True
    show ?thesis by (simp add: add.commute min_def not_le split: if_splits)
  next
    case False
    then have "unat len = 0" by (simp add: word_less_nat_alt)
    with False Cons.prems show ?thesis by simp
  qed
qed simp


subsection \<open>Properties\<close>

text \<open>
  \<open>strlcpy\<close> with a nonzero size that the buffer has writes inside the first \<open>siz\<close> characters only,
  leaves there the longest prefix of the source that fits with its terminator, and returns the
  length of the whole source, so a caller sees the truncation.
\<close>

theorem strlcpy_correct:
  assumes "cstr src" "0 < siz" "siz \<le> length buf"
  shows "\<exists>buf'. strlcpy buf src siz = Some (buf', length src) \<and> contents buf' = take (siz - 1) src \<and>
    length buf' = length buf \<and> drop siz buf' = drop siz buf"
  using strlcpy_result [OF assms] assms
  by (simp add: contents_prefix min_def) (auto simp: drop_Cons' split: if_splits)

theorem strlcpy_correct_witness:
  "\<exists>buf'. strlcpy (replicate 6 CHR ''x'') ''nickname'' 5 = Some (buf', 8) \<and> contents buf' = ''nick'' \<and>
    length buf' = 6 \<and> drop 5 buf' = ''x''"
  using strlcpy_correct [of "''nickname''" 5 "replicate 6 CHR ''x''"] by (simp add: eval_nat_numeral)

text \<open>
  \<open>strlcat\<close> on a buffer that holds a terminated string shorter than the size appends the source,
  truncated to the size with its terminator, writes nothing beyond the size, and returns the
  length the full concatenation would have.
\<close>

theorem strlcat_correct:
  assumes "cstr src" "cstr dst" "buf = dst @ NUL # r" "length dst < siz" "siz \<le> length buf"
  shows "\<exists>buf'. strlcat buf src siz = Some (buf', length dst + length src) \<and>
    contents buf' = take (siz - 1) (dst @ src) \<and> length buf' = length buf \<and> drop siz buf' = drop siz buf"
proof -
  have c: "cstr (take (siz - 1) (dst @ src))" using assms by (intro cstr_take) simp
  have l: "Suc (length (take (siz - 1) (dst @ src))) \<le> siz" using assms by simp
  let ?n = "length (take (siz - 1) (dst @ src))"
  let ?b = "take (siz - 1) (dst @ src) @ NUL # drop (Suc ?n) buf"
  have "drop siz ?b = drop (siz - Suc ?n) (drop (Suc ?n) buf)"
    using l by (simp add: drop_Cons' del: length_take)
  then have "drop siz ?b = drop siz buf" using l by (simp del: length_take)
  moreover have "length ?b = length buf" using l assms(5) by (simp del: length_take)
  moreover have "contents ?b = take (siz - 1) (dst @ src)" by (rule contents_prefix [OF c])
  ultimately show ?thesis using strlcat_result [OF assms] by blast
qed

theorem strlcat_correct_witness:
  "\<exists>buf'. strlcat (''ab'' @ NUL # ''xyz'') ''cdef'' 5 = Some (buf', 6) \<and> contents buf' = ''abcd'' \<and>
    length buf' = 6 \<and> drop 5 buf' = ''z''"
  using strlcat_correct [of "''cdef''" "''ab''" "''ab'' @ NUL # ''xyz''" "''xyz''" 5] by (simp add: eval_nat_numeral)

text \<open>
  \<open>clean_string\<close> on plain printable text copies the first \<open>len - 3\<close> characters and terminates them,
  inside the destination.
\<close>

theorem clean_string_plain:
  assumes "\<forall>c\<in>set src. (of_char c :: nat) < 0x80 \<and> IsPrint c" "cstr src" "3 \<le> len" "unat len \<le> length dest"
  shows "\<exists>buf'. clean_string dest src len = Some buf' \<and> contents buf' = take (unat len - 3) src \<and>
    length buf' = length dest"
proof -
  have u: "unat (len - 3) = unat len - 3" using unat_sub [OF assms(3)] by simp
  have l: "3 \<le> unat len" using assms(3) by (simp add: word_le_nat_alt)
  show ?thesis
    using clean_loop_plain [OF assms(1), of 0 "len - 3" dest] assms u l
    by (simp add: clean_string_def contents_prefix)
qed

theorem clean_string_plain_witness:
  "\<exists>buf'. clean_string (replicate 8 CHR ''x'') ''abcdefgh'' 8 = Some buf' \<and> contents buf' = ''abcde'' \<and> length buf' = 8"
  using clean_string_plain [of "''abcdefgh''" 8 "replicate 8 CHR ''x''"] by (simp add: IsPrint_iff)

text \<open>
  \<open>clean_string\<close> overruns its destination: one control character that meets the last free place
  takes two off a length of one, the unsigned length wraps, and the loop no longer stops at the end
  of the buffer, here a buffer of four characters given with its true size.
\<close>

theorem clean_string_overruns:
  "clean_string (replicate 4 NUL) (CHR 0x01 # ''abc'') 4 = None"
proof -
  have w: "(0::64 word) < - 1" "(0::64 word) < - 2" "(0::64 word) < - 3" by code_simp+
  show ?thesis by (simp add: clean_string_def IsPrint_iff put_def w)
qed

text \<open>
  \<open>strtoken\<close> starting on a string skips the separators, returns the longest separator-free token
  after them, and leaves the save pointer just behind the one separator that ended it, or null when
  the token was the last thing in the string.
\<close>

theorem strtoken_correct:
  assumes "strtoken save (Some s) fs = (Some tok, rest)"
  shows "\<exists>seps. set seps \<subseteq> set fs \<and> tok \<noteq> [] \<and> set tok \<inter> set fs = {} \<and>
    (case rest of None \<Rightarrow> s = seps @ tok | Some r \<Rightarrow> \<exists>c\<in>set fs. s = seps @ tok @ c # r)"
proof -
  let ?p = "dropWhile (\<lambda>c. c \<in> set fs) s"
  let ?t = "takeWhile (\<lambda>c. c \<notin> set fs) ?p" and ?q = "dropWhile (\<lambda>c. c \<notin> set fs) ?p"
  have a: "(if ?p = [] then (None, None) else (Some ?t, if ?q \<noteq> [] then Some (tl ?q) else None)) = (Some tok, rest)"
    using assms unfolding strtoken_def option.case Let_def .
  have p: "?p \<noteq> []"
  proof
    assume "?p = []"
    with a show False unfolding if_P [OF \<open>?p = []\<close>] by blast
  qed
  from a have t: "tok = ?t" and r: "rest = (if ?q \<noteq> [] then Some (tl ?q) else None)"
    unfolding if_not_P [OF p] by blast+
  have "hd ?p \<notin> set fs" using hd_dropWhile [OF p] .
  then have ne: "?t \<noteq> []" using p by (cases ?p) auto
  have tk: "set ?t \<inter> set fs = {}" by (auto dest: set_takeWhileD)
  have sp: "set (takeWhile (\<lambda>c. c \<in> set fs) s) \<subseteq> set fs" by (auto dest: set_takeWhileD)
  have hq: "?q \<noteq> [] \<Longrightarrow> hd ?q \<in> set fs" using hd_dropWhile by blast
  obtain seps Q where "s = seps @ tok @ Q" "set seps \<subseteq> set fs" "rest = (if Q \<noteq> [] then Some (tl Q) else None)"
    "Q \<noteq> [] \<Longrightarrow> hd Q \<in> set fs" "tok \<noteq> []" "set tok \<inter> set fs = {}"
    by (rule that [OF _ sp r hq]) (use ne tk in \<open>unfold t takeWhile_dropWhile_id, blast+\<close>)
  then show ?thesis by (intro exI [of _ seps]) (cases Q; simp)
qed

theorem strtoken_correct_witness:
  "\<exists>seps. set seps \<subseteq> set '', '' \<and> ''#a'' \<noteq> [] \<and> set ''#a'' \<inter> set '', '' = {} \<and>
    (\<exists>c\<in>set '', ''. '',#a,#b'' = seps @ ''#a'' @ c # ''#b'')"
  using strtoken_correct [of None "'',#a,#b''" "'', ''" "''#a''" "Some ''#b''"] by (simp add: strtoken_def Let_def)

end
