(* ===== verification/Irc_Match.thy ===== *)
theory Irc_Match
  imports Char_Tables
begin

section \<open>Wildcard matching and case-insensitive comparison (\<^verbatim>\<open>src/match.c\<close>)\<close>

text \<open>
  \<open>match\<close>, \<open>match_esc\<close>, \<open>match_chan\<close>, \<open>collapse\<close>, \<open>collapse_esc\<close>, \<open>irccmp\<close> and \<open>ircncmp\<close>.  The matchers
  are loops over two moving pointers with a remembered restart position (\<open>ma\<close>, \<open>na\<close>); pointers are
  indices, and a read or a decrement outside the object is \<open>None\<close>, as is a loop that does not end.
  So \<open>Some b\<close> says that the code returns, stays inside both strings, and returns \<open>b\<close>.
  \<open>glob\<close> is the specification: what the wildcards mean, by recursion on the mask.
\<close>

subsection \<open>The code\<close>

function skip_stars :: "string \<Rightarrow> nat \<Rightarrow> nat" where
  "skip_stars s i = (if rd s i = CHR ''*'' then skip_stars s (Suc i) else i)"
  by pat_completeness auto
termination
  by (relation "measure (\<lambda>(s, i). length s - i)") (auto simp: rd_def split: if_splits)

declare skip_stars.simps [simp del]

text \<open>\<^verbatim>\<open>for(m--; (m > mask) && (*m == '?'); m--);\<close>: the position where the loop stops, from \<open>m - 1\<close>.\<close>

fun back_questions :: "string \<Rightarrow> nat \<Rightarrow> nat" where
  "back_questions s 0 = 0"
| "back_questions s (Suc i) = (if rd s (Suc i) = CHR ''?'' then back_questions s i else Suc i)"

definition char_matches :: "char \<Rightarrow> char \<Rightarrow> bool" where
  "char_matches p c \<longleftrightarrow>
     \<not> (ToLower p \<noteq> ToLower c \<and> p \<noteq> CHR ''?'' \<and> (p \<noteq> CHR ''#'' \<or> \<not> IsDigit c))"

text \<open>
  One turn of the \<^verbatim>\<open>while(1)\<close> loop returns, goes wrong, or leaves new pointers for the next turn.
\<close>

datatype turn = Return bool | Outside | Again nat nat "nat option" nat

definition match_compare ::
  "string \<Rightarrow> string \<Rightarrow> nat \<Rightarrow> nat \<Rightarrow> nat option \<Rightarrow> nat \<Rightarrow> turn" where
  "match_compare msk name m n ma na =
    (if length msk < m \<or> length name < n then Outside
     else if \<not> char_matches (rd msk m) (rd name n) then
       (case ma of None \<Rightarrow> Return False | Some a \<Rightarrow> Again a (Suc na) ma (Suc na))
     else Again (Suc m) (Suc n) ma na)"

definition match_turn ::
  "string \<Rightarrow> string \<Rightarrow> nat \<Rightarrow> nat \<Rightarrow> nat option \<Rightarrow> nat \<Rightarrow> turn" where
  "match_turn msk name m0 n ma0 na0 =
    (if length msk < m0 \<or> length name < n then Outside else
     let star = (rd msk m0 = CHR ''*'');
         m = (if star then skip_stars msk m0 else m0);
         ma = (if star then Some m else ma0);
         na = (if star then n else na0)
     in
     if rd msk m = NUL then
       (if rd name n = NUL then Return True
        else case ma of None \<Rightarrow> Return False
        | Some a \<Rightarrow>
            (if m = 0 then Outside
             else if rd msk (back_questions msk (m - 1)) = CHR ''*'' then Return True
             else match_compare msk name a (Suc na) ma (Suc na)))
     else if rd name n = NUL then Return (rd msk (skip_stars msk m) = NUL)
     else match_compare msk name m n ma na)"

partial_function (option) match_loop ::
  "string \<Rightarrow> string \<Rightarrow> nat \<Rightarrow> nat \<Rightarrow> nat option \<Rightarrow> nat \<Rightarrow> bool option" where
  "match_loop msk name m n ma na =
    (case match_turn msk name m n ma na of
       Return b \<Rightarrow> Some b
     | Outside \<Rightarrow> None
     | Again m' n' ma' na' \<Rightarrow> match_loop msk name m' n' ma' na')"

definition match :: "string \<Rightarrow> string \<Rightarrow> bool option" where
  "match msk name = match_loop msk name 0 0 None 0"

definition match_esc_compare ::
  "string \<Rightarrow> string \<Rightarrow> nat \<Rightarrow> nat \<Rightarrow> nat option \<Rightarrow> nat \<Rightarrow> turn" where
  "match_esc_compare msk name m n ma na =
    (if length msk < m \<or> length name < n then Outside
     else if rd msk m \<noteq> CHR ''?'' \<and> (rd msk m \<noteq> CHR ''#'' \<or> IsDigit (rd name n)) then
       (let m' = (if rd msk m = CHR 0x5C then Suc m else m) in
        if rd msk m = CHR 0x5C \<and> rd msk m' = NUL then Return False
        else if ToLower (rd msk m') \<noteq> ToLower (rd name n) then
          (case ma of None \<Rightarrow> Return False | Some a \<Rightarrow> Again a (Suc na) ma (Suc na))
        else Again (Suc m') (Suc n) ma na)
     else Again (Suc m) (Suc n) ma na)"

definition match_esc_turn ::
  "string \<Rightarrow> string \<Rightarrow> nat \<Rightarrow> nat \<Rightarrow> nat option \<Rightarrow> nat \<Rightarrow> turn" where
  "match_esc_turn msk name m0 n ma0 na0 =
    (if length msk < m0 \<or> length name < n then Outside else
     let star = (rd msk m0 = CHR ''*'');
         m = (if star then skip_stars msk m0 else m0);
         ma = (if star then Some m else ma0);
         na = (if star then n else na0)
     in
     if rd msk m = NUL then
       (if rd name n = NUL then Return True
        else case ma of None \<Rightarrow> Return False
        | Some a \<Rightarrow>
            (if m = 0 then Outside
             else if rd msk (back_questions msk (m - 1)) = CHR ''*'' then Return True
             else match_esc_compare msk name a (Suc na) ma (Suc na)))
     else if rd name n = NUL then Return (rd msk (skip_stars msk m) = NUL)
     else match_esc_compare msk name m n ma na)"

partial_function (option) match_esc_loop ::
  "string \<Rightarrow> string \<Rightarrow> nat \<Rightarrow> nat \<Rightarrow> nat option \<Rightarrow> nat \<Rightarrow> bool option" where
  "match_esc_loop msk name m n ma na =
    (case match_esc_turn msk name m n ma na of
       Return b \<Rightarrow> Some b
     | Outside \<Rightarrow> None
     | Again m' n' ma' na' \<Rightarrow> match_esc_loop msk name m' n' ma' na')"

definition match_esc :: "string \<Rightarrow> string \<Rightarrow> bool option" where
  "match_esc msk name = match_esc_loop msk name 0 0 None 0"

definition match_chan :: "string \<Rightarrow> string \<Rightarrow> bool option" where
  "match_chan msk name =
    (if rd msk 0 = CHR ''#'' then
       (if rd name 0 \<noteq> CHR ''#'' then Some False else match_esc (drop 1 msk) (drop 1 name))
     else match_esc msk name)"

text \<open>
  \<open>collapse\<close> and \<open>collapse_esc\<close> rewrite the string in place; the write position never passes the read
  position, so the characters still to be read are the original ones.
\<close>

fun collapse :: "string \<Rightarrow> string" where
  "collapse [] = []"
| "collapse (c # s) =
    (if c \<noteq> CHR ''*'' then c # collapse s
     else if rd s 0 \<noteq> CHR ''*'' then CHR ''*'' # collapse s
     else collapse s)"

fun collapse_esc :: "string \<Rightarrow> string" where
  "collapse_esc [] = []"
| "collapse_esc (c # s) =
    (if c \<noteq> CHR ''*'' then
       (if c = CHR 0x5C then (case s of [] \<Rightarrow> [c] | d # t \<Rightarrow> c # d # collapse_esc t)
        else c # collapse_esc s)
     else if rd s 0 \<noteq> CHR ''*'' then CHR ''*'' # collapse_esc s
     else collapse_esc s)"

function irccmp :: "string \<Rightarrow> string \<Rightarrow> int" where
  "irccmp s1 s2 =
    (if ToUpper (rd s1 0) = ToUpper (rd s2 0) then
       (if rd s1 0 = NUL then 0 else irccmp (tl s1) (tl s2))
     else 1)"
  by pat_completeness auto
termination
  by (relation "measure (\<lambda>(s1, s2). length s1)") (auto simp: rd_def split: if_splits)

declare irccmp.simps [simp del]

text \<open>\<open>n\<close> is a \<open>size_t\<close> that is decremented before it is tested.\<close>

function ircncmp_loop :: "string \<Rightarrow> string \<Rightarrow> nat \<Rightarrow> 64 word \<Rightarrow> int option" where
  "ircncmp_loop s1 s2 i n =
    (if length s1 < i \<or> length s2 < i then None
     else let res = int (of_char (ToUpper (rd s1 i))) - int (of_char (ToUpper (rd s2 i))) in
       if res \<noteq> 0 then Some res
       else if n - 1 = 0 then Some 0
       else if length s1 < Suc i then None
       else if rd s1 (Suc i) = NUL \<and> length s2 < Suc i then None
       else if rd s1 (Suc i) = NUL \<and> rd s2 (Suc i) = NUL then Some 0
       else ircncmp_loop s1 s2 (Suc i) (n - 1))"
  by pat_completeness auto
termination
  by (relation "measure (\<lambda>(s1, s2, i, n). Suc (length s1) - i)") auto

declare ircncmp_loop.simps [simp del]

definition ircncmp :: "string \<Rightarrow> string \<Rightarrow> 64 word \<Rightarrow> int option" where
  "ircncmp s1 s2 n = ircncmp_loop s1 s2 0 n"


subsection \<open>The specification\<close>

fun glob :: "string \<Rightarrow> string \<Rightarrow> bool" where
  "glob [] s = (s = [])"
| "glob (p # ps) s =
    (if p = CHR ''*'' then (\<exists>k\<le>length s. glob ps (drop k s))
     else (case s of [] \<Rightarrow> False | c # t \<Rightarrow> char_matches p c \<and> glob ps t))"

lemma glob_star: "glob (CHR ''*'' # ps) s \<longleftrightarrow> (\<exists>k\<le>length s. glob ps (drop k s))"
  by simp

lemma glob_char: "p \<noteq> CHR ''*'' \<Longrightarrow> glob (p # ps) s \<longleftrightarrow> (\<exists>c t. s = c # t \<and> char_matches p c \<and> glob ps t)"
  by (simp split: list.splits)

declare glob.simps(2) [simp del]

lemma glob_star_Nil [simp]: "glob (CHR ''*'' # ps) [] \<longleftrightarrow> glob ps []"
  by (simp add: glob_star)

lemma glob_star_Cons: "glob (CHR ''*'' # ps) (c # s) \<longleftrightarrow> glob ps (c # s) \<or> glob (CHR ''*'' # ps) s"
proof
  assume "glob (CHR ''*'' # ps) (c # s)"
  then obtain k where k: "k \<le> Suc (length s)" "glob ps (drop k (c # s))" by (auto simp: glob_star)
  then show "glob ps (c # s) \<or> glob (CHR ''*'' # ps) s"
    by (cases k) (auto simp: glob_star)
next
  assume "glob ps (c # s) \<or> glob (CHR ''*'' # ps) s"
  then show "glob (CHR ''*'' # ps) (c # s)"
  proof
    assume "glob ps (c # s)" then show ?thesis unfolding glob_star by (intro exI [of _ 0]) simp
  next
    assume "glob (CHR ''*'' # ps) s"
    then obtain k where "k \<le> length s" "glob ps (drop k s)" by (auto simp: glob_star)
    then show ?thesis unfolding glob_star by (intro exI [of _ "Suc k"]) simp
  qed
qed

lemma glob_star_mono: "glob (CHR ''*'' # ps) t \<Longrightarrow> glob (CHR ''*'' # ps) (s @ t)"
  by (induction s) (auto simp: glob_star_Cons)

lemma glob_star_star [simp]: "glob (CHR ''*'' # CHR ''*'' # ps) s = glob (CHR ''*'' # ps) s"
proof (induction s)
  case (Cons c s) then show ?case by (metis glob_star_Cons)
qed simp


subsection \<open>The matcher implements the specification\<close>

text \<open>A literal position: a mask character other than the star, matched by a character of the name.\<close>

definition literal_at :: "char \<Rightarrow> char \<Rightarrow> bool" where
  "literal_at p c \<longleftrightarrow> p \<noteq> CHR ''*'' \<and> char_matches p c"

lemma glob_literals: "list_all2 literal_at seg s \<Longrightarrow> glob (seg @ ps) (s @ t) = glob ps t"
  by (induction rule: list_all2_induct) (auto simp: literal_at_def glob.simps(2))

lemma glob_literals_iff:
  assumes "\<forall>p\<in>set seg. p \<noteq> CHR ''*''"
  shows "glob (seg @ ps) s \<longleftrightarrow> (\<exists>u t. s = u @ t \<and> list_all2 literal_at seg u \<and> glob ps t)"
  using assms
proof (induction seg arbitrary: s)
  case (Cons p seg)
  show ?case
  proof
    assume "glob ((p # seg) @ ps) s"
    with Cons.prems obtain c t where c: "s = c # t" "char_matches p c" and "glob (seg @ ps) t"
      by (auto simp: glob_char)
    with Cons obtain u v where "t = u @ v" "list_all2 literal_at seg u" "glob ps v" by auto
    with c Cons.prems show "\<exists>u t. s = u @ t \<and> list_all2 literal_at (p # seg) u \<and> glob ps t"
      by (intro exI [of _ "c # u"] exI [of _ v]) (simp add: literal_at_def)
  next
    assume "\<exists>u t. s = u @ t \<and> list_all2 literal_at (p # seg) u \<and> glob ps t"
    then obtain u t where "s = u @ t" "list_all2 literal_at (p # seg) u" "glob ps t" by blast
    then show "glob ((p # seg) @ ps) s" using glob_literals [of "p # seg" u ps t] by simp
  qed
qed simp

lemma list_all2_literal_no_star: "list_all2 literal_at seg u \<Longrightarrow> \<forall>p\<in>set seg. p \<noteq> CHR ''*''"
  by (induction rule: list_all2_induct) (auto simp: literal_at_def)

text \<open>Between two stars it is enough to look for the first occurrence of the literal segment.\<close>

lemma glob_first_segment:
  assumes "list_all2 literal_at seg u"
  shows "glob (CHR ''*'' # seg @ CHR ''*'' # ps) (u @ t) = glob (CHR ''*'' # ps) t"
proof
  assume "glob (CHR ''*'' # ps) t"
  then have "glob (seg @ CHR ''*'' # ps) (u @ t)" by (simp add: glob_literals [OF assms])
  then show "glob (CHR ''*'' # seg @ CHR ''*'' # ps) (u @ t)"
    unfolding glob_star by (intro exI [of _ 0]) simp
next
  assume "glob (CHR ''*'' # seg @ CHR ''*'' # ps) (u @ t)"
  then obtain k where "glob (seg @ CHR ''*'' # ps) (drop k (u @ t))" by (auto simp: glob_star)
  then obtain v w where vw: "drop k (u @ t) = v @ w" "list_all2 literal_at seg v" "glob (CHR ''*'' # ps) w"
    using glob_literals_iff [OF list_all2_literal_no_star [OF assms]] by blast
  have len: "length v = length u" using vw(2) assms by (simp add: list_all2_lengthD [symmetric])
  have "w = drop (k + length v) (u @ t)" by (metis vw(1) append_eq_conv_conj drop_drop add.commute)
  then have "t = take k t @ w" by (simp add: len)
  then show "glob (CHR ''*'' # ps) t" using glob_star_mono [OF vw(3)] by metis
qed

lemma glob_min_length: "glob ps s \<Longrightarrow> length (filter (\<lambda>p. p \<noteq> CHR ''*'') ps) \<le> length s"
proof (induction ps arbitrary: s)
  case (Cons p ps)
  show ?case
  proof (cases "p = CHR ''*''")
    case True
    with Cons.prems obtain k where "glob ps (drop k s)" by (auto simp: glob_star)
    from Cons.IH [OF this] True show ?thesis by simp
  next
    case False
    with Cons.prems obtain c t where "s = c # t" "glob ps t" by (auto simp: glob_char)
    with Cons.IH [of t] False show ?thesis by simp
  qed
qed simp

lemma glob_questions: "set ps \<subseteq> {CHR ''?''} \<Longrightarrow> glob ps s \<longleftrightarrow> length s = length ps"
proof (induction ps arbitrary: s)
  case (Cons p ps)
  then have "p = CHR ''?''" by simp
  then have "glob (p # ps) s \<longleftrightarrow> (\<exists>c t. s = c # t \<and> glob ps t)" by (simp add: glob_char char_matches_def)
  with Cons show ?case by (auto simp: length_Suc_conv)
qed simp

lemma glob_star_questions:
  assumes "set ps \<subseteq> {CHR ''?''}"
  shows "glob (CHR ''*'' # ps) s \<longleftrightarrow> length ps \<le> length s"
proof -
  have "(\<exists>k\<le>length s. length (drop k s) = length ps) \<longleftrightarrow> length ps \<le> length s"
    by (auto intro!: exI [of _ "length s - length ps"])
  then show ?thesis by (simp add: glob_star glob_questions [OF assms] del: length_drop)
qed

lemma rd_append: "rd (s @ t) i = (if i < length s then s ! i else rd t (i - length s))"
  by (auto simp: rd_def nth_append)

lemma rd_Cons: "rd (c # s) i = (if i = 0 then c else rd s (i - 1))"
  by (cases i) (auto simp: rd_def)

lemma skip_stars_split:
  "rd s i = CHR ''*'' \<Longrightarrow>
   \<exists>n. skip_stars s i = Suc (i + n) \<and> Suc (i + n) \<le> length s \<and>
       take (Suc n) (drop i s) = replicate (Suc n) CHR ''*'' \<and> rd s (Suc (i + n)) \<noteq> CHR ''*''"
proof (induction s i rule: skip_stars.induct)
  case (1 s i)
  have i: "i < length s" using 1(2) by (auto simp: rd_def split: if_splits)
  have d: "drop i s = CHR ''*'' # drop (Suc i) s" using drop_rd [OF i] 1(2) by simp
  have u: "skip_stars s i = skip_stars s (Suc i)" using 1(2) by (subst skip_stars.simps) simp
  show ?case
  proof (cases "rd s (Suc i) = CHR ''*''")
    case True
    from 1(1) [OF 1(2) True] obtain n where n: "skip_stars s (Suc i) = Suc (Suc i + n)"
      "Suc (Suc i + n) \<le> length s" "take (Suc n) (drop (Suc i) s) = replicate (Suc n) CHR ''*''"
      "rd s (Suc (Suc i + n)) \<noteq> CHR ''*''" by blast
    then show ?thesis by (intro exI [of _ "Suc n"]) (simp add: u d)
  next
    case False
    then have "skip_stars s (Suc i) = Suc i" by (subst skip_stars.simps) simp
    with False i show ?thesis by (intro exI [of _ 0]) (simp add: u d)
  qed
qed

lemma back_questions_split:
  assumes "CHR ''*'' \<notin> set seg" and "s = pre @ CHR ''*'' # seg @ rest"
  shows "rd s (back_questions s (length pre + length seg)) = CHR ''*'' \<longleftrightarrow> set seg \<subseteq> {CHR ''?''}"
  using assms
proof (induction seg arbitrary: rest rule: rev_induct)
  case Nil
  then show ?case by (cases "length pre") (auto simp: rd_append rd_Cons)
next
  case (snoc p seg)
  have r: "rd s (Suc (length pre + length seg)) = p"
    using snoc.prems(2) by (simp add: rd_append rd_Cons)
  have IH: "rd s (back_questions s (length pre + length seg)) = CHR ''*'' \<longleftrightarrow> set seg \<subseteq> {CHR ''?''}"
    using snoc.prems by (intro snoc.IH [of "p # rest"]) auto
  show ?case
  proof (cases "p = CHR ''?''")
    case True
    with IH r show ?thesis by simp
  next
    case False
    with r snoc.prems(1) show ?thesis by auto
  qed
qed


text \<open>
  What holds of the loop's pointers.  Before the first star the two strings have been read in
  step; after it \<open>ma\<close> and \<open>na\<close> delimit the literal segment read since, and the question left is
  whether the star before that segment can absorb something of the rest.
\<close>

definition before_star :: "string \<Rightarrow> string \<Rightarrow> nat \<Rightarrow> nat \<Rightarrow> bool" where
  "before_star msk name m n \<longleftrightarrow>
     m \<le> length msk \<and> n \<le> length name \<and> glob msk name = glob (drop m msk) (drop n name)"

definition after_star :: "string \<Rightarrow> string \<Rightarrow> nat \<Rightarrow> nat \<Rightarrow> nat \<Rightarrow> nat \<Rightarrow> bool" where
  "after_star msk name m n a na \<longleftrightarrow>
     (\<exists>pre seg rest pre' seg' rest'.
        msk = pre @ CHR ''*'' # seg @ rest \<and> a = Suc (length pre) \<and> m = a + length seg \<and>
        name = pre' @ seg' @ rest' \<and> na = length pre' \<and> n = na + length seg' \<and>
        list_all2 literal_at seg seg' \<and> rd (seg @ rest) 0 \<noteq> CHR ''*'' \<and>
        glob msk name = glob (CHR ''*'' # seg @ rest) (seg' @ rest'))"

definition match_inv :: "string \<Rightarrow> string \<Rightarrow> nat \<Rightarrow> nat \<Rightarrow> nat option \<Rightarrow> nat \<Rightarrow> bool" where
  "match_inv msk name m n ma na \<longleftrightarrow>
     (case ma of None \<Rightarrow> before_star msk name m n \<and> na \<le> n
      | Some a \<Rightarrow> after_star msk name m n a na)"

lemma after_starI:
  assumes "msk = pre @ CHR ''*'' # seg @ rest" "name = pre' @ seg' @ rest'"
    and "list_all2 literal_at seg seg'" "rd (seg @ rest) 0 \<noteq> CHR ''*''"
    and "glob msk name = glob (CHR ''*'' # seg @ rest) (seg' @ rest')"
    and "a = Suc (length pre)" "m = a + length seg" "na = length pre'" "n = na + length seg'"
  shows "after_star msk name m n a na"
  unfolding after_star_def using assms by blast

lemma match_inv_bounds: "match_inv msk name m n ma na \<Longrightarrow> m \<le> length msk \<and> n \<le> length name \<and> na \<le> n"
  by (auto simp: match_inv_def before_star_def after_star_def split: option.splits)

text \<open>The remaining strings, and what a star at the mask pointer means for the search.\<close>

lemma glob_at_star:
  assumes inv: "match_inv msk name m n ma na" and star: "drop m msk = CHR ''*'' # r"
  shows "glob msk name = glob (CHR ''*'' # r) (drop n name)"
proof (cases ma)
  case None
  with inv star show ?thesis by (simp add: match_inv_def before_star_def)
next
  case (Some a)
  with inv obtain pre seg rest pre' seg' rest' where d:
    "msk = pre @ CHR ''*'' # seg @ rest" "m = Suc (length pre) + length seg"
    "name = pre' @ seg' @ rest'" "n = length pre' + length seg'" "list_all2 literal_at seg seg'"
    "glob msk name = glob (CHR ''*'' # seg @ rest) (seg' @ rest')"
    by (auto simp: match_inv_def after_star_def)
  from d(1,2) star have "rest = CHR ''*'' # r" by simp
  with d show ?thesis by (simp add: glob_first_segment)
qed

lemma glob_skip_stars: "glob (replicate (Suc n) CHR ''*'' @ r) s = glob (CHR ''*'' # r) s"
  by (induction n) simp_all

lemma match_inv_star:
  assumes inv: "match_inv msk name m n ma na" and star: "rd msk m = CHR ''*''"
  shows "match_inv msk name (skip_stars msk m) n (Some (skip_stars msk m)) n \<and>
         rd msk (skip_stars msk m) \<noteq> CHR ''*'' \<and> m < skip_stars msk m"
proof -
  have n: "n \<le> length name" using match_inv_bounds [OF inv] by simp
  from skip_stars_split [OF star] obtain k where k:
    "skip_stars msk m = Suc (m + k)" "Suc (m + k) \<le> length msk"
    "take (Suc k) (drop m msk) = replicate (Suc k) CHR ''*''" "rd msk (Suc (m + k)) \<noteq> CHR ''*''"
    by blast
  have "drop m msk = take (Suc k) (drop m msk) @ drop (Suc k) (drop m msk)"
    by (rule append_take_drop_id [symmetric])
  then have d: "drop m msk = replicate (Suc k) CHR ''*'' @ drop (Suc (m + k)) msk"
    by (simp only: k(3) drop_drop) (simp add: add.commute)
  then have "drop m msk = CHR ''*'' # (replicate k CHR ''*'' @ drop (Suc (m + k)) msk)" by simp
  from glob_at_star [OF inv this]
  have g: "glob msk name = glob (CHR ''*'' # drop (Suc (m + k)) msk) (drop n name)"
    using glob_skip_stars [of k "drop (Suc (m + k)) msk"] by simp
  have "msk = take m msk @ replicate (Suc k) CHR ''*'' @ drop (Suc (m + k)) msk"
    using d by (metis append_take_drop_id)
  then have m: "msk = (take m msk @ replicate k CHR ''*'') @ CHR ''*'' # [] @ drop (Suc (m + k)) msk"
    by (simp add: replicate_app_Cons_same)
  have "rd ([] @ drop (Suc (m + k)) msk) 0 \<noteq> CHR ''*''"
    using k(4) by (simp add: rd_def split: if_splits)
  then have "after_star msk name (Suc (m + k)) n (Suc (m + k)) n"
    by (intro after_starI [OF m, of _ "take n name" "[]" "drop n name"]) (use n k(2) g in simp_all)
  then show ?thesis using k by (simp add: match_inv_def)
qed


lemma compare_before_star:
  assumes b: "before_star msk name m n" and na: "na \<le> n" and c: "cstr msk" "cstr name"
    and m: "rd msk m \<noteq> NUL" "rd msk m \<noteq> CHR ''*''" and n: "rd name n \<noteq> NUL"
  shows "case match_compare msk name m n None na of
      Return r \<Rightarrow> r = glob msk name | Outside \<Rightarrow> False
    | Again m' n' ma' na' \<Rightarrow> ma' = None \<and> na' = na \<and> m' = Suc m \<and> before_star msk name m' n' \<and> na \<le> n'"
proof -
  have l: "m < length msk" "n < length name" using rd_inside [OF m(1)] rd_inside [OF n] by auto
  have g: "glob msk name = (char_matches (rd msk m) (rd name n) \<and> glob (drop (Suc m) msk) (drop (Suc n) name))"
    using b m(2) by (simp add: before_star_def drop_rd [OF l(1)] drop_rd [OF l(2)] glob_char)
  then show ?thesis
    using l na by (auto simp: match_compare_def before_star_def)
qed

lemma glob_star_step:
  assumes "seg' @ rest' = c # w" and "\<not> glob (seg @ rest) (seg' @ rest')"
  shows "glob (CHR ''*'' # seg @ rest) (seg' @ rest') = glob (CHR ''*'' # seg @ rest) w"
  using assms by (simp add: glob_star_Cons)

text \<open>A comparison after a star: at the pointers, or at the restart position.\<close>

lemma compare_after_star:
  assumes a: "after_star msk name m n a na" and c: "cstr msk" "cstr name"
    and m: "rd msk m \<noteq> NUL" "rd msk m \<noteq> CHR ''*''" and n: "rd name n \<noteq> NUL"
  shows "case match_compare msk name m n (Some a) na of
      Return r \<Rightarrow> r = glob msk name | Outside \<Rightarrow> False
    | Again m' n' ma' na' \<Rightarrow> ma' = Some a \<and> after_star msk name m' n' a na' \<and>
        (na' = Suc na \<or> na' = na \<and> m' = Suc m)"
proof -
  from a obtain pre seg rest pre' seg' rest' where d:
    "msk = pre @ CHR ''*'' # seg @ rest" "a = Suc (length pre)" "m = a + length seg"
    "name = pre' @ seg' @ rest'" "na = length pre'" "n = na + length seg'"
    "list_all2 literal_at seg seg'" "rd (seg @ rest) 0 \<noteq> CHR ''*''"
    "glob msk name = glob (CHR ''*'' # seg @ rest) (seg' @ rest')"
    unfolding after_star_def by blast
  have "rd msk m = rd rest 0" "rd name n = rd rest' 0"
    using d by (simp_all add: rd_append rd_Cons)
  with m n obtain p r c t where r: "rest = p # r" "rest' = c # t" "rd msk m = p" "rd name n = c" "p \<noteq> CHR ''*''"
    by (cases rest; cases rest') (auto simp: rd_def)
  have l: "m < length msk" "n < length name" using rd_inside [OF m(1)] rd_inside [OF n] by auto
  show ?thesis
  proof (cases "char_matches p c")
    case True
    have "after_star msk name (Suc m) (Suc n) a na"
      by (rule after_starI [of _ pre "seg @ [p]" r _ pre' "seg' @ [c]" t])
        (use d r True in \<open>auto simp: literal_at_def list_all2_appendI\<close>)
    with True r l show ?thesis by (simp add: match_compare_def)
  next
    case False
    then have "\<not> glob (seg @ rest) (seg' @ rest')"
      using r glob_literals [OF d(7), of rest rest'] by (auto simp: glob_char)
    moreover obtain x w where x: "seg' @ rest' = x # w" using r by (cases "seg' @ rest'") auto
    ultimately have "glob msk name = glob (CHR ''*'' # seg @ rest) w"
      using glob_star_step [OF x] d(9) by simp
    then have "after_star msk name a (Suc na) a (Suc na)"
      by (intro after_starI [of _ pre "[]" "seg @ rest" _ "pre' @ [x]" "[]" w]) (use d x in auto)
    with False r l show ?thesis by (simp add: match_compare_def)
  qed
qed

text \<open>The end of the mask after a star: either only question marks follow it, or the star absorbs one more.\<close>

lemma end_of_mask_after_star:
  assumes a: "after_star msk name m n a na" and c: "cstr msk" "cstr name"
    and m: "rd msk m = NUL" and n: "rd name n \<noteq> NUL"
  shows "m \<noteq> 0 \<and> (if rd msk (back_questions msk (m - 1)) = CHR ''*'' then glob msk name
    else after_star msk name a (Suc na) a (Suc na) \<and> rd msk a \<noteq> NUL \<and> rd msk a \<noteq> CHR ''*'' \<and> rd name (Suc na) \<noteq> NUL)"
proof -
  from a obtain pre seg rest pre' seg' rest' where d:
    "msk = pre @ CHR ''*'' # seg @ rest" "a = Suc (length pre)" "m = a + length seg"
    "name = pre' @ seg' @ rest'" "na = length pre'" "n = na + length seg'"
    "list_all2 literal_at seg seg'" "rd (seg @ rest) 0 \<noteq> CHR ''*''"
    "glob msk name = glob (CHR ''*'' # seg @ rest) (seg' @ rest')"
    unfolding after_star_def by blast
  have rest: "rest = []" using m rd_NUL_iff [OF c(1), of m] d by simp
  have n': "n < length name" using rd_inside [OF n] .
  then have rest': "rest' \<noteq> []" using d by auto
  have seg: "CHR ''*'' \<notin> set seg" using list_all2_literal_no_star [OF d(7)] by blast
  have bq: "rd msk (back_questions msk (m - 1)) = CHR ''*'' \<longleftrightarrow> set seg \<subseteq> {CHR ''?''}"
    using back_questions_split [OF seg d(1)] d(2,3) by simp
  have len: "length seg = length seg'" using d(7) by (rule list_all2_lengthD)
  show ?thesis
  proof (cases "set seg \<subseteq> {CHR ''?''}")
    case True
    then have "glob msk name" using d(9) len rest by (simp add: glob_star_questions)
    with bq True d show ?thesis by simp
  next
    case False
    then obtain p s where s: "seg = p # s" by (cases seg) auto
    with len obtain c s' where s': "seg' = c # s'" by (cases seg') auto
    have "\<not> glob (seg @ rest) (seg' @ rest')"
      using glob_literals [OF d(7), of "[]" rest'] rest rest' by simp
    then have "glob msk name = glob (CHR ''*'' # seg @ rest) (s' @ rest')"
      using glob_star_step [of seg' rest' c "s' @ rest'"] d(9) s' by simp
    then have "after_star msk name a (Suc na) a (Suc na)"
      by (intro after_starI [of _ pre "[]" "seg @ rest" _ "pre' @ [c]" "[]" "s' @ rest'"]) (use d s' in auto)
    moreover have "rd msk a = p" using d(1,2) s by (simp add: rd_append rd_Cons)
    moreover have "p \<noteq> NUL" using c(1) d(1) s by simp
    moreover have "p \<noteq> CHR ''*''" using seg s by auto
    moreover have "rd name (Suc na) \<noteq> NUL"
      using n' d(6) s' by (simp add: rd_NUL_iff [OF c(2)])
    ultimately show ?thesis using bq False d by simp
  qed
qed

lemma end_of_name:
  assumes inv: "match_inv msk name m n ma na" and c: "cstr msk" "cstr name"
    and m: "rd msk m \<noteq> NUL" "rd msk m \<noteq> CHR ''*''" and n: "rd name n = NUL"
  shows "\<not> glob msk name"
proof (cases ma)
  case None
  have "n = length name" using rd_NUL_iff [OF c(2), of n] n match_inv_bounds [OF inv] by simp
  then show ?thesis
    using inv None m rd_inside [OF m(1)]
    by (simp add: match_inv_def before_star_def drop_rd glob_char)
next
  case (Some a)
  with inv have "after_star msk name m n a na" by (simp add: match_inv_def)
  then obtain pre seg rest pre' seg' rest' where d:
    "msk = pre @ CHR ''*'' # seg @ rest" "a = Suc (length pre)" "m = a + length seg"
    "name = pre' @ seg' @ rest'" "na = length pre'" "n = na + length seg'"
    "list_all2 literal_at seg seg'" "rd (seg @ rest) 0 \<noteq> CHR ''*''"
    "glob msk name = glob (CHR ''*'' # seg @ rest) (seg' @ rest')"
    unfolding after_star_def by blast
  have "rest' = []" using rd_NUL_iff [OF c(2), of n] n d by simp
  moreover have "rd rest 0 = rd msk m" using d by (simp add: rd_append rd_Cons)
  with m obtain p r where "rest = p # r" "p \<noteq> CHR ''*''" by (cases rest) (auto simp: rd_def)
  moreover have "filter (\<lambda>p. p \<noteq> CHR ''*'') seg = seg"
    using list_all2_literal_no_star [OF d(7)] by (simp add: filter_id_conv)
  moreover have "length seg = length seg'" using d(7) by (rule list_all2_lengthD)
  ultimately show ?thesis
    using glob_min_length [of "CHR ''*'' # seg @ rest" "seg' @ rest'"] d(9) by auto
qed

text \<open>One turn of the loop keeps the invariant and moves forward, or returns the right answer.\<close>

definition ahead :: "string \<Rightarrow> string \<Rightarrow> nat \<Rightarrow> nat \<Rightarrow> nat \<times> nat" where
  "ahead msk name m na = (Suc (length name) - na, Suc (length msk) - m)"

lemma match_turn_settled:
  assumes inv: "match_inv msk name m n ma na" and c: "cstr msk" "cstr name" and s: "rd msk m \<noteq> CHR ''*''"
  shows "case match_turn msk name m n ma na of
      Return r \<Rightarrow> r = glob msk name | Outside \<Rightarrow> False
    | Again m' n' ma' na' \<Rightarrow> match_inv msk name m' n' ma' na' \<and>
        (na < na' \<or> na' = na \<and> m < m')"
proof -
  have l: "m \<le> length msk" "n \<le> length name" using match_inv_bounds [OF inv] by simp_all
  consider (ends) "rd msk m = NUL" "rd name n = NUL" | (mask_end) "rd msk m = NUL" "rd name n \<noteq> NUL"
    | (name_end) "rd msk m \<noteq> NUL" "rd name n = NUL" | (both) "rd msk m \<noteq> NUL" "rd name n \<noteq> NUL" by blast
  then show ?thesis
  proof cases
    case ends
    then have "m = length msk" "n = length name" using l c by (simp_all add: rd_NUL_iff)
    then have "glob msk name"
    proof (cases ma)
      case (Some a)
      with inv obtain pre seg rest pre' seg' rest' where "msk = pre @ CHR ''*'' # seg @ rest"
        "m = Suc (length pre) + length seg" "name = pre' @ seg' @ rest'" "n = length pre' + length seg'"
        "list_all2 literal_at seg seg'" "glob msk name = glob (CHR ''*'' # seg @ rest) (seg' @ rest')"
        by (auto simp: match_inv_def after_star_def)
      with \<open>m = length msk\<close> \<open>n = length name\<close> show ?thesis
        using glob_literals [of seg seg' "[]" "[]"] by (auto simp: glob_star intro: exI [of _ 0])
    qed (use inv in \<open>simp add: match_inv_def before_star_def\<close>)
    with ends l s show ?thesis by (simp add: match_turn_def Let_def)
  next
    case mask_end
    then have m: "m = length msk" and "n < length name" using l c by (auto simp: rd_NUL_iff)
    show ?thesis
    proof (cases ma)
      case None
      with inv m \<open>n < length name\<close> have "\<not> glob msk name" by (simp add: match_inv_def before_star_def)
      with None mask_end l s show ?thesis by (simp add: match_turn_def Let_def)
    next
      case (Some a)
      with inv have a: "after_star msk name m n a na" by (simp add: match_inv_def)
      note e = end_of_mask_after_star [OF a c mask_end]
      show ?thesis
      proof (cases "rd msk (back_questions msk (m - 1)) = CHR ''*''")
        case True
        with e Some mask_end l s show ?thesis by (simp add: match_turn_def Let_def)
      next
        case False
        with e have "after_star msk name a (Suc na) a (Suc na)" "rd msk a \<noteq> NUL" "rd msk a \<noteq> CHR ''*''" "rd name (Suc na) \<noteq> NUL"
          by simp_all
        from compare_after_star [OF this(1) c this(2-4)] False e Some mask_end l s show ?thesis
          by (auto simp: match_turn_def Let_def match_inv_def split: turn.splits)
      qed
    qed
  next
    case name_end
    then have "\<not> glob msk name" using end_of_name [OF inv c] s by simp
    moreover have "skip_stars msk m = m" using s by (subst skip_stars.simps) simp
    ultimately show ?thesis using name_end l s by (simp add: match_turn_def Let_def)
  next
    case both
    show ?thesis
    proof (cases ma)
      case None
      with inv have "before_star msk name m n" "na \<le> n" by (simp_all add: match_inv_def)
      from compare_before_star [OF this c both(1) s both(2)] None both l s show ?thesis
        by (auto simp: match_turn_def Let_def match_inv_def split: turn.splits)
    next
      case (Some a)
      with inv have "after_star msk name m n a na" by (simp add: match_inv_def)
      from compare_after_star [OF this c both(1) s both(2)] Some both l s show ?thesis
        by (auto simp: match_turn_def Let_def match_inv_def split: turn.splits)
    qed
  qed
qed


lemma match_turn_star:
  assumes "rd msk m = CHR ''*''" "m \<le> length msk" "skip_stars msk m \<le> length msk" "n \<le> length name"
  shows "match_turn msk name m n ma na =
         match_turn msk name (skip_stars msk m) n (Some (skip_stars msk m)) n"
proof -
  have "rd msk (skip_stars msk m) \<noteq> CHR ''*''" using skip_stars_split [OF assms(1)] by auto
  then show ?thesis using assms by (simp add: match_turn_def Let_def)
qed

lemma match_turn_step:
  assumes inv: "match_inv msk name m n ma na" and c: "cstr msk" "cstr name"
  shows "case match_turn msk name m n ma na of
      Return r \<Rightarrow> r = glob msk name | Outside \<Rightarrow> False
    | Again m' n' ma' na' \<Rightarrow> match_inv msk name m' n' ma' na' \<and> (na < na' \<or> na' = na \<and> m < m')"
proof (cases "rd msk m = CHR ''*''")
  case False
  then show ?thesis using match_turn_settled [OF inv c] by blast
next
  case True
  note b = match_inv_bounds [OF inv]
  note s = match_inv_star [OF inv True]
  have "skip_stars msk m \<le> length msk" using s match_inv_bounds by blast
  note eq = match_turn_star [OF True _ this, of n name ma na]
  from match_turn_settled [of msk name "skip_stars msk m" n "Some (skip_stars msk m)" n] s c b eq
  show ?thesis by (auto split: turn.splits)
qed

text \<open>
  Any loop that runs these turns ends with the answer of the specification: the restart position
  never goes back and, while it stays, the mask pointer advances.
\<close>

lemma match_loop_correct:
  assumes loop: "\<And>m n ma na. L m n ma na = (case match_turn msk name m n ma na of
      Return b \<Rightarrow> Some b | Outside \<Rightarrow> None | Again m' n' ma' na' \<Rightarrow> L m' n' ma' na')"
    and c: "cstr msk" "cstr name" and inv: "match_inv msk name m n ma na"
  shows "L m n ma na = Some (glob msk name)"
  using inv
proof (induction "(Suc (length name) - na, Suc (length msk) - m)" arbitrary: m n ma na
    rule: wf_induct_rule [OF wf_lex_prod [OF wf_less_than wf_less_than]])
  case (1 m na n ma)
  note step = match_turn_step [OF 1(2) c]
  show ?case
  proof (cases "match_turn msk name m n ma na")
    case (Return r)
    with step show ?thesis by (subst loop) simp
  next
    case Outside
    with step show ?thesis by simp
  next
    case (Again m' n' ma' na')
    with step have inv': "match_inv msk name m' n' ma' na'" and "na < na' \<or> na' = na \<and> m < m'" by simp_all
    moreover note match_inv_bounds [OF inv'] match_inv_bounds [OF 1(2)]
    ultimately have "L m' n' ma' na' = Some (glob msk name)" by (intro 1(1)) auto
    with Again show ?thesis by (subst loop) simp
  qed
qed

lemma match_inv_start: "match_inv msk name 0 0 None 0"
  by (simp add: match_inv_def before_star_def)

lemma match_is_glob [cstr_simps]: "cstr msk \<Longrightarrow> cstr name \<Longrightarrow> match msk name = Some (glob msk name)"
  unfolding match_def
  by (rule match_loop_correct [where L = "match_loop msk name"])
     (auto simp: match_inv_start intro: match_loop.simps)

lemma match_esc_turn_plain:
  assumes "CHR ''#'' \<notin> set msk" "CHR 0x5C \<notin> set msk"
  shows "match_esc_turn msk name m n ma na = match_turn msk name m n ma na"
proof -
  have r: "rd msk i \<noteq> CHR ''#''" "rd msk i \<noteq> CHR 0x5C" for i
    using assms rd_cases [of msk i] by auto
  have "match_esc_compare msk name i j k l = match_compare msk name i j k l" for i j k l
    by (auto simp: match_esc_compare_def match_compare_def r char_matches_def)
  then show ?thesis by (simp only: match_esc_turn_def match_turn_def)
qed

lemma match_esc_plain_loop:
  assumes "cstr msk" "cstr name" "CHR ''#'' \<notin> set msk" "CHR 0x5C \<notin> set msk"
  shows "match_esc msk name = Some (glob msk name)"
  unfolding match_esc_def
proof (rule match_loop_correct [where L = "match_esc_loop msk name"])
  show "match_esc_loop msk name m n ma na = (case match_turn msk name m n ma na of
      Return b \<Rightarrow> Some b | Outside \<Rightarrow> None
    | Again m' n' ma' na' \<Rightarrow> match_esc_loop msk name m' n' ma' na')" for m n ma na
    by (subst match_esc_loop.simps) (simp only: match_esc_turn_plain [OF assms(3,4)])
qed (use assms in \<open>simp_all add: match_inv_start\<close>)

subsection \<open>Collapsing\<close>

lemma glob_Cons_cong: "(\<And>t. glob ps t = glob qs t) \<Longrightarrow> glob (p # ps) s = glob (p # qs) s"
  by (auto simp: glob.simps(2) split: list.splits)

lemma glob_collapse: "glob (collapse msk) s = glob msk s"
proof (induction msk arbitrary: s)
  case (Cons c m)
  show ?case
  proof (cases "c = CHR ''*'' \<and> rd m 0 = CHR ''*''")
    case False
    then show ?thesis using Cons.IH glob_Cons_cong [of "collapse m" m c s] by auto
  next
    case True
    then obtain r where "m = CHR ''*'' # r" by (cases m) (auto simp: rd_def)
    with True Cons.IH show ?thesis by simp
  qed
qed simp

lemma set_collapse: "set (collapse s) \<subseteq> set s"
  by (induction s) (auto simp: rd_def)

lemma cstr_collapse [simp, intro]: "cstr s \<Longrightarrow> cstr (collapse s)"
  using set_collapse by (auto simp: cstr_def)

lemma length_collapse: "length (collapse s) \<le> length s"
  by (induction s) auto

fun no_double_star :: "string \<Rightarrow> bool" where
  "no_double_star [] = True"
| "no_double_star (c # s) \<longleftrightarrow> \<not> (c = CHR ''*'' \<and> rd s 0 = CHR ''*'') \<and> no_double_star s"

lemma rd_collapse: "rd (collapse s) 0 = rd s 0"
  by (induction s) (auto simp: rd_def)

lemma no_double_star_collapse: "no_double_star (collapse s)"
  by (induction s) (auto simp: rd_collapse)

lemma collapse_id: "no_double_star s \<Longrightarrow> collapse s = s"
  by (induction s) auto

lemma collapse_idem [simp]: "collapse (collapse s) = collapse s"
  by (rule collapse_id [OF no_double_star_collapse])

subsection \<open>Case-insensitive comparison\<close>

definition fold_case :: "string \<Rightarrow> string" where
  "fold_case s = map ToLower s"

lemma irccmp_Nil [simp]: "irccmp [] [] = 0"
  by (subst irccmp.simps) (simp add: rd_def)

lemma irccmp_Cons: "c \<noteq> NUL \<Longrightarrow> d \<noteq> NUL \<Longrightarrow>
    irccmp (c # s) (d # t) = (if ToLower c = ToLower d then irccmp s t else 1)"
  by (subst irccmp.simps) (simp add: rd_def ToUpper_eq_iff)

lemma irccmp_ends: "c \<noteq> NUL \<Longrightarrow> irccmp (c # s) [] = 1" "c \<noteq> NUL \<Longrightarrow> irccmp [] (c # s) = 1"
  by (subst irccmp.simps; simp add: rd_def ToUpper_eq_iff eq_commute [of NUL])+

lemma irccmp_iff: "cstr s \<Longrightarrow> cstr t \<Longrightarrow> irccmp s t = 0 \<longleftrightarrow> fold_case s = fold_case t"
  by (induction s t rule: list_induct2') (auto simp: irccmp_Cons irccmp_ends fold_case_def)

lemma irccmp_01: "cstr s \<Longrightarrow> cstr t \<Longrightarrow> irccmp s t = (if fold_case s = fold_case t then 0 else 1)"
  by (induction s t rule: list_induct2') (auto simp: irccmp_Cons irccmp_ends fold_case_def)

lemma fold_case_length: "fold_case s = fold_case t \<Longrightarrow> length s = length t"
  unfolding fold_case_def by (rule map_eq_imp_length_eq)

lemma irccmp_refl [simp]: "cstr s \<Longrightarrow> irccmp s s = 0"
  by (simp add: irccmp_iff)

lemma irccmp_sym: "cstr s \<Longrightarrow> cstr t \<Longrightarrow> irccmp s t = irccmp t s"
  by (simp add: irccmp_01)

lemma irccmp_trans: "cstr s \<Longrightarrow> cstr t \<Longrightarrow> cstr u \<Longrightarrow> irccmp s t = 0 \<Longrightarrow> irccmp t u = 0 \<Longrightarrow> irccmp s u = 0"
  by (simp add: irccmp_iff)


subsection \<open>Properties\<close>



text \<open>
  \<open>match_esc\<close> agrees with \<open>match\<close> on masks without backslash and hash sign, and there it is total
  and in bounds as well.
\<close>

theorem match_esc_plain:
  assumes "cstr msk" and "cstr name" and "CHR ''#'' \<notin> set msk" and "CHR 0x5C \<notin> set msk"
  shows "match_esc msk name = match msk name \<and> match_esc msk name = Some (glob msk name)"
  using match_esc_plain_loop [OF assms] match_is_glob [OF assms(1,2)] by simp

theorem match_esc_plain_witness:
  "match_esc ''*.example'' ''irc.example'' = match ''*.example'' ''irc.example''"
proof -
  have h: "cstr ''*.example''" "cstr ''irc.example''" "CHR ''#'' \<notin> set ''*.example''" "CHR 0x5C \<notin> set ''*.example''"
    by simp_all
  show ?thesis using match_esc_plain [OF h] by simp
qed

lemma single_turn_facts: "rd [c] 0 = c" "rd [c] (Suc 0) = NUL"
  by (simp_all add: rd_def)

text \<open>
  the escaping matcher reads the hash wildcard the wrong way round: \<open>match\<close> lets it stand for a
  digit, \<open>match_esc\<close> lets it stand for any character that is not one.
\<close>

theorem match_esc_hash_inverted:
  assumes "c \<noteq> NUL"
  shows "match_esc ''#'' [c] = Some (\<not> IsDigit c) \<and> match ''#'' [c] = Some (IsDigit c \<or> c = CHR ''#'')"
proof -
  have d: "IsDigit c \<Longrightarrow> ToLower c \<noteq> CHR ''#''" "ToLower (CHR ''#'') = CHR ''#''" "ToLower c = CHR ''#'' \<longleftrightarrow> c = CHR ''#''"
    by (auto simp: char_eq_nat_iff of_char_ToLower IsDigit_iff simp del: of_char_eq_iff split: if_splits)
  have e: "match_esc_turn ''#'' [c] 1 1 None 0 = Return True"
    by (simp add: match_esc_turn_def single_turn_facts)
  have "match_esc ''#'' [c] = Some (\<not> IsDigit c)"
  proof (cases "IsDigit c")
    case True
    have "match_esc_turn ''#'' [c] 0 0 None 0 = Return False"
      using True d assms by (auto simp: match_esc_turn_def match_esc_compare_def single_turn_facts Let_def)
    then show ?thesis using True by (simp add: match_esc_def match_esc_loop.simps)
  next
    case False
    have "match_esc_turn ''#'' [c] 0 0 None 0 = Again 1 1 None 0"
      using False assms by (simp add: match_esc_turn_def match_esc_compare_def single_turn_facts Let_def)
    then show ?thesis using False e by (simp add: match_esc_def match_esc_loop.simps)
  qed
  moreover have "match ''#'' [c] = Some (glob ''#'' [c])" using assms by (simp add: match_is_glob)
  moreover have "glob ''#'' [c] \<longleftrightarrow> IsDigit c \<or> c = CHR ''#''"
    using d by (auto simp: glob.simps char_matches_def)
  ultimately show ?thesis by simp
qed

theorem match_esc_hash_inverted_witness:
  "match_esc ''#'' ''7'' = Some False \<and> match ''#'' ''7'' = Some True \<and> match_esc ''#'' ''x'' = Some True"
proof -
  have h: "CHR ''7'' \<noteq> NUL" "CHR ''x'' \<noteq> NUL" by simp_all
  show ?thesis
    using match_esc_hash_inverted [OF h(1)] match_esc_hash_inverted [OF h(2)] by (simp add: IsDigit_iff)
qed

text \<open>
  an escaped star at the end of a mask is taken for a wildcard once an earlier star has been
  read: the mask matches a name that goes on after the literal star.
\<close>

theorem match_esc_trailing_star:
  "match_esc [CHR ''*'', CHR ''x'', CHR 0x5C, CHR ''*''] ''x*y'' = Some True \<and>
   match_esc [CHR ''x'', CHR 0x5C, CHR ''*''] ''x*y'' = Some False"
  by (simp add: match_esc_def match_esc_loop.simps match_esc_turn_def match_esc_compare_def rd_def
      skip_stars.simps Let_def ToLower_def ToLowerTab_def numeral_2_eq_2 numeral_3_eq_3)

text \<open>
  C38: \<open>collapse\<close> does not change what a mask matches, leaves no two adjacent stars, never lengthens the
  mask, and collapsing twice is collapsing once.
\<close>

theorem collapse_preserves_match:
  assumes "cstr msk" and "cstr name"
  shows "match (collapse msk) name = match msk name \<and> no_double_star (collapse msk) \<and>
         length (collapse msk) \<le> length msk \<and> collapse (collapse msk) = collapse msk"
  using assms by (simp add: match_is_glob glob_collapse no_double_star_collapse length_collapse)

theorem collapse_preserves_match_witness:
  "cstr ''a**?***b'' \<and> cstr ''axyzb'' \<and> collapse ''a**?***b'' = ''a*?*b'' \<and>
   match (collapse ''a**?***b'') ''axyzb'' = match ''a**?***b'' ''axyzb''"
proof -
  have h: "cstr ''a**?***b''" "cstr ''axyzb''" by simp_all
  show ?thesis using h collapse_preserves_match [OF h] by (simp add: rd_def)
qed

text \<open>
  \<open>irccmp\<close> answers 0 exactly when the two strings are equal under the RFC 1459 case folding, so it
  is an equivalence, and the answer never depends on the order of its arguments.
\<close>

theorem irccmp_correct:
  assumes "cstr s" and "cstr t"
  shows "irccmp s t = (if map ToLower s = map ToLower t then 0 else 1) \<and> irccmp s t = irccmp t s"
  using assms irccmp_sym [OF assms] by (simp add: irccmp_01 fold_case_def)

theorem irccmp_correct_witness: "irccmp ''Nick[]'' ''nick{}'' = 0 \<and> irccmp ''Nick'' ''Nicky'' = 1"
proof -
  have h: "cstr ''Nick[]''" "cstr ''nick{}''" "cstr ''Nick''" "cstr ''Nicky''" by simp_all
  show ?thesis
    using irccmp_correct [OF h(1,2)] irccmp_correct [OF h(3,4)] by (simp add: ToLower_def ToLowerTab_def)
qed

end
