(* ===== verification/DLink.thy ===== *)
theory DLink
  imports Ircd_Prelude
begin

section \<open>Intrusive doubly linked lists (\<^verbatim>\<open>src/tools.c\<close>, \<^verbatim>\<open>include/tools.h\<close>)\<close>

text \<open>
  \<^verbatim>\<open>dlink_node\<close> and \<^verbatim>\<open>dlink_list\<close> at the level of pointers: a node is named by its address, the heap maps
  addresses to nodes, the null pointer is \<open>None\<close>.  The operations are those of \<^verbatim>\<open>src/tools.c\<close>, assignment by
  assignment; the inline versions of \<^verbatim>\<open>include/tools.h\<close> differ in the tests of two of them.  Following a
  null pointer gives \<open>None\<close>.  Each operation is shown to implement one operation on the list of the
  node addresses.
\<close>

subsection \<open>Nodes, lists and the heap\<close>

type_synonym addr = nat

record 'a dlink_node =
  data :: 'a
  prev :: "addr option"
  nxt :: "addr option"

record dlink_list =
  head :: "addr option"
  tail :: "addr option"
  len :: "64 word"

type_synonym 'a heap = "addr \<Rightarrow> 'a dlink_node"

definition set_data :: "addr \<Rightarrow> 'a \<Rightarrow> 'a heap \<Rightarrow> 'a heap" where
  "set_data p v h = h(p := (h p)\<lparr>data := v\<rparr>)"

definition set_prev :: "addr \<Rightarrow> addr option \<Rightarrow> 'a heap \<Rightarrow> 'a heap" where
  "set_prev p v h = h(p := (h p)\<lparr>prev := v\<rparr>)"

definition set_nxt :: "addr \<Rightarrow> addr option \<Rightarrow> 'a heap \<Rightarrow> 'a heap" where
  "set_nxt p v h = h(p := (h p)\<lparr>nxt := v\<rparr>)"

definition empty_list :: dlink_list where
  "empty_list = \<lparr>head = None, tail = None, len = 0\<rparr>"

subsection \<open>The operations\<close>

definition dlinkAdd :: "'a \<Rightarrow> addr \<Rightarrow> 'a heap \<Rightarrow> dlink_list \<Rightarrow> 'a heap \<times> dlink_list" where
  "dlinkAdd d m h list =
    (let h1 = set_nxt m (head list) (set_prev m None (set_data m d h));
         (h2, list1) = (case head list of
             Some f \<Rightarrow> (set_prev f (Some m) h1, list)
           | None \<Rightarrow> (h1, list\<lparr>tail := Some m\<rparr>))
     in (h2, list1\<lparr>head := Some m, len := len list1 + 1\<rparr>))"

definition dlinkAddBefore ::
  "addr \<Rightarrow> 'a \<Rightarrow> addr \<Rightarrow> 'a heap \<Rightarrow> dlink_list \<Rightarrow> ('a heap \<times> dlink_list) option" where
  "dlinkAddBefore b d m h list =
    (if Some b = head list then Some (dlinkAdd d m h list)
     else
       (let h1 = set_data m d h in
        case prev (h1 b) of
          None \<Rightarrow> None
        | Some pb \<Rightarrow>
            (let h2 = set_nxt pb (Some m) h1;
                 h3 = set_prev m (prev (h2 b)) h2;
                 h4 = set_prev b (Some m) h3;
                 h5 = set_nxt m (Some b) h4
             in Some (h5, list\<lparr>len := len list + 1\<rparr>))))"

definition dlinkAddTail :: "'a \<Rightarrow> addr \<Rightarrow> 'a heap \<Rightarrow> dlink_list \<Rightarrow> 'a heap \<times> dlink_list" where
  "dlinkAddTail d m h list =
    (let h1 = set_prev m (tail list) (set_nxt m None (set_data m d h));
         (h2, list1) = (case tail list of
             Some l \<Rightarrow> (set_nxt l (Some m) h1, list)
           | None \<Rightarrow> (h1, list\<lparr>head := Some m\<rparr>))
     in (h2, list1\<lparr>tail := Some m, len := len list1 + 1\<rparr>))"

definition dlinkDelete :: "addr \<Rightarrow> 'a heap \<Rightarrow> dlink_list \<Rightarrow> 'a heap \<times> dlink_list" where
  "dlinkDelete m h list =
    (let (h1, list1) = (case nxt (h m) of
             Some n \<Rightarrow> (set_prev n (prev (h m)) h, list)
           | None \<Rightarrow> (h, list\<lparr>tail := prev (h m)\<rparr>));
         (h2, list2) = (case prev (h1 m) of
             Some p \<Rightarrow> (set_nxt p (nxt (h1 m)) h1, list1)
           | None \<Rightarrow> (h1, list1\<lparr>head := nxt (h1 m)\<rparr>))
     in (set_nxt m None (set_prev m None h2), list2\<lparr>len := len list2 - 1\<rparr>))"

text \<open>\<^verbatim>\<open>DLINK_FOREACH\<close> until the data is found; on a cyclic chain it may not return.\<close>

partial_function (option) find_from :: "'a heap \<Rightarrow> 'a \<Rightarrow> addr option \<Rightarrow> addr option option" where
  "find_from h d p =
    (case p of None \<Rightarrow> Some None
     | Some a \<Rightarrow> (if data (h a) = d then Some (Some a) else find_from h d (nxt (h a))))"

definition dlinkFind :: "'a heap \<Rightarrow> dlink_list \<Rightarrow> 'a \<Rightarrow> addr option option" where
  "dlinkFind h list d = find_from h d (head list)"

definition dlinkFindDelete ::
  "'a heap \<Rightarrow> dlink_list \<Rightarrow> 'a \<Rightarrow> (addr option \<times> 'a heap \<times> dlink_list) option" where
  "dlinkFindDelete h list d =
    (case find_from h d (head list) of
       None \<Rightarrow> None
     | Some None \<Rightarrow> Some (None, h, list)
     | Some (Some m) \<Rightarrow> (let (h', list') = dlinkDelete m h list in Some (Some m, h', list')))"

definition dlinkMoveList ::
  "'a heap \<Rightarrow> dlink_list \<Rightarrow> dlink_list \<Rightarrow> ('a heap \<times> dlink_list \<times> dlink_list) option" where
  "dlinkMoveList h fm to =
    (case head fm of
       None \<Rightarrow> Some (h, fm, to)
     | Some fh \<Rightarrow>
         (case head to of
            None \<Rightarrow> Some (h, fm\<lparr>head := None, tail := None, len := 0\<rparr>,
                          to\<lparr>head := head fm, tail := tail fm, len := len fm\<rparr>)
          | Some th \<Rightarrow>
              (case tail fm of
                 None \<Rightarrow> None
               | Some ft \<Rightarrow>
                   (let h1 = set_nxt ft (head to) h;
                        h2 = set_prev fh (prev (h1 th)) h1;
                        h3 = set_prev th (tail fm) h2
                    in Some (h3, fm\<lparr>head := None, tail := None, len := 0\<rparr>,
                             to\<lparr>head := head fm, len := len to + len fm\<rparr>)))))"

text \<open>The versions compiled inline test both ends.\<close>

definition dlinkAdd_inline :: "'a \<Rightarrow> addr \<Rightarrow> 'a heap \<Rightarrow> dlink_list \<Rightarrow> 'a heap \<times> dlink_list" where
  "dlinkAdd_inline d m h list =
    (let h1 = set_nxt m (head list) (set_prev m None (set_data m d h));
         (h2, list1) = (case head list of
             Some f \<Rightarrow> (set_prev f (Some m) h1, list)
           | None \<Rightarrow> (if tail list = None then (h1, list\<lparr>tail := Some m\<rparr>) else (h1, list)))
     in (h2, list1\<lparr>head := Some m, len := len list1 + 1\<rparr>))"

definition dlinkAddTail_inline :: "'a \<Rightarrow> addr \<Rightarrow> 'a heap \<Rightarrow> dlink_list \<Rightarrow> 'a heap \<times> dlink_list" where
  "dlinkAddTail_inline d m h list =
    (let h1 = set_prev m (tail list) (set_nxt m None (set_data m d h));
         (h2, list1) = (case tail list of
             Some l \<Rightarrow> (set_nxt l (Some m) h1, list)
           | None \<Rightarrow> (if head list = None then (h1, list\<lparr>head := Some m\<rparr>) else (h1, list)))
     in (h2, list1\<lparr>tail := Some m, len := len list1 + 1\<rparr>))"

subsection \<open>The list a structure represents\<close>

primrec first_or :: "addr list \<Rightarrow> addr option \<Rightarrow> addr option" where
  "first_or [] n = n"
| "first_or (x # xs) n = Some x"

primrec links :: "'a heap \<Rightarrow> addr option \<Rightarrow> addr list \<Rightarrow> addr option \<Rightarrow> bool" where
  "links h p [] n \<longleftrightarrow> True"
| "links h p (x # xs) n \<longleftrightarrow> prev (h x) = p \<and> nxt (h x) = first_or xs n \<and> links h (Some x) xs n"

definition last_or :: "addr option \<Rightarrow> addr list \<Rightarrow> addr option" where
  "last_or p xs = (if xs = [] then p else Some (last xs))"

definition dll :: "'a heap \<Rightarrow> dlink_list \<Rightarrow> addr list \<Rightarrow> bool" where
  "dll h list xs \<longleftrightarrow> distinct xs \<and> head list = first_or xs None \<and> tail list = last_or None xs \<and>
     len list = of_nat (length xs) \<and> links h None xs None"

lemma node_sets [simp]:
  "data (set_data p v h q) = (if q = p then v else data (h q))"
  "prev (set_data p v h q) = prev (h q)" "nxt (set_data p v h q) = nxt (h q)"
  "data (set_prev p w h q) = data (h q)"
  "prev (set_prev p w h q) = (if q = p then w else prev (h q))" "nxt (set_prev p w h q) = nxt (h q)"
  "data (set_nxt p w h q) = data (h q)"
  "prev (set_nxt p w h q) = prev (h q)" "nxt (set_nxt p w h q) = (if q = p then w else nxt (h q))"
  by (simp_all add: set_data_def set_prev_def set_nxt_def)

lemma last_or_simps [simp]: "last_or p [] = p" "last_or p (x # xs) = last_or (Some x) xs"
  by (simp_all add: last_or_def)

lemma last_or_append [simp]: "last_or p (xs @ ys) = last_or (last_or p xs) ys"
  by (simp add: last_or_def)

lemma first_or_append [simp]: "first_or (xs @ ys) n = first_or xs (first_or ys n)"
  by (cases xs) auto

lemma links_append [simp]:
  "links h p (xs @ ys) n \<longleftrightarrow> links h p xs (first_or ys n) \<and> links h (last_or p xs) ys n"
  by (induction xs arbitrary: p) (auto)

lemma links_cong:
  "(\<And>x. x \<in> set xs \<Longrightarrow> prev (h' x) = prev (h x) \<and> nxt (h' x) = nxt (h x)) \<Longrightarrow> links h' p xs n = links h p xs n"
  by (induction xs arbitrary: p) auto

lemma links_frame [simp]:
  "a \<notin> set xs \<Longrightarrow> links (set_prev a v h) p xs n = links h p xs n"
  "a \<notin> set xs \<Longrightarrow> links (set_nxt a v h) p xs n = links h p xs n"
  "links (set_data a d h) p xs n = links h p xs n"
  by (rule links_cong; auto)+

lemma first_or_None [simp]: "first_or xs None = None \<longleftrightarrow> xs = []"
  by (cases xs) auto

lemma last_or_None [simp]: "last_or None xs = None \<longleftrightarrow> xs = []"
  by (simp add: last_or_def)

lemma last_or_rev [simp]: "last_or p (xs @ [x]) = Some x"
  by simp


subsection \<open>The operations on represented lists\<close>

lemma dll_dlinkAdd:
  assumes "dll h l xs" "m \<notin> set xs" "dlinkAdd d m h l = (h', l')"
  shows "dll h' l' (m # xs)" "data (h' m) = d" "\<And>x. x \<noteq> m \<Longrightarrow> data (h' x) = data (h x)"
  using assms by (cases xs; auto simp: dll_def dlinkAdd_def Let_def last_or_def)+

lemma dll_dlinkAddTail:
  assumes "dll h l xs" "m \<notin> set xs" "dlinkAddTail d m h l = (h', l')"
  shows "dll h' l' (xs @ [m])" "data (h' m) = d" "\<And>x. x \<noteq> m \<Longrightarrow> data (h' x) = data (h x)"
  using assms by (cases xs rule: rev_cases; auto simp: dll_def dlinkAddTail_def Let_def)+

lemma dll_dlinkAddBefore:
  assumes "dll h l (as @ b # bs)" "m \<notin> set (as @ b # bs)"
  obtains h' l' where "dlinkAddBefore b d m h l = Some (h', l')" "dll h' l' (as @ m # b # bs)"
    "data (h' m) = d" "\<And>x. x \<noteq> m \<Longrightarrow> data (h' x) = data (h x)"
proof (cases "as = []")
  case True
  obtain h' l' where a: "dlinkAdd d m h l = (h', l')" by (cases "dlinkAdd d m h l")
  with True assms dll_dlinkAdd [OF assms(1,2) a] show thesis
    by (intro that [of h' l']) (simp_all add: dlinkAddBefore_def dll_def)
next
  case False
  then obtain as' p where as: "as = as' @ [p]" by (cases as rule: rev_cases) auto
  have nb: "Some b \<noteq> head l" using assms False by (cases as) (auto simp: dll_def)
  have pb: "prev (h b) = Some p" using assms(1) as by (simp add: dll_def)
  let ?h = "set_nxt m (Some b) (set_prev b (Some m) (set_prev m (Some p) (set_nxt p (Some m) (set_data m d h))))"
  have "dlinkAddBefore b d m h l = Some (?h, l\<lparr>len := len l + 1\<rparr>)"
    using nb pb assms as by (simp add: dlinkAddBefore_def Let_def)
  moreover have "dll ?h (l\<lparr>len := len l + 1\<rparr>) (as @ m # b # bs)"
    using assms as by (auto simp: dll_def)
  ultimately show thesis by (rule that) simp_all
qed

lemma dll_dlinkDelete:
  assumes "dll h l (as @ m # bs)" "dlinkDelete m h l = (h', l')"
  shows "dll h' l' (as @ bs)" "data (h' x) = data (h x)" "prev (h' m) = None" "nxt (h' m) = None"
  using assms
  by (cases as rule: rev_cases; cases bs; auto simp: dll_def dlinkDelete_def Let_def split: prod.splits)+

lemma find_from_links:
  "links h p xs None \<Longrightarrow> find_from h d (first_or xs None) = Some (find (\<lambda>x. data (h x) = d) xs)"
proof (induction xs arbitrary: p)
  case Nil show ?case by (simp add: find_from.simps)
next
  case (Cons x xs)
  then have "links h (Some x) xs None" by simp
  from Cons.IH [OF this] Cons.prems show ?case by (subst find_from.simps) simp
qed

lemma dll_dlinkFind: "dll h l xs \<Longrightarrow> dlinkFind h l d = Some (find (\<lambda>x. data (h x) = d) xs)"
  using find_from_links [of h None xs d] by (simp add: dlinkFind_def dll_def)

lemma dll_dlinkMoveList:
  assumes "dll h f xs" "dll h t ys" "set xs \<inter> set ys = {}"
  obtains h' f' t' where "dlinkMoveList h f t = Some (h', f', t')" "dll h' f' []" "dll h' t' (xs @ ys)"
    "\<And>x. data (h' x) = data (h x)"
proof (cases "xs = [] \<or> ys = []")
  case True
  then show thesis using assms
    by (cases xs; cases ys) (auto simp: dlinkMoveList_def dll_def intro!: that)
next
  case False
  then obtain xs' l y ys' where s: "xs = xs' @ [l]" "ys = y # ys'" by (metis neq_Nil_conv rev_exhaust)
  obtain x xs'' where x: "xs = x # xs''" using False by (cases xs) auto
  have d1: "head f = Some x" using assms(1) x by (simp add: dll_def)
  have d2: "tail f = Some l" using assms(1) s by (simp add: dll_def)
  have d3: "head t = Some y" "prev (h y) = None" using assms(2) s by (simp_all add: dll_def)
  have d4: "x \<noteq> y" using assms(3) x s by auto
  have d5: "l \<noteq> y" using assms(3) s by auto
  note d = d1 d2 d3 d4 d5
  let ?h = "set_prev y (Some l) (set_prev x (prev (set_nxt l (Some y) h y)) (set_nxt l (Some y) h))"
  have m1: "dlinkMoveList h f t = Some (?h, f\<lparr>head := None, tail := None, len := 0\<rparr>, t\<lparr>head := Some x, len := len t + len f\<rparr>)"
    using d by (simp add: dlinkMoveList_def Let_def)
  have m2: "dll ?h (t\<lparr>head := Some x, len := len t + len f\<rparr>) (xs @ ys)"
  proof -
    have "links ?h None xs (Some y)"
    proof (cases xs' )
      case Nil then show ?thesis using s x d assms by (auto simp: dll_def)
    next
      case (Cons z zs)
      then show ?thesis using s x d assms by (auto simp: dll_def)
    qed
    moreover have "x \<notin> set ys'" using assms(3) x s(2) by auto
    then have "links ?h (Some l) ys None" using assms s x d by (auto simp: dll_def)
    moreover have "distinct (xs @ ys)" using assms by (simp add: dll_def)
    moreover have "first_or (xs @ ys) None = Some x" using x by simp
    moreover have "tail t = last_or None (xs @ ys)" using assms(2) s(2) by (simp add: dll_def)
    moreover have "last_or None xs = Some l" "first_or ys None = Some y" using s by simp_all
    ultimately show ?thesis using assms(1,2) s(2) by (simp add: dll_def)
  qed
  show thesis by (rule that [OF m1 _ m2]) (simp_all add: dll_def)
qed


subsection \<open>The contract\<close>

text \<open>
  What the rest of the program uses of the lists: a heap and a list record represent a sequence of
  nodes, and every operation acts on that sequence and leaves the data of the other nodes alone.
  A structure that is disjoint from the nodes an operation touches is not changed.
\<close>

locale intrusive_list =
  fixes repr :: "'h \<Rightarrow> 'l \<Rightarrow> addr list \<Rightarrow> bool"
    and dat :: "'h \<Rightarrow> addr \<Rightarrow> 'a"
    and add :: "'a \<Rightarrow> addr \<Rightarrow> 'h \<Rightarrow> 'l \<Rightarrow> 'h \<times> 'l"
    and add_tail :: "'a \<Rightarrow> addr \<Rightarrow> 'h \<Rightarrow> 'l \<Rightarrow> 'h \<times> 'l"
    and del :: "addr \<Rightarrow> 'h \<Rightarrow> 'l \<Rightarrow> 'h \<times> 'l"
    and look :: "'h \<Rightarrow> 'l \<Rightarrow> 'a \<Rightarrow> addr option option"
  assumes add_repr: "repr h l xs \<Longrightarrow> m \<notin> set xs \<Longrightarrow> add d m h l = (h', l') \<Longrightarrow> repr h' l' (m # xs)"
    and add_data: "repr h l xs \<Longrightarrow> m \<notin> set xs \<Longrightarrow> add d m h l = (h', l') \<Longrightarrow>
      dat h' x = (if x = m then d else dat h x)"
    and add_frame: "repr h l xs \<Longrightarrow> m \<notin> set xs \<Longrightarrow> add d m h l = (h', l') \<Longrightarrow>
      repr h k ys \<Longrightarrow> set ys \<inter> set (m # xs) = {} \<Longrightarrow> repr h' k ys"
    and add_tail_repr: "repr h l xs \<Longrightarrow> m \<notin> set xs \<Longrightarrow> add_tail d m h l = (h', l') \<Longrightarrow> repr h' l' (xs @ [m])"
    and add_tail_data: "repr h l xs \<Longrightarrow> m \<notin> set xs \<Longrightarrow> add_tail d m h l = (h', l') \<Longrightarrow>
      dat h' x = (if x = m then d else dat h x)"
    and del_repr: "repr h l (as @ m # bs) \<Longrightarrow> del m h l = (h', l') \<Longrightarrow> repr h' l' (as @ bs)"
    and del_data: "repr h l (as @ m # bs) \<Longrightarrow> del m h l = (h', l') \<Longrightarrow> dat h' x = dat h x"
    and del_frame: "repr h l (as @ m # bs) \<Longrightarrow> del m h l = (h', l') \<Longrightarrow>
      repr h k ys \<Longrightarrow> set ys \<inter> set (as @ m # bs) = {} \<Longrightarrow> repr h' k ys"
    and look_repr: "repr h l xs \<Longrightarrow> look h l d = Some (find (\<lambda>x. dat h x = d) xs)"
    and repr_distinct: "repr h l xs \<Longrightarrow> distinct xs"
begin

lemma move_between:
  assumes "repr h l (as @ m # bs)" "repr h k ys" "set ys \<inter> set (as @ m # bs) = {}"
    "del m h l = (h1, l')" "add d m h1 k = (h2, k')"
  shows "repr h2 l' (as @ bs)" "repr h2 k' (m # ys)"
proof -
  have l: "repr h1 l' (as @ bs)" and k: "repr h1 k ys"
    using del_repr [OF assms(1,4)] del_frame [OF assms(1,4,2,3)] .
  have m: "m \<notin> set ys" using assms(3) by auto
  show "repr h2 k' (m # ys)" by (rule add_repr [OF k m assms(5)])
  have "set (as @ bs) \<inter> set (m # ys) = {}"
    using assms(3) repr_distinct [OF assms(1)] by auto
  then show "repr h2 l' (as @ bs)" by (rule add_frame [OF k m assms(5) l])
qed

lemma add_then_find:
  assumes "repr h l xs" "m \<notin> set xs" "add d m h l = (h', l')"
  shows "look h' l' d = Some (Some m)"
  using look_repr [OF add_repr [OF assms], of d] add_data [OF assms, of m] by simp

lemma add_tail_del_head:
  assumes "repr h l (x # xs)" "m \<notin> set (x # xs)" "add_tail d m h l = (h1, l1)" "del x h1 l1 = (h2, l2)"
  shows "repr h2 l2 (xs @ [m])"
  using del_repr [of h1 l1 "[]" x "xs @ [m]"] add_tail_repr [OF assms(1-3)] assms(4) by simp

end

lemma links_untouched:
  assumes "links h p ys n" "\<And>y. y \<in> set ys \<Longrightarrow> prev (h' y) = prev (h y) \<and> nxt (h' y) = nxt (h y)"
  shows "links h' p ys n"
  using assms links_cong [of ys h' h p n] by blast

lemma dll_untouched:
  assumes "dll h k ys" "\<And>y. y \<in> set ys \<Longrightarrow> prev (h' y) = prev (h y) \<and> nxt (h' y) = nxt (h y)"
  shows "dll h' k ys"
  using assms links_untouched [of h None ys None h'] by (simp add: dll_def)

lemma dlinkAdd_touches:
  assumes "dll h l xs" "dlinkAdd d m h l = (h', l')" "y \<notin> set (m # xs)"
  shows "prev (h' y) = prev (h y) \<and> nxt (h' y) = nxt (h y)"
  using assms by (cases xs) (auto simp: dll_def dlinkAdd_def Let_def)

lemma dlinkDelete_touches:
  assumes "dll h l (as @ m # bs)" "dlinkDelete m h l = (h', l')" "y \<notin> set (as @ m # bs)"
  shows "prev (h' y) = prev (h y) \<and> nxt (h' y) = nxt (h y)"
  using assms by (cases as rule: rev_cases; cases bs) (auto simp: dll_def dlinkDelete_def Let_def split: prod.splits)

interpretation dlink: intrusive_list dll "\<lambda>h a. data (h a)" dlinkAdd dlinkAddTail dlinkDelete dlinkFind
proof (unfold_locales, goal_cases)
  case 1 then show ?case by (rule dll_dlinkAdd(1))
next
  case 2 then show ?case using dll_dlinkAdd(2,3) by metis
next
  case 3 then show ?case by (intro dll_untouched [OF 3(4)] dlinkAdd_touches [OF 3(1,3)]) auto
next
  case 4 then show ?case by (rule dll_dlinkAddTail(1))
next
  case 5 then show ?case using dll_dlinkAddTail(2,3) by metis
next
  case 6 then show ?case by (rule dll_dlinkDelete(1))
next
  case 7 then show ?case by (rule dll_dlinkDelete(2))
next
  case 8 then show ?case by (intro dll_untouched [OF 8(3)] dlinkDelete_touches [OF 8(1,2)]) auto
next
  case 9 then show ?case by (rule dll_dlinkFind)
next
  case 10 then show ?case by (simp add: dll_def)
qed

text \<open>On a well-formed list the inline versions are the same functions.\<close>

lemma dlinkAdd_inline_eq: "dll h l xs \<Longrightarrow> dlinkAdd_inline d m h l = dlinkAdd d m h l"
  by (cases xs) (auto simp: dll_def dlinkAdd_inline_def dlinkAdd_def)

lemma dlinkAddTail_inline_eq: "dll h l xs \<Longrightarrow> dlinkAddTail_inline d m h l = dlinkAddTail d m h l"
  by (cases xs rule: rev_cases) (auto simp: dll_def dlinkAddTail_inline_def dlinkAddTail_def)

subsection \<open>Properties\<close>

text \<open>
  C35: taking a node out of one list and adding it to the head of another, the idiom with which a
  client moves from the unknown list to the list of its kind, leaves both lists well linked with
  exactly the expected nodes, when the two lists share none.
\<close>

theorem dlink_move_between:
  assumes "dll h l (as @ m # bs)" "dll h k ys" "set ys \<inter> set (as @ m # bs) = {}"
    "dlinkDelete m h l = (h1, l')" "dlinkAdd d m h1 k = (h2, k')"
  shows "dll h2 l' (as @ bs) \<and> dll h2 k' (m # ys)"
  using dlink.move_between [OF assms] by blast

theorem dlink_move_between_witness:
  "let h = (\<lambda>a. if a = 0 then \<lparr>data = ''a'', prev = None, nxt = Some 1\<rparr> else \<lparr>data = ''b'', prev = Some 0, nxt = None\<rparr>) :: string heap;
       l = \<lparr>head = Some 0, tail = Some 1, len = 2\<rparr>;
       (h1, l') = dlinkDelete 1 h l; (h2, k') = dlinkAdd ''b'' 1 h1 empty_list
   in dll h2 l' [0] \<and> dll h2 k' [1]"
proof -
  let ?h = "(\<lambda>a. if a = 0 then \<lparr>data = ''a'', prev = None, nxt = Some 1\<rparr> else \<lparr>data = ''b'', prev = Some 0, nxt = None\<rparr>) :: string heap"
  let ?l = "\<lparr>head = Some 0, tail = Some 1, len = 2\<rparr>"
  obtain h1 l' where d: "dlinkDelete 1 ?h ?l = (h1, l')" by (cases "dlinkDelete 1 ?h ?l")
  obtain h2 k' where a: "dlinkAdd ''b'' 1 h1 empty_list = (h2, k')" by (cases "dlinkAdd ''b'' 1 h1 empty_list")
  have "dll ?h ?l ([0] @ 1 # [])" "dll ?h empty_list []" by (simp_all add: dll_def empty_list_def)
  from dlink_move_between [OF this _ d a] d a show ?thesis by simp
qed

text \<open>
  \<open>dlinkMoveList\<close> puts all nodes of a list in front of another list and empties the first, for lists
  that share no node, whichever of them is empty.
\<close>

theorem dlinkMoveList_correct:
  assumes "dll h f xs" "dll h t ys" "set xs \<inter> set ys = {}"
  shows "\<exists>h' f' t'. dlinkMoveList h f t = Some (h', f', t') \<and> dll h' f' [] \<and> dll h' t' (xs @ ys)"
  using dll_dlinkMoveList [OF assms] by metis

theorem dlinkMoveList_correct_witness:
  "\<exists>h' f' t'. dlinkMoveList (\<lambda>a. \<lparr>data = a, prev = None, nxt = None\<rparr>)
     \<lparr>head = Some 3, tail = Some 3, len = 1\<rparr> \<lparr>head = Some 5, tail = Some 5, len = 1\<rparr> = Some (h', f', t') \<and>
     dll h' f' [] \<and> dll h' t' ([3] @ [5])"
  by (rule dlinkMoveList_correct) (simp_all add: dll_def)

text \<open>
  \<open>dlinkFindDelete\<close> takes out the first node with the data and returns it, or leaves the list as it
  is when no node has it; it always returns on a well-linked list.
\<close>

theorem dlinkFindDelete_correct:
  assumes "dll h l xs"
  shows "case find (\<lambda>x. data (h x) = d) xs of
      None \<Rightarrow> dlinkFindDelete h l d = Some (None, h, l)
    | Some m \<Rightarrow> \<exists>h' l'. dlinkFindDelete h l d = Some (Some m, h', l') \<and> dll h' l' (remove1 m xs)"
proof (cases "find (\<lambda>x. data (h x) = d) xs")
  case None
  then show ?thesis using dll_dlinkFind [OF assms, of d] by (simp add: dlinkFindDelete_def dlinkFind_def)
next
  case (Some m)
  then have "m \<in> set xs" by (auto simp: find_Some_iff)
  then obtain as bs where xs: "xs = as @ m # bs" "m \<notin> set as" using split_list_first by fastforce
  obtain h' l' where d: "dlinkDelete m h l = (h', l')" by (cases "dlinkDelete m h l")
  have "dll h' l' (as @ bs)" using dll_dlinkDelete(1) [of h l as m bs, OF _ d] assms xs by simp
  then show ?thesis using Some xs d dll_dlinkFind [OF assms, of d]
    by (simp add: dlinkFindDelete_def dlinkFind_def remove1_append)
qed

theorem dlinkFindDelete_correct_witness:
  "\<exists>h' l'. dlinkFindDelete (\<lambda>a. \<lparr>data = a, prev = None, nxt = None\<rparr>) \<lparr>head = Some 3, tail = Some 3, len = 1\<rparr> 3
     = Some (Some 3, h', l') \<and> dll h' l' []"
  using dlinkFindDelete_correct [of "\<lambda>a. \<lparr>data = a, prev = None, nxt = None\<rparr>"
      "\<lparr>head = Some 3, tail = Some 3, len = 1\<rparr>" "[3]" 3]
  by (simp add: dll_def)

end
