(* ===== verification/Hash_Tables.thy ===== *)
theory Hash_Tables
  imports DLink Irc_Match Irc_String
begin

section \<open>The hash tables (\<^verbatim>\<open>src/hash.c\<close>)\<close>

text \<open>
  The five tables of names: clients by nick, clients by id, channels, users by host, reserved
  channels.  Every table is an array of \<^verbatim>\<open>HASHSIZE\<close> pointers and the link field of its objects; an object
  is its address.  The chain walks are the code's pointer walks, so a walk on a broken chain need not
  return, and the theorems show that on the tables the operations build every walk returns.
  Every lookup moves what it finds to the front of its chain.
\<close>

subsection \<open>The hash function\<close>

abbreviation HASHSIZE :: nat where
  "HASHSIZE \<equiv> 65536"

fun fnv_loop :: "32 word \<Rightarrow> 32 word \<Rightarrow> string \<Rightarrow> 32 word" where
  "fnv_loop key hval [] = hval"
| "fnv_loop key hval (c # p) =
    (let hval = hval + (push_bit 1 hval + push_bit 4 hval + push_bit 7 hval + push_bit 8 hval + push_bit 24 hval);
         hval = hval XOR (word_of_nat (of_char (ToLower c)) XOR key)
     in fnv_loop key hval p)"

definition strhash :: "32 word \<Rightarrow> string \<Rightarrow> nat" where
  "strhash key name =
    (if name = [] then 0
     else let hval = fnv_loop key 0x811c9dc5 name
          in unat (drop_bit 16 hval XOR (hval AND (push_bit 16 1 - 1))))"

subsection \<open>Chains\<close>

record table =
  bucket :: "nat \<Rightarrow> addr option"
  link :: "addr \<Rightarrow> addr option"

definition set_link :: "addr \<Rightarrow> addr option \<Rightarrow> table \<Rightarrow> table" where
  "set_link x v t = t\<lparr>link := (link t)(x := v)\<rparr>"

definition set_bucket :: "nat \<Rightarrow> addr option \<Rightarrow> table \<Rightarrow> table" where
  "set_bucket b v t = t\<lparr>bucket := (bucket t)(b := v)\<rparr>"

text \<open>The code repeats these walks for every table with the table's own link field and names.\<close>

definition chain_add :: "nat \<Rightarrow> addr \<Rightarrow> table \<Rightarrow> table" where
  "chain_add hashv x t = set_bucket hashv (Some x) (set_link x (bucket t hashv) t)"

partial_function (option) chain_del_loop :: "table \<Rightarrow> addr \<Rightarrow> addr \<Rightarrow> table option" where
  "chain_del_loop t x tmp =
    (if link t tmp = Some x then Some (set_link x (Some x) (set_link tmp (link t x) t))
     else case link t tmp of None \<Rightarrow> Some t | Some tmp' \<Rightarrow> chain_del_loop t x tmp')"

definition chain_del :: "nat \<Rightarrow> addr \<Rightarrow> table \<Rightarrow> table option" where
  "chain_del hashv x t =
    (case bucket t hashv of
       None \<Rightarrow> Some t
     | Some tmp \<Rightarrow>
         (if tmp = x then Some (set_link x (Some x) (set_bucket hashv (link t x) t))
          else chain_del_loop t x tmp))"

partial_function (option) chain_find_loop ::
  "nat \<Rightarrow> (addr \<Rightarrow> bool) \<Rightarrow> table \<Rightarrow> addr \<Rightarrow> (addr option \<times> table) option" where
  "chain_find_loop hashv found t pv =
    (case link t pv of
       None \<Rightarrow> Some (None, t)
     | Some c \<Rightarrow>
         (if found c then
            Some (Some c, set_bucket hashv (Some c) (set_link c (bucket t hashv) (set_link pv (link t c) t)))
          else chain_find_loop hashv found t c))"

definition chain_find :: "nat \<Rightarrow> (addr \<Rightarrow> bool) \<Rightarrow> table \<Rightarrow> (addr option \<times> table) option" where
  "chain_find hashv found t =
    (case bucket t hashv of
       None \<Rightarrow> Some (None, t)
     | Some c \<Rightarrow> (if found c then Some (Some c, t) else chain_find_loop hashv found t c))"

subsection \<open>The tables\<close>

text \<open>What the tables read of a user host: its host name and the list of the user names on it.\<close>

record name_host =
  nh_name :: string
  icount :: int
  gcount :: int
  lcount :: int

record user_host =
  uh_host :: string
  uh_list :: "name_host list"

record hash_state =
  idTable :: table
  clientTable :: table
  channelTable :: table
  userhostTable :: table
  resvchannelTable :: table
  random_key :: "32 word"
  client_name :: "addr \<Rightarrow> string"
  client_id :: "addr \<Rightarrow> string"
  is_server :: "addr \<Rightarrow> bool"
  is_me :: "addr \<Rightarrow> bool"
  chname :: "addr \<Rightarrow> string"
  resv_name :: "addr \<Rightarrow> string"
  userhosts :: "addr \<Rightarrow> user_host"

definition empty_table :: "table \<Rightarrow> table" where
  "empty_table t = t\<lparr>bucket := (\<lambda>b. if b < HASHSIZE then None else bucket t b)\<rparr>"

definition init_hash :: "32 word \<Rightarrow> hash_state \<Rightarrow> hash_state" where
  "init_hash rand st = st\<lparr>random_key := rand mod 256,
     idTable := empty_table (idTable st), clientTable := empty_table (clientTable st),
     channelTable := empty_table (channelTable st), userhostTable := empty_table (userhostTable st),
     resvchannelTable := empty_table (resvchannelTable st)\<rparr>"

definition hash_add_client :: "addr \<Rightarrow> hash_state \<Rightarrow> hash_state" where
  "hash_add_client c st =
    st\<lparr>clientTable := chain_add (strhash (random_key st) (client_name st c)) c (clientTable st)\<rparr>"

definition hash_add_channel :: "addr \<Rightarrow> hash_state \<Rightarrow> hash_state" where
  "hash_add_channel c st =
    st\<lparr>channelTable := chain_add (strhash (random_key st) (chname st c)) c (channelTable st)\<rparr>"

definition hash_add_resv :: "addr \<Rightarrow> hash_state \<Rightarrow> hash_state" where
  "hash_add_resv c st =
    st\<lparr>resvchannelTable := chain_add (strhash (random_key st) (resv_name st c)) c (resvchannelTable st)\<rparr>"

definition hash_add_userhost :: "addr \<Rightarrow> hash_state \<Rightarrow> hash_state" where
  "hash_add_userhost u st =
    st\<lparr>userhostTable := chain_add (strhash (random_key st) (uh_host (userhosts st u))) u (userhostTable st)\<rparr>"

definition hash_add_id :: "addr \<Rightarrow> hash_state \<Rightarrow> hash_state" where
  "hash_add_id c st = st\<lparr>idTable := chain_add (strhash (random_key st) (client_id st c)) c (idTable st)\<rparr>"

definition hash_del_id :: "addr \<Rightarrow> hash_state \<Rightarrow> hash_state option" where
  "hash_del_id c st =
    map_option (\<lambda>t. st\<lparr>idTable := t\<rparr>) (chain_del (strhash (random_key st) (client_id st c)) c (idTable st))"

definition hash_del_client :: "addr \<Rightarrow> hash_state \<Rightarrow> hash_state option" where
  "hash_del_client c st =
    map_option (\<lambda>t. st\<lparr>clientTable := t\<rparr>)
      (chain_del (strhash (random_key st) (client_name st c)) c (clientTable st))"

definition hash_del_userhost :: "addr \<Rightarrow> hash_state \<Rightarrow> hash_state option" where
  "hash_del_userhost u st =
    map_option (\<lambda>t. st\<lparr>userhostTable := t\<rparr>)
      (chain_del (strhash (random_key st) (uh_host (userhosts st u))) u (userhostTable st))"

definition hash_del_channel :: "addr \<Rightarrow> hash_state \<Rightarrow> hash_state option" where
  "hash_del_channel c st =
    map_option (\<lambda>t. st\<lparr>channelTable := t\<rparr>) (chain_del (strhash (random_key st) (chname st c)) c (channelTable st))"

definition hash_del_resv :: "addr \<Rightarrow> hash_state \<Rightarrow> hash_state option" where
  "hash_del_resv c st =
    map_option (\<lambda>t. st\<lparr>resvchannelTable := t\<rparr>)
      (chain_del (strhash (random_key st) (resv_name st c)) c (resvchannelTable st))"

definition find_client :: "string \<Rightarrow> hash_state \<Rightarrow> (addr option \<times> hash_state) option" where
  "find_client name st =
    map_option (\<lambda>(r, t). (r, st\<lparr>clientTable := t\<rparr>))
      (chain_find (strhash (random_key st) name) (\<lambda>c. irccmp name (client_name st c) = 0) (clientTable st))"

definition hash_find_id :: "string \<Rightarrow> hash_state \<Rightarrow> (addr option \<times> hash_state) option" where
  "hash_find_id name st =
    map_option (\<lambda>(r, t). (r, st\<lparr>idTable := t\<rparr>))
      (chain_find (strhash (random_key st) name) (\<lambda>c. irccmp name (client_id st c) = 0) (idTable st))"

definition hash_find_channel :: "string \<Rightarrow> hash_state \<Rightarrow> (addr option \<times> hash_state) option" where
  "hash_find_channel name st =
    map_option (\<lambda>(r, t). (r, st\<lparr>channelTable := t\<rparr>))
      (chain_find (strhash (random_key st) name) (\<lambda>c. irccmp name (chname st c) = 0) (channelTable st))"

definition hash_find_resv :: "string \<Rightarrow> hash_state \<Rightarrow> (addr option \<times> hash_state) option" where
  "hash_find_resv name st =
    map_option (\<lambda>(r, t). (r, st\<lparr>resvchannelTable := t\<rparr>))
      (chain_find (strhash (random_key st) name) (\<lambda>c. irccmp name (resv_name st c) = 0) (resvchannelTable st))"

definition hash_find_userhost :: "string \<Rightarrow> hash_state \<Rightarrow> (addr option \<times> hash_state) option" where
  "hash_find_userhost host st =
    map_option (\<lambda>(r, t). (r, st\<lparr>userhostTable := t\<rparr>))
      (chain_find (strhash (random_key st) host) (\<lambda>u. irccmp host (uh_host (userhosts st u)) = 0) (userhostTable st))"

text \<open>
  \<open>s\<close> steps back one character from the dot and becomes a star; \<open>p\<close> is the position after the dot.
  Reading or writing in front of the buffer is \<open>None\<close>.
\<close>

fun index_of :: "char \<Rightarrow> string \<Rightarrow> nat option" where
  "index_of c [] = None"
| "index_of c (d # s) = (if d = c then Some 0 else map_option Suc (index_of c s))"

lemma index_of_less: "index_of c s = Some i \<Longrightarrow> i < length s"
  by (induction s arbitrary: i) (auto split: if_splits)

function masked_loop :: "string \<Rightarrow> nat \<Rightarrow> hash_state \<Rightarrow> (addr option \<times> hash_state) option" where
  "masked_loop buf p st =
    (case index_of CHR ''.'' (drop p buf) of
       None \<Rightarrow> Some (None, st)
     | Some i \<Rightarrow>
         (if p + i = 0 then None
          else let s = p + i - 1; buf' = buf[s := CHR ''*''] in
            case find_client (drop s buf') st of
              None \<Rightarrow> None
            | Some (Some server, st') \<Rightarrow> Some (Some server, st')
            | Some (None, st') \<Rightarrow> masked_loop buf' (s + 2) st'))"
  by pat_completeness auto
termination
  by (relation "measure (\<lambda>(buf, p, st). length buf - p)") (auto dest!: index_of_less)

declare masked_loop.simps [simp del]

definition hash_find_masked_server :: "string \<Rightarrow> hash_state \<Rightarrow> (addr option \<times> hash_state) option" where
  "hash_find_masked_server name st =
    (if rd name 0 = CHR ''*'' \<or> rd name 0 = CHR ''.'' then Some (None, st)
     else masked_loop (take 63 name) 0 st)"

definition find_server :: "string \<Rightarrow> hash_state \<Rightarrow> (addr option \<times> hash_state) option" where
  "find_server name st =
    (case (if IsDigit (rd name 0) \<and> length name = 3 then hash_find_id name st else Some (None, st)) of
       None \<Rightarrow> None
     | Some (Some c, st1) \<Rightarrow> Some (Some c, st1)
     | Some (None, st1) \<Rightarrow>
         (case chain_find (strhash (random_key st1) name)
                 (\<lambda>c. (is_server st1 c \<or> is_me st1 c) \<and> irccmp name (client_name st1 c) = 0) (clientTable st1) of
            None \<Rightarrow> None
          | Some (Some c, t) \<Rightarrow> Some (Some c, st1\<lparr>clientTable := t\<rparr>)
          | Some (None, t) \<Rightarrow> hash_find_masked_server name (st1\<lparr>clientTable := t\<rparr>)))"

datatype hash_type = HASH_TYPE_ID | HASH_TYPE_CHANNEL | HASH_TYPE_CLIENT | HASH_TYPE_USERHOST | HASH_TYPE_RESERVED

definition hash_get_bucket :: "hash_type \<Rightarrow> nat \<Rightarrow> hash_state \<Rightarrow> addr option" where
  "hash_get_bucket typ hashv st =
    (if HASHSIZE \<le> hashv then None
     else case typ of
       HASH_TYPE_ID \<Rightarrow> bucket (idTable st) hashv
     | HASH_TYPE_CHANNEL \<Rightarrow> bucket (channelTable st) hashv
     | HASH_TYPE_CLIENT \<Rightarrow> bucket (clientTable st) hashv
     | HASH_TYPE_USERHOST \<Rightarrow> bucket (userhostTable st) hashv
     | HASH_TYPE_RESERVED \<Rightarrow> bucket (resvchannelTable st) hashv)"

subsection \<open>Users per host\<close>

definition count_user_host :: "string \<Rightarrow> string \<Rightarrow> hash_state \<Rightarrow> ((int \<times> int \<times> int) option \<times> hash_state) option" where
  "count_user_host user host st =
    (case hash_find_userhost host st of
       None \<Rightarrow> None
     | Some (None, st') \<Rightarrow> Some (None, st')
     | Some (Some u, st') \<Rightarrow>
         Some (map_option (\<lambda>n. (gcount n, lcount n, icount n))
                 (find (\<lambda>n. irccmp user (nh_name n) = 0) (uh_list (userhosts st' u))), st'))"

definition set_userhost :: "addr \<Rightarrow> user_host \<Rightarrow> hash_state \<Rightarrow> hash_state" where
  "set_userhost u v st = st\<lparr>userhosts := (userhosts st)(u := v)\<rparr>"

text \<open>\<open>fresh\<close> is the address the block heap gives, zeroed; host names are cut to \<^verbatim>\<open>HOSTLEN\<close>.\<close>

definition find_or_add_userhost :: "addr \<Rightarrow> string \<Rightarrow> hash_state \<Rightarrow> (addr \<times> hash_state) option" where
  "find_or_add_userhost fresh host st =
    (case hash_find_userhost host st of
       None \<Rightarrow> None
     | Some (Some u, st') \<Rightarrow> Some (u, st')
     | Some (None, st') \<Rightarrow>
         Some (fresh, hash_add_userhost fresh
                 (set_userhost fresh \<lparr>uh_host = take 63 host, uh_list = []\<rparr> st')))"

fun bump_name :: "string \<Rightarrow> bool \<Rightarrow> bool \<Rightarrow> name_host list \<Rightarrow> name_host list option" where
  "bump_name user hasident global [] = None"
| "bump_name user hasident global (n # ns) =
    (if irccmp user (nh_name n) = 0 then
       Some (n\<lparr>gcount := gcount n + 1,
               icount := icount n + (if \<not> global \<and> hasident then 1 else 0),
               lcount := lcount n + (if \<not> global then 1 else 0)\<rparr> # ns)
     else map_option ((#) n) (bump_name user hasident global ns))"

definition add_user_host :: "addr \<Rightarrow> string \<Rightarrow> string \<Rightarrow> bool \<Rightarrow> hash_state \<Rightarrow> hash_state option" where
  "add_user_host fresh user0 host global st =
    (let hasident = (rd user0 0 \<noteq> CHR ''~''); user = (if hasident then user0 else drop 1 user0) in
     case find_or_add_userhost fresh host st of
       None \<Rightarrow> None
     | Some (u, st') \<Rightarrow>
         (let uh = userhosts st' u in
          Some (set_userhost u
            (case bump_name user hasident global (uh_list uh) of
               Some ns \<Rightarrow> uh\<lparr>uh_list := ns\<rparr>
             | None \<Rightarrow> uh\<lparr>uh_list := \<lparr>nh_name = take 10 user,
                                    icount = (if \<not> global \<and> hasident then 1 else 0),
                                    gcount = 1, lcount = (if \<not> global then 1 else 0)\<rparr> # uh_list uh\<rparr>) st')))"

fun drop_name :: "string \<Rightarrow> bool \<Rightarrow> bool \<Rightarrow> name_host list \<Rightarrow> name_host list option" where
  "drop_name user hasident global [] = None"
| "drop_name user hasident global (n # ns) =
    (if irccmp user (nh_name n) = 0 then
       (let n = n\<lparr>gcount := (if gcount n > 0 then gcount n - 1 else gcount n)\<rparr>;
            n = (if \<not> global then
                   n\<lparr>lcount := (if lcount n > 0 then lcount n - 1 else lcount n),
                     icount := (if hasident \<and> icount n > 0 then icount n - 1 else icount n)\<rparr>
                 else n)
        in Some (if gcount n = 0 \<and> lcount n = 0 then ns else n # ns))
     else map_option ((#) n) (drop_name user hasident global ns))"

definition delete_user_host :: "string \<Rightarrow> string \<Rightarrow> bool \<Rightarrow> hash_state \<Rightarrow> hash_state option" where
  "delete_user_host user0 host global st =
    (let hasident = (rd user0 0 \<noteq> CHR ''~''); user = (if hasident then user0 else drop 1 user0) in
     case hash_find_userhost host st of
       None \<Rightarrow> None
     | Some (None, st') \<Rightarrow> Some st'
     | Some (Some u, st') \<Rightarrow>
         (case drop_name user hasident global (uh_list (userhosts st' u)) of
            None \<Rightarrow> Some st'
          | Some ns \<Rightarrow>
              (let st'' = set_userhost u ((userhosts st' u)\<lparr>uh_list := ns\<rparr>) st'
               in if ns = [] then hash_del_userhost u st'' else Some st'')))"


subsection \<open>What a table represents\<close>

primrec lseg :: "(addr \<Rightarrow> addr option) \<Rightarrow> addr option \<Rightarrow> addr list \<Rightarrow> addr option \<Rightarrow> bool" where
  "lseg l p [] q \<longleftrightarrow> p = q"
| "lseg l p (x # xs) q \<longleftrightarrow> p = Some x \<and> lseg l (l x) xs q"

definition chains :: "(addr \<Rightarrow> nat) \<Rightarrow> table \<Rightarrow> (nat \<Rightarrow> addr list) \<Rightarrow> bool" where
  "chains kh t L \<longleftrightarrow>
     (\<forall>b. lseg (link t) (bucket t b) (L b) None \<and> distinct (L b) \<and> (\<forall>x\<in>set (L b). kh x = b))"

definition members_of :: "(addr \<Rightarrow> nat) \<Rightarrow> table \<Rightarrow> addr set \<Rightarrow> bool" where
  "members_of kh t A \<longleftrightarrow> (\<exists>L. chains kh t L \<and> A = (\<Union>b. set (L b)))"

lemma set_link_simps [simp]:
  "link (set_link x v t) = (link t)(x := v)" "bucket (set_link x v t) = bucket t"
  "link (set_bucket b v t) = link t" "bucket (set_bucket b v t) = (bucket t)(b := v)"
  by (simp_all add: set_link_def set_bucket_def)

lemma lseg_append [simp]: "lseg l p (xs @ ys) q \<longleftrightarrow> (\<exists>r. lseg l p xs r \<and> lseg l r ys q)"
  by (induction xs arbitrary: p) auto

lemma lseg_frame [simp]: "x \<notin> set xs \<Longrightarrow> lseg (l(x := v)) p xs q = lseg l p xs q"
  by (induction xs arbitrary: p) auto

lemma chainsI:
  assumes "chains kh t L" "\<And>b'. b' \<noteq> b \<Longrightarrow> bucket t' b' = bucket t b'"
    "\<And>y. kh y \<noteq> b \<Longrightarrow> link t' y = link t y"
    "lseg (link t') (bucket t' b) xs None" "distinct xs" "\<forall>x\<in>set xs. kh x = b"
  shows "chains kh t' (L(b := xs))"
proof -
  have eq: "lseg (link t') p ys q = lseg (link t) p ys q" if "\<forall>y\<in>set ys. link t' y = link t y" for p ys q
    using that by (induction ys arbitrary: p) auto
  have "lseg (link t') (bucket t' b') (L b') None" if "b' \<noteq> b" for b'
  proof -
    have "\<forall>y\<in>set (L b'). link t' y = link t y" using assms(1,3) that by (auto simp: chains_def)
    from eq [OF this] show ?thesis using assms(1,2) that by (simp add: chains_def)
  qed
  then show ?thesis using assms by (simp add: chains_def)
qed

lemma chainsD:
  assumes "chains kh t L" "L b = xs"
  shows "lseg (link t) (bucket t b) xs None" "distinct xs" "\<forall>x\<in>set xs. kh x = b"
  using assms unfolding chains_def by blast+

lemma chains_members: "chains kh t L \<Longrightarrow> members_of kh t (\<Union>b. set (L b))"
  by (auto simp: members_of_def)

lemma chain_add_chains:
  assumes "chains kh t L" "x \<notin> set (L (kh x))"
  shows "chains kh (chain_add (kh x) x t) (L(kh x := x # L (kh x)))"
  by (rule chainsI [OF assms(1)]) (use assms in \<open>auto simp: chain_add_def chains_def\<close>)

lemma unlink_chains:
  assumes "chains kh t L" "L b = as @ tmp # x # cs"
  shows "chains kh (set_link x (Some x) (set_link tmp (link t x) t)) (L(b := as @ tmp # cs))"
proof (rule chainsI [OF assms(1)])
  have l: "lseg (link t) (bucket t b) (as @ tmp # x # cs) None" "distinct (as @ tmp # x # cs)"
    "\<forall>y\<in>set (as @ tmp # x # cs). kh y = b"
    using chainsD [OF assms] .
  show "lseg (link (set_link x (Some x) (set_link tmp (link t x) t)))
     (bucket (set_link x (Some x) (set_link tmp (link t x) t)) b) (as @ tmp # cs) None"
    using l by auto
  show "distinct (as @ tmp # cs)" "\<forall>x\<in>set (as @ tmp # cs). kh x = b" using l by auto
  show "link (set_link x (Some x) (set_link tmp (link t x) t)) y = link t y" if "kh y \<noteq> b" for y
    using l that by auto
qed simp

lemma chain_del_loop_chains:
  assumes "chains kh t L" "L b = as @ tmp # bs" "x \<notin> set (as @ [tmp])"
  shows "\<exists>t'. chain_del_loop t x tmp = Some t' \<and> chains kh t' (L(b := remove1 x (L b)))"
  using assms
proof (induction bs arbitrary: as tmp)
  case Nil
  have "lseg (link t) (bucket t b) (as @ [tmp]) None" using chainsD(1) [OF Nil(1,2)] .
  then have "link t tmp = None" by auto
  moreover have "L(b := remove1 x (L b)) = L" using Nil by (auto simp: remove1_idem)
  ultimately show ?case using Nil by (simp add: chain_del_loop.simps)
next
  case (Cons c cs)
  have "lseg (link t) (bucket t b) (as @ tmp # c # cs) None" using chainsD(1) [OF Cons.prems(1,2)] .
  then have l: "link t tmp = Some c" by auto
  show ?case
  proof (cases "c = x")
    case True
    have r: "remove1 x (L b) = as @ tmp # cs" using Cons.prems True by (simp add: remove1_append)
    have "chain_del_loop t x tmp = Some (set_link x (Some x) (set_link tmp (link t x) t))"
      using l True by (subst chain_del_loop.simps) simp
    moreover have "chains kh (set_link x (Some x) (set_link tmp (link t x) t)) (L(b := remove1 x (L b)))"
      unfolding r by (rule unlink_chains [OF Cons.prems(1)]) (use Cons.prems(2) True in simp)
    ultimately show ?thesis by blast
  next
    case False
    have "chain_del_loop t x tmp = chain_del_loop t x c"
      using l False by (subst chain_del_loop.simps) simp
    then show ?thesis using Cons.IH [of "as @ [tmp]" c] Cons.prems False by auto
  qed
qed

lemma chain_del_chains:
  assumes "chains kh t L"
  shows "\<exists>t'. chain_del (kh x) x t = Some t' \<and> chains kh t' (L(kh x := remove1 x (L (kh x))))"
proof (cases "L (kh x)")
  case Nil
  then have "bucket t (kh x) = None" "L(kh x := remove1 x (L (kh x))) = L"
    using chainsD(1) [OF assms Nil] by auto
  then show ?thesis using assms by (simp add: chain_del_def)
next
  case (Cons y ys)
  then have b: "bucket t (kh x) = Some y" "lseg (link t) (link t y) ys None" "y \<notin> set ys" "distinct ys"
    using chainsD(1,2) [OF assms Cons] by auto
  show ?thesis
  proof (cases "y = x")
    case True
    have k: "\<forall>z\<in>set ys. kh z = kh x" using chainsD(3) [OF assms Cons] by (meson list.set_intros(2))
    have "chains kh (set_link x (Some x) (set_bucket (kh x) (link t x) t)) (L(kh x := ys))"
      by (rule chainsI [OF assms _ _ _ _ k]) (use b True in auto)
    then show ?thesis using b True Cons by (simp add: chain_del_def)
  next
    case False
    then show ?thesis using chain_del_loop_chains [OF assms, of "kh x" "[]" y ys x] b Cons
      by (simp add: chain_del_def)
  qed
qed

lemma to_front_chains:
  assumes "chains kh t L" "L b = as @ pv # c # cs"
  shows "chains kh (set_bucket b (Some c) (set_link c (bucket t b) (set_link pv (link t c) t)))
    (L(b := c # as @ pv # cs))"
proof (rule chainsI [OF assms(1)])
  have l: "lseg (link t) (bucket t b) (as @ pv # c # cs) None" "distinct (as @ pv # c # cs)"
    "\<forall>y\<in>set (as @ pv # c # cs). kh y = b"
    using chainsD [OF assms] .
  show "lseg (link (set_bucket b (Some c) (set_link c (bucket t b) (set_link pv (link t c) t))))
     (bucket (set_bucket b (Some c) (set_link c (bucket t b) (set_link pv (link t c) t))) b) (c # as @ pv # cs) None"
    using l by auto
  show "distinct (c # as @ pv # cs)" "\<forall>x\<in>set (c # as @ pv # cs). kh x = b" using l by auto
  show "link (set_bucket b (Some c) (set_link c (bucket t b) (set_link pv (link t c) t))) y = link t y"
    if "kh y \<noteq> b" for y using l that by auto
qed simp

lemma chain_find_loop_chains:
  assumes "chains kh t L" "L b = as @ pv # bs"
  shows "\<exists>t' L'. chain_find_loop b P t pv = Some (find P bs, t') \<and> chains kh t' L' \<and> (\<forall>b. set (L' b) = set (L b))"
  using assms
proof (induction bs arbitrary: as pv)
  case Nil
  have "lseg (link t) (bucket t b) (as @ [pv]) None" using chainsD(1) [OF Nil(1,2)] .
  then have "link t pv = None" by auto
  then show ?case using Nil by (auto simp: chain_find_loop.simps)
next
  case (Cons c cs)
  have "lseg (link t) (bucket t b) (as @ pv # c # cs) None" using chainsD(1) [OF Cons.prems(1,2)] .
  then have l: "link t pv = Some c" by auto
  show ?case
  proof (cases "P c")
    case True
    then have "chain_find_loop b P t pv =
        Some (find P (c # cs), set_bucket b (Some c) (set_link c (bucket t b) (set_link pv (link t c) t)))"
      using l by (subst chain_find_loop.simps) simp
    moreover have "\<forall>b'. set ((L(b := c # as @ pv # cs)) b') = set (L b')" using Cons.prems by auto
    ultimately show ?thesis using to_front_chains [OF Cons.prems] by blast
  next
    case False
    have "chain_find_loop b P t pv = chain_find_loop b P t c"
      using l False by (subst chain_find_loop.simps) simp
    then show ?thesis using Cons.IH [of "as @ [pv]" c] Cons.prems False by simp
  qed
qed

lemma chain_find_chains:
  assumes "chains kh t L"
  shows "\<exists>t' L'. chain_find b P t = Some (find P (L b), t') \<and> chains kh t' L' \<and> (\<forall>b. set (L' b) = set (L b))"
proof (cases "L b")
  case Nil
  then have "bucket t b = None" using chainsD(1) [OF assms Nil] by simp
  then show ?thesis using assms Nil by (auto simp: chain_find_def)
next
  case (Cons y ys)
  then have "bucket t b = Some y" using chainsD(1) [OF assms Cons] by simp
  then show ?thesis using chain_find_loop_chains [OF assms, of b "[]" y ys P] assms Cons
    by (auto simp: chain_find_def)
qed

subsection \<open>The tables as sets\<close>

lemma members_add:
  assumes "members_of kh t A" "x \<notin> A"
  shows "members_of kh (chain_add (kh x) x t) (insert x A)"
proof -
  obtain L where L: "chains kh t L" "A = (\<Union>b. set (L b))" using assms(1) by (auto simp: members_of_def)
  then have "x \<notin> set (L (kh x))" using assms(2) by auto
  from chain_add_chains [OF L(1) this] have "chains kh (chain_add (kh x) x t) (L(kh x := x # L (kh x)))" .
  from chains_members [OF this] have "members_of kh (chain_add (kh x) x t) (\<Union>b. set ((L(kh x := x # L (kh x))) b))" .
  moreover have "insert x A = (\<Union>b. set ((L(kh x := x # L (kh x))) b))" using L(2) by (auto split: if_splits)
  ultimately show ?thesis by (simp only:)
qed

lemma members_del:
  assumes "members_of kh t A"
  shows "\<exists>t'. chain_del (kh x) x t = Some t' \<and> members_of kh t' (A - {x})"
proof -
  obtain L where L: "chains kh t L" "A = (\<Union>b. set (L b))" using assms by (auto simp: members_of_def)
  let ?M = "L(kh x := remove1 x (L (kh x)))"
  have "\<And>b. distinct (L b)" "\<And>b. b \<noteq> kh x \<Longrightarrow> x \<notin> set (L b)" using L(1) by (auto simp: chains_def)
  then have e: "A - {x} = (\<Union>b. set (?M b))" unfolding L(2) by (auto split: if_splits)
  show ?thesis unfolding e using chain_del_chains [OF L(1), of x] chains_members by blast
qed

lemma members_find:
  assumes "members_of kh t A" "\<And>x. x \<in> A \<Longrightarrow> P x \<Longrightarrow> kh x = b"
  shows "\<exists>r t'. chain_find b P t = Some (r, t') \<and> members_of kh t' A \<and>
    (case r of None \<Rightarrow> \<forall>x\<in>A. \<not> P x | Some x \<Rightarrow> x \<in> A \<and> P x)"
proof -
  obtain L where L: "chains kh t L" "A = (\<Union>b. set (L b))" using assms(1) by (auto simp: members_of_def)
  obtain t' L' where f: "chain_find b P t = Some (find P (L b), t')" "chains kh t' L'" "\<forall>b. set (L' b) = set (L b)"
    using chain_find_chains [OF L(1), of b P] by blast
  have m: "members_of kh t' A" using f(2,3) L(2) by (auto simp: members_of_def)
  have in_b: "x \<in> set (L b)" if "x \<in> A" "P x" for x
    using that L assms(2) [OF that] by (auto simp: chains_def)
  have "case find P (L b) of None \<Rightarrow> \<forall>x\<in>A. \<not> P x | Some x \<Rightarrow> x \<in> A \<and> P x"
  proof (cases "find P (L b)")
    case None
    then have "\<forall>x\<in>A. \<not> P x" using in_b by (auto simp: find_None_iff)
    then show ?thesis using None by simp
  next
    case (Some x)
    then have "x \<in> set (L b)" "P x" by (auto simp: find_Some_iff)
    then show ?thesis using Some L(2) by auto
  qed
  with f(1) m show ?thesis by blast
qed


subsection \<open>The hash function respects the comparison\<close>

lemma fnv_loop_fold: "fold_case a = fold_case b \<Longrightarrow> fnv_loop k h a = fnv_loop k h b"
proof (induction a arbitrary: b h)
  case Nil then show ?case by (simp add: fold_case_def)
next
  case (Cons c a)
  then obtain d b' where "b = d # b'" "ToLower c = ToLower d" "fold_case a = fold_case b'"
    by (cases b) (auto simp: fold_case_def)
  then show ?case using Cons.IH by (simp add: Let_def)
qed

lemma strhash_fold: "fold_case a = fold_case b \<Longrightarrow> strhash k a = strhash k b"
  using fnv_loop_fold [of a b] by (auto simp: strhash_def fold_case_def)

lemma strhash_less: "strhash k s < HASHSIZE"
proof -
  have "unat (drop_bit 16 h XOR (h AND (push_bit 16 1 - 1))) < 2 ^ 16" for h :: "32 word"
  proof -
    have m: "push_bit 16 1 - 1 = (mask 16 :: 32 word)" by (simp add: mask_eq_exp_minus_1)
    have "drop_bit 16 h XOR (h AND mask 16) = take_bit 16 (drop_bit 16 h XOR (h AND mask 16))"
      by (rule bit_word_eqI) (auto simp: bit_take_bit_iff bit_xor_iff bit_and_iff bit_drop_bit_eq bit_mask_iff dest: bit_imp_le_length)
    then have "unat (drop_bit 16 h XOR (h AND mask 16)) = take_bit 16 (unat (drop_bit 16 h XOR (h AND mask 16)))"
      by (metis unsigned_take_bit_eq)
    then show ?thesis unfolding m using take_bit_nat_less_exp [of 16 "unat (drop_bit 16 h XOR (h AND mask 16))"] by simp
  qed
  then show ?thesis by (simp add: strhash_def Let_def)
qed

subsection \<open>The contract of a name table\<close>

definition unique_names :: "(addr \<Rightarrow> string) \<Rightarrow> addr set \<Rightarrow> bool" where
  "unique_names nm A \<longleftrightarrow> (\<forall>x\<in>A. \<forall>y\<in>A. irccmp (nm x) (nm y) = 0 \<longrightarrow> x = y)"

text \<open>
  What the rest of the server relies on: a table holds a set of objects, each under the name it
  has now; adding and deleting change the set, a lookup answers for the set whatever the case of
  the letters, and no operation changes a name.
\<close>

locale name_table =
  fixes holds :: "'s \<Rightarrow> addr set \<Rightarrow> bool"
    and name :: "'s \<Rightarrow> addr \<Rightarrow> string"
    and add :: "addr \<Rightarrow> 's \<Rightarrow> 's"
    and del :: "addr \<Rightarrow> 's \<Rightarrow> 's option"
    and look :: "string \<Rightarrow> 's \<Rightarrow> (addr option \<times> 's) option"
  assumes holds_cstr: "holds s A \<Longrightarrow> x \<in> A \<Longrightarrow> cstr (name s x)"
    and add_holds: "holds s A \<Longrightarrow> x \<notin> A \<Longrightarrow> cstr (name s x) \<Longrightarrow> holds (add x s) (insert x A)"
    and add_name: "name (add x s) = name s"
    and del_holds: "holds s A \<Longrightarrow> \<exists>s'. del x s = Some s' \<and> holds s' (A - {x}) \<and> name s' = name s"
    and look_holds: "holds s A \<Longrightarrow> cstr n \<Longrightarrow> \<exists>r s'. look n s = Some (r, s') \<and> holds s' A \<and> name s' = name s \<and>
      (case r of None \<Rightarrow> \<forall>x\<in>A. irccmp n (name s x) \<noteq> 0 | Some x \<Rightarrow> x \<in> A \<and> irccmp n (name s x) = 0)"
begin

lemma look_unique:
  assumes "holds s A" "unique_names (name s) A" "x \<in> A" "cstr n" "irccmp n (name s x) = 0"
  shows "\<exists>s'. look n s = Some (Some x, s') \<and> holds s' A \<and> name s' = name s"
proof -
  obtain r s' where l: "look n s = Some (r, s')" "holds s' A" "name s' = name s"
    "case r of None \<Rightarrow> \<forall>x\<in>A. irccmp n (name s x) \<noteq> 0 | Some x \<Rightarrow> x \<in> A \<and> irccmp n (name s x) = 0"
    using look_holds [OF assms(1,4)] by blast
  obtain y where y: "r = Some y" "y \<in> A" "irccmp n (name s y) = 0"
    using l(4) assms(3,5) by (cases r) auto
  have c: "cstr (name s x)" "cstr (name s y)" using holds_cstr assms y by auto
  then have "irccmp (name s x) (name s y) = 0" using y assms(4,5) by (simp add: irccmp_iff)
  then have "x = y" using assms(2,3) y by (auto simp: unique_names_def)
  with l y show ?thesis by blast
qed

lemma look_absent:
  assumes "holds s A" "cstr n" "\<forall>x\<in>A. irccmp n (name s x) \<noteq> 0"
  shows "\<exists>s'. look n s = Some (None, s') \<and> holds s' A \<and> name s' = name s"
proof -
  obtain r s' where l: "look n s = Some (r, s')" "holds s' A" "name s' = name s"
    "case r of None \<Rightarrow> \<forall>x\<in>A. irccmp n (name s x) \<noteq> 0 | Some x \<Rightarrow> x \<in> A \<and> irccmp n (name s x) = 0"
    using look_holds [OF assms(1,2)] by blast
  then show ?thesis using assms(3) by (cases r) auto
qed

lemma look_after_del:
  assumes "holds s A" "unique_names (name s) A" "x \<in> A" "cstr n" "irccmp n (name s x) = 0"
  shows "\<exists>s1 s2. del x s = Some s1 \<and> look n s1 = Some (None, s2) \<and> holds s2 (A - {x})"
proof -
  obtain s1 where d: "del x s = Some s1" "holds s1 (A - {x})" "name s1 = name s"
    using del_holds [OF assms(1)] by blast
  have "irccmp n (name s y) \<noteq> 0" if "y \<in> A - {x}" for y
  proof
    assume "irccmp n (name s y) = 0"
    then have "irccmp (name s x) (name s y) = 0"
      using that assms holds_cstr [OF assms(1)] by (auto simp: irccmp_iff)
    then show False using that assms(2,3) by (auto simp: unique_names_def)
  qed
  then show ?thesis using look_absent [OF d(2) assms(4)] d by auto
qed

lemma look_after_add:
  assumes "holds s A" "unique_names (name s) A" "x \<notin> A" "cstr (name s x)" "cstr n" "irccmp n (name s x) = 0"
    "\<forall>y\<in>A. irccmp (name s x) (name s y) \<noteq> 0"
  shows "\<exists>s'. look n (add x s) = Some (Some x, s') \<and> holds s' (insert x A)"
proof -
  have "unique_names (name (add x s)) (insert x A)"
    using assms holds_cstr [OF assms(1)] by (auto simp: unique_names_def add_name irccmp_iff)
  from look_unique [OF add_holds [OF assms(1,3,4)] this _ assms(5)] show ?thesis
    using assms(6) by (auto simp: add_name)
qed

end

subsection \<open>Every table keeps the contract\<close>

definition client_table :: "hash_state \<Rightarrow> addr set \<Rightarrow> bool" where
  "client_table st A \<longleftrightarrow> members_of (\<lambda>c. strhash (random_key st) (client_name st c)) (clientTable st) A \<and>
     (\<forall>c\<in>A. cstr (client_name st c))"

definition id_table :: "hash_state \<Rightarrow> addr set \<Rightarrow> bool" where
  "id_table st A \<longleftrightarrow> members_of (\<lambda>c. strhash (random_key st) (client_id st c)) (idTable st) A \<and>
     (\<forall>c\<in>A. cstr (client_id st c))"

definition channel_table :: "hash_state \<Rightarrow> addr set \<Rightarrow> bool" where
  "channel_table st A \<longleftrightarrow> members_of (\<lambda>c. strhash (random_key st) (chname st c)) (channelTable st) A \<and>
     (\<forall>c\<in>A. cstr (chname st c))"

definition resv_table :: "hash_state \<Rightarrow> addr set \<Rightarrow> bool" where
  "resv_table st A \<longleftrightarrow> members_of (\<lambda>c. strhash (random_key st) (resv_name st c)) (resvchannelTable st) A \<and>
     (\<forall>c\<in>A. cstr (resv_name st c))"

definition userhost_table :: "hash_state \<Rightarrow> addr set \<Rightarrow> bool" where
  "userhost_table st A \<longleftrightarrow> members_of (\<lambda>u. strhash (random_key st) (uh_host (userhosts st u))) (userhostTable st) A \<and>
     (\<forall>u\<in>A. cstr (uh_host (userhosts st u)))"

lemma strhash_irccmp: "cstr n \<Longrightarrow> cstr m \<Longrightarrow> irccmp n m = 0 \<Longrightarrow> strhash k m = strhash k n"
  using strhash_fold [of m n] by (simp add: irccmp_iff)

lemma table_find:
  assumes "members_of (\<lambda>c. strhash k (nm c)) t A \<and> (\<forall>c\<in>A. cstr (nm c))" "cstr n"
  obtains r t' where "\<forall>c\<in>A. cstr (nm c)" "chain_find (strhash k n) (\<lambda>c. irccmp n (nm c) = 0) t = Some (r, t')"
    "members_of (\<lambda>c. strhash k (nm c)) t' A"
    "case r of None \<Rightarrow> \<forall>x\<in>A. irccmp n (nm x) \<noteq> 0 | Some x \<Rightarrow> x \<in> A \<and> irccmp n (nm x) = 0"
proof -
  have "strhash k (nm c) = strhash k n" if "c \<in> A" "irccmp n (nm c) = 0" for c
    using assms that strhash_irccmp by blast
  from members_find [OF conjunct1 [OF assms(1)], of "\<lambda>c. irccmp n (nm c) = 0", OF this] show thesis
    using that assms(1) by blast
qed

interpretation clients: name_table client_table client_name hash_add_client hash_del_client find_client
proof (unfold_locales, goal_cases)
  case (2 s A x) then show ?case
    using members_add [of "\<lambda>c. strhash (random_key s) (client_name s c)" "clientTable s" A x]
    by (simp add: client_table_def hash_add_client_def)
next
  case (4 s A x) then show ?case
    using members_del [of "\<lambda>c. strhash (random_key s) (client_name s c)" "clientTable s" A x]
    by (auto simp: client_table_def hash_del_client_def)
next
  case (5 s A n) then show ?case unfolding client_table_def
    by (elim table_find) (auto simp: find_client_def)
qed (simp_all add: client_table_def hash_add_client_def)

interpretation ids: name_table id_table client_id hash_add_id hash_del_id hash_find_id
proof (unfold_locales, goal_cases)
  case (2 s A x) then show ?case
    using members_add [of "\<lambda>c. strhash (random_key s) (client_id s c)" "idTable s" A x]
    by (simp add: id_table_def hash_add_id_def)
next
  case (4 s A x) then show ?case
    using members_del [of "\<lambda>c. strhash (random_key s) (client_id s c)" "idTable s" A x]
    by (auto simp: id_table_def hash_del_id_def)
next
  case (5 s A n) then show ?case unfolding id_table_def
    by (elim table_find) (auto simp: hash_find_id_def)
qed (simp_all add: id_table_def hash_add_id_def)

interpretation channels: name_table channel_table chname hash_add_channel hash_del_channel hash_find_channel
proof (unfold_locales, goal_cases)
  case (2 s A x) then show ?case
    using members_add [of "\<lambda>c. strhash (random_key s) (chname s c)" "channelTable s" A x]
    by (simp add: channel_table_def hash_add_channel_def)
next
  case (4 s A x) then show ?case
    using members_del [of "\<lambda>c. strhash (random_key s) (chname s c)" "channelTable s" A x]
    by (auto simp: channel_table_def hash_del_channel_def)
next
  case (5 s A n) then show ?case unfolding channel_table_def
    by (elim table_find) (auto simp: hash_find_channel_def)
qed (simp_all add: channel_table_def hash_add_channel_def)

interpretation resvs: name_table resv_table resv_name hash_add_resv hash_del_resv hash_find_resv
proof (unfold_locales, goal_cases)
  case (2 s A x) then show ?case
    using members_add [of "\<lambda>c. strhash (random_key s) (resv_name s c)" "resvchannelTable s" A x]
    by (simp add: resv_table_def hash_add_resv_def)
next
  case (4 s A x) then show ?case
    using members_del [of "\<lambda>c. strhash (random_key s) (resv_name s c)" "resvchannelTable s" A x]
    by (auto simp: resv_table_def hash_del_resv_def)
next
  case (5 s A n) then show ?case unfolding resv_table_def
    by (elim table_find) (auto simp: hash_find_resv_def)
qed (simp_all add: resv_table_def hash_add_resv_def)

interpretation hosts: name_table userhost_table "\<lambda>st u. uh_host (userhosts st u)" hash_add_userhost hash_del_userhost hash_find_userhost
proof (unfold_locales, goal_cases)
  case (2 s A x) then show ?case
    using members_add [of "\<lambda>u. strhash (random_key s) (uh_host (userhosts s u))" "userhostTable s" A x]
    by (simp add: userhost_table_def hash_add_userhost_def)
next
  case (4 s A x) then show ?case
    using members_del [of "\<lambda>u. strhash (random_key s) (uh_host (userhosts s u))" "userhostTable s" A x]
    by (auto simp: userhost_table_def hash_del_userhost_def)
next
  case (5 s A n) then show ?case unfolding userhost_table_def
    by (elim table_find) (auto simp: hash_find_userhost_def)
qed (simp_all add: userhost_table_def hash_add_userhost_def)


subsection \<open>Servers by mask\<close>

lemma index_of_Some: "index_of c s = Some i \<Longrightarrow> i < length s \<and> s ! i = c"
  by (induction s arbitrary: i) (auto split: if_splits)

lemma masked_loop_correct:
  assumes "client_table st A" "cstr buf" "drop p buf = drop p (take 63 name)" "0 < p \<or> rd buf 0 \<noteq> CHR ''.''"
  shows "\<exists>r st'. masked_loop buf p st = Some (r, st') \<and> client_table st' A \<and>
    (\<forall>c. r = Some c \<longrightarrow> c \<in> A \<and>
      (\<exists>i<length name. name ! i = CHR ''.'' \<and> irccmp (CHR ''*'' # drop i (take 63 name)) (client_name st c) = 0))"
  using assms
proof (induction "length buf - p" arbitrary: buf p st rule: less_induct)
  case less
  show ?case
  proof (cases "index_of CHR ''.'' (drop p buf)")
    case None
    then show ?thesis using less.prems by (simp add: masked_loop.simps)
  next
    case (Some i)
    let ?q = "p + i"
    let ?b = "buf[?q - 1 := CHR ''*'']"
    have i: "?q < length buf" "buf ! ?q = CHR ''.''" using index_of_Some [OF Some] by auto
    have q0: "?q \<noteq> 0" using less.prems(4) i by (cases buf; cases p; cases i) (auto simp: rd_def)
    have dq: "drop ?q buf = drop ?q (take 63 name)"
      using arg_cong [OF less.prems(3), of "drop i"] by (simp add: add.commute)
    then have nm: "?q < length (take 63 name)" using i(1) by (metis drop_eq_Nil not_le)
    then have nq: "name ! ?q = CHR ''.''"
      using dq i hd_drop_conv_nth [of ?q buf] hd_drop_conv_nth [of ?q "take 63 name"] by simp
    have e: "drop (?q - 1) ?b = CHR ''*'' # drop ?q (take 63 name)"
      using q0 i(1) dq by (cases ?q) (simp_all add: drop_update_swap upd_conv_take_nth_drop)
    have c: "cstr ?b" using less.prems(2) by (auto simp: cstr_def dest: subsetD [OF set_update_subset_insert])
    then have c': "cstr (CHR ''*'' # drop ?q (take 63 name))" using e by (metis cstr_drop)
    obtain r st1 where f: "find_client (CHR ''*'' # drop ?q (take 63 name)) st = Some (r, st1)" "client_table st1 A"
        "client_name st1 = client_name st"
        "case r of None \<Rightarrow> True | Some x \<Rightarrow> x \<in> A \<and> irccmp (CHR ''*'' # drop ?q (take 63 name)) (client_name st x) = 0"
      using clients.look_holds [OF less.prems(1) c'] by (metis (no_types, lifting) option.case_eq_if)
    show ?thesis
    proof (cases r)
      case None
      have m: "masked_loop buf p st = masked_loop ?b (Suc ?q) st1"
        using Some q0 f(1) None e by (subst masked_loop.simps) (auto simp: Let_def)
      have "drop (Suc ?q) ?b = drop (Suc ?q) buf" using q0 by simp
      also have "\<dots> = drop (Suc ?q) (take 63 name)" using arg_cong [OF dq, of tl] by (simp add: tl_drop drop_Suc [symmetric])
      finally have d: "drop (Suc ?q) ?b = drop (Suc ?q) (take 63 name)" .
      have l: "length ?b - Suc ?q < length buf - p" using i by simp
      show ?thesis unfolding m using less.hyps [OF l f(2) c d] f(3) by simp
    next
      case (Some c)
      have m: "masked_loop buf p st = Some (r, st1)"
        using \<open>index_of _ _ = Some i\<close> q0 f(1) Some e by (subst masked_loop.simps) (auto simp: Let_def)
      show ?thesis unfolding m using f Some nm nq by auto
    qed
  qed
qed

lemma hash_find_masked_server_correct:
  assumes "client_table st A" "cstr name"
  shows "\<exists>r st'. hash_find_masked_server name st = Some (r, st') \<and> client_table st' A \<and>
    (\<forall>c. r = Some c \<longrightarrow> c \<in> A \<and>
      (\<exists>i<length name. name ! i = CHR ''.'' \<and> irccmp (CHR ''*'' # drop i (take 63 name)) (client_name st c) = 0))"
proof (cases "rd name 0 = CHR ''*'' \<or> rd name 0 = CHR ''.''")
  case True
  then show ?thesis using assms by (simp add: hash_find_masked_server_def)
next
  case False
  then have "rd (take 63 name) 0 \<noteq> CHR ''.''" by (cases name) (auto simp: rd_def)
  then show ?thesis using masked_loop_correct [OF assms(1) cstr_take [OF assms(2)], of 0 63 name] False
    by (simp add: hash_find_masked_server_def)
qed

subsection \<open>Users per host\<close>

lemma set_userhost_same_host:
  assumes "uh_host v = uh_host (userhosts st u)"
  shows "(\<lambda>x. uh_host (userhosts (set_userhost u v st) x)) = (\<lambda>x. uh_host (userhosts st x))"
    "userhost_table (set_userhost u v st) A = userhost_table st A"
proof -
  show e: "(\<lambda>x. uh_host (userhosts (set_userhost u v st) x)) = (\<lambda>x. uh_host (userhosts st x))"
    using assms by (auto simp: set_userhost_def)
  have "random_key (set_userhost u v st) = random_key st" "userhostTable (set_userhost u v st) = userhostTable st"
    by (simp_all add: set_userhost_def)
  then show "userhost_table (set_userhost u v st) A = userhost_table st A"
    unfolding userhost_table_def using fun_cong [OF e] by simp
qed

lemma members_of_cong:
  assumes "\<forall>x\<in>A. kh x = kh' x"
  shows "members_of kh t A = members_of kh' t A"
proof -
  have "chains kh t L = chains kh' t L" if "\<forall>x\<in>(\<Union>b. set (L b)). kh x = kh' x" for L
    using that unfolding chains_def by (metis UN_I UNIV_I)
  then show ?thesis using assms unfolding members_of_def by metis
qed

lemma set_userhost_new_host:
  assumes "u \<notin> A"
  shows "userhost_table (set_userhost u v st) A = userhost_table st A"
proof -
  have e: "\<forall>x\<in>A. userhosts (set_userhost u v st) x = userhosts st x" using assms by (auto simp: set_userhost_def)
  have k: "random_key (set_userhost u v st) = random_key st" "userhostTable (set_userhost u v st) = userhostTable st"
    by (simp_all add: set_userhost_def)
  have "members_of (\<lambda>x. strhash (random_key st) (uh_host (userhosts (set_userhost u v st) x))) (userhostTable st) A =
      members_of (\<lambda>x. strhash (random_key st) (uh_host (userhosts st x))) (userhostTable st) A"
    by (rule members_of_cong) (use e in simp)
  then show ?thesis using e unfolding userhost_table_def k by simp
qed

lemma hash_find_userhost_stores:
  "hash_find_userhost h st = Some (r, st') \<Longrightarrow> userhosts st' = userhosts st"
  by (auto simp: hash_find_userhost_def)

lemma bump_name_names: "bump_name u i g ns = Some ns' \<Longrightarrow> map nh_name ns' = map nh_name ns"
  by (induction ns arbitrary: ns') (auto split: if_splits)

lemma bump_drop_name:
  assumes "bump_name u i g ns = Some ns'" "\<forall>n\<in>set ns. 0 \<le> gcount n \<and> 0 \<le> lcount n \<and> 0 \<le> icount n \<and> 0 < gcount n"
  shows "drop_name u i g ns' = Some ns"
  using assms by (induction ns arbitrary: ns') (auto simp: Let_def split: if_splits)

lemma bump_name_None: "bump_name u i g ns = None \<longleftrightarrow> (\<forall>n\<in>set ns. irccmp u (nh_name n) \<noteq> 0)"
  by (induction ns) auto

lemma find_or_add_userhost_correct:
  assumes "userhost_table st A" "unique_names (\<lambda>u. uh_host (userhosts st u)) A" "cstr host" "length host \<le> 63" "fresh \<notin> A"
  shows "\<exists>u st'. find_or_add_userhost fresh host st = Some (u, st') \<and> userhost_table st' (insert u A) \<and>
    unique_names (\<lambda>u. uh_host (userhosts st' u)) (insert u A) \<and> irccmp host (uh_host (userhosts st' u)) = 0 \<and>
    (if u \<in> A then userhosts st' = userhosts st
     else u = fresh \<and> userhosts st' = (userhosts st)(u := \<lparr>uh_host = host, uh_list = []\<rparr>) \<and>
       (\<forall>x\<in>A. irccmp host (uh_host (userhosts st x)) \<noteq> 0))"
proof -
  obtain r st1 where l: "hash_find_userhost host st = Some (r, st1)" "userhost_table st1 A"
    "case r of None \<Rightarrow> \<forall>x\<in>A. irccmp host (uh_host (userhosts st x)) \<noteq> 0
      | Some x \<Rightarrow> x \<in> A \<and> irccmp host (uh_host (userhosts st x)) = 0"
    using hosts.look_holds [OF assms(1,3)] by blast
  have us: "userhosts st1 = userhosts st" using hash_find_userhost_stores [OF l(1)] .
  show ?thesis
  proof (cases r)
    case (Some u)
    then show ?thesis using l us assms(2) by (auto simp: find_or_add_userhost_def insert_absorb)
  next
    case None
    let ?v = "\<lparr>uh_host = host, uh_list = []\<rparr>"
    let ?s = "set_userhost fresh ?v st1"
    have h: "\<forall>x\<in>A. irccmp host (uh_host (userhosts st x)) \<noteq> 0" using l(3) None by simp
    have f: "find_or_add_userhost fresh host st = Some (fresh, hash_add_userhost fresh ?s)"
      using l(1) None assms(4) by (simp add: find_or_add_userhost_def)
    have u: "userhosts (hash_add_userhost fresh ?s) = (userhosts st)(fresh := ?v)"
      using us by (simp add: hash_add_userhost_def set_userhost_def)
    have "userhost_table ?s A" using set_userhost_new_host [OF assms(5)] l(2) by blast
    from hosts.add_holds [OF this assms(5)] have t: "userhost_table (hash_add_userhost fresh ?s) (insert fresh A)"
      using assms(3) by (simp add: set_userhost_def)
    have c: "cstr (uh_host (userhosts st x))" if "x \<in> A" for x using hosts.holds_cstr [OF assms(1) that] .
    have "unique_names (\<lambda>x. uh_host (userhosts (hash_add_userhost fresh ?s) x)) (insert fresh A)"
      unfolding u using assms(2,5) h c assms(3) by (auto simp: unique_names_def irccmp_iff)
    then show ?thesis unfolding f using t u assms(3,5) h by simp
  qed
qed

definition counts :: "name_host list \<Rightarrow> string \<Rightarrow> int \<times> int \<times> int" where
  "counts ns user = (case find (\<lambda>n. irccmp user (nh_name n) = 0) ns of
     None \<Rightarrow> (0, 0, 0) | Some n \<Rightarrow> (gcount n, lcount n, icount n))"

lemma count_user_host_at:
  assumes "userhost_table st A" "unique_names (\<lambda>u. uh_host (userhosts st u)) A" "cstr host"
    "u \<in> A" "irccmp host (uh_host (userhosts st u)) = 0"
  shows "\<exists>st'. count_user_host user host st =
    Some (map_option (\<lambda>n. (gcount n, lcount n, icount n)) (find (\<lambda>n. irccmp user (nh_name n) = 0) (uh_list (userhosts st u))), st')"
proof -
  obtain st' where "hash_find_userhost host st = Some (Some u, st')"
    using hosts.look_unique [OF assms(1,2,4,3,5)] by blast
  moreover from hash_find_userhost_stores [OF this] have "userhosts st' = userhosts st" .
  ultimately show ?thesis by (simp add: count_user_host_def)
qed

lemma find_bump_name:
  assumes "bump_name u i g ns = Some ns'"
  shows "\<exists>n. find (\<lambda>n. irccmp u (nh_name n) = 0) ns = Some n \<and> find (\<lambda>n. irccmp u (nh_name n) = 0) ns' =
    Some (n\<lparr>gcount := gcount n + 1, icount := icount n + (if \<not> g \<and> i then 1 else 0), lcount := lcount n + (if \<not> g then 1 else 0)\<rparr>)"
  using assms by (induction ns arbitrary: ns') (auto split: if_splits)

lemma add_user_host_stores:
  fixes user :: string
  assumes "userhost_table st A" "unique_names (\<lambda>u. uh_host (userhosts st u)) A" "cstr host" "length host \<le> 63" "fresh \<notin> A"
    and i_def: "i \<longleftrightarrow> rd user 0 \<noteq> CHR ''~''" and un_def: "un = (if rd user 0 \<noteq> CHR ''~'' then user else drop 1 user)"
  shows "\<exists>u st' old. add_user_host fresh user host g st = Some st' \<and> userhost_table st' (insert u A) \<and>
    unique_names (\<lambda>u. uh_host (userhosts st' u)) (insert u A) \<and> irccmp host (uh_host (userhosts st' u)) = 0 \<and>
    (if u \<in> A then old = uh_list (userhosts st u) \<and> irccmp host (uh_host (userhosts st u)) = 0
     else old = [] \<and> (\<forall>x\<in>A. irccmp host (uh_host (userhosts st x)) \<noteq> 0)) \<and>
    uh_list (userhosts st' u) = (case bump_name un i g old of Some ns \<Rightarrow> ns
      | None \<Rightarrow> \<lparr>nh_name = take 10 un, icount = (if \<not> g \<and> i then 1 else 0), gcount = 1, lcount = (if \<not> g then 1 else 0)\<rparr> # old)"
proof -
  obtain u st1 where f: "find_or_add_userhost fresh host st = Some (u, st1)" "userhost_table st1 (insert u A)"
    "unique_names (\<lambda>u. uh_host (userhosts st1 u)) (insert u A)" "irccmp host (uh_host (userhosts st1 u)) = 0"
    "if u \<in> A then userhosts st1 = userhosts st
     else u = fresh \<and> userhosts st1 = (userhosts st)(u := \<lparr>uh_host = host, uh_list = []\<rparr>) \<and>
       (\<forall>x\<in>A. irccmp host (uh_host (userhosts st x)) \<noteq> 0)"
    using find_or_add_userhost_correct [OF assms(1-5)] by blast
  let ?new = "case bump_name un i g (uh_list (userhosts st1 u)) of Some ns \<Rightarrow> ns
      | None \<Rightarrow> \<lparr>nh_name = take 10 un, icount = (if \<not> g \<and> i then 1 else 0), gcount = 1, lcount = (if \<not> g then 1 else 0)\<rparr>
          # uh_list (userhosts st1 u)"
  let ?s = "set_userhost u ((userhosts st1 u)\<lparr>uh_list := ?new\<rparr>) st1"
  have a: "add_user_host fresh user host g st = Some ?s"
    using f(1) by (simp add: add_user_host_def Let_def i_def un_def split: option.split)
  have e: "(\<lambda>x. uh_host (userhosts ?s x)) = (\<lambda>x. uh_host (userhosts st1 x))" "userhost_table ?s (insert u A)"
    using set_userhost_same_host [of "(userhosts st1 u)\<lparr>uh_list := ?new\<rparr>" st1 u] f(2) by simp_all
  have n: "uh_list (userhosts ?s u) = ?new" by (simp add: set_userhost_def)
  show ?thesis
    by (rule exI [of _ u], rule exI [of _ ?s], rule exI [of _ "uh_list (userhosts st1 u)"], intro conjI)
      (use a e n f fun_cong [OF e(1), of u] in \<open>auto split: if_splits\<close>)
qed


lemma find_map_count:
  "find (\<lambda>n. irccmp u (nh_name n) = 0) ns = None \<Longrightarrow> counts ns u = (0, 0, 0)"
  by (simp add: counts_def)

definition no_tilde :: "string \<Rightarrow> bool" where
  "no_tilde s \<longleftrightarrow> ToLower (rd s 0) \<noteq> ToLower CHR ''~''"

lemma no_tilde_differs: "cstr u \<Longrightarrow> cstr m \<Longrightarrow> no_tilde m \<Longrightarrow> irccmp (CHR ''~'' # u) m \<noteq> 0"
  by (cases m) (auto simp: irccmp_Cons irccmp_ends no_tilde_def rd_def)

text \<open>A small state for the examples: empty tables over a few named objects.\<close>

definition sample :: hash_state where
  "sample = (let t = \<lparr>bucket = (\<lambda>_. None), link = (\<lambda>_. None)\<rparr> in
     \<lparr>idTable = t, clientTable = t, channelTable = t, userhostTable = t, resvchannelTable = t, random_key = 77,
      client_name = (\<lambda>_. ''bob''), client_id = (\<lambda>_. ''00A''), is_server = (\<lambda>_. True), is_me = (\<lambda>_. False),
      chname = (\<lambda>_. ''#a''), resv_name = (\<lambda>_. ''#r''), userhosts = (\<lambda>_. \<lparr>uh_host = ''h'', uh_list = []\<rparr>)\<rparr>)"

lemma sample_empty: "members_of kh \<lparr>bucket = (\<lambda>_. None), link = (\<lambda>_. None)\<rparr> {}"
  unfolding members_of_def chains_def by (rule exI [of _ "\<lambda>_. []"]) simp

lemma sample_tables:
  "client_table (hash_add_client 1 sample) {1}" "id_table (hash_add_client 1 sample) {}" "userhost_table sample {}"
proof -
  have "client_table sample {}" using sample_empty by (simp add: client_table_def sample_def Let_def)
  from clients.add_holds [OF this, of 1] show "client_table (hash_add_client 1 sample) {1}"
    by (simp add: sample_def Let_def)
  show "id_table (hash_add_client 1 sample) {}" using sample_empty
    by (simp add: id_table_def hash_add_client_def sample_def Let_def)
  show "userhost_table sample {}" using sample_empty by (simp add: userhost_table_def sample_def Let_def)
qed

subsection \<open>Properties\<close>

text \<open>
  two names that the case-insensitive comparison takes for equal hash to the same bucket, whatever
  the random key, and every bucket index is inside the tables.
\<close>

theorem strhash_correct:
  assumes "cstr a" "cstr b" "irccmp a b = 0"
  shows "strhash key a = strhash key b \<and> strhash key a < HASHSIZE"
  using strhash_irccmp [of b a key] assms strhash_less by (simp add: irccmp_sym)

theorem strhash_correct_witness:
  "strhash 77 ''Nick[a]'' = strhash 77 ''nICK{A}'' \<and> strhash 77 ''Nick[a]'' < HASHSIZE"
  by (rule strhash_correct) (simp_all add: irccmp_iff fold_case_def, code_simp)

text \<open>
  C25: in a client table whose nicks differ, a nick change (take the client out, give it a nick no other
  client has, put it back) makes a lookup of the new nick, in whatever case, return that client, and
  leaves exactly the same clients in the table; every chain walk on the way returns.
\<close>

theorem nick_change_correct:
  assumes "client_table st A" "unique_names (client_name st) A" "c \<in> A" "cstr nick"
    "\<forall>d\<in>A - {c}. irccmp nick (client_name st d) \<noteq> 0" "cstr n" "irccmp n nick = 0"
  shows "\<exists>st1 st2. hash_del_client c st = Some st1 \<and>
    find_client n (hash_add_client c (st1\<lparr>client_name := (client_name st1)(c := nick)\<rparr>)) = Some (Some c, st2) \<and>
    client_table st2 A"
proof -
  obtain st1 where d: "hash_del_client c st = Some st1" "client_table st1 (A - {c})" "client_name st1 = client_name st"
    using clients.del_holds [OF assms(1)] by blast
  let ?s = "st1\<lparr>client_name := (client_name st1)(c := nick)\<rparr>"
  have m: "client_table ?s (A - {c})"
  proof -
    have "members_of (\<lambda>x. strhash (random_key st1) (client_name ?s x)) (clientTable st1) (A - {c}) =
        members_of (\<lambda>x. strhash (random_key st1) (client_name st1 x)) (clientTable st1) (A - {c})"
      by (rule members_of_cong) simp
    then show ?thesis using d(2) by (simp add: client_table_def)
  qed
  have u: "unique_names (client_name ?s) (A - {c})" using assms(2) d(3) by (auto simp: unique_names_def)
  have h: "\<forall>y\<in>A - {c}. irccmp (client_name ?s c) (client_name ?s y) \<noteq> 0" using assms(5) d(3) by auto
  obtain st2 where "find_client n (hash_add_client c ?s) = Some (Some c, st2)" "client_table st2 (insert c (A - {c}))"
    using clients.look_after_add [OF m u _ _ assms(6) _ h] assms(4,7) by auto
  then show ?thesis using d(1) assms(3) by (auto simp: insert_absorb)
qed

theorem nick_change_correct_witness:
  "\<exists>st1 st2. hash_del_client 1 (hash_add_client 1 sample) = Some st1 \<and>
    find_client ''ALICE'' (hash_add_client 1 (st1\<lparr>client_name := (client_name st1)(1 := ''Alice'')\<rparr>)) = Some (Some 1, st2) \<and>
    client_table st2 {1}"
  by (rule nick_change_correct [OF sample_tables(1)])
    (simp_all add: unique_names_def irccmp_iff fold_case_def, code_simp)



text \<open>
  when a user whose name does not start with a tilde is added on a host, a following count for that
  user and host gives the former global count plus one, and the former local and identd counts
  plus one when the user is local, the same otherwise.
\<close>

theorem add_user_host_counts:
  assumes "userhost_table st A" "unique_names (\<lambda>u. uh_host (userhosts st u)) A" "cstr host" "length host \<le> 63"
    "fresh \<notin> A" "cstr user" "length user \<le> 10" "rd user 0 \<noteq> CHR ''~''"
  shows "\<exists>st1 st2 r st'. add_user_host fresh user host global st = Some st1 \<and>
    count_user_host user host st = Some (r, st') \<and>
    (let (g, l, i) = (case r of None \<Rightarrow> (0, 0, 0) | Some c \<Rightarrow> c) in
     count_user_host user host st1 =
       Some (Some (g + 1, l + (if global then 0 else 1), i + (if global then 0 else 1)), st2))"
proof -
  have iu: "True \<longleftrightarrow> rd user 0 \<noteq> CHR ''~''" "user = (if rd user 0 \<noteq> CHR ''~'' then user else drop 1 user)"
    using assms(8) by simp_all
  obtain u st1 ns where a: "add_user_host fresh user host global st = Some st1" "userhost_table st1 (insert u A)"
    "unique_names (\<lambda>u. uh_host (userhosts st1 u)) (insert u A)" "irccmp host (uh_host (userhosts st1 u)) = 0"
    "if u \<in> A then ns = uh_list (userhosts st u) \<and> irccmp host (uh_host (userhosts st u)) = 0
     else ns = [] \<and> (\<forall>x\<in>A. irccmp host (uh_host (userhosts st x)) \<noteq> 0)"
    "uh_list (userhosts st1 u) = (case bump_name user True global ns of Some ns \<Rightarrow> ns
      | None \<Rightarrow> \<lparr>nh_name = take 10 user, icount = (if \<not> global \<and> True then 1 else 0), gcount = 1, lcount = (if \<not> global then 1 else 0)\<rparr> # ns)"
    using add_user_host_stores [OF assms(1-5) iu, of global] by blast
  obtain st2 where c1: "count_user_host user host st1 = Some (map_option (\<lambda>n. (gcount n, lcount n, icount n))
      (find (\<lambda>n. irccmp user (nh_name n) = 0) (uh_list (userhosts st1 u))), st2)"
    using count_user_host_at [OF a(2,3) assms(3) _ a(4)] by blast
  have before: "\<exists>r st'. count_user_host user host st = Some (r, st') \<and> counts ns user = (case r of None \<Rightarrow> (0, 0, 0) | Some c \<Rightarrow> c)"
  proof (cases "u \<in> A")
    case True
    have ns: "ns = uh_list (userhosts st u)" "irccmp host (uh_host (userhosts st u)) = 0" using a(5) True by simp_all
    obtain st' where c: "count_user_host user host st = Some (map_option (\<lambda>n. (gcount n, lcount n, icount n))
        (find (\<lambda>n. irccmp user (nh_name n) = 0) ns), st')"
      using count_user_host_at [OF assms(1-3) True ns(2), of user] unfolding ns(1) by blast
    have "counts ns user = (case map_option (\<lambda>n. (gcount n, lcount n, icount n)) (find (\<lambda>n. irccmp user (nh_name n) = 0) ns)
        of None \<Rightarrow> (0, 0, 0) | Some c \<Rightarrow> c)"
      by (simp add: counts_def split: option.split)
    with c show ?thesis by blast
  next
    case False
    then obtain st' where "hash_find_userhost host st = Some (None, st')"
      using hosts.look_absent [OF assms(1,3)] a(5) by auto
    then show ?thesis using False a(5) by (auto simp: count_user_host_def counts_def)
  qed
  have after: "find (\<lambda>n. irccmp user (nh_name n) = 0) (uh_list (userhosts st1 u)) \<noteq> None \<and>
      counts (uh_list (userhosts st1 u)) user =
      (fst (counts ns user) + 1, fst (snd (counts ns user)) + (if global then 0 else 1), snd (snd (counts ns user)) + (if global then 0 else 1))"
  proof (cases "bump_name user True global ns")
    case None
    then have "find (\<lambda>n. irccmp user (nh_name n) = 0) ns = None" by (auto simp: bump_name_None find_None_iff)
    then show ?thesis using None a(6) assms(6,7) by (simp add: counts_def)
  next
    case (Some ns')
    from find_bump_name [OF this] Some a(6) show ?thesis by (auto simp: counts_def)
  qed
  obtain n where n: "find (\<lambda>n. irccmp user (nh_name n) = 0) (uh_list (userhosts st1 u)) = Some n" using after by auto
  obtain g l i where gli: "counts ns user = (g, l, i)" by (cases "counts ns user")
  have "(gcount n, lcount n, icount n) = (g + 1, l + (if global then 0 else 1), i + (if global then 0 else 1))"
    using after n gli by (simp add: counts_def)
  with c1 n have c1: "count_user_host user host st1 =
      Some (Some (g + 1, l + (if global then 0 else 1), i + (if global then 0 else 1)), st2)" by simp
  obtain r st' where r: "count_user_host user host st = Some (r, st')" "counts ns user = (case r of None \<Rightarrow> (0, 0, 0) | Some c \<Rightarrow> c)"
    using before by blast
  show ?thesis
    by (rule exI [of _ st1], rule exI [of _ st2], rule exI [of _ r], rule exI [of _ st'])
      (simp only: a(1) r(1) r(2) [symmetric] gli c1 Let_def prod.case simp_thms)
qed

theorem add_user_host_counts_witness:
  "\<exists>st1 st2 r st'. add_user_host 5 ''joe'' ''h.org'' False sample = Some st1 \<and>
    count_user_host ''joe'' ''h.org'' sample = Some (r, st') \<and>
    (let (g, l, i) = (case r of None \<Rightarrow> (0, 0, 0) | Some c \<Rightarrow> c) in
     count_user_host ''joe'' ''h.org'' st1 =
       Some (Some (g + 1, l + (if False then 0 else 1), i + (if False then 0 else 1)), st2))"
  by (rule add_user_host_counts [OF sample_tables(3)]) (simp_all add: unique_names_def rd_def)

text \<open>
  a user whose name starts with a tilde (no identd answer) is recorded without the tilde but counted
  with it, so \<open>count_user_host\<close> does not see the user that was just added, and the limits per user and
  host never apply to it.
\<close>

theorem tilde_user_never_counted:
  assumes "userhost_table st A" "unique_names (\<lambda>u. uh_host (userhosts st u)) A" "cstr host" "length host \<le> 63"
    "fresh \<notin> A" "cstr user" "no_tilde user"
    "\<forall>u\<in>A. \<forall>n\<in>set (uh_list (userhosts st u)). cstr (nh_name n) \<and> no_tilde (nh_name n)"
  shows "\<exists>st1 st2. add_user_host fresh (CHR ''~'' # user) host global st = Some st1 \<and>
    count_user_host (CHR ''~'' # user) host st1 = Some (None, st2)"
proof -
  have iu: "False \<longleftrightarrow> rd (CHR ''~'' # user) 0 \<noteq> CHR ''~''"
    "user = (if rd (CHR ''~'' # user) 0 \<noteq> CHR ''~'' then CHR ''~'' # user else drop 1 (CHR ''~'' # user))"
    by (simp_all add: rd_def)
  obtain u st1 ns where a: "add_user_host fresh (CHR ''~'' # user) host global st = Some st1" "userhost_table st1 (insert u A)"
    "unique_names (\<lambda>u. uh_host (userhosts st1 u)) (insert u A)" "irccmp host (uh_host (userhosts st1 u)) = 0"
    "if u \<in> A then ns = uh_list (userhosts st u) \<and> irccmp host (uh_host (userhosts st u)) = 0
     else ns = [] \<and> (\<forall>x\<in>A. irccmp host (uh_host (userhosts st x)) \<noteq> 0)"
    "uh_list (userhosts st1 u) = (case bump_name user False global ns of Some ns \<Rightarrow> ns
      | None \<Rightarrow> \<lparr>nh_name = take 10 user, icount = (if \<not> global \<and> False then 1 else 0), gcount = 1, lcount = (if \<not> global then 1 else 0)\<rparr> # ns)"
    using add_user_host_stores [OF assms(1-5) iu, of global] by blast
  have ns: "\<forall>m\<in>set (map nh_name ns). cstr m \<and> no_tilde m" using a(5) assms(8) by (auto split: if_splits)
  have t: "cstr (take 10 user)" "no_tilde (take 10 user)" using assms(6,7) by (auto simp: no_tilde_def rd_def)
  have "\<forall>m\<in>set (map nh_name (uh_list (userhosts st1 u))). cstr m \<and> no_tilde m"
  proof (cases "bump_name user False global ns")
    case None then show ?thesis using a(6) ns t by simp
  next
    case (Some ns')
    then show ?thesis using a(6) ns bump_name_names [OF Some] by simp
  qed
  then have "find (\<lambda>n. irccmp (CHR ''~'' # user) (nh_name n) = 0) (uh_list (userhosts st1 u)) = None"
    using no_tilde_differs [OF assms(6)] by (auto simp: find_None_iff)
  then show ?thesis
    using a(1) count_user_host_at [OF a(2,3) assms(3) _ a(4), of "CHR ''~'' # user"] by auto
qed

theorem tilde_user_never_counted_witness:
  "\<exists>st1 st2. add_user_host 5 ''~joe'' ''h.org'' False sample = Some st1 \<and>
    count_user_host ''~joe'' ''h.org'' st1 = Some (None, st2)"
  by (rule tilde_user_never_counted [OF sample_tables(3)])
    (simp_all add: unique_names_def no_tilde_def rd_def, code_simp)

end
