(* ===== verification/Hostmask.thy ===== *)
theory Hostmask
  imports Irc_Match Irc_String "HOL-Library.Signed_Division"
begin

section \<open>Host masks and the address table (\<^verbatim>\<open>src/hostmask.c\<close>)\<close>

text \<open>
  The parsers for address masks, the address matchers, the hash functions of the access table and
  the lookups in it, for a build with \<^verbatim>\<open>IPV6\<close>.  A C \<^verbatim>\<open>int\<close> that the code takes from \<^verbatim>\<open>strtoul\<close> is an \<open>int\<close> in the
  range of 32 bits; a write or read outside a C array, and a shift by more than the width, is \<open>None\<close>.
  An IPv4 address is the host-order word, an IPv6 address its sixteen bytes.
\<close>

subsection \<open>Numbers in text\<close>

definition c_isspace :: "char \<Rightarrow> bool" where
  "c_isspace c \<longleftrightarrow> c = CHR '' '' \<or> (9 \<le> (of_char c :: int) \<and> (of_char c :: int) \<le> 13)"

definition dec_digit :: "char \<Rightarrow> bool" where
  "dec_digit c \<longleftrightarrow> 48 \<le> (of_char c :: int) \<and> (of_char c :: int) \<le> 57"

definition dec_value :: "string \<Rightarrow> int" where
  "dec_value ds = foldl (\<lambda>v c. 10 * v + (of_char c - 48)) 0 ds"

text \<open>\<^verbatim>\<open>strtoul(s, &after, 10)\<close> of the C library, with a 64-bit \<^verbatim>\<open>unsigned long\<close>.\<close>

definition strtoul10 :: "string \<Rightarrow> 64 word \<times> string" where
  "strtoul10 s =
    (let s1 = dropWhile c_isspace s;
         neg = (s1 \<noteq> [] \<and> hd s1 = CHR ''-'');
         s2 = (if s1 \<noteq> [] \<and> (hd s1 = CHR ''-'' \<or> hd s1 = CHR ''+'') then tl s1 else s1);
         ds = takeWhile dec_digit s2; v = dec_value ds
     in if ds = [] then (0, s)
        else (if 2 ^ 64 \<le> v then - 1 else if neg then - word_of_int v else word_of_int v, dropWhile dec_digit s2))"

definition to_c_int :: "64 word \<Rightarrow> int" where
  "to_c_int w = sint (ucast w :: 32 word)"

text \<open>A write at a C index, which may be negative.\<close>

definition write_at :: "int \<Rightarrow> 'a \<Rightarrow> 'a list \<Rightarrow> 'a list option" where
  "write_at i v xs = (if 0 \<le> i \<and> i < int (length xs) then Some (xs[nat i := v]) else None)"

subsection \<open>Parsing masks\<close>

datatype netmask = HM_HOST | HM_IPV4 "32 word" int | HM_IPV6 "8 word list" int

text \<open>
  The scan of \<open>try_parse_v4_netmask\<close>.  The outer option is a read outside the text, the inner one the
  answer that the text is a host name; \<open>pv\<close> is the character before the pointer and \<open>ds\<close> the texts
  the digit pointers point to.
\<close>

fun v4_scan :: "char option \<Rightarrow> string \<Rightarrow> string list \<Rightarrow> (string list \<times> int) option option" where
  "v4_scan pv [] ds = Some (Some (ds, 0))"
| "v4_scan pv (c # s) ds =
    (if dec_digit c then v4_scan (Some c) s ds
     else if c = CHR ''.'' then
       (if 4 \<le> length ds then Some None else v4_scan (Some c) s (ds @ [s]))
     else if c = CHR ''*'' then
       (if s \<noteq> [] \<or> ds = [] then Some None
        else case pv of None \<Rightarrow> None
          | Some q \<Rightarrow> if q \<noteq> CHR ''.'' then Some None else Some (Some (ds, (int (length ds) - 1) * 8)))
     else if c = CHR ''/'' then
       (case strtoul10 s of (v, after) \<Rightarrow>
          let bits = to_c_int v in
          if bits = 0 \<or> after \<noteq> [] then Some None
          else if bits > int (length ds) * 8 then Some None
          else Some (Some (ds, bits)))
     else Some None)"

fun zero_from :: "nat \<Rightarrow> int \<Rightarrow> 8 word list \<Rightarrow> 8 word list option" where
  "zero_from 0 n xs = Some xs"
| "zero_from (Suc k) n xs =
    (if n < 4 then (case write_at n 0 xs of None \<Rightarrow> None | Some xs' \<Rightarrow> zero_from k (n + 1) xs') else Some xs)"

definition v4_word :: "8 word list \<Rightarrow> 32 word" where
  "v4_word a = push_bit 24 (ucast (a ! 0)) OR push_bit 16 (ucast (a ! 1)) OR push_bit 8 (ucast (a ! 2)) OR ucast (a ! 3)"

definition try_parse_v4_netmask :: "string \<Rightarrow> netmask option" where
  "try_parse_v4_netmask text =
    (case v4_scan None text [text] of
       None \<Rightarrow> None
     | Some None \<Rightarrow> Some HM_HOST
     | Some (Some (ds, bits0)) \<Rightarrow>
         (let bits1 = (if length ds < 4 \<and> bits0 = 0 then int (length ds) * 8 else bits0);
              ds' = (if bits1 \<noteq> 0 then ds @ replicate (4 - length ds) ''0'' else ds);
              addb = map (\<lambda>d. ucast (fst (strtoul10 d)) :: 8 word) ds';
              bits = (if bits1 = 0 then 32 else bits1);
              i = bits sdiv 8;
              m = bits smod 8
          in case (if bits < 32 \<and> m \<noteq> 0 then
                     (if 0 \<le> i \<and> i < 4 then
                        write_at i ((addb ! nat i) AND word_of_int (- (2 ^ nat (8 - m)))) addb
                      else None)
                   else Some addb) of
               None \<Rightarrow> None
             | Some addb1 \<Rightarrow>
                 (let n = i + (if m \<noteq> 0 then 1 else 0) in
                  case zero_from (nat (4 - n)) n addb1 of
                    None \<Rightarrow> None
                  | Some addb2 \<Rightarrow> Some (HM_IPV4 (v4_word addb2) bits))))"

definition hex_value :: "char \<Rightarrow> int" where
  "hex_value c =
    (let n = of_char c :: int in
     if 48 \<le> n \<and> n \<le> 57 then n - 48 else if 65 \<le> n \<and> n \<le> 70 then n - 65 + 10 else n - 97 + 10)"

text \<open>The scan of \<open>try_parse_v6_netmask\<close>: the words, \<open>dp\<close>, \<open>nyble\<close>, \<open>finsert\<close>, \<open>bits\<close>, and whether the text was read to its end.\<close>

record v6_state =
  v6_d :: "int list"
  v6_dp :: nat
  v6_nyble :: nat
  v6_finsert :: "nat option"
  v6_bits :: int
  v6_at_end :: bool

definition shift_word :: "v6_state \<Rightarrow> v6_state" where
  "shift_word st = st\<lparr>v6_d := (v6_d st)[v6_dp st := drop_bit (4 * v6_nyble st) (v6_d st ! v6_dp st)]\<rparr>"

fun v6_scan :: "char option \<Rightarrow> string \<Rightarrow> v6_state \<Rightarrow> v6_state option option" where
  "v6_scan pv [] st = Some (Some (st\<lparr>v6_at_end := True\<rparr>))"
| "v6_scan pv (c # s) st =
    (if 8 \<le> v6_dp st then None
     else if IsXDigit c then
       (if v6_nyble st = 0 then Some None
        else let n = v6_nyble st - 1 in
          v6_scan (Some c) s
            (st\<lparr>v6_nyble := n, v6_d := (v6_d st)[v6_dp st := (v6_d st ! v6_dp st) OR push_bit (4 * n) (hex_value c)]\<rparr>))
     else if c = CHR '':'' then
       (if pv = Some (CHR '':'') then
          (if v6_finsert st \<noteq> None then Some None
           else v6_scan (Some c) s (st\<lparr>v6_finsert := Some (v6_dp st)\<rparr>))
        else
          (let st' = (shift_word st)\<lparr>v6_nyble := 4, v6_dp := Suc (v6_dp st)\<rparr> in
           if 8 \<le> v6_dp st' then Some None else v6_scan (Some c) s st'))
     else if c = CHR ''*'' then
       (if v6_finsert st \<noteq> None \<or> s \<noteq> [] \<or> v6_dp st = 0 then Some None
        else case pv of None \<Rightarrow> None
          | Some q \<Rightarrow> if q \<noteq> CHR '':'' then Some None
              else v6_scan (Some c) s (st\<lparr>v6_bits := int (v6_dp st) * 16\<rparr>))
     else if c = CHR ''/'' then
       (let st' = (shift_word st)\<lparr>v6_dp := Suc (v6_dp st)\<rparr> in
        case strtoul10 s of (v, after) \<Rightarrow>
          let bits = to_c_int v in
          if bits < 0 \<or> after \<noteq> [] then Some None
          else if bits > int (v6_dp st') * 4 \<and> \<not> (v6_finsert st' \<noteq> None \<and> bits \<le> 128) then Some None
          else Some (Some (st'\<lparr>v6_bits := bits\<rparr>)))
     else Some None)"

fun fill_gaps :: "nat \<Rightarrow> int list \<Rightarrow> nat \<Rightarrow> nat option \<Rightarrow> int \<Rightarrow> int list" where
  "fill_gaps 0 d nyble finsert deficit = []"
| "fill_gaps (Suc k) d nyble finsert deficit =
    (if Some nyble = finsert \<and> deficit \<noteq> 0 then 0 # fill_gaps k d nyble finsert (deficit - 1)
     else d ! nyble # fill_gaps k d (Suc nyble) finsert deficit)"

definition v6_bytes :: "int list \<Rightarrow> 8 word list" where
  "v6_bytes dc = concat (map (\<lambda>w. [word_of_int (drop_bit 8 w), word_of_int w]) dc)"

definition v6_start :: v6_state where
  "v6_start = \<lparr>v6_d = replicate 8 0, v6_dp = 0, v6_nyble = 4, v6_finsert = None, v6_bits = 128, v6_at_end = False\<rparr>"

definition try_parse_v6_netmask :: "string \<Rightarrow> netmask option" where
  "try_parse_v6_netmask text =
    (case v6_scan None text v6_start of
       None \<Rightarrow> None
     | Some None \<Rightarrow> Some HM_HOST
     | Some (Some st) \<Rightarrow>
         (if 8 \<le> v6_dp st then None
          else
            let st1 = shift_word st;
                dp = (if v6_at_end st then Suc (v6_dp st1) else v6_dp st1);
                bits = (if v6_finsert st1 = None \<and> v6_bits st1 = 0 then int dp * 16 else v6_bits st1);
                words = bits div 16 + (if bits mod 16 \<noteq> 0 then 1 else 0);
                dc = fill_gaps 8 (v6_d st1) 0 (v6_finsert st1) (words - int dp);
                dc1 = (if bits < 128 \<and> bits mod 16 \<noteq> 0 then
                         dc[nat (bits div 16) := (dc ! nat (bits div 16)) AND NOT (2 ^ nat (15 - bits mod 16) - 1)]
                       else dc);
                dc2 = take (nat words) dc1 @ replicate (8 - nat words) 0
            in Some (HM_IPV6 (v6_bytes dc2) bits)))"

definition parse_netmask :: "string \<Rightarrow> netmask option" where
  "parse_netmask text =
    (if CHR '':'' \<in> set text then try_parse_v6_netmask text
     else if CHR ''.'' \<in> set text then try_parse_v4_netmask text
     else Some HM_HOST)"

subsection \<open>Matching addresses\<close>

definition match_ipv6 :: "8 word list \<Rightarrow> 8 word list \<Rightarrow> int \<Rightarrow> bool option" where
  "match_ipv6 addr msk bits =
    (if bits < 0 \<or> 128 < bits then None
     else let n = nat bits div 8; m = nat bits mod 8 in
       Some (take n addr = take n msk \<and>
             (m \<noteq> 0 \<longrightarrow> (addr ! n) AND NOT (push_bit (8 - m) 1 - 1) = msk ! n)))"

definition v4_mask :: "int \<Rightarrow> 32 word option" where
  "v4_mask bits = (if 0 < bits \<and> bits \<le> 32 then Some (NOT (push_bit (nat (32 - bits)) 1 - 1)) else None)"

definition match_ipv4 :: "32 word \<Rightarrow> 32 word \<Rightarrow> int \<Rightarrow> bool option" where
  "match_ipv4 addr msk bits = map_option (\<lambda>k. addr AND k = msk) (v4_mask bits)"

definition mask_addr_v4 :: "32 word \<Rightarrow> int \<Rightarrow> 32 word option" where
  "mask_addr_v4 addr bits = map_option (\<lambda>k. addr AND k) (v4_mask bits)"

definition mask_addr_v6 :: "8 word list \<Rightarrow> nat \<Rightarrow> 8 word list option" where
  "mask_addr_v6 addr bits =
    (let n = bits div 8; m = bits mod 8 in
     if length addr \<le> n then None
     else Some (take n addr @ [(addr ! n) AND NOT (push_bit (8 - m) 1 - 1)] @ replicate (length addr - Suc n) 0))"


subsection \<open>Reading an octet back\<close>

lemma digit_code: "k < 10 \<Longrightarrow> (of_char (digit k) :: int) = 48 + int k"
  by (simp add: digit_def less_Suc_eq numeral_eq_Suc) (elim disjE; simp)

lemma digit_is_digit: "k < 10 \<Longrightarrow> dec_digit (digit k)"
  by (simp add: dec_digit_def digit_code)

lemma octet_text_digits: "n < 256 \<Longrightarrow> c \<in> set (octet_text n) \<Longrightarrow> dec_digit c"
  by (auto simp: octet_text_def digit_is_digit split: if_splits)

lemma decimal_digits: "100 * (n div 100) + 10 * (n div 10 mod 10) + n mod 10 = (n::nat)"
proof -
  have "n div 100 = n div 10 div 10" using div_mult2_eq [of n 10 10] by simp
  moreover have "10 * (n div 10 div 10) + n div 10 mod 10 = n div 10" by simp
  moreover have "10 * (n div 10) + n mod 10 = n" by simp
  ultimately show ?thesis by linarith
qed

lemma octet_text_value:
  assumes "n < 256"
  shows "dec_value (octet_text n) = int n"
proof -
  have "int (100 * (n div 100) + 10 * (n div 10 mod 10) + n mod 10) = int n" by (simp only: decimal_digits)
  moreover have "int (10 * (n div 10) + n mod 10) = int n" by (simp only: mult_div_mod_eq)
  ultimately have "100 * int (n div 100) + 10 * int (n div 10 mod 10) + int (n mod 10) = int n"
    "10 * int (n div 10) + int (n mod 10) = int n" by (simp_all only: of_nat_add of_nat_mult of_nat_numeral)
  then show ?thesis using assms by (simp add: octet_text_def dec_value_def digit_code del: mult_div_mod_eq)
qed

lemma octet_text_no_colon: "n < 256 \<Longrightarrow> CHR '':'' \<notin> set (octet_text n)"
  using octet_text_digits [of n "CHR '':''"] by (auto simp: dec_digit_def)

lemma octet_text_nonempty: "octet_text n \<noteq> []"
  by (simp add: octet_text_def)

lemma dec_digit_not_space: "dec_digit c \<Longrightarrow> \<not> c_isspace c \<and> c \<noteq> CHR ''-'' \<and> c \<noteq> CHR ''+'' \<and> c \<noteq> CHR ''.''"
  by (auto simp: dec_digit_def c_isspace_def)

lemma strtoul10_octet:
  assumes "n < 256" "rest = [] \<or> \<not> dec_digit (hd rest)"
  shows "strtoul10 (octet_text n @ rest) = (word_of_int (int n), rest)"
proof -
  obtain c cs where o: "octet_text n = c # cs" using octet_text_nonempty by (cases "octet_text n") auto
  have d: "\<forall>c\<in>set (octet_text n). dec_digit c" using octet_text_digits [OF assms(1)] by blast
  then have c: "\<not> c_isspace c" "c \<noteq> CHR ''-''" "c \<noteq> CHR ''+''" using dec_digit_not_space [of c] o by auto
  have t: "takeWhile dec_digit (octet_text n @ rest) = octet_text n" "dropWhile dec_digit (octet_text n @ rest) = rest"
    using d assms(2) by (cases rest; simp add: takeWhile_append2 dropWhile_append2)+
  have "dropWhile c_isspace (octet_text n @ rest) = octet_text n @ rest" using o c by simp
  moreover have "hd (octet_text n @ rest) = c" "octet_text n @ rest \<noteq> []" using o by simp_all
  ultimately show ?thesis
    using t c octet_text_value [OF assms(1)] assms(1) octet_text_nonempty [of n] by (simp add: strtoul10_def Let_def)
qed

lemma v4_scan_digits:
  "\<forall>c\<in>set ds. dec_digit c \<Longrightarrow> \<exists>pv'. v4_scan pv (ds @ s) acc = v4_scan pv' s acc"
  by (induction ds arbitrary: pv) auto

lemma v4_scan_octet_dot:
  assumes "n < 256" "length acc < 4"
  shows "\<exists>pv'. v4_scan pv (octet_text n @ CHR ''.'' # s) acc = v4_scan pv' s (acc @ [s])"
proof -
  obtain pv' where "v4_scan pv (octet_text n @ CHR ''.'' # s) acc = v4_scan pv' (CHR ''.'' # s) acc"
    using v4_scan_digits octet_text_digits [OF assms(1)] by blast
  moreover have "\<not> dec_digit CHR ''.''" by (simp add: dec_digit_def)
  ultimately show ?thesis using assms(2) by auto
qed

lemma v4_scan_octet_end:
  assumes "n < 256"
  shows "v4_scan pv (octet_text n) acc = Some (Some (acc, 0))"
  using v4_scan_digits [of "octet_text n" pv "[]" acc] octet_text_digits [OF assms] by auto

subsection \<open>Properties\<close>

text \<open>
  C37: an IPv4 address survives the way through its text: what \<open>inetntoa\<close> prints, \<open>parse_netmask\<close> reads back
  as the mask of exactly that address with 32 bits.
\<close>

theorem parse_netmask_inetntoa:
  "parse_netmask (inetntoa [a, b, c, d]) = Some (HM_IPV4 (v4_word [a, b, c, d]) 32)"
proof -
  have l: "unat x < 256" for x :: "8 word" using unsigned_less [of x] by simp
  let ?o = "\<lambda>x. octet_text (unat x)"
  let ?s1 = "?o b @ CHR ''.'' # ?o c @ CHR ''.'' # ?o d" and ?s2 = "?o c @ CHR ''.'' # ?o d"
  let ?t = "?o a @ CHR ''.'' # ?s1"
  have t: "inetntoa [a, b, c, d] = ?t" using l by (simp add: inetntoa_def IpQuadTab_nth)
  obtain p1 where 1: "v4_scan None ?t [?t] = v4_scan p1 ?s1 [?t, ?s1]"
    using v4_scan_octet_dot [OF l, of "[?t]"] by fastforce
  obtain p2 where 2: "v4_scan p1 ?s1 [?t, ?s1] = v4_scan p2 ?s2 [?t, ?s1, ?s2]"
    using v4_scan_octet_dot [OF l, of "[?t, ?s1]"] by fastforce
  obtain p3 where 3: "v4_scan p2 ?s2 [?t, ?s1, ?s2] = v4_scan p3 (?o d) [?t, ?s1, ?s2, ?o d]"
    using v4_scan_octet_dot [OF l, of "[?t, ?s1, ?s2]"] by fastforce
  have s: "v4_scan None ?t [?t] = Some (Some ([?t, ?s1, ?s2, ?o d], 0))"
    unfolding 1 2 3 by (rule v4_scan_octet_end [OF l])
  have nd: "\<not> dec_digit CHR ''.''" by (simp add: dec_digit_def)
  have w: "fst (strtoul10 (?o x @ rest)) = word_of_int (int (unat x))" if "rest = [] \<or> \<not> dec_digit (hd rest)" for x :: "8 word" and rest
    using strtoul10_octet [OF l that] by simp
  have u: "ucast (word_of_int (int (unat x)) :: 64 word) = x" for x :: "8 word"
    by (rule bit_word_eqI) (simp add: bit_simps)
  have m: "map (\<lambda>x. ucast (fst (strtoul10 x)) :: 8 word) [?t, ?s1, ?s2, ?o d] = [a, b, c, d]"
    using w [of _ a] w [of _ b] w [of _ c] w [of "[]" d] nd u by simp
  have colon: "CHR '':'' \<notin> set ?t" using octet_text_no_colon [OF l] by simp
  have "try_parse_v4_netmask ?t = Some (HM_IPV4 (v4_word [a, b, c, d]) 32)"
    unfolding try_parse_v4_netmask_def s option.case prod.case Let_def
    using m by (simp add: signed_divide_int_def signed_modulo_int_def)
  then show ?thesis unfolding t parse_netmask_def using colon by simp
qed

text \<open>
  a negative prefix length passes the check of \<open>try_parse_v4_netmask\<close>, and the loop that clears the
  unused octets then writes in front of the four-octet array.  The text can come from a channel
  operator as the host of a ban.
\<close>

theorem parse_netmask_negative_length:
  "parse_netmask ''1.2.3.4/-16'' = None"
proof -
  have w: "to_c_int (- 16) = - 16" by code_simp
  have s: "strtoul10 ''-16'' = (- 16, [])"
    by (simp add: strtoul10_def c_isspace_def dec_digit_def dec_value_def)
  have v: "v4_scan None ''1.2.3.4/-16'' [''1.2.3.4/-16''] =
      Some (Some ([''1.2.3.4/-16'', ''2.3.4/-16'', ''3.4/-16'', ''4/-16''], - 16))"
    by (simp add: dec_digit_def s w)
  have d: "strtoul10 ''1.2.3.4/-16'' = (1, ''.2.3.4/-16'')" "strtoul10 ''2.3.4/-16'' = (2, ''.3.4/-16'')"
    "strtoul10 ''3.4/-16'' = (3, ''.4/-16'')" "strtoul10 ''4/-16'' = (4, ''/-16'')"
    by (simp_all add: strtoul10_def c_isspace_def dec_digit_def dec_value_def)
  have "try_parse_v4_netmask ''1.2.3.4/-16'' = None"
    unfolding try_parse_v4_netmask_def v option.case prod.case Let_def
    by (simp add: signed_divide_int_def signed_modulo_int_def numeral_eq_Suc write_at_def)
  then show ?thesis by (simp add: parse_netmask_def)
qed

text \<open>
  \<open>try_parse_v6_netmask\<close> keeps one bit too many when it clears the unused bits of a word, so a mask
  whose next bit is set, here with 36 bits, matches no address at all, not even its own network.
\<close>

theorem parse_netmask_ipv6_extra_bit:
  "\<exists>m. parse_netmask ''2001:db8:f800::/36'' = Some (HM_IPV6 m 36) \<and> (\<forall>a. match_ipv6 a m 36 = Some False)"
proof -
  have w: "to_c_int 36 = 36" by code_simp
  have s: "strtoul10 ''36'' = (36, [])"
    by (simp add: strtoul10_def c_isspace_def dec_digit_def dec_value_def)
  have v: "v6_scan None ''2001:db8:f800::/36'' v6_start =
      Some (Some \<lparr>v6_d = [0x2001, 0x0db8, 0xf800, 0, 0, 0, 0, 0], v6_dp = 4, v6_nyble = 4, v6_finsert = Some 3,
                  v6_bits = 36, v6_at_end = False\<rparr>)"
    by (simp add: v6_start_def shift_word_def IsXDigit_def IsDigit_iff hex_value_def s w Let_def, simp add: numeral_eq_Suc)
  have p: "parse_netmask ''2001:db8:f800::/36'' =
      Some (HM_IPV6 [0x20, 0x01, 0x0d, 0xb8, 0xf8, 0, 0, 0, 0, 0, 0, 0, 0, 0, 0, 0] 36)"
  proof -
    have f: "fill_gaps 8 [0x2001, 0x0db8, 0xf800, 0, 0, 0, 0, 0] 0 (Some 3) (- 1) = [0x2001, 0x0db8, 0xf800, 0, 0, 0, 0, 0]"
      by (simp add: eval_nat_numeral)
    have r: "concat (replicate 5 [0, 0 :: 8 word]) = [0, 0, 0, 0, 0, 0, 0, 0, 0, 0]" by (simp add: eval_nat_numeral)
    have "try_parse_v6_netmask ''2001:db8:f800::/36'' =
        Some (HM_IPV6 [0x20, 0x01, 0x0d, 0xb8, 0xf8, 0, 0, 0, 0, 0, 0, 0, 0, 0, 0, 0] 36)"
      unfolding try_parse_v6_netmask_def v option.case
      by (simp add: shift_word_def v6_bytes_def Let_def f r)
    then show ?thesis by (simp add: parse_netmask_def)
  qed
  have "x AND NOT (push_bit 4 1 - 1) \<noteq> 0xf8" for x :: "8 word"
  proof
    assume "x AND NOT (push_bit 4 1 - 1) = 0xf8"
    then have "bit (x AND NOT (push_bit 4 1 - 1)) 3 = bit (0xf8 :: 8 word) 3" by simp
    then show False by (simp add: bit_and_iff bit_not_iff)
  qed
  then show ?thesis unfolding p by (intro exI conjI, simp, simp add: match_ipv6_def Let_def)
qed

end
