(* ===== verification/Access_Table.thy ===== *)
theory Access_Table
  imports Hostmask
begin

section \<open>The access table (\<^verbatim>\<open>src/hostmask.c\<close>)\<close>

text \<open>
  The hash table of \<^verbatim>\<open>AddressRec\<close> entries that I-, K-, G- and D-lines live in: its three hash functions,
  adding and deleting, the lookup \<open>find_conf_by_address\<close> and the decisions made of it.  A bucket is
  the list of its records.  The specification is a scan of all records; the theorem is that looking
  only into the buckets the code visits misses nothing.
\<close>

subsection \<open>Records\<close>

record access_item =
  need_password :: bool
  exempt_kline :: bool
  exempt_gline :: bool
  encrypted :: bool
  temporary :: bool
  passwd :: "string option"
  clients :: nat
  illegal :: bool

record addr_rec =
  ar_mask :: netmask
  ar_hostname :: string
  ar_type :: "32 word"
  ar_precedence :: "64 word"
  ar_username :: string
  ar_aconf :: nat

datatype ip_addr = Addr4 "32 word" | Addr6 "8 word list"

record access_table =
  atable :: "nat \<Rightarrow> addr_rec list"
  prec_value :: "64 word"
  aconfs :: "nat \<Rightarrow> access_item"

abbreviation ATABLE_SIZE :: nat where
  "ATABLE_SIZE \<equiv> 4096"

definition CONF_CLIENT :: "32 word" where
  "CONF_CLIENT = 0x00000002"
definition CONF_KILL :: "32 word" where
  "CONF_KILL = 0x00000010"
definition CONF_EXEMPTKLINE :: "32 word" where
  "CONF_EXEMPTKLINE = 0x00000200"
definition CONF_DLINE :: "32 word" where
  "CONF_DLINE = 0x00000800"
definition CONF_EXEMPTDLINE :: "32 word" where
  "CONF_EXEMPTDLINE = 0x00004000"
definition CONF_GLINE :: "32 word" where
  "CONF_GLINE = 0x00008000"

subsection \<open>Hashing\<close>

definition hash_ipv4 :: "32 word \<Rightarrow> int \<Rightarrow> nat option" where
  "hash_ipv4 addr bits =
    (if bits \<noteq> 0 then
       map_option (\<lambda>k. let av = addr AND k in unat ((av XOR drop_bit 12 av XOR drop_bit 24 av) AND 0xfff)) (v4_mask bits)
     else Some 0)"

fun hash_ipv6_loop :: "8 word list \<Rightarrow> int \<Rightarrow> 64 word \<Rightarrow> 64 word" where
  "hash_ipv6_loop [] bits v = v"
| "hash_ipv6_loop (a # as) bits v =
    (if bits \<ge> 8 then hash_ipv6_loop as (bits - 8) (v XOR ucast a)
     else if bits \<noteq> 0 then v XOR ucast (a AND NOT (push_bit (nat (8 - bits)) 1 - 1))
     else v)"

definition hash_ipv6 :: "8 word list \<Rightarrow> int \<Rightarrow> nat" where
  "hash_ipv6 addr bits = unat (hash_ipv6_loop addr bits 0 AND 0xfff)"

definition hash_text :: "string \<Rightarrow> nat" where
  "hash_text start =
    unat (foldl (\<lambda>h c. push_bit 4 h - (h + (word_of_int (of_char (ToLower c)) :: 64 word))) 0 start AND 0xfff)"

text \<open>The scan runs backwards: the characters in front of the pointer reversed, the text behind it, \<open>hp\<close>.\<close>

fun mask_hash_scan :: "string \<Rightarrow> string \<Rightarrow> string \<Rightarrow> string \<Rightarrow> nat" where
  "mask_hash_scan text [] behind hp = hash_text text"
| "mask_hash_scan text (c # before) behind hp =
    (if IsMWildChar c then hash_text hp
     else if c = CHR ''.'' then mask_hash_scan text before (c # behind) behind
     else mask_hash_scan text before (c # behind) hp)"

definition get_mask_hash :: "string \<Rightarrow> nat" where
  "get_mask_hash text = mask_hash_scan text (rev text) [] []"

subsection \<open>The table's operations\<close>

definition home_bucket :: "netmask \<Rightarrow> string \<Rightarrow> nat option" where
  "home_bucket m address =
    (case m of
       HM_IPV6 a bits \<Rightarrow> Some (hash_ipv6 a (bits - bits smod 16))
     | HM_IPV4 a bits \<Rightarrow> hash_ipv4 a (bits - bits smod 8)
     | HM_HOST \<Rightarrow> Some (get_mask_hash address))"

definition add_conf_by_address :: "32 word \<Rightarrow> string \<Rightarrow> string \<Rightarrow> nat \<Rightarrow> access_table \<Rightarrow> access_table option" where
  "add_conf_by_address typ host username aconf t =
    (let address = (if host = [] then ''/NOMATCH!/'' else host) in
     case parse_netmask address of
       None \<Rightarrow> None
     | Some m \<Rightarrow>
         (case home_bucket m address of
            None \<Rightarrow> None
          | Some hv \<Rightarrow>
              (let arec = \<lparr>ar_mask = m, ar_hostname = address, ar_type = typ, ar_precedence = prec_value t,
                           ar_username = username, ar_aconf = aconf\<rparr>
               in Some (t\<lparr>atable := (atable t)(hv := arec # atable t hv), prec_value := prec_value t - 1\<rparr>))))"

text \<open>Freeing the item when no client uses it leaves its store alone.\<close>

fun unlink_aconf :: "nat \<Rightarrow> addr_rec list \<Rightarrow> addr_rec list option" where
  "unlink_aconf aconf [] = None"
| "unlink_aconf aconf (r # rs) =
    (if ar_aconf r = aconf then Some rs else map_option ((#) r) (unlink_aconf aconf rs))"

definition set_illegal :: "nat \<Rightarrow> access_table \<Rightarrow> access_table" where
  "set_illegal aconf t = t\<lparr>aconfs := (aconfs t)(aconf := (aconfs t aconf)\<lparr>illegal := True\<rparr>)\<rparr>"

definition delete_one_address_conf :: "string \<Rightarrow> nat \<Rightarrow> access_table \<Rightarrow> access_table option" where
  "delete_one_address_conf address aconf t =
    (case parse_netmask address of
       None \<Rightarrow> None
     | Some m \<Rightarrow>
         (case home_bucket m address of
            None \<Rightarrow> None
          | Some hv \<Rightarrow>
              (case unlink_aconf aconf (atable t hv) of
                 None \<Rightarrow> Some t
               | Some rs \<Rightarrow> Some (set_illegal aconf (t\<lparr>atable := (atable t)(hv := rs)\<rparr>)))))"

definition clear_out_address_conf :: "access_table \<Rightarrow> access_table" where
  "clear_out_address_conf t =
    t\<lparr>atable := (\<lambda>i. if i < ATABLE_SIZE then filter (\<lambda>r. temporary (aconfs t (ar_aconf r))) (atable t i) else atable t i),
      aconfs := (\<lambda>a. if list_ex (\<lambda>i. list_ex (\<lambda>r. ar_aconf r = a \<and> \<not> temporary (aconfs t a)) (atable t i)) [0..<ATABLE_SIZE]
                      then (aconfs t a)\<lparr>illegal := True\<rparr> else aconfs t a)\<rparr>"

subsection \<open>The lookup\<close>

text \<open>\<open>crypt\<close> is the C library's; a null password is \<open>None\<close>.\<close>

definition match_conf_password :: "(string \<Rightarrow> string \<Rightarrow> string) \<Rightarrow> string option \<Rightarrow> access_item \<Rightarrow> bool" where
  "match_conf_password crypt password aconf =
    (case (password, passwd aconf) of
       (Some p, Some w) \<Rightarrow> (if encrypted aconf then (if w \<noteq> [] then crypt p w else []) else p) = w
     | _ \<Rightarrow> False)"

type_synonym best = "64 word \<times> nat option"

text \<open>
  The tests of one record, in the order of the code; \<open>mm\<close> is the test of the mask, \<open>None\<close> in it a shift
  out of range.
\<close>

definition try_rec ::
  "(string \<Rightarrow> string \<Rightarrow> string) \<Rightarrow> access_table \<Rightarrow> 32 word \<Rightarrow> string \<Rightarrow> string \<Rightarrow> (addr_rec \<Rightarrow> bool option) \<Rightarrow>
    addr_rec \<Rightarrow> best \<Rightarrow> best option" where
  "try_rec crypt t typ username password mm r b =
    (if ar_type r = typ AND NOT 1 \<and> ar_precedence r > fst b then
       (case mm r of
          None \<Rightarrow> None
        | Some hit \<Rightarrow>
            (if hit \<and> (typ AND 1 \<noteq> 0 \<or> match (ar_username r) username = Some True) \<and>
                (need_password (aconfs t (ar_aconf r)) \<or> passwd (aconfs t (ar_aconf r)) = None \<or>
                 match_conf_password crypt (Some password) (aconfs t (ar_aconf r)))
             then Some (ar_precedence r, Some (ar_aconf r)) else Some b))
     else Some b)"

fun scan_recs :: "(addr_rec \<Rightarrow> best \<Rightarrow> best option) \<Rightarrow> addr_rec list \<Rightarrow> best \<Rightarrow> best option" where
  "scan_recs f [] b = Some b"
| "scan_recs f (r # rs) b = (case f r b of None \<Rightarrow> None | Some b' \<Rightarrow> scan_recs f rs b')"

fun scan_buckets :: "(addr_rec \<Rightarrow> best \<Rightarrow> best option) \<Rightarrow> (nat \<Rightarrow> addr_rec list) \<Rightarrow> nat option list \<Rightarrow> best \<Rightarrow> best option" where
  "scan_buckets f tab [] b = Some b"
| "scan_buckets f tab (None # hs) b = None"
| "scan_buckets f tab (Some h # hs) b =
    (case scan_recs f (tab h) b of None \<Rightarrow> None | Some b' \<Rightarrow> scan_buckets f tab hs b')"

definition mask6 :: "8 word list \<Rightarrow> addr_rec \<Rightarrow> bool option" where
  "mask6 a r = (case ar_mask r of HM_IPV6 m bits \<Rightarrow> match_ipv6 a m bits | _ \<Rightarrow> Some False)"

definition mask4 :: "32 word \<Rightarrow> addr_rec \<Rightarrow> bool option" where
  "mask4 a r = (case ar_mask r of HM_IPV4 m bits \<Rightarrow> match_ipv4 a m bits | _ \<Rightarrow> Some False)"

definition mask_host :: "string \<Rightarrow> addr_rec \<Rightarrow> bool option" where
  "mask_host name r = (case ar_mask r of HM_HOST \<Rightarrow> match (ar_hostname r) name | _ \<Rightarrow> Some False)"

text \<open>The buckets of a host name: those of the name, of every tail after a dot, and bucket 0.\<close>

fun tails_after_dots :: "string \<Rightarrow> string list" where
  "tails_after_dots [] = []"
| "tails_after_dots (c # s) = (if c = CHR ''.'' then s # tails_after_dots s else tails_after_dots s)"

definition find_conf_by_address ::
  "(string \<Rightarrow> string \<Rightarrow> string) \<Rightarrow> access_table \<Rightarrow> string option \<Rightarrow> ip_addr option \<Rightarrow> 32 word \<Rightarrow>
    string option \<Rightarrow> string option \<Rightarrow> nat option option" where
  "find_conf_by_address crypt t name addr typ username0 password0 =
    (let username = (case username0 of None \<Rightarrow> [] | Some u \<Rightarrow> u);
         password = (case password0 of None \<Rightarrow> [] | Some p \<Rightarrow> p);
         try = try_rec crypt t typ username password;
         b1 = (case addr of
             None \<Rightarrow> Some (0, None)
           | Some (Addr6 a) \<Rightarrow>
               scan_buckets (try (mask6 a)) (atable t)
                 (map (\<lambda>b. Some (hash_ipv6 a b)) [128, 112, 96, 80, 64, 48, 32, 16, 0]) (0, None)
           | Some (Addr4 a) \<Rightarrow>
               scan_buckets (try (mask4 a)) (atable t) (map (hash_ipv4 a) [32, 24, 16, 8, 0]) (0, None));
         b2 = (case b1 of
             None \<Rightarrow> None
           | Some b \<Rightarrow>
               (case name of
                  None \<Rightarrow> Some b
                | Some n \<Rightarrow>
                    scan_buckets (try (mask_host n)) (atable t)
                      (map (\<lambda>p. Some (hash_text p)) (n # tails_after_dots n) @ [Some 0]) b))
     in map_option snd b2)"

definition find_address_conf ::
  "(string \<Rightarrow> string \<Rightarrow> string) \<Rightarrow> access_table \<Rightarrow> string \<Rightarrow> string \<Rightarrow> ip_addr \<Rightarrow> string option \<Rightarrow> nat option option" where
  "find_address_conf crypt t host user ip password =
    (case find_conf_by_address crypt t (Some host) (Some ip) CONF_CLIENT (Some user) password of
       None \<Rightarrow> None
     | Some None \<Rightarrow> Some None
     | Some (Some iconf) \<Rightarrow>
         (if exempt_kline (aconfs t iconf) then Some (Some iconf)
          else case find_conf_by_address crypt t (Some host) (Some ip) CONF_KILL (Some user) None of
            None \<Rightarrow> None
          | Some (Some kconf) \<Rightarrow> Some (Some kconf)
          | Some None \<Rightarrow>
              (case find_conf_by_address crypt t (Some host) (Some ip) CONF_GLINE (Some user) None of
                 None \<Rightarrow> None
               | Some kconf \<Rightarrow>
                   (if kconf \<noteq> None \<and> \<not> exempt_gline (aconfs t iconf) then Some kconf else Some (Some iconf)))))"

definition find_gline_conf :: "(string \<Rightarrow> string \<Rightarrow> string) \<Rightarrow> access_table \<Rightarrow> string \<Rightarrow> string \<Rightarrow> ip_addr \<Rightarrow> nat option option" where
  "find_gline_conf crypt t host user ip =
    (case find_conf_by_address crypt t (Some host) (Some ip) CONF_EXEMPTKLINE (Some user) None of
       None \<Rightarrow> None
     | Some (Some e) \<Rightarrow> Some (Some e)
     | Some None \<Rightarrow> find_conf_by_address crypt t (Some host) (Some ip) CONF_GLINE (Some user) None)"

definition find_kline_conf :: "(string \<Rightarrow> string \<Rightarrow> string) \<Rightarrow> access_table \<Rightarrow> string \<Rightarrow> string \<Rightarrow> ip_addr \<Rightarrow> nat option option" where
  "find_kline_conf crypt t host user ip =
    (case find_conf_by_address crypt t (Some host) (Some ip) CONF_EXEMPTKLINE (Some user) None of
       None \<Rightarrow> None
     | Some (Some e) \<Rightarrow> Some (Some e)
     | Some None \<Rightarrow> find_conf_by_address crypt t (Some host) (Some ip) CONF_KILL (Some user) None)"

definition find_dline_conf :: "(string \<Rightarrow> string \<Rightarrow> string) \<Rightarrow> access_table \<Rightarrow> ip_addr \<Rightarrow> nat option option" where
  "find_dline_conf crypt t addr =
    (case find_conf_by_address crypt t None (Some addr) (CONF_EXEMPTDLINE OR 1) None None of
       None \<Rightarrow> None
     | Some (Some e) \<Rightarrow> Some (Some e)
     | Some None \<Rightarrow> find_conf_by_address crypt t None (Some addr) (CONF_DLINE OR 1) None None)"


subsection \<open>The specification: a scan of every record\<close>

definition mask_ok :: "netmask \<Rightarrow> bool" where
  "mask_ok m = (case m of HM_HOST \<Rightarrow> True | HM_IPV4 a bits \<Rightarrow> 1 \<le> bits \<and> bits \<le> 32
     | HM_IPV6 a bits \<Rightarrow> 0 \<le> bits \<and> bits \<le> 128 \<and> length a = 16)"

definition table_ok :: "access_table \<Rightarrow> bool" where
  "table_ok t \<longleftrightarrow> (\<forall>b. \<forall>r\<in>set (atable t b). home_bucket (ar_mask r) (ar_hostname r) = Some b \<and>
     0 < ar_precedence r \<and> mask_ok (ar_mask r) \<and> cstr (ar_hostname r))"

definition mask_matches :: "string option \<Rightarrow> ip_addr option \<Rightarrow> addr_rec \<Rightarrow> bool" where
  "mask_matches name addr r =
    (case ar_mask r of
       HM_HOST \<Rightarrow> (case name of None \<Rightarrow> False | Some n \<Rightarrow> glob (ar_hostname r) n)
     | HM_IPV4 m bits \<Rightarrow> (case addr of Some (Addr4 a) \<Rightarrow> match_ipv4 a m bits = Some True | _ \<Rightarrow> False)
     | HM_IPV6 m bits \<Rightarrow> (case addr of Some (Addr6 a) \<Rightarrow> match_ipv6 a m bits = Some True | _ \<Rightarrow> False))"

definition admits ::
  "(string \<Rightarrow> string \<Rightarrow> string) \<Rightarrow> access_table \<Rightarrow> 32 word \<Rightarrow> string \<Rightarrow> string \<Rightarrow> addr_rec \<Rightarrow> bool" where
  "admits crypt t typ username password r \<longleftrightarrow>
     ar_type r = typ AND NOT 1 \<and>
     (typ AND 1 \<noteq> 0 \<or> match (ar_username r) username = Some True) \<and>
     (need_password (aconfs t (ar_aconf r)) \<or> passwd (aconfs t (ar_aconf r)) = None \<or>
      match_conf_password crypt (Some password) (aconfs t (ar_aconf r)))"

text \<open>The answer for a set of records: the item of a record of highest precedence.\<close>

definition highest :: "addr_rec set \<Rightarrow> best \<Rightarrow> bool" where
  "highest M b \<longleftrightarrow> (if M = {} then b = (0, None)
     else \<exists>r\<in>M. b = (ar_precedence r, Some (ar_aconf r)) \<and> (\<forall>r'\<in>M. ar_precedence r' \<le> ar_precedence r))"

subsection \<open>The scan of a bucket\<close>

lemma highest_insert_better:
  assumes "highest M b" "fst b < ar_precedence r"
  shows "highest (insert r M) (ar_precedence r, Some (ar_aconf r))"
proof -
  have "\<forall>r'\<in>M. ar_precedence r' \<le> ar_precedence r"
    using assms by (fastforce simp: highest_def split: if_splits)
  then show ?thesis by (auto simp: highest_def)
qed

lemma highest_insert_worse:
  assumes "highest M b" "\<not> fst b < ar_precedence r" "0 < ar_precedence r"
  shows "highest (insert r M) b"
proof -
  have "M \<noteq> {}" using assms by (auto simp: highest_def)
  then obtain s where s: "s \<in> M" "b = (ar_precedence s, Some (ar_aconf s))" "\<forall>r'\<in>M. ar_precedence r' \<le> ar_precedence s"
    using assms(1) by (auto simp: highest_def)
  then show ?thesis using assms(2) by (auto simp: highest_def not_less intro!: bexI [of _ s])
qed

lemma try_rec_highest:
  assumes "highest M b" "mm r \<noteq> None" "0 < ar_precedence r"
  shows "\<exists>b'. try_rec crypt t typ u pw mm r b = Some b' \<and>
    highest (if mm r = Some True \<and> admits crypt t typ u pw r then insert r M else M) b'"
proof (cases "ar_type r = typ AND NOT 1 \<and> ar_precedence r > fst b")
  case True
  obtain hit where hit: "mm r = Some hit" using assms(2) by blast
  show ?thesis
  proof (cases "hit \<and> admits crypt t typ u pw r")
    case True2: True
    then have "try_rec crypt t typ u pw mm r b = Some (ar_precedence r, Some (ar_aconf r))"
      using True hit by (simp add: try_rec_def admits_def)
    then show ?thesis using True2 hit highest_insert_better [OF assms(1)] True by simp
  next
    case False
    then have "try_rec crypt t typ u pw mm r b = Some b"
      using True hit by (auto simp: try_rec_def admits_def)
    then show ?thesis using False hit assms(1) by auto
  qed
next
  case False
  then have "try_rec crypt t typ u pw mm r b = Some b" by (auto simp: try_rec_def)
  moreover have "mm r = Some True \<and> admits crypt t typ u pw r \<Longrightarrow> highest (insert r M) b"
    using False highest_insert_worse [OF assms(1) _ assms(3)] by (simp add: admits_def)
  ultimately show ?thesis using assms(1) by simp
qed

lemma scan_recs_highest:
  assumes "highest M b" "\<forall>r\<in>set rs. mm r \<noteq> None \<and> 0 < ar_precedence r"
  shows "\<exists>b'. scan_recs (try_rec crypt t typ u pw mm) rs b = Some b' \<and>
    highest (M \<union> {r \<in> set rs. mm r = Some True \<and> admits crypt t typ u pw r}) b'"
  using assms
proof (induction rs arbitrary: M b)
  case (Cons r rs)
  let ?M = "if mm r = Some True \<and> admits crypt t typ u pw r then insert r M else M"
  obtain b1 where b1: "try_rec crypt t typ u pw mm r b = Some b1" "highest ?M b1"
    using try_rec_highest [OF Cons.prems(1), of mm r crypt t "typ" u pw] Cons.prems(2)
    by (metis list.set_intros(1))
  obtain b2 where b2: "scan_recs (try_rec crypt t typ u pw mm) rs b1 = Some b2"
    "highest (?M \<union> {r \<in> set rs. mm r = Some True \<and> admits crypt t typ u pw r}) b2"
    using Cons.IH [OF b1(2)] Cons.prems(2) by auto
  have "M \<union> {r' \<in> set (r # rs). mm r' = Some True \<and> admits crypt t typ u pw r'} =
      ?M \<union> {r \<in> set rs. mm r = Some True \<and> admits crypt t typ u pw r}" by auto
  then show ?case using b1(1) b2 by (simp only: scan_recs.simps option.case) blast
qed simp

lemma scan_buckets_highest:
  assumes "highest M b" "None \<notin> set hs"
    "\<forall>h. Some h \<in> set hs \<longrightarrow> (\<forall>r\<in>set (tab h). mm r \<noteq> None \<and> 0 < ar_precedence r)"
  shows "\<exists>b'. scan_buckets (try_rec crypt t typ u pw mm) tab hs b = Some b' \<and>
    highest (M \<union> {r. \<exists>h. Some h \<in> set hs \<and> r \<in> set (tab h) \<and> mm r = Some True \<and> admits crypt t typ u pw r}) b'"
  using assms
proof (induction hs arbitrary: M b)
  case (Cons ho hs)
  then obtain h where h: "ho = Some h" by (cases ho) auto
  have r1: "\<forall>r\<in>set (tab h). mm r \<noteq> None \<and> 0 < ar_precedence r" using Cons.prems(3) h by simp
  let ?M = "M \<union> {r \<in> set (tab h). mm r = Some True \<and> admits crypt t typ u pw r}"
  obtain b1 where b1: "scan_recs (try_rec crypt t typ u pw mm) (tab h) b = Some b1" "highest ?M b1"
    using scan_recs_highest [OF Cons.prems(1) r1] by blast
  obtain b2 where b2: "scan_buckets (try_rec crypt t typ u pw mm) tab hs b1 = Some b2"
    "highest (?M \<union> {r. \<exists>h. Some h \<in> set hs \<and> r \<in> set (tab h) \<and> mm r = Some True \<and> admits crypt t typ u pw r}) b2"
    using Cons.IH [OF b1(2)] Cons.prems(2,3) by auto
  have "M \<union> {r. \<exists>k. Some k \<in> set (ho # hs) \<and> r \<in> set (tab k) \<and> mm r = Some True \<and> admits crypt t typ u pw r} =
      ?M \<union> {r. \<exists>h. Some h \<in> set hs \<and> r \<in> set (tab h) \<and> mm r = Some True \<and> admits crypt t typ u pw r}"
    unfolding h by auto
  then show ?case unfolding h using b1(1) b2 by (simp only: scan_buckets.simps option.case) (auto simp: h)
qed simp

subsection \<open>Which buckets a match can be in\<close>

lemma v4_mask_bit:
  assumes "v4_mask bits = Some k" "i < 32"
  shows "bit k i \<longleftrightarrow> nat (32 - bits) \<le> i"
proof -
  have k: "k = NOT (mask (nat (32 - bits)))" using assms(1) by (auto simp: v4_mask_def mask_eq_exp_minus_1 push_bit_eq_mult split: if_splits)
  show ?thesis unfolding k using assms(2) by (auto simp: bit_not_iff bit_mask_iff)
qed

lemma v4_mask_absorb:
  assumes "v4_mask b = Some k" "v4_mask c = Some l" "c \<le> b"
  shows "k AND l = l"
proof (rule bit_word_eqI)
  fix i assume "i < LENGTH(32)"
  then show "bit (k AND l) i = bit l i"
    using v4_mask_bit [OF assms(1), of i] v4_mask_bit [OF assms(2), of i] assms(3) by (auto simp: bit_and_iff)
qed

lemma smod_nonneg: "0 \<le> a \<Longrightarrow> 0 < b \<Longrightarrow> a smod b = a mod (b::int)"
  by (cases "a = 0") (simp_all add: signed_modulo_int_def)

lemma hash_ipv4_bucket:
  assumes "match_ipv4 a m bits = Some True" "1 \<le> bits" "bits \<le> 32"
  shows "\<exists>c\<in>{32, 24, 16, 8, 0}. hash_ipv4 a c = hash_ipv4 m (bits - bits smod 8)"
proof -
  let ?c = "bits - bits smod 8"
  have c: "bits smod 8 = bits mod 8" using assms(2) by (simp add: smod_nonneg)
  have in5: "?c \<in> {32, 24, 16, 8, 0}" unfolding c using assms(2,3) by auto presburger
  obtain k where k: "v4_mask bits = Some k" "a AND k = m" using assms(1) by (auto simp: match_ipv4_def)
  have "hash_ipv4 a ?c = hash_ipv4 m ?c"
  proof (cases "?c = 0")
    case False
    then have "0 < ?c" "?c \<le> 32" "?c \<le> bits"
      using c assms(2,3) zmod_le_nonneg_dividend [of bits 8] pos_mod_sign [of 8 bits] by linarith+
    then obtain l where l: "v4_mask ?c = Some l" by (simp add: v4_mask_def)
    have "m AND l = a AND l"
      using v4_mask_absorb [OF k(1) l \<open>?c \<le> bits\<close>] k(2) by (metis and.assoc)
    then show ?thesis by (simp only: hash_ipv4_def l option.map Let_def)
  qed (simp add: hash_ipv4_def)
  then show ?thesis using in5 by blast
qed

lemma hash_ipv6_loop_prefix:
  assumes "take n a = take n b" "length a = length b"
  shows "hash_ipv6_loop a (8 * int n) v = hash_ipv6_loop b (8 * int n) v"
  using assms
proof (induction n arbitrary: a b v)
  case 0 then show ?case by (cases a; cases b) simp_all
next
  case (Suc n)
  have e: "8 \<le> 8 * int (Suc n)" "8 * int (Suc n) - 8 = 8 * int n" by simp_all
  show ?case
  proof (cases a)
    case Nil then show ?thesis using Suc.prems by simp
  next
    case (Cons x a')
    then obtain b' where b: "b = x # b'" "take n a' = take n b'" "length a' = length b'"
      using Suc.prems by (cases b) auto
    show ?thesis unfolding Cons b(1) hash_ipv6_loop.simps e if_P [OF e(1)] using Suc.IH [OF b(2,3)] e by simp
  qed
qed

lemma hash_ipv6_bucket:
  assumes "match_ipv6 a m bits = Some True" "0 \<le> bits" "bits \<le> 128" "length a = 16" "length m = 16"
  shows "\<exists>c\<in>{128, 112, 96, 80, 64, 48, 32, 16, 0}. hash_ipv6 a c = hash_ipv6 m (bits - bits smod 16)"
proof -
  let ?c = "bits - bits smod 16"
  have c: "bits smod 16 = bits mod 16" using assms(2) by (simp add: smod_nonneg)
  have in9: "?c \<in> {128, 112, 96, 80, 64, 48, 32, 16, 0}" unfolding c using assms(2,3) by auto presburger
  obtain n where n: "?c = 8 * int n"
  proof (rule that)
    show "?c = 8 * int (nat (?c div 8))" using in9 by auto
  qed
  have "8 * n \<le> nat bits" using n c assms(2) pos_mod_sign [of 16 bits] by linarith
  then have "n \<le> nat bits div 8" by simp
  moreover have "take (nat bits div 8) a = take (nat bits div 8) m" using assms(1-3) by (auto simp: match_ipv6_def Let_def)
  ultimately have "take n a = take n m" by (metis min.absorb1 take_take)
  then have "hash_ipv6 a ?c = hash_ipv6 m ?c"
    unfolding n hash_ipv6_def using hash_ipv6_loop_prefix [of n a m 0] assms(4,5) by simp
  then show ?thesis using in9 by blast
qed


text \<open>The literal end of a mask and what is behind its first dot.\<close>

definition after_first_dot :: "string \<Rightarrow> string" where
  "after_first_dot s = drop 1 (dropWhile (\<lambda>c. c \<noteq> CHR ''.'') s)"

lemma after_first_dot_Cons: "after_first_dot (c # s) = (if c = CHR ''.'' then s else after_first_dot s)"
  by (simp add: after_first_dot_def)

lemma mask_hash_scan_eq:
  assumes "hp = after_first_dot behind"
  shows "mask_hash_scan text before behind hp =
    (if list_ex IsMWildChar before then hash_text (after_first_dot (rev (takeWhile (\<lambda>c. \<not> IsMWildChar c) before) @ behind))
     else hash_text text)"
  using assms
proof (induction before arbitrary: behind hp)
  case (Cons c before)
  then show ?case using Cons.IH [OF refl, of "c # behind"] Cons.prems
    by (cases "c = CHR ''.''") (simp_all add: after_first_dot_Cons)
qed simp

lemma ToLower_dot: "ToLower c = ToLower d \<Longrightarrow> c = CHR ''.'' \<longleftrightarrow> d = CHR ''.''"
proof -
  have "ToLower c = CHR ''.'' \<longleftrightarrow> c = CHR ''.''" for c
    by (subst (1 2) char_eq_nat_iff) (auto simp: of_char_ToLower simp del: of_char_eq_iff split: if_splits)
  then show "ToLower c = ToLower d \<Longrightarrow> c = CHR ''.'' \<longleftrightarrow> d = CHR ''.''" by metis
qed

lemma after_first_dot_fold: "fold_case y = fold_case z \<Longrightarrow> fold_case (after_first_dot y) = fold_case (after_first_dot z)"
proof (induction y arbitrary: z)
  case Nil then show ?case by (simp add: fold_case_def)
next
  case (Cons c y)
  then obtain d z' where z: "z = d # z'" "ToLower c = ToLower d" "fold_case y = fold_case z'"
    by (cases z) (auto simp: fold_case_def)
  then show ?case using Cons.IH ToLower_dot [OF z(2)] by (simp add: after_first_dot_Cons)
qed

lemma hash_text_fold: "fold_case a = fold_case b \<Longrightarrow> hash_text a = hash_text b"
proof -
  assume a: "fold_case a = fold_case b"
  have "foldl (\<lambda>h c. push_bit 4 h - (h + (word_of_int (of_char (ToLower c)) :: 64 word))) h s =
      foldl (\<lambda>h c. push_bit 4 h - (h + (word_of_int (of_char c) :: 64 word))) h (fold_case s)" for h s
    by (induction s arbitrary: h) (simp_all add: fold_case_def)
  then show ?thesis unfolding hash_text_def using a by simp
qed

lemma glob_suffix: "glob (pre @ qs) s \<Longrightarrow> \<exists>x y. s = x @ y \<and> glob qs y \<and> (pre = [] \<longrightarrow> x = [])"
proof (induction pre arbitrary: s)
  case (Cons p pre)
  show ?case
  proof (cases "p = CHR ''*''")
    case True
    then obtain k where "glob (pre @ qs) (drop k s)" using Cons.prems by (auto simp: glob_star)
    then obtain x y where "drop k s = x @ y" "glob qs y" using Cons.IH by blast
    then have "s = (take k s @ x) @ y" by (metis append.assoc append_take_drop_id)
    then show ?thesis using \<open>glob qs y\<close> by blast
  next
    case False
    then obtain c t where s: "s = c # t" "glob (pre @ qs) t" using Cons.prems by (auto simp: glob_char)
    then obtain x y where "t = x @ y" "glob qs y" using Cons.IH by blast
    then have "s = (c # x) @ y" using s by simp
    then show ?thesis using \<open>glob qs y\<close> by blast
  qed
qed simp

lemma glob_literal: "\<not> list_ex IsMWildChar lit \<Longrightarrow> glob lit y \<Longrightarrow> fold_case y = fold_case lit"
proof (induction lit arbitrary: y)
  case (Cons p lit)
  have p: "p \<noteq> CHR ''*''" "p \<noteq> CHR ''?''" "p \<noteq> CHR ''#''" using Cons.prems(1) by (auto simp: IsMWildChar_iff)
  then obtain c t where "y = c # t" "char_matches p c" "glob lit t" using Cons.prems(2) by (auto simp: glob_char)
  then show ?case using Cons.IH Cons.prems(1) p by (auto simp: char_matches_def fold_case_def)
qed (simp add: fold_case_def)

lemma after_first_dot_tail: "after_first_dot y \<in> set (tails_after_dots y) \<or> after_first_dot y = []"
  by (induction y) (auto simp: after_first_dot_Cons, simp add: after_first_dot_def)

lemma tails_append: "set (tails_after_dots y) \<subseteq> set (tails_after_dots (x @ y))"
  by (induction x) auto

lemma hash_host_bucket:
  assumes "glob text name"
  shows "get_mask_hash text \<in> hash_text ` set (name # tails_after_dots name) \<union> {0}"
proof (cases "list_ex IsMWildChar (rev text)")
  case False
  then have "get_mask_hash text = hash_text text"
    using mask_hash_scan_eq [of "[]" "[]" "text" "rev text"] by (simp add: get_mask_hash_def after_first_dot_def)
  moreover have "\<not> list_ex IsMWildChar text" using False by (simp add: list_ex_iff)
  then have "fold_case name = fold_case text" using glob_literal assms by blast
  then have "hash_text name = hash_text text" by (rule hash_text_fold)
  ultimately show ?thesis by simp
next
  case True
  define lit where "lit = rev (takeWhile (\<lambda>c. \<not> IsMWildChar c) (rev text))"
  have h: "get_mask_hash text = hash_text (after_first_dot lit)"
    using mask_hash_scan_eq [of "[]" "[]" "text" "rev text"] True
    by (simp add: get_mask_hash_def after_first_dot_def lit_def)
  have "rev text = takeWhile (\<lambda>c. \<not> IsMWildChar c) (rev text) @ dropWhile (\<lambda>c. \<not> IsMWildChar c) (rev text)" by simp
  then obtain pre where "text = pre @ lit" unfolding lit_def by (metis rev_append rev_rev_ident)
  then obtain x y where n: "name = x @ y" "glob lit y" using glob_suffix [of pre lit name] assms by auto
  have "\<not> list_ex IsMWildChar lit" by (auto simp: lit_def list_ex_iff dest: set_takeWhileD)
  then have "fold_case y = fold_case lit" using glob_literal n(2) by blast
  then have e: "get_mask_hash text = hash_text (after_first_dot y)"
    unfolding h by (metis after_first_dot_fold hash_text_fold)
  show ?thesis
  proof (cases "after_first_dot y = []")
    case True
    then show ?thesis unfolding e by (simp add: hash_text_def)
  next
    case False
    then have "after_first_dot y \<in> set (tails_after_dots name)"
      using after_first_dot_tail [of y] tails_append [of y x] n(1) by auto
    then show ?thesis unfolding e by auto
  qed
qed


subsection \<open>The lookup is complete\<close>

definition matching ::
  "(string \<Rightarrow> string \<Rightarrow> string) \<Rightarrow> access_table \<Rightarrow> string option \<Rightarrow> ip_addr option \<Rightarrow> 32 word \<Rightarrow> string \<Rightarrow> string \<Rightarrow> addr_rec set" where
  "matching crypt t name addr typ username password =
     {r. (\<exists>b. r \<in> set (atable t b)) \<and> mask_matches name addr r \<and> admits crypt t typ username password r}"

lemma table_okD:
  assumes "table_ok t" "r \<in> set (atable t b)"
  shows "home_bucket (ar_mask r) (ar_hostname r) = Some b" "0 < ar_precedence r" "mask_ok (ar_mask r)" "cstr (ar_hostname r)"
  using assms by (auto simp: table_ok_def)

lemma mask_tests_defined:
  "mask_ok (ar_mask r) \<Longrightarrow> mask6 a r \<noteq> None" "mask_ok (ar_mask r) \<Longrightarrow> mask4 w r \<noteq> None"
  by (auto simp: mask6_def mask4_def mask_ok_def match_ipv6_def match_ipv4_def v4_mask_def Let_def split: netmask.splits)

lemma scan_ip:
  assumes "table_ok t" "case addr of Some (Addr6 a) \<Rightarrow> length a = 16 | _ \<Rightarrow> True"
  shows "\<exists>b. (case addr of
       None \<Rightarrow> Some (0, None)
     | Some (Addr6 a) \<Rightarrow> scan_buckets (try_rec crypt t typ u pw (mask6 a)) (atable t)
           (map (\<lambda>b. Some (hash_ipv6 a b)) [128, 112, 96, 80, 64, 48, 32, 16, 0]) (0, None)
     | Some (Addr4 a) \<Rightarrow> scan_buckets (try_rec crypt t typ u pw (mask4 a)) (atable t)
           (map (hash_ipv4 a) [32, 24, 16, 8, 0]) (0, None)) = Some b \<and>
     highest (matching crypt t None addr typ u pw) b"
proof (cases addr)
  case None
  then have "matching crypt t None addr typ u pw = {}"
    by (auto simp: matching_def mask_matches_def split: netmask.splits)
  then show ?thesis using None by (simp add: highest_def)
next
  case (Some ip)
  show ?thesis
  proof (cases ip)
    case (Addr6 a)
    have len: "length a = 16" using assms(2) Some Addr6 by simp
    let ?hs = "map (\<lambda>b. Some (hash_ipv6 a b)) [128, 112, 96, 80, 64, 48, 32, 16, 0]"
    have hs: "None \<notin> set ?hs" by simp
    have ne: "\<forall>h. Some h \<in> set ?hs \<longrightarrow> (\<forall>r\<in>set (atable t h). mask6 a r \<noteq> None \<and> 0 < ar_precedence r)"
      using table_okD(2,3) [OF assms(1)] mask_tests_defined(1) by blast
    have "{} \<union> {r. \<exists>h. Some h \<in> set ?hs \<and> r \<in> set (atable t h) \<and> mask6 a r = Some True \<and> admits crypt t typ u pw r} =
        matching crypt t None addr typ u pw" (is "?L = ?R")
    proof
      show "?L \<subseteq> ?R" using Some Addr6
        by (auto simp: matching_def mask_matches_def mask6_def split: netmask.splits)
      show "?R \<subseteq> ?L"
      proof
        fix r assume r: "r \<in> ?R"
        then obtain b where b: "r \<in> set (atable t b)" by (auto simp: matching_def)
        from r Some Addr6 obtain m bits where m: "ar_mask r = HM_IPV6 m bits" "match_ipv6 a m bits = Some True" "admits crypt t typ u pw r"
          by (auto simp: matching_def mask_matches_def split: netmask.splits)
        have ok: "0 \<le> bits" "bits \<le> 128" "length m = 16" using table_okD(3) [OF assms(1) b] m(1) by (auto simp: mask_ok_def)
        obtain c where c: "c \<in> {128, 112, 96, 80, 64, 48, 32, 16, 0}" "hash_ipv6 a c = hash_ipv6 m (bits - bits smod 16)"
          using hash_ipv6_bucket [OF m(2) ok(1,2) len ok(3)] by blast
        have "b = hash_ipv6 a c" using table_okD(1) [OF assms(1) b] m(1) c(2) by (simp add: home_bucket_def)
        then have "Some b \<in> set ?hs" using c(1) by auto
        then show "r \<in> ?L" using b m by (auto simp: mask6_def)
      qed
    qed
    then show ?thesis using scan_buckets_highest [of "{}" "(0, None)" ?hs "atable t" "mask6 a" crypt t "typ" u pw, OF _ hs ne] Some Addr6
      by (simp add: highest_def)
  next
    case (Addr4 a)
    let ?hs = "map (hash_ipv4 a) [32, 24, 16, 8, 0]"
    have hs: "None \<notin> set ?hs" by (auto simp: hash_ipv4_def v4_mask_def)
    have ne: "\<forall>h. Some h \<in> set ?hs \<longrightarrow> (\<forall>r\<in>set (atable t h). mask4 a r \<noteq> None \<and> 0 < ar_precedence r)"
      using table_okD(2,3) [OF assms(1)] mask_tests_defined(2) by blast
    have "{} \<union> {r. \<exists>h. Some h \<in> set ?hs \<and> r \<in> set (atable t h) \<and> mask4 a r = Some True \<and> admits crypt t typ u pw r} =
        matching crypt t None addr typ u pw" (is "?L = ?R")
    proof
      show "?L \<subseteq> ?R" using Some Addr4
        by (auto simp: matching_def mask_matches_def mask4_def split: netmask.splits)
      show "?R \<subseteq> ?L"
      proof
        fix r assume r: "r \<in> ?R"
        then obtain b where b: "r \<in> set (atable t b)" by (auto simp: matching_def)
        from r Some Addr4 obtain m bits where m: "ar_mask r = HM_IPV4 m bits" "match_ipv4 a m bits = Some True" "admits crypt t typ u pw r"
          by (auto simp: matching_def mask_matches_def split: netmask.splits)
        have ok: "1 \<le> bits" "bits \<le> 32" using table_okD(3) [OF assms(1) b] m(1) by (auto simp: mask_ok_def)
        obtain c where c: "c \<in> {32, 24, 16, 8, 0}" "hash_ipv4 a c = hash_ipv4 m (bits - bits smod 8)"
          using hash_ipv4_bucket [OF m(2) ok] by blast
        have "Some b = hash_ipv4 a c" using table_okD(1) [OF assms(1) b] m(1) c(2) by (simp add: home_bucket_def)
        then have "Some b \<in> set ?hs" using c(1) by auto
        then show "r \<in> ?L" using b m by (auto simp: mask4_def)
      qed
    qed
    then show ?thesis using scan_buckets_highest [of "{}" "(0, None)" ?hs "atable t" "mask4 a" crypt t "typ" u pw, OF _ hs ne] Some Addr4
      by (simp add: highest_def)
  qed
qed

lemma find_conf_complete:
  assumes "table_ok t" "case addr of Some (Addr6 a) \<Rightarrow> length a = 16 | _ \<Rightarrow> True" "case name of Some n \<Rightarrow> cstr n | None \<Rightarrow> True"
  shows "\<exists>b. find_conf_by_address crypt t name addr typ username password = Some (snd b) \<and>
    highest (matching crypt t name addr typ (case username of None \<Rightarrow> [] | Some u \<Rightarrow> u) (case password of None \<Rightarrow> [] | Some p \<Rightarrow> p)) b"
proof -
  let ?u = "case username of None \<Rightarrow> [] | Some u \<Rightarrow> u" and ?p = "case password of None \<Rightarrow> [] | Some p \<Rightarrow> p"
  obtain b1 where b1: "(case addr of
       None \<Rightarrow> Some (0, None)
     | Some (Addr6 a) \<Rightarrow> scan_buckets (try_rec crypt t typ ?u ?p (mask6 a)) (atable t)
           (map (\<lambda>b. Some (hash_ipv6 a b)) [128, 112, 96, 80, 64, 48, 32, 16, 0]) (0, None)
     | Some (Addr4 a) \<Rightarrow> scan_buckets (try_rec crypt t typ ?u ?p (mask4 a)) (atable t)
           (map (hash_ipv4 a) [32, 24, 16, 8, 0]) (0, None)) = Some b1"
    "highest (matching crypt t None addr typ ?u ?p) b1"
    using scan_ip [OF assms(1,2)] by blast
  show ?thesis
  proof (cases name)
    case None
    show ?thesis unfolding find_conf_by_address_def Let_def None
      by (rule exI [of _ b1]) (use b1 in \<open>simp only: option.case option.map simp_thms\<close>)
  next
    case (Some n)
    have n: "cstr n" using assms(3) Some by simp
    let ?hs = "map (\<lambda>p. Some (hash_text p)) (n # tails_after_dots n) @ [Some 0]"
    have hs: "None \<notin> set ?hs" by auto
    have mh: "mask_host n r \<noteq> None" if "cstr (ar_hostname r)" for r
      using that n by (auto simp: mask_host_def match_is_glob split: netmask.splits)
    have ne: "\<forall>h. Some h \<in> set ?hs \<longrightarrow> (\<forall>r\<in>set (atable t h). mask_host n r \<noteq> None \<and> 0 < ar_precedence r)"
      using table_okD(2,4) [OF assms(1)] mh by blast
    have host: "mask_host n r = Some True \<longleftrightarrow> ar_mask r = HM_HOST \<and> glob (ar_hostname r) n" if "r \<in> set (atable t b)" for r b
      using table_okD(4) [OF assms(1) that] n by (auto simp: mask_host_def match_is_glob split: netmask.splits)
    have "matching crypt t None addr typ ?u ?p \<union>
        {r. \<exists>h. Some h \<in> set ?hs \<and> r \<in> set (atable t h) \<and> mask_host n r = Some True \<and> admits crypt t typ ?u ?p r} =
        matching crypt t name addr typ ?u ?p" (is "?M \<union> ?L = ?R")
    proof
      show "?M \<union> ?L \<subseteq> ?R" using Some host
        by (auto simp: matching_def mask_matches_def split: netmask.splits)
      show "?R \<subseteq> ?M \<union> ?L"
      proof
        fix r assume r: "r \<in> ?R"
        then obtain b where b: "r \<in> set (atable t b)" by (auto simp: matching_def)
        show "r \<in> ?M \<union> ?L"
        proof (cases "ar_mask r = HM_HOST")
          case True
          then have g: "glob (ar_hostname r) n" using r Some by (auto simp: matching_def mask_matches_def)
          have "b = get_mask_hash (ar_hostname r)" using table_okD(1) [OF assms(1) b] True by (simp add: home_bucket_def)
          then have "Some b \<in> set ?hs" using hash_host_bucket [OF g] by auto
          moreover have "mask_host n r = Some True" using host [OF b] True g by simp
          ultimately show ?thesis using r b by (auto simp: matching_def)
        next
          case False
          then show ?thesis using r by (auto simp: matching_def mask_matches_def split: netmask.splits)
        qed
      qed
    qed
    then obtain b2 where "scan_buckets (try_rec crypt t typ ?u ?p (mask_host n)) (atable t) ?hs b1 = Some b2"
      "highest ?R b2"
      using scan_buckets_highest [OF b1(2) hs ne, of crypt t "typ" ?u ?p] by metis
    note b2 = this
    show ?thesis unfolding find_conf_by_address_def Let_def Some
      by (rule exI [of _ b2]) (use b1(1) b2 Some in \<open>simp only: option.case option.map simp_thms\<close>)
  qed
qed


lemma add_conf_table_ok:
  assumes "table_ok t" "cstr host" "0 < prec_value t" "add_conf_by_address typ host username aconf t = Some t'"
    "\<And>m. parse_netmask (if host = [] then ''/NOMATCH!/'' else host) = Some m \<Longrightarrow> mask_ok m"
  shows "table_ok t'"
proof -
  let ?a = "if host = [] then ''/NOMATCH!/'' else host"
  obtain m hv where m: "parse_netmask ?a = Some m" "home_bucket m ?a = Some hv"
    and t': "t' = t\<lparr>atable := (atable t)(hv := \<lparr>ar_mask = m, ar_hostname = ?a, ar_type = typ, ar_precedence = prec_value t,
        ar_username = username, ar_aconf = aconf\<rparr> # atable t hv), prec_value := prec_value t - 1\<rparr>"
    using assms(4) unfolding add_conf_by_address_def Let_def by (auto split: option.splits)
  have "mask_ok m" using assms(5) m(1) by blast
  moreover have "cstr ?a" using assms(2) by (auto simp: cstr_def)
  ultimately show ?thesis using assms(1,3) m(2) unfolding t' by (auto simp: table_ok_def)
qed

lemma delete_conf_table_ok:
  assumes "table_ok t" "delete_one_address_conf address aconf t = Some t'"
  shows "table_ok t'"
proof -
  have u: "unlink_aconf aconf rs = Some rs' \<Longrightarrow> set rs' \<subseteq> set rs" for rs rs'
    by (induction rs arbitrary: rs') (fastforce split: if_splits)+
  have "set (atable t' b) \<subseteq> set (atable t b)" for b
    using assms(2) by (auto simp: delete_one_address_conf_def set_illegal_def split: option.splits if_splits dest!: u)
  then show ?thesis using assms(1) unfolding table_ok_def by blast
qed

lemma clear_out_table_ok: "table_ok t \<Longrightarrow> table_ok (clear_out_address_conf t)"
  by (auto simp: table_ok_def clear_out_address_conf_def)


subsection \<open>Properties\<close>

text \<open>
  C14: on a table in which every record sits in the bucket of its mask, \<open>find_conf_by_address\<close> always
  returns, and its answer is that of a scan of all records of all buckets: the item of a record of
  highest precedence among those whose mask, type, user name and password fit, or nothing when
  there is none.  So the few buckets the lookup visits (three masks of the address family, the tails
  of the host name and bucket 0) miss no match.
\<close>

theorem find_conf_by_address_complete:
  assumes "table_ok t" "case addr of Some (Addr6 a) \<Rightarrow> length a = 16 | _ \<Rightarrow> True" "case name of Some n \<Rightarrow> cstr n | None \<Rightarrow> True"
  shows "\<exists>b. find_conf_by_address crypt t name addr typ username password = Some (snd b) \<and>
    highest (matching crypt t name addr typ (case username of None \<Rightarrow> [] | Some u \<Rightarrow> u) (case password of None \<Rightarrow> [] | Some p \<Rightarrow> p)) b"
  by (rule find_conf_complete [OF assms])

definition sample_item :: access_item where
  "sample_item = \<lparr>need_password = True, exempt_kline = False, exempt_gline = False, encrypted = False, temporary = False,
     passwd = None, clients = 0, illegal = False\<rparr>"

definition sample_table :: access_table where
  "sample_table = \<lparr>atable = (\<lambda>_. []), prec_value = 0xFFFFFFFF, aconfs = (\<lambda>_. sample_item)\<rparr>"

lemma sample_table_ok: "table_ok sample_table"
  by (simp add: table_ok_def sample_table_def)

theorem find_conf_by_address_complete_witness:
  "\<exists>b. find_conf_by_address (\<lambda>p s. s @ p) sample_table (Some ''irc.example.org'') (Some (Addr4 0x01020304)) CONF_KILL None None
      = Some (snd b) \<and>
    highest (matching (\<lambda>p s. s @ p) sample_table (Some ''irc.example.org'') (Some (Addr4 0x01020304)) CONF_KILL [] []) b"
  using find_conf_by_address_complete [OF sample_table_ok, of "Some (Addr4 0x01020304)" "Some ''irc.example.org''"
      "\<lambda>p s. s @ p" CONF_KILL None None] by simp

text \<open>
  C32: when nothing in the table fits a client, adding a record whose mask fits it makes the lookup return
  exactly that record's item, for every kind of mask, and keeps every record in its bucket.
\<close>

theorem add_conf_by_address_found:
  assumes "table_ok t" "cstr host" "host \<noteq> []" "0 < prec_value t"
    "parse_netmask host = Some m" "mask_ok m"
    "case addr of Some (Addr6 a) \<Rightarrow> length a = 16 | _ \<Rightarrow> True" "cstr n"
    "find_conf_by_address crypt t (Some n) addr typ (Some u) None = Some None"
    "let r = \<lparr>ar_mask = m, ar_hostname = host, ar_type = typ, ar_precedence = prec_value t, ar_username = user, ar_aconf = aconf\<rparr>
     in mask_matches (Some n) addr r \<and> admits crypt t typ u [] r"
  shows "\<exists>t'. add_conf_by_address typ host user aconf t = Some t' \<and> table_ok t' \<and>
    find_conf_by_address crypt t' (Some n) addr typ (Some u) None = Some (Some aconf)"
proof -
  let ?r = "\<lparr>ar_mask = m, ar_hostname = host, ar_type = typ, ar_precedence = prec_value t, ar_username = user, ar_aconf = aconf\<rparr>"
  have "home_bucket m host \<noteq> None"
    using assms(6) by (auto simp: home_bucket_def mask_ok_def hash_ipv4_def v4_mask_def smod_nonneg split: netmask.split)
  then obtain hv where hv: "home_bucket m host = Some hv" by blast
  let ?t = "t\<lparr>atable := (atable t)(hv := ?r # atable t hv), prec_value := prec_value t - 1\<rparr>"
  have a: "add_conf_by_address typ host user aconf t = Some ?t"
    using assms(3,5) hv by (simp add: add_conf_by_address_def Let_def)
  have ok: "table_ok ?t" by (rule add_conf_table_ok [OF assms(1,2,4) a]) (use assms(3,5,6) in simp)
  obtain b0 where "find_conf_by_address crypt t (Some n) addr typ (Some u) None = Some (snd b0)"
    "highest (matching crypt t (Some n) addr typ u []) b0"
    using find_conf_complete [OF assms(1,7), of "Some n" crypt "typ" "Some u" None] assms(8) by auto
  then have e: "matching crypt t (Some n) addr typ u [] = {}"
    using assms(9) by (auto simp: highest_def split: if_splits)
  have ad: "admits crypt ?t typ u [] r = admits crypt t typ u [] r" for r by (simp add: admits_def)
  have "matching crypt ?t (Some n) addr typ u [] = insert ?r (matching crypt t (Some n) addr typ u [])"
    using assms(10) unfolding matching_def ad by (auto simp: Let_def split: if_splits)
  then have "matching crypt ?t (Some n) addr typ u [] = {?r}" using e by simp
  moreover obtain b1 where "find_conf_by_address crypt ?t (Some n) addr typ (Some u) None = Some (snd b1)"
    "highest (matching crypt ?t (Some n) addr typ u []) b1"
    using find_conf_complete [OF ok assms(7), of "Some n" crypt "typ" "Some u" None] assms(8) by auto
  ultimately have "find_conf_by_address crypt ?t (Some n) addr typ (Some u) None = Some (Some aconf)"
    by (auto simp: highest_def)
  then show ?thesis using a ok by blast
qed

theorem add_conf_by_address_found_witness:
  "\<exists>t'. add_conf_by_address CONF_KILL ''*.example.org'' ''*'' 3 sample_table = Some t' \<and> table_ok t' \<and>
    find_conf_by_address (\<lambda>p s. s @ p) t' (Some ''irc.example.org'') None CONF_KILL (Some ''bob'') None = Some (Some 3)"
proof (rule add_conf_by_address_found [OF sample_table_ok, where m = HM_HOST])
  have g: "glob ''*.example.org'' ''irc.example.org''"
    unfolding glob_star by (rule exI [of _ 3]) (simp add: glob_char char_matches_def)
  have b: "match ''*'' ''bob'' = Some True" by (simp add: match_is_glob glob_star)  (rule exI [of _ 3], simp)
  show "parse_netmask ''*.example.org'' = Some HM_HOST"
    by (simp add: parse_netmask_def try_parse_v4_netmask_def dec_digit_def)
  show "let r = \<lparr>ar_mask = HM_HOST, ar_hostname = ''*.example.org'', ar_type = CONF_KILL, ar_precedence = prec_value sample_table,
        ar_username = ''*'', ar_aconf = 3\<rparr>
     in mask_matches (Some ''irc.example.org'') None r \<and> admits (\<lambda>p s. s @ p) sample_table CONF_KILL ''bob'' [] r"
    using g b by (simp add: Let_def mask_matches_def admits_def sample_table_def sample_item_def CONF_KILL_def)
qed (simp_all add: mask_ok_def sample_table_def find_conf_by_address_def Let_def)

end
