(* ===== verification/Ircd_State.thy ===== *)
theory Ircd_State
  imports Complex_Main Hostmask
begin

section \<open>Clients, channels and memberships\<close>

text \<open>
  The state the channel code works on: \<^verbatim>\<open>struct Client\<close> (include/client.h) with the parts of its
  \<^verbatim>\<open>localClient\<close> the channel code reads, \<^verbatim>\<open>struct Channel\<close>, \<^verbatim>\<open>struct Mode\<close>, \<^verbatim>\<open>struct Membership\<close> and
  \<^verbatim>\<open>struct Ban\<close> (include/channel.h), the configuration, and the log of what is sent.

  Objects are addressed by number, as pointers are.  A membership is shared: the same object hangs in
  the list of its channel and in the list of its client, so it is kept once, in \<open>mships\<close>, and the two
  lists hold its number.  The lists themselves are values: theory \<open>DLink\<close> shows that the pointer
  operations \<open>dlinkAdd\<close>, \<open>dlinkDelete\<close> and \<open>dlinkFind\<close> do to the linked structure what \<open>#\<close>, removal and
  \<open>find\<close> do to a list.  The hash tables appear through what theory \<open>Hash_Tables\<close> proves of a lookup: it
  returns an object of the table whose name is the asked one up to case.
\<close>

subsection \<open>Constants of channel.h and channel_mode.h\<close>

abbreviation CHFL_OWNER :: "32 word" where "CHFL_OWNER \<equiv> 0x1"
abbreviation CHFL_PROTECTED :: "32 word" where "CHFL_PROTECTED \<equiv> 0x2"
abbreviation CHFL_CHANOP :: "32 word" where "CHFL_CHANOP \<equiv> 0x4"
abbreviation CHFL_HALFOP :: "32 word" where "CHFL_HALFOP \<equiv> 0x8"
abbreviation CHFL_VOICE :: "32 word" where "CHFL_VOICE \<equiv> 0x10"
abbreviation CHFL_DEOPPED :: "32 word" where "CHFL_DEOPPED \<equiv> 0x20"
abbreviation CHFL_BAN_CHECKED :: "32 word" where "CHFL_BAN_CHECKED \<equiv> 0x80"
abbreviation CHFL_BAN_SILENCED :: "32 word" where "CHFL_BAN_SILENCED \<equiv> 0x100"

abbreviation MODE_PRIVATE :: "32 word" where "MODE_PRIVATE \<equiv> 0x1"
abbreviation MODE_SECRET :: "32 word" where "MODE_SECRET \<equiv> 0x2"
abbreviation MODE_MODERATED :: "32 word" where "MODE_MODERATED \<equiv> 0x4"
abbreviation MODE_TOPICLIMIT :: "32 word" where "MODE_TOPICLIMIT \<equiv> 0x8"
abbreviation MODE_INVITEONLY :: "32 word" where "MODE_INVITEONLY \<equiv> 0x10"
abbreviation MODE_NOPRIVMSGS :: "32 word" where "MODE_NOPRIVMSGS \<equiv> 0x20"
abbreviation MODE_REGONLY :: "32 word" where "MODE_REGONLY \<equiv> 0x40"
abbreviation MODE_NOCTRL :: "32 word" where "MODE_NOCTRL \<equiv> 0x80"
abbreviation MODE_OPERONLY :: "32 word" where "MODE_OPERONLY \<equiv> 0x100"
abbreviation MODE_MODREG :: "32 word" where "MODE_MODREG \<equiv> 0x200"
abbreviation MODE_NOSPAM :: "32 word" where "MODE_NOSPAM \<equiv> 0x400"
abbreviation MODE_BWSAVER :: "32 word" where "MODE_BWSAVER \<equiv> 0x800"
abbreviation MODE_NONOTICES :: "32 word" where "MODE_NONOTICES \<equiv> 0x1000"
abbreviation MODE_CHANREG :: "32 word" where "MODE_CHANREG \<equiv> 0x2000"
abbreviation MODE_STRIPCOLOR :: "32 word" where "MODE_STRIPCOLOR \<equiv> 0x4000"
abbreviation MODE_NOFLOOD :: "32 word" where "MODE_NOFLOOD \<equiv> 0x8000"
abbreviation MODE_SSLONLY :: "32 word" where "MODE_SSLONLY \<equiv> 0x20000"
abbreviation MODE_FORWARD :: "32 word" where "MODE_FORWARD \<equiv> 0x40000"

abbreviation USERLEN :: nat where "USERLEN \<equiv> 10"
abbreviation HOSTLEN :: nat where "HOSTLEN \<equiv> 63"
abbreviation CHANNELLEN :: nat where "CHANNELLEN \<equiv> 200"
abbreviation LOCAL_CHANNELLEN :: nat where "LOCAL_CHANNELLEN \<equiv> 50"
abbreviation KEYLEN :: nat where "KEYLEN \<equiv> 24"

definition has :: "32 word \<Rightarrow> 32 word \<Rightarrow> bool" where
  "has flags f \<longleftrightarrow> flags AND f \<noteq> 0"

subsection \<open>Objects\<close>

type_synonym cid = nat
type_synonym chid = nat
type_synonym mid = nat

datatype client_status = STAT_CONNECTING | STAT_HANDSHAKE | STAT_ME | STAT_UNKNOWN | STAT_SERVER | STAT_CLIENT

datatype ip_addr = Ip4 "32 word" | Ip6 "8 word list" | Ip_none

text \<open>
  \<open>cl_local\<close> is \<^verbatim>\<open>MyConnect\<close>, a client with a \<^verbatim>\<open>localClient\<close>; \<open>cl_ip\<close> is the address there with its
  \<^verbatim>\<open>aftype\<close>.  The user modes and flags the channel code tests are booleans.
\<close>

record client =
  cl_name :: string
  cl_username :: string
  cl_host :: string
  cl_realhost :: string
  cl_sockhost :: string
  cl_id :: string
  cl_status :: client_status
  cl_local :: bool
  cl_oper :: bool
  cl_admin :: bool
  cl_services :: bool
  cl_ssl :: bool
  cl_regnick :: bool
  cl_invisible :: bool
  cl_exempt_resv :: bool
  cl_ts6 :: bool
  cl_ip :: ip_addr
  cl_servptr :: cid
  cl_channel :: "mid list"
  cl_invited :: "chid list"
  cl_since :: int
  cl_join_leave_count :: int
  cl_oper_warn_count_down :: int
  cl_last_join_time :: int
  cl_last_leave_time :: int

record mode =
  md_mode :: "32 word"
  md_limit :: "32 word"
  md_key :: string
  md_forward :: string
  md_msgs :: "32 word"
  md_per :: "32 word"

text \<open>The three fields \<^verbatim>\<open>type\<close>, \<^verbatim>\<open>addr\<close>, \<^verbatim>\<open>bits\<close> that \<open>parse_netmask\<close> fills are the one value it returns.\<close>

record ban =
  bn_len :: nat
  bn_name :: string
  bn_username :: string
  bn_host :: string
  bn_who :: string
  bn_when :: int
  bn_addr :: netmask

record membership =
  ms_chptr :: chid
  ms_client :: cid
  ms_flags :: "32 word"
  ms_lmsg :: "string option"
  ms_nmsg :: int
  ms_lsize :: int
  ms_lmsg_time :: int

record channel =
  ch_name :: string
  ch_mode :: mode
  ch_topic :: "string option"
  ch_topic_info :: "string option"
  ch_topic_time :: int
  ch_members :: "mid list"
  ch_invites :: "cid list"
  ch_banlist :: "ban list"
  ch_exceptlist :: "ban list"
  ch_invexlist :: "ban list"
  ch_flood_noticed :: bool
  ch_number_joined :: rat
  ch_last_join_time :: int
  ch_channelts :: int

text \<open>
  \<open>CHANAQ\<close>, \<open>HALFOPS\<close>, \<open>HAVE_LIBCRYPTO\<close>, \<open>NICKLEN\<close> and \<open>TOPICLEN\<close> are settled when the server is
  built.  \<open>rnd\<close> is the rounding of C's \<^verbatim>\<open>float\<close>, which the join flood counter is computed in.
\<close>

record config =
  CHANAQ :: bool
  HALFOPS :: bool
  HAVE_LIBCRYPTO :: bool
  NICKLEN :: nat
  TOPICLEN :: nat
  max_bans :: nat
  max_chans_per_user :: nat
  use_except :: bool
  use_invex :: bool
  quiet_on_ban :: bool
  restrict_channels :: bool
  disable_fake_channels :: bool
  oper_pass_resv :: bool
  hub :: bool
  joinfloodtime :: int
  joinfloodcount :: int
  spam_num :: int
  spam_time :: int
  kill_chase_time_limit :: int
  rnd :: "rat \<Rightarrow> rat"

text \<open>
  What the code sends: the destination, the format's name and the arguments.  \<open>To_ops\<close> is
  \<^verbatim>\<open>sendto_realops_flags\<close>, \<open>To_channel\<close> is \<^verbatim>\<open>sendto_channel_local\<close> with the members it goes to,
  \<open>To_servers\<close> is \<^verbatim>\<open>sendto_server\<close> about a channel with the capabilities it needs and excludes, \<open>To_network\<close>
  one about a client with the server left out, and \<open>To_common\<close> is \<^verbatim>\<open>sendto_common_channels_local\<close> with
  whether the client itself gets it.  \<open>Calls\<close> stands for a call into a part that is not modelled.
\<close>

datatype event =
    To_one cid string "string list"
  | To_ops string "string list"
  | To_channel "32 word" chid string
  | To_servers chid "32 word" "32 word" string
  | To_common cid bool string
  | To_network "cid option" cid "32 word" "32 word" string
  | Calls string cid

record world =
  clients :: "cid \<Rightarrow> client"
  chans :: "chid \<Rightarrow> channel"
  mships :: "mid \<Rightarrow> membership option"
  client_names :: "cid list"
  id_names :: "cid list"
  channel_names :: "chid list"
  resv_names :: "string list"
  history :: "string \<Rightarrow> int \<Rightarrow> cid option"
  global_channel_list :: "chid list"
  lazylink_channels :: "chid list"
  me :: cid
  CurrentTime :: int
  cfg :: config
  log :: "event list"

subsection \<open>Access and update\<close>

definition upd_client :: "cid \<Rightarrow> (client \<Rightarrow> client) \<Rightarrow> world \<Rightarrow> world" where
  "upd_client c f w = w\<lparr>clients := (clients w)(c := f (clients w c))\<rparr>"

definition upd_chan :: "chid \<Rightarrow> (channel \<Rightarrow> channel) \<Rightarrow> world \<Rightarrow> world" where
  "upd_chan ch f w = w\<lparr>chans := (chans w)(ch := f (chans w ch))\<rparr>"

definition upd_ms :: "mid \<Rightarrow> (membership \<Rightarrow> membership) \<Rightarrow> world \<Rightarrow> world" where
  "upd_ms m f w = w\<lparr>mships := (mships w)(m := map_option f (mships w m))\<rparr>"

definition send :: "event \<Rightarrow> world \<Rightarrow> world" where
  "send e w = w\<lparr>log := log w @ [e]\<rparr>"

definition IsServer :: "client \<Rightarrow> bool" where
  "IsServer c \<longleftrightarrow> cl_status c = STAT_SERVER"

definition IsClient :: "client \<Rightarrow> bool" where
  "IsClient c \<longleftrightarrow> cl_status c = STAT_CLIENT"

definition MyClient :: "client \<Rightarrow> bool" where
  "MyClient c \<longleftrightarrow> cl_local c \<and> IsClient c"

lemma upd_client_simps [simp]:
  "clients (upd_client c f w) = (clients w)(c := f (clients w c))" "chans (upd_client c f w) = chans w"
  "mships (upd_client c f w) = mships w" "cfg (upd_client c f w) = cfg w" "log (upd_client c f w) = log w"
  "CurrentTime (upd_client c f w) = CurrentTime w" "me (upd_client c f w) = me w"
  "global_channel_list (upd_client c f w) = global_channel_list w" "channel_names (upd_client c f w) = channel_names w"
  "client_names (upd_client c f w) = client_names w" "id_names (upd_client c f w) = id_names w" "resv_names (upd_client c f w) = resv_names w"
  "history (upd_client c f w) = history w" "lazylink_channels (upd_client c f w) = lazylink_channels w"
  by (simp_all add: upd_client_def)

lemma upd_chan_simps [simp]:
  "chans (upd_chan c f w) = (chans w)(c := f (chans w c))" "clients (upd_chan c f w) = clients w"
  "mships (upd_chan c f w) = mships w" "cfg (upd_chan c f w) = cfg w" "log (upd_chan c f w) = log w"
  "CurrentTime (upd_chan c f w) = CurrentTime w" "me (upd_chan c f w) = me w"
  "global_channel_list (upd_chan c f w) = global_channel_list w" "channel_names (upd_chan c f w) = channel_names w"
  "client_names (upd_chan c f w) = client_names w" "id_names (upd_chan c f w) = id_names w" "resv_names (upd_chan c f w) = resv_names w"
  "history (upd_chan c f w) = history w" "lazylink_channels (upd_chan c f w) = lazylink_channels w"
  by (simp_all add: upd_chan_def)

lemma upd_ms_simps [simp]:
  "mships (upd_ms m f w) = (mships w)(m := map_option f (mships w m))" "clients (upd_ms m f w) = clients w"
  "chans (upd_ms m f w) = chans w" "cfg (upd_ms m f w) = cfg w" "log (upd_ms m f w) = log w"
  "CurrentTime (upd_ms m f w) = CurrentTime w" "me (upd_ms m f w) = me w"
  "global_channel_list (upd_ms m f w) = global_channel_list w" "channel_names (upd_ms m f w) = channel_names w"
  "client_names (upd_ms m f w) = client_names w" "id_names (upd_ms m f w) = id_names w" "resv_names (upd_ms m f w) = resv_names w"
  "history (upd_ms m f w) = history w" "lazylink_channels (upd_ms m f w) = lazylink_channels w"
  by (simp_all add: upd_ms_def)

lemma send_simps [simp]:
  "mships (send e w) = mships w" "clients (send e w) = clients w" "chans (send e w) = chans w"
  "cfg (send e w) = cfg w" "log (send e w) = log w @ [e]" "CurrentTime (send e w) = CurrentTime w" "me (send e w) = me w"
  "global_channel_list (send e w) = global_channel_list w" "channel_names (send e w) = channel_names w"
  "client_names (send e w) = client_names w" "id_names (send e w) = id_names w" "resv_names (send e w) = resv_names w"
  "history (send e w) = history w" "lazylink_channels (send e w) = lazylink_channels w"
  by (simp_all add: send_def)

lemma has_0 [simp]: "\<not> has 0 f"
  by (simp add: has_def)

lemma has_or [simp]: "has (a OR b) f \<longleftrightarrow> has a f \<or> has b f"
  by (simp add: has_def bit.conj_disj_distrib2 or_eq_0_iff)

subsection \<open>Lookups by name\<close>

definition lookup_client :: "string \<Rightarrow> world \<Rightarrow> cid option" where
  "lookup_client name w = find (\<lambda>c. irccmp name (cl_name (clients w c)) = 0) (client_names w)"

definition lookup_id :: "string \<Rightarrow> world \<Rightarrow> cid option" where
  "lookup_id name w = find (\<lambda>c. name = cl_id (clients w c)) (id_names w)"

definition lookup_channel :: "string \<Rightarrow> world \<Rightarrow> chid option" where
  "lookup_channel name w = find (\<lambda>c. irccmp name (ch_name (chans w c)) = 0) (channel_names w)"

definition lookup_resv :: "string \<Rightarrow> world \<Rightarrow> bool" where
  "lookup_resv name w \<longleftrightarrow> (\<exists>r\<in>set (resv_names w). irccmp name r = 0)"

definition find_person :: "cid \<Rightarrow> string \<Rightarrow> world \<Rightarrow> cid option" where
  "find_person client_p name w =
    (let c2 = (if IsDigit (rd name 0)
               then (case lookup_id name w of
                       None \<Rightarrow> None
                     | Some c \<Rightarrow> (if cl_invisible (clients w c) \<and> \<not> IsServer (clients w client_p) then None else Some c))
               else lookup_client name w) in
     case c2 of None \<Rightarrow> None | Some c \<Rightarrow> (if IsClient (clients w c) then Some c else None))"

text \<open>The history of nicknames is a parameter here; theory \<open>Whowas\<close> models \<open>get_history\<close>.\<close>

definition find_chasing :: "cid \<Rightarrow> cid \<Rightarrow> string \<Rightarrow> world \<Rightarrow> cid option \<times> world" where
  "find_chasing client_p source_p user w =
    (case find_person client_p user w of
       Some who \<Rightarrow> (Some who, w)
     | None \<Rightarrow>
         (if IsDigit (rd user 0) then (None, w)
          else case history w user (kill_chase_time_limit (cfg w)) of
                 None \<Rightarrow> (None, send (To_one source_p ''ERR_NOSUCHNICK'' [user]) w)
               | Some who \<Rightarrow> (Some who, w)))"

end
