(* ===== verification/Ban_List.thy ===== *)
theory Ban_List
  imports Ircd_State "HOL-Library.Monad_Syntax"
begin

section \<open>Ban, exception and invite exception lists\<close>

text \<open>
  \<open>split_nuh\<close> of s_conf.c; \<open>check_string\<close>, \<open>add_id\<close>, \<open>del_id\<close>, \<open>clear_ban_cache\<close> and
  \<open>clear_ban_cache_client\<close> of channel_mode.c; \<open>remove_ban\<close>, \<open>free_channel_list\<close>, \<open>find_bmask\<close> and
  \<open>is_banned\<close> of channel.c.  \<open>None\<close> is undefined behaviour of the code: a read or write outside an object
  in the parsers they call, or a null pointer dereferenced.
\<close>

subsection \<open>Masks\<close>

text \<open>What \<open>strlcpy\<close> leaves in a buffer of the given size (lemma \<open>strlcpy_text\<close>).\<close>

definition fit :: "nat \<Rightarrow> string \<Rightarrow> string" where
  "fit n s = take (n - 1) s"

definition until :: "char \<Rightarrow> string \<Rightarrow> string" where
  "until c s = takeWhile (\<lambda>d. d \<noteq> c) s"

definition after :: "char \<Rightarrow> string \<Rightarrow> string" where
  "after c s = drop 1 (dropWhile (\<lambda>d. d \<noteq> c) s)"

definition copy_if :: "string \<Rightarrow> nat \<Rightarrow> string \<Rightarrow> string" where
  "copy_if s n old = (if s \<noteq> [] then fit n s else old)"

definition check_string :: "string \<Rightarrow> string" where
  "check_string s = (if s = [] then ''*'' else takeWhile (\<lambda>c. \<not> IsSpace c) s)"

text \<open>The nick buffer may be absent; the user and host buffers are not in any call.\<close>

definition split_nuh :: "nat option \<Rightarrow> nat \<Rightarrow> nat \<Rightarrow> string \<Rightarrow> string option \<times> string \<times> string" where
  "split_nuh nicksize usersize hostsize nuhmask =
    (let nick0 = map_option (\<lambda>n. fit n ''*'') nicksize;
         user0 = fit usersize ''*'';
         host0 = fit hostsize ''*'' in
     if CHR ''!'' \<in> set nuhmask then
       (let m = until CHR ''!'' nuhmask;
            p = after CHR ''!'' nuhmask;
            nick = (case nicksize of None \<Rightarrow> None | Some n \<Rightarrow> (if m \<noteq> [] then Some (fit n m) else nick0)) in
        if CHR ''@'' \<in> set p then
          (nick, copy_if (until CHR ''@'' p) usersize user0, copy_if (after CHR ''@'' p) hostsize host0)
        else (nick, copy_if p usersize user0, host0))
     else if CHR ''@'' \<in> set nuhmask then
       (nick0, copy_if (until CHR ''@'' nuhmask) usersize user0, copy_if (after CHR ''@'' nuhmask) hostsize host0)
     else (case nicksize of
             None \<Rightarrow> (nick0, user0, fit hostsize nuhmask)
           | Some n \<Rightarrow> (if CHR ''.'' \<in> set nuhmask \<or> CHR '':'' \<in> set nuhmask
                        then (nick0, user0, fit hostsize nuhmask)
                        else (Some (fit n nuhmask), user0, host0))))"

text \<open>\<^verbatim>\<open>ircsprintf(banid, "%s!%s@%s", name, user, host)\<close>\<close>

definition nuh_text :: "string \<Rightarrow> string \<Rightarrow> string \<Rightarrow> string" where
  "nuh_text n u h = n @ ''!'' @ u @ ''@'' @ h"

definition split_id :: "config \<Rightarrow> string \<Rightarrow> string \<times> string \<times> string" where
  "split_id c banid =
    (case split_nuh (Some (NICKLEN c)) (USERLEN + 1) (HOSTLEN + 1) (check_string banid) of
       (n, u, h) \<Rightarrow> (the n, u, h))"

subsection \<open>The lists\<close>

datatype id_type = CHFL_BAN | CHFL_EXCEPTION | CHFL_INVEX

definition id_list :: "id_type \<Rightarrow> channel \<Rightarrow> ban list" where
  "id_list t ch = (case t of CHFL_BAN \<Rightarrow> ch_banlist ch | CHFL_EXCEPTION \<Rightarrow> ch_exceptlist ch | CHFL_INVEX \<Rightarrow> ch_invexlist ch)"

definition upd_id_list :: "id_type \<Rightarrow> (ban list \<Rightarrow> ban list) \<Rightarrow> channel \<Rightarrow> channel" where
  "upd_id_list t f ch =
    (case t of
       CHFL_BAN \<Rightarrow> ch\<lparr>ch_banlist := f (ch_banlist ch)\<rparr>
     | CHFL_EXCEPTION \<Rightarrow> ch\<lparr>ch_exceptlist := f (ch_exceptlist ch)\<rparr>
     | CHFL_INVEX \<Rightarrow> ch\<lparr>ch_invexlist := f (ch_invexlist ch)\<rparr>)"

definition num_mask :: "channel \<Rightarrow> nat" where
  "num_mask ch = length (ch_banlist ch) + length (ch_exceptlist ch) + length (ch_invexlist ch)"

definition forget_ban :: "membership \<Rightarrow> membership" where
  "forget_ban m = m\<lparr>ms_flags := ms_flags m AND NOT (CHFL_BAN_SILENCED OR CHFL_BAN_CHECKED)\<rparr>"

definition clear_ban_cache :: "chid \<Rightarrow> world \<Rightarrow> world" where
  "clear_ban_cache chptr w =
    fold (\<lambda>m. upd_ms m (\<lambda>ms. if cl_local (clients w (ms_client ms)) then forget_ban ms else ms))
      (ch_members (chans w chptr)) w"

definition clear_ban_cache_client :: "cid \<Rightarrow> world \<Rightarrow> world" where
  "clear_ban_cache_client c w = fold (\<lambda>m. upd_ms m forget_ban) (cl_channel (clients w c)) w"

definition same_id :: "string \<times> string \<times> string \<Rightarrow> ban \<Rightarrow> bool" where
  "same_id i b = (case i of (n, u, h) \<Rightarrow>
     irccmp (bn_name b) n = 0 \<and> irccmp (bn_username b) u = 0 \<and> irccmp (bn_host b) h = 0)"

definition set_by :: "client \<Rightarrow> string" where
  "set_by c = (if IsClient c then nuh_text (cl_name c) (cl_username c) (cl_host c) else cl_name c)"

text \<open>
  The result of \<open>add_id\<close> is what it returns, the mask as the call leaves it, and the state.
\<close>

definition add_id :: "cid \<Rightarrow> chid \<Rightarrow> string \<Rightarrow> id_type \<Rightarrow> world \<Rightarrow> (bool \<times> string \<times> world) option" where
  "add_id client_p chptr banid t w =
    (let c = clients w client_p; ch = chans w chptr in
     if MyClient c \<and> max_bans (cfg w) \<le> num_mask ch
     then Some (False, banid, send (To_one client_p ''ERR_BANLISTFULL'' [ch_name ch, banid]) w)
     else
       (let banid1 = (if MyClient c then collapse banid else banid);
            (n, u, h) = split_id (cfg w) banid1;
            banid2 = nuh_text n u h;
            w1 = (if t = CHFL_INVEX then w else clear_ban_cache chptr w) in
        if \<exists>b\<in>set (id_list t ch). same_id (n, u, h) b then Some (False, banid2, w1)
        else do {
          a \<leftarrow> parse_netmask h;
          let b = \<lparr>bn_len = length banid2 - 2, bn_name = n, bn_username = u, bn_host = h,
                   bn_who = set_by c, bn_when = CurrentTime w, bn_addr = a\<rparr>;
          Some (True, banid2, upd_chan chptr (upd_id_list t (\<lambda>bs. b # bs)) w1)
        }))"

fun remove_first :: "('a \<Rightarrow> bool) \<Rightarrow> 'a list \<Rightarrow> 'a list" where
  "remove_first P [] = []"
| "remove_first P (x # xs) = (if P x then xs else x # remove_first P xs)"

text \<open>\<open>remove_ban\<close> unlinks the ban it is given; here that is the first one of the list with the id.\<close>

definition del_id :: "chid \<Rightarrow> string option \<Rightarrow> id_type \<Rightarrow> world \<Rightarrow> bool \<times> string option \<times> world" where
  "del_id chptr banid t w =
    (case banid of
       None \<Rightarrow> (False, None, w)
     | Some s \<Rightarrow>
         (let (n, u, h) = split_id (cfg w) s;
              w1 = (if t = CHFL_INVEX then w else clear_ban_cache chptr w) in
          if \<exists>b\<in>set (id_list t (chans w chptr)). same_id (n, u, h) b
          then (True, Some (nuh_text n u h), upd_chan chptr (upd_id_list t (remove_first (same_id (n, u, h)))) w1)
          else (False, Some (nuh_text n u h), w1)))"

definition free_channel_list :: "id_type \<Rightarrow> chid \<Rightarrow> world \<Rightarrow> world" where
  "free_channel_list t chptr w = upd_chan chptr (upd_id_list t (\<lambda>bs. fold (\<lambda>b l. remove1 b l) bs bs)) w"

subsection \<open>Matching a client\<close>

definition host_match :: "string \<Rightarrow> client \<Rightarrow> bool option" where
  "host_match h who = do {
     a \<leftarrow> match h (cl_host who);
     if a then Some True else do {
       b \<leftarrow> match h (cl_realhost who);
       if b then Some True else match h (cl_sockhost who) } }"

definition addr_match :: "ban \<Rightarrow> client \<Rightarrow> bool option" where
  "addr_match bp who =
    (case bn_addr bp of
       HM_HOST \<Rightarrow> host_match (bn_host bp) who
     | HM_IPV4 a bits \<Rightarrow>
         (if \<not> cl_local who then None
          else case cl_ip who of
                 Ip4 ip \<Rightarrow> do { r \<leftarrow> match_ipv4 ip a bits; if r then Some True else host_match (bn_host bp) who }
               | _ \<Rightarrow> host_match (bn_host bp) who)
     | HM_IPV6 a bits \<Rightarrow>
         (if \<not> cl_local who then None
          else case cl_ip who of
                 Ip6 ip \<Rightarrow> do { r \<leftarrow> match_ipv6 ip a bits; if r then Some True else host_match (bn_host bp) who }
               | _ \<Rightarrow> host_match (bn_host bp) who))"

fun find_bmask :: "client \<Rightarrow> ban list \<Rightarrow> bool option" where
  "find_bmask who [] = Some False"
| "find_bmask who (bp # bs) = do {
     gecos \<leftarrow> match ''r/*'' (bn_name bp);
     if gecos then find_bmask who bs else do {
       n \<leftarrow> match (bn_name bp) (cl_name who);
       u \<leftarrow> (if n then match (bn_username bp) (cl_username who) else Some False);
       r \<leftarrow> (if u then addr_match bp who else Some False);
       if r then Some True else find_bmask who bs } }"

definition is_banned :: "chid \<Rightarrow> cid \<Rightarrow> world \<Rightarrow> bool option" where
  "is_banned chptr who w = do {
     b \<leftarrow> find_bmask (clients w who) (ch_banlist (chans w chptr));
     if b then
       (if \<not> use_except (cfg w) then Some True
        else map_option Not (find_bmask (clients w who) (ch_exceptlist (chans w chptr))))
     else Some False }"


subsection \<open>Splitting and reassembling a mask\<close>

lemma strlcpy_text:
  assumes "cstr src" "length buf = n" "0 < n"
  shows "\<exists>buf'. strlcpy buf src n = Some (buf', length src) \<and> takeWhile (\<lambda>c. c \<noteq> NUL) buf' = fit n src"
proof -
  have ne: "c \<noteq> NUL" if "c \<in> set (take k src)" for c k
    using assms(1) that by (auto simp: cstr_def dest: in_set_takeD)
  show ?thesis
  proof (cases "length src < n - 1")
    case True
    have "takeWhile (\<lambda>c. c \<noteq> NUL) (src @ NUL # drop (Suc (length src)) buf) = src"
      using ne [of _ "length src"] by (simp add: takeWhile_tail)
    with True show ?thesis
      using strlcpy_copy_fits [of src 0 "n - 1" buf] assms by (simp add: strlcpy_def fit_def)
  next
    case False
    let ?b = "take (n - 1) src @ drop (n - 1) buf"
    have "n - 1 < length ?b" using assms False by simp
    moreover have "takeWhile (\<lambda>c. c \<noteq> NUL) (?b[n - 1 := NUL]) = take (n - 1) src"
    proof -
      have "drop (n - 1) buf = buf ! (n - 1) # drop n buf"
        using assms Cons_nth_drop_Suc [of "n - 1" buf] by simp
      then have "?b[n - 1 := NUL] = take (n - 1) src @ NUL # drop n buf"
        using False assms by (simp add: list_update_append)
      then show ?thesis using ne by (simp add: takeWhile_tail)
    qed
    ultimately show ?thesis
      using strlcpy_copy_cut [of src 0 "n - 1" buf] assms False
      by (simp add: strlcpy_def fit_def put_def)
  qed
qed

lemma until_append [simp]: "c \<notin> set n \<Longrightarrow> until c (n @ c # r) = n"
  unfolding until_def by (subst takeWhile_append2) auto

lemma after_append [simp]: "c \<notin> set n \<Longrightarrow> after c (n @ c # r) = r"
  unfolding after_def by (subst dropWhile_append2) auto

lemma until_notin [simp]: "c \<notin> set (until c s)"
  by (auto simp: until_def dest: set_takeWhileD)

lemma set_until: "set (until c s) \<subseteq> set s"
  by (auto simp: until_def dest: set_takeWhileD)

lemma set_after: "set (after c s) \<subseteq> set s"
  by (auto simp: after_def dest: in_set_dropD set_dropWhileD)

lemma set_fit: "set (fit n s) \<subseteq> set s"
  by (simp add: fit_def set_take_subset)

lemma length_fit: "0 < n \<Longrightarrow> length (fit n s) < n"
  by (auto simp: fit_def min_def)

lemma fit_id: "length s < n \<Longrightarrow> fit n s = s"
  by (simp add: fit_def)

lemma fit_Nil_iff: "2 \<le> n \<Longrightarrow> fit n s = [] \<longleftrightarrow> s = []"
  by (cases s) (auto simp: fit_def numeral_2_eq_2 Suc_le_eq)

lemma split_nuh_text:
  assumes "n \<noteq> []" "u \<noteq> []" "h \<noteq> []" "CHR ''!'' \<notin> set n" "CHR ''@'' \<notin> set u"
    "length n < ns" "length u < us" "length h < hs"
  shows "split_nuh (Some ns) us hs (nuh_text n u h) = (Some n, u, h)"
  using assms by (simp add: split_nuh_def nuh_text_def copy_if_def fit_id)

definition parts_ok :: "nat \<Rightarrow> nat \<Rightarrow> nat \<Rightarrow> string \<Rightarrow> string \<Rightarrow> string \<Rightarrow> bool" where
  "parts_ok ns us hs n u h \<longleftrightarrow> CHR ''!'' \<notin> set n \<and> CHR ''@'' \<notin> set u \<and>
     length n < ns \<and> length u < us \<and> length h < hs"

lemma fit_star: "2 \<le> n \<Longrightarrow> fit n ''*'' = ''*''"
  by (rule fit_id) simp

lemma split_nuh_shape:
  assumes "2 \<le> ns" "2 \<le> us" "2 \<le> hs" "split_nuh (Some ns) us hs msk = (Some n, u, h)"
  shows "parts_ok ns us hs n u h \<and> (msk \<noteq> [] \<longrightarrow> n \<noteq> [] \<and> u \<noteq> [] \<and> h \<noteq> [])"
proof -
  have f: "length (fit k s) < k" if "2 \<le> k" for k s using that by (intro length_fit) simp
  have i: "c \<notin> set (fit k s)" if "c \<notin> set s" for c k s using set_fit that by blast
  have b: "CHR ''!'' \<notin> set (until CHR ''!'' s)" for s by simp
  show ?thesis
    using assms
    by (auto simp: split_nuh_def parts_ok_def copy_if_def Let_def f fit_star fit_Nil_iff i b
        split: if_splits)
qed

lemma split_nuh_set:
  assumes "split_nuh (Some ns) us hs msk = (Some n, u, h)"
  shows "set n \<union> set u \<union> set h \<subseteq> insert CHR ''*'' (set msk)"
proof -
  define Q where "Q s \<longleftrightarrow> set s \<subseteq> insert CHR ''*'' (set msk)" for s
  have [intro]: "Q s \<Longrightarrow> Q (fit k s)" "Q s \<Longrightarrow> Q (until c s)" "Q s \<Longrightarrow> Q (after c s)" for s k c
    using set_fit [of k s] set_until [of c s] set_after [of c s] by (auto simp: Q_def)
  have [intro]: "Q msk" "Q ''*''" by (auto simp: Q_def)
  have "Q n \<and> Q u \<and> Q h"
    using assms by (auto simp: split_nuh_def copy_if_def Let_def split: if_splits)
  then show ?thesis by (auto simp: Q_def)
qed

lemma split_nuh_some: "\<exists>n u h. split_nuh (Some ns) us hs msk = (Some n, u, h)"
  by (auto simp: split_nuh_def Let_def)




subsection \<open>The invariant of the lists\<close>

definition id_key :: "ban \<Rightarrow> string \<times> string \<times> string" where
  "id_key b = (fold_case (bn_name b), fold_case (bn_username b), fold_case (bn_host b))"

definition ban_ok :: "config \<Rightarrow> ban \<Rightarrow> bool" where
  "ban_ok c b \<longleftrightarrow> cstr (bn_name b) \<and> cstr (bn_username b) \<and> cstr (bn_host b) \<and>
     parts_ok (NICKLEN c) (USERLEN + 1) (HOSTLEN + 1) (bn_name b) (bn_username b) (bn_host b) \<and>
     bn_len b = length (bn_name b) + length (bn_username b) + length (bn_host b)"

definition bans_ok :: "config \<Rightarrow> channel \<Rightarrow> bool" where
  "bans_ok c ch \<longleftrightarrow> (\<forall>t. distinct (map id_key (id_list t ch)) \<and> (\<forall>b\<in>set (id_list t ch). ban_ok c b))"

lemma id_list_upd [simp]:
  "id_list t (upd_id_list t' f ch) = (if t = t' then f (id_list t ch) else id_list t ch)"
  by (auto simp: id_list_def upd_id_list_def split: id_type.splits)

lemma num_mask_alt: "num_mask ch = length (id_list CHFL_BAN ch) + length (id_list CHFL_EXCEPTION ch) + length (id_list CHFL_INVEX ch)"
  by (simp add: num_mask_def id_list_def)

lemma fold_upd_ms [simp]:
  "chans (fold (\<lambda>m. upd_ms m f) ms w) = chans w" "clients (fold (\<lambda>m. upd_ms m f) ms w) = clients w"
  "cfg (fold (\<lambda>m. upd_ms m f) ms w) = cfg w" "log (fold (\<lambda>m. upd_ms m f) ms w) = log w"
  "CurrentTime (fold (\<lambda>m. upd_ms m f) ms w) = CurrentTime w"
  by (induction ms arbitrary: w) auto

lemma clear_ban_cache_frame [simp]:
  "chans (clear_ban_cache ch w) = chans w" "clients (clear_ban_cache ch w) = clients w"
  "cfg (clear_ban_cache ch w) = cfg w" "log (clear_ban_cache ch w) = log w"
  "CurrentTime (clear_ban_cache ch w) = CurrentTime w"
  by (simp_all add: clear_ban_cache_def)

lemma split_id_parts:
  assumes "split_id c s = (n, u, h)" "2 \<le> NICKLEN c" "cstr s"
  shows "parts_ok (NICKLEN c) (USERLEN + 1) (HOSTLEN + 1) n u h" "cstr n" "cstr u" "cstr h"
    "check_string s \<noteq> [] \<Longrightarrow> n \<noteq> [] \<and> u \<noteq> [] \<and> h \<noteq> []"
proof -
  obtain n' where e: "split_nuh (Some (NICKLEN c)) (USERLEN + 1) (HOSTLEN + 1) (check_string s) = (Some n', u, h)"
      and n: "n' = n"
    using split_nuh_some [of "NICKLEN c" "USERLEN + 1" "HOSTLEN + 1" "check_string s"] assms(1)
    by (auto simp: split_id_def)
  have cs: "NUL \<notin> set (check_string s)"
    using assms(3) by (auto simp: check_string_def cstr_def dest: set_takeWhileD)
  show "parts_ok (NICKLEN c) (USERLEN + 1) (HOSTLEN + 1) n u h"
    "check_string s \<noteq> [] \<Longrightarrow> n \<noteq> [] \<and> u \<noteq> [] \<and> h \<noteq> []"
    using split_nuh_shape [OF assms(2) _ _ e] n by auto
  show "cstr n" "cstr u" "cstr h"
    using split_nuh_set [OF e] cs n by (auto simp: cstr_def)
qed

lemma same_id_key:
  "cstr n \<Longrightarrow> cstr u \<Longrightarrow> cstr h \<Longrightarrow> ban_ok c b \<Longrightarrow>
    same_id (n, u, h) b \<longleftrightarrow> id_key b = (fold_case n, fold_case u, fold_case h)"
  by (simp add: same_id_def ban_ok_def id_key_def irccmp_iff)

lemma add_id_cases:
  assumes "add_id client_p chptr banid t w = Some (r, s, w')"
  obtains
    (full) "MyClient (clients w client_p)" "max_bans (cfg w) \<le> num_mask (chans w chptr)" "\<not> r" "s = banid"
      "w' = send (To_one client_p ''ERR_BANLISTFULL'' [ch_name (chans w chptr), banid]) w"
  | (known) n u h where "\<not> r" "split_id (cfg w) (if MyClient (clients w client_p) then collapse banid else banid) = (n, u, h)"
      "s = nuh_text n u h" "\<exists>b\<in>set (id_list t (chans w chptr)). same_id (n, u, h) b"
      "w' = (if t = CHFL_INVEX then w else clear_ban_cache chptr w)"
  | (new) n u h b where "r" "split_id (cfg w) (if MyClient (clients w client_p) then collapse banid else banid) = (n, u, h)"
      "s = nuh_text n u h" "\<not> (\<exists>b\<in>set (id_list t (chans w chptr)). same_id (n, u, h) b)"
      "\<not> (MyClient (clients w client_p) \<and> max_bans (cfg w) \<le> num_mask (chans w chptr))"
      "bn_name b = n" "bn_username b = u" "bn_host b = h" "bn_len b = length s - 2" "parse_netmask h = Some (bn_addr b)"
      "bn_who b = set_by (clients w client_p)" "bn_when b = CurrentTime w"
      "w' = upd_chan chptr (upd_id_list t (\<lambda>bs. b # bs)) (if t = CHFL_INVEX then w else clear_ban_cache chptr w)"
proof -
  obtain n u h where sp: "split_id (cfg w) (if MyClient (clients w client_p) then collapse banid else banid) = (n, u, h)"
    by (metis prod_cases3)
  consider (f) "MyClient (clients w client_p) \<and> max_bans (cfg w) \<le> num_mask (chans w chptr)"
    | (k) "\<not> (MyClient (clients w client_p) \<and> max_bans (cfg w) \<le> num_mask (chans w chptr))"
      "\<exists>b\<in>set (id_list t (chans w chptr)). same_id (n, u, h) b"
    | (a) "\<not> (MyClient (clients w client_p) \<and> max_bans (cfg w) \<le> num_mask (chans w chptr))"
      "\<not> (\<exists>b\<in>set (id_list t (chans w chptr)). same_id (n, u, h) b)" by blast
  then show thesis
  proof cases
    case f with assms show ?thesis by (intro full) (auto simp: add_id_def Let_def)
  next
    case k with assms sp show ?thesis by (intro known [of n u h]) (auto simp: add_id_def Let_def split: if_splits)
  next
    case a
    obtain m where p: "parse_netmask h = Some m" using assms sp a by (auto simp: add_id_def Let_def split: bind_splits if_splits)
    let ?b = "\<lparr>bn_len = length (nuh_text n u h) - 2, bn_name = n, bn_username = u, bn_host = h,
                   bn_who = set_by (clients w client_p), bn_when = CurrentTime w, bn_addr = m\<rparr>"
    have e: "(r, s, w') = (True, nuh_text n u h, upd_chan chptr (upd_id_list t (\<lambda>bs. ?b # bs))
        (if t = CHFL_INVEX then w else clear_ban_cache chptr w))"
      using assms sp a p by (auto simp: add_id_def Let_def split: if_splits)
    then show ?thesis using a sp p by (intro new [of n u h ?b]) (simp_all only: prod.inject ban.simps HOL.simp_thms)
  qed
qed


lemma bans_ok_add:
  assumes "bans_ok c ch" "ban_ok c b" "\<not> (\<exists>b'\<in>set (id_list t ch). id_key b' = id_key b)"
  shows "bans_ok c (upd_id_list t (\<lambda>bs. b # bs) ch)"
  using assms by (auto simp: bans_ok_def)

lemma num_mask_add: "num_mask (upd_id_list t (\<lambda>bs. b # bs) ch) = Suc (num_mask ch)"
  by (cases t) (auto simp: num_mask_alt)

lemma add_id_keeps:
  assumes "add_id client_p chptr banid t w = Some (r, s, w')" "bans_ok (cfg w) (chans w chptr)" "cstr banid"
    "2 \<le> NICKLEN (cfg w)"
  shows "bans_ok (cfg w') (chans w' chptr) \<and> (MyClient (clients w client_p) \<longrightarrow>
    num_mask (chans w chptr) \<le> max_bans (cfg w) \<longrightarrow> num_mask (chans w' chptr) \<le> max_bans (cfg w))"
proof (rule add_id_cases [OF assms(1)], goal_cases)
  case new: (3 n u h b)
  let ?s = "if MyClient (clients w client_p) then collapse banid else banid"
  have "cstr ?s" using assms(3) by simp
  note p = split_id_parts [OF new(2) assms(4) this]
  have ok: "ban_ok (cfg w) b" using p new by (simp add: ban_ok_def nuh_text_def)
  have "\<not> (\<exists>b'\<in>set (id_list t (chans w chptr)). id_key b' = id_key b)"
  proof
    assume "\<exists>b'\<in>set (id_list t (chans w chptr)). id_key b' = id_key b"
    then obtain b' where b': "b' \<in> set (id_list t (chans w chptr))" "id_key b' = id_key b" by blast
    then have "same_id (n, u, h) b'"
      using same_id_key [OF p(2-4)] assms(2) new(6-8) by (auto simp: bans_ok_def id_key_def)
    with b'(1) new(4) show False by blast
  qed
  then have "bans_ok (cfg w) (upd_id_list t (\<lambda>bs. b # bs) (chans w chptr))"
    by (rule bans_ok_add [OF assms(2) ok])
  then show ?case
    using new(5,13) by (cases "t = CHFL_INVEX") (auto simp: num_mask_add)
qed (use assms in auto)

text \<open>
  C30: \<open>add_id\<close> keeps the lists well formed: in each list no two masks are equal up to case, every mask is
  within its buffers, and a local client never takes a channel beyond \<open>max_bans\<close> masks over its
  three lists, whatever mask it sends.
\<close>

theorem add_id_invariant:
  assumes "add_id client_p chptr banid t w = Some (r, s, w')" "bans_ok (cfg w) (chans w chptr)" "cstr banid"
    "2 \<le> NICKLEN (cfg w)"
  shows "bans_ok (cfg w') (chans w' chptr) \<and> (MyClient (clients w client_p) \<longrightarrow>
    num_mask (chans w chptr) \<le> max_bans (cfg w) \<longrightarrow> num_mask (chans w' chptr) \<le> max_bans (cfg w))"
  by (rule add_id_keeps [OF assms])

lemma add_id_new:
  assumes "\<not> (MyClient (clients w client_p) \<and> max_bans (cfg w) \<le> num_mask (chans w chptr))"
    "split_id (cfg w) (if MyClient (clients w client_p) then collapse banid else banid) = (n, u, h)"
    "\<not> (\<exists>b\<in>set (id_list t (chans w chptr)). same_id (n, u, h) b)" "parse_netmask h = Some m"
  shows "\<exists>b. bn_name b = n \<and> bn_username b = u \<and> bn_host b = h \<and> bn_addr b = m \<and>
    add_id client_p chptr banid t w = Some (True, nuh_text n u h, upd_chan chptr (upd_id_list t (\<lambda>bs. b # bs))
      (if t = CHFL_INVEX then w else clear_ban_cache chptr w))"
proof -
  let ?b = "\<lparr>bn_len = length (nuh_text n u h) - 2, bn_name = n, bn_username = u, bn_host = h,
     bn_who = set_by (clients w client_p), bn_when = CurrentTime w, bn_addr = m\<rparr>"
  show ?thesis
    using assms by (intro exI [of _ ?b]) (auto simp: add_id_def Let_def)
qed

text \<open>A small world to evaluate on: a local client on a channel.\<close>

definition a_client :: client where
  "a_client = \<lparr>cl_name = ''alice'', cl_username = ''al'', cl_host = ''home.example'', cl_realhost = ''home.example'',
     cl_sockhost = ''10.0.0.7'', cl_id = ''1AAAAAAAB'', cl_status = STAT_CLIENT, cl_local = True, cl_oper = False,
     cl_admin = False, cl_services = False, cl_ssl = False, cl_regnick = False, cl_invisible = False,
     cl_exempt_resv = False, cl_ts6 = False, cl_ip = Ip4 0x0A000007, cl_servptr = 0, cl_channel = [], cl_invited = [],
     cl_since = 0, cl_join_leave_count = 0, cl_oper_warn_count_down = 0, cl_last_join_time = 0, cl_last_leave_time = 0\<rparr>"

definition a_mode :: mode where
  "a_mode = \<lparr>md_mode = 0, md_limit = 0, md_key = [], md_forward = [], md_msgs = 0, md_per = 0\<rparr>"

definition a_channel :: channel where
  "a_channel = \<lparr>ch_name = ''#isabelle'', ch_mode = a_mode, ch_topic = None, ch_topic_info = None, ch_topic_time = 0,
     ch_members = [], ch_invites = [], ch_banlist = [], ch_exceptlist = [], ch_invexlist = [],
     ch_flood_noticed = False, ch_number_joined = 0, ch_last_join_time = 0, ch_channelts = 1000\<rparr>"

definition a_config :: config where
  "a_config = \<lparr>CHANAQ = True, HALFOPS = True, HAVE_LIBCRYPTO = True, NICKLEN = 31, TOPICLEN = 390, max_bans = 25,
     max_chans_per_user = 15, use_except = True, use_invex = True, quiet_on_ban = True, restrict_channels = False,
     disable_fake_channels = True, oper_pass_resv = True, hub = False, joinfloodtime = 10, joinfloodcount = 16,
     spam_num = 5, spam_time = 60, kill_chase_time_limit = 90, rnd = (\<lambda>x. x)\<rparr>"

definition a_world :: world where
  "a_world = \<lparr>clients = (\<lambda>_. a_client), chans = (\<lambda>_. a_channel), mships = (\<lambda>_. None), client_names = [1], id_names = [],
     channel_names = [1], resv_names = [], history = (\<lambda>_ _. None), global_channel_list = [1],
     lazylink_channels = [], me = 0, CurrentTime = 5000, cfg = a_config, log = []\<rparr>"

lemmas example_defs = a_client_def a_mode_def a_channel_def a_config_def a_world_def

lemma a_world_simps [simp]:
  "clients a_world c = a_client" "chans a_world ch = a_channel" "cfg a_world = a_config" "MyClient a_client"
  "IsClient a_client" "id_list t a_channel = []" "num_mask a_channel = 0" "CurrentTime a_world = 5000"
  by (cases t; simp add: a_world_def a_client_def a_channel_def MyClient_def IsClient_def id_list_def num_mask_def)+

lemma a_channel_bans_ok: "bans_ok c a_channel"
  by (simp add: bans_ok_def)

theorem add_id_invariant_witness:
  "(case add_id 1 1 ''*!*@spam*'' CHFL_BAN a_world of None \<Rightarrow> False
    | Some (r, s, w') \<Rightarrow> r \<and> bans_ok (cfg w') (chans w' 1) \<and> num_mask (chans w' 1) = 1)"
proof -
  have "parse_netmask ''spam*'' = Some HM_HOST" by (simp add: parse_netmask_def)
  moreover have "split_id a_config (collapse ''*!*@spam*'') = (''*'', ''*'', ''spam*'')"
  proof -
    have "check_string (collapse ''*!*@spam*'') = ''*!*@spam*''"
      by (simp add: check_string_def rd_def char_class)
    moreover have "split_nuh (Some 31) 11 64 ''*!*@spam*'' = (Some ''*'', ''*'', ''spam*'')" by code_simp
    ultimately show ?thesis by (simp add: split_id_def a_config_def)
  qed
  moreover have "max_bans a_config = 25" "NICKLEN a_config = 31" by (simp_all add: a_config_def)
  ultimately obtain b where e: "add_id 1 1 ''*!*@spam*'' CHFL_BAN a_world = Some (True, nuh_text ''*'' ''*'' ''spam*'',
      upd_chan 1 (upd_id_list CHFL_BAN (\<lambda>bs. b # bs)) (clear_ban_cache 1 a_world))"
    using add_id_new [of a_world 1 1 "''*!*@spam*''" "''*''" "''*''" "''spam*''" CHFL_BAN HM_HOST] by auto
  from add_id_invariant [OF e] show ?thesis
    unfolding e by (simp add: a_channel_bans_ok num_mask_add \<open>NICKLEN a_config = 31\<close>)
qed


lemma check_string_id: "s \<noteq> [] \<Longrightarrow> \<not> (\<exists>c\<in>set s. IsSpace c) \<Longrightarrow> check_string s = s"
  by (simp add: check_string_def takeWhile_eq_all_conv)

lemma check_string_no_space: "\<not> (\<exists>c\<in>set (check_string s). IsSpace c)"
  by (auto simp: check_string_def char_class dest: set_takeWhileD)

lemma check_string_nonempty: "s = [] \<or> \<not> IsSpace (hd s) \<Longrightarrow> check_string s \<noteq> []"
  by (cases s) (auto simp: check_string_def)

lemma collapse_hd: "collapse s = [] \<longleftrightarrow> s = []" "s \<noteq> [] \<Longrightarrow> hd (collapse s) = hd s"
proof -
  show *: "collapse s = [] \<longleftrightarrow> s = []" by (induction s) (auto simp: rd_def split: if_splits)
  show "s \<noteq> [] \<Longrightarrow> hd (collapse s) = hd s"
    using rd_collapse [of s] * by (cases s; cases "collapse s") (auto simp: rd_def)
qed

lemma split_id_again:
  assumes "split_id c s = (n, u, h)" "2 \<le> NICKLEN c" "check_string s \<noteq> []"
  shows "split_id c (nuh_text n u h) = (n, u, h)"
proof -
  obtain n' where e: "split_nuh (Some (NICKLEN c)) (USERLEN + 1) (HOSTLEN + 1) (check_string s) = (Some n', u, h)"
      and n: "n' = n"
    using split_nuh_some [of "NICKLEN c" "USERLEN + 1" "HOSTLEN + 1" "check_string s"] assms(1)
    by (auto simp: split_id_def)
  have "parts_ok (NICKLEN c) (USERLEN + 1) (HOSTLEN + 1) n u h \<and> n \<noteq> [] \<and> u \<noteq> [] \<and> h \<noteq> []"
    using split_nuh_shape [OF assms(2) _ _ e] assms(3) n by auto
  then have "split_nuh (Some (NICKLEN c)) (USERLEN + 1) (HOSTLEN + 1) (nuh_text n u h) = (Some n, u, h)"
    using split_nuh_text [of n u h "NICKLEN c" "USERLEN + 1" "HOSTLEN + 1"] by (simp add: parts_ok_def)
  moreover have "check_string (nuh_text n u h) = nuh_text n u h"
    using split_nuh_set [OF e] check_string_no_space [of s] n
    by (intro check_string_id) (auto simp: nuh_text_def char_class)
  ultimately show ?thesis by (simp add: split_id_def)
qed



subsection \<open>Who is banned\<close>

definition netmask_ok :: "netmask \<Rightarrow> bool" where
  "netmask_ok a = (case a of HM_HOST \<Rightarrow> True | HM_IPV4 _ b \<Rightarrow> 0 < b \<and> b \<le> 32 | HM_IPV6 _ b \<Rightarrow> 0 \<le> b \<and> b \<le> 128)"

definition in_block :: "netmask \<Rightarrow> ip_addr \<Rightarrow> bool" where
  "in_block a ip = (case (a, ip) of
     (HM_IPV4 m b, Ip4 x) \<Rightarrow> match_ipv4 x m b = Some True
   | (HM_IPV6 m b, Ip6 x) \<Rightarrow> match_ipv6 x m b = Some True
   | _ \<Rightarrow> False)"

text \<open>When a mask covers a client, said without the order in which the code tries things.\<close>

definition covers :: "ban \<Rightarrow> client \<Rightarrow> bool" where
  "covers b c \<longleftrightarrow> \<not> glob ''r/*'' (bn_name b) \<and> glob (bn_name b) (cl_name c) \<and> glob (bn_username b) (cl_username c) \<and>
     (in_block (bn_addr b) (cl_ip c) \<or>
      (\<exists>h\<in>{cl_host c, cl_realhost c, cl_sockhost c}. glob (bn_host b) h))"

definition client_strings_ok :: "client \<Rightarrow> bool" where
  "client_strings_ok c \<longleftrightarrow> cstr (cl_name c) \<and> cstr (cl_username c) \<and> cstr (cl_host c) \<and> cstr (cl_realhost c) \<and> cstr (cl_sockhost c)"

lemma host_match_correct:
  "cstr h \<Longrightarrow> client_strings_ok c \<Longrightarrow>
    host_match h c = Some (\<exists>x\<in>{cl_host c, cl_realhost c, cl_sockhost c}. glob h x)"
  by (simp add: host_match_def client_strings_ok_def match_is_glob)

lemma match_ipv4_total: "0 < b \<Longrightarrow> b \<le> 32 \<Longrightarrow> \<exists>r. match_ipv4 x m b = Some r"
  by (simp add: match_ipv4_def v4_mask_def)

lemma match_ipv6_total: "0 \<le> b \<Longrightarrow> b \<le> 128 \<Longrightarrow> \<exists>r. match_ipv6 x m b = Some r"
  by (simp add: match_ipv6_def Let_def)

lemma addr_match_correct:
  assumes "cstr (bn_host b)" "client_strings_ok c" "netmask_ok (bn_addr b)" "cl_local c"
  shows "addr_match b c = Some (in_block (bn_addr b) (cl_ip c) \<or> (\<exists>h\<in>{cl_host c, cl_realhost c, cl_sockhost c}. glob (bn_host b) h))"
proof -
  note h = host_match_correct [OF assms(1,2)]
  show ?thesis
  proof (cases "bn_addr b")
    case HM_HOST then show ?thesis by (simp add: addr_match_def in_block_def h)
  next
    case (HM_IPV4 m n)
    then have "\<exists>r. match_ipv4 x m n = Some r" for x using assms(3) match_ipv4_total by (simp add: netmask_ok_def)
    then show ?thesis using HM_IPV4 assms(4)
      by (cases "cl_ip c") (auto simp: addr_match_def in_block_def h elim!: allE split: bind_splits)
  next
    case (HM_IPV6 m n)
    then have "\<exists>r. match_ipv6 x m n = Some r" for x using assms(3) match_ipv6_total by (simp add: netmask_ok_def)
    then show ?thesis using HM_IPV6 assms(4)
      by (cases "cl_ip c") (auto simp: addr_match_def in_block_def h elim!: allE split: bind_splits)
  qed
qed


definition usable :: "ban \<Rightarrow> bool" where
  "usable b \<longleftrightarrow> cstr (bn_name b) \<and> cstr (bn_username b) \<and> cstr (bn_host b) \<and> netmask_ok (bn_addr b)"

lemma find_bmask_correct:
  assumes "\<forall>b\<in>set bs. usable b" "client_strings_ok c" "cl_local c"
  shows "find_bmask c bs = Some (\<exists>b\<in>set bs. covers b c)"
  using assms(1)
proof (induction bs)
  case (Cons b bs)
  then have u: "cstr (bn_name b)" "cstr (bn_username b)" "cstr (bn_host b)" "netmask_ok (bn_addr b)"
    by (simp_all add: usable_def)
  have s: "cstr (cl_name c)" "cstr (cl_username c)" using assms(2) by (simp_all add: client_strings_ok_def)
  note [simp] = match_is_glob [OF _ u(1)] match_is_glob [OF u(1) s(1)] match_is_glob [OF u(2) s(2)]
  have ih: "find_bmask c bs = Some (\<exists>b\<in>set bs. covers b c)" using Cons by simp
  show ?case
    using addr_match_correct [OF u(3) assms(2) u(4) assms(3)]
    by (auto simp: ih covers_def)
qed simp

text \<open>
  C8: \<open>is_banned\<close> always answers for a local client, and says yes exactly when a mask of the ban list covers
  the client, by name, user and any of its three host names or its address block, and no mask of the
  exception list does, or exceptions are not in use.
\<close>

theorem is_banned_correct:
  assumes "\<forall>b\<in>set (ch_banlist (chans w chptr)) \<union> set (ch_exceptlist (chans w chptr)). usable b"
    "client_strings_ok (clients w who)" "cl_local (clients w who)"
  shows "is_banned chptr who w = Some
    ((\<exists>b\<in>set (ch_banlist (chans w chptr)). covers b (clients w who)) \<and>
     \<not> (use_except (cfg w) \<and> (\<exists>e\<in>set (ch_exceptlist (chans w chptr)). covers e (clients w who))))"
  using find_bmask_correct [of "ch_banlist (chans w chptr)" "clients w who"]
    find_bmask_correct [of "ch_exceptlist (chans w chptr)" "clients w who"] assms
  by (simp add: is_banned_def)

definition a_ban :: "string \<Rightarrow> string \<Rightarrow> string \<Rightarrow> netmask \<Rightarrow> ban" where
  "a_ban n u h a = \<lparr>bn_len = length n + length u + length h, bn_name = n, bn_username = u, bn_host = h,
     bn_who = ''op'', bn_when = 0, bn_addr = a\<rparr>"

theorem is_banned_correct_witness:
  "let ch = a_channel\<lparr>ch_banlist := [a_ban ''*'' ''*'' ''10.0.0.0/8'' (HM_IPV4 0x0A000000 8)]\<rparr> in
   is_banned 1 1 (a_world\<lparr>chans := (\<lambda>_. ch)\<rparr>) = Some True \<and>
   is_banned 1 1 (a_world\<lparr>chans := (\<lambda>_. ch\<lparr>ch_exceptlist := [a_ban ''al*'' ''*'' ''*'' HM_HOST]\<rparr>)\<rparr>) = Some False"
proof -
  let ?b = "a_ban ''*'' ''*'' ''10.0.0.0/8'' (HM_IPV4 0x0A000000 8)" and ?e = "a_ban ''al*'' ''*'' ''*'' HM_HOST"
  have u: "usable ?b" "usable ?e" by (simp_all add: usable_def a_ban_def netmask_ok_def)
  have c: "client_strings_ok a_client" "cl_local a_client" by (simp_all add: client_strings_ok_def a_client_def)
  have "match_ipv4 0x0A000007 0x0A000000 8 = Some True" by code_simp
  moreover have "\<not> char_matches CHR ''r'' CHR ''*''" "\<not> char_matches CHR ''r'' CHR ''a''"
    by (simp_all add: char_matches_def char_eq_nat_iff of_char_ToLower del: of_char_eq_iff)
  then have "\<not> glob ''r/*'' ''*''" "\<not> glob ''r/*'' ''al*''" by (simp_all add: glob_char)
  moreover have st: "glob ''*'' s" for s by (induction s) (simp_all add: glob_star_Cons)
  moreover have "char_matches c c" for c by (simp add: char_matches_def)
  with st have "glob ''al*'' ''alice''" by (simp add: glob_char)
  ultimately have v: "covers ?b a_client" "covers ?e a_client"
    by (auto simp: covers_def a_ban_def a_client_def in_block_def)
  have x: "use_except a_config" by (simp add: a_config_def)
  have e: "ch_exceptlist a_channel = []" by (simp add: a_channel_def)
  show ?thesis
    using is_banned_correct [of "a_world\<lparr>chans := (\<lambda>_. a_channel\<lparr>ch_banlist := [?b]\<rparr>)\<rparr>" 1 1]
      is_banned_correct [of "a_world\<lparr>chans := (\<lambda>_. a_channel\<lparr>ch_banlist := [?b], ch_exceptlist := [?e]\<rparr>)\<rparr>" 1 1]
    by (simp add: u c v x e Let_def)
qed

end
