(* ===== verification/Channel.thy ===== *)
theory Channel
  imports Ban_List
begin

section \<open>Channels, memberships and invitations\<close>

text \<open>
  channel.c: creating and destroying channels, joining and leaving, invitations, who may join, who may
  speak, member prefixes, topics, and the join-flood and spam-bot counters.  \<open>None\<close> is undefined behaviour of
  the code: a freed membership read, a null pointer dereferenced, a buffer overrun.
\<close>

subsection \<open>Names, control codes, prefixes\<close>

definition check_channel_name :: "string \<Rightarrow> bool \<Rightarrow> config \<Rightarrow> bool" where
  "check_channel_name name is_local c =
    (if \<not> IsChanPrefix (rd name 0) then False
     else if \<not> (\<forall>x\<in>set (drop 1 name). if \<not> is_local \<or> \<not> disable_fake_channels c then IsChanChar x else IsVisibleChanChar x)
     then False
     else length name \<le> (if is_local then LOCAL_CHANNELLEN else CHANNELLEN))"

fun has_ctrls :: "string \<Rightarrow> bool" where
  "has_ctrls [] = False"
| "has_ctrls (c # s) =
    (if 31 < (of_char c :: int) then has_ctrls s
     else if (of_char c :: int) = 1 then has_ctrls s
     else if (of_char c :: int) = 27 then
       (case s of
          [] \<Rightarrow> True
        | d # s' \<Rightarrow> (if d = CHR ''$'' \<or> d = CHR ''('' then has_ctrls s' else True))
     else True)"

definition msg_has_ctrls :: "string option \<Rightarrow> bool" where
  "msg_has_ctrls msg = (case msg of None \<Rightarrow> False | Some s \<Rightarrow> has_ctrls s)"

definition channel_pub_or_secret :: "channel \<Rightarrow> string" where
  "channel_pub_or_secret ch =
    (if has (md_mode (ch_mode ch)) MODE_SECRET then ''@''
     else if has (md_mode (ch_mode ch)) MODE_PRIVATE then ''*'' else ''='')"

definition get_member_status :: "config \<Rightarrow> membership option \<Rightarrow> bool \<Rightarrow> bool \<Rightarrow> string" where
  "get_member_status c ms combine modes =
    (case ms of
       None \<Rightarrow> []
     | Some m \<Rightarrow>
         (let f = ms_flags m;
              p1 = (if CHANAQ c \<and> has f CHFL_OWNER then (if \<not> modes then ''~'' else ''q'') else []);
              p2 = (if CHANAQ c \<and> has f CHFL_PROTECTED then (if \<not> modes then ''&'' else ''a'') else []);
              p3 = (if has f CHFL_CHANOP then (if \<not> modes then ''@'' else ''o'') else []);
              p4 = (if HALFOPS c \<and> has f CHFL_HALFOP then (if \<not> modes then ''%'' else ''h'') else []);
              p5 = (if has f CHFL_VOICE then (if \<not> modes then ''+'' else ''v'') else []) in
          if \<not> combine \<and> p1 \<noteq> [] then p1
          else if \<not> combine \<and> p2 \<noteq> [] then p1 @ p2
          else if \<not> combine \<and> p3 \<noteq> [] then p1 @ p2 @ p3
          else if \<not> combine \<and> p4 \<noteq> [] then p1 @ p2 @ p3 @ p4
          else p1 @ p2 @ p3 @ p4 @ p5))"

subsection \<open>Memberships\<close>

definition has_member_flags :: "mid option \<Rightarrow> 32 word \<Rightarrow> world \<Rightarrow> bool" where
  "has_member_flags ms flags w =
    (case ms of None \<Rightarrow> False | Some m \<Rightarrow> (case mships w m of None \<Rightarrow> False | Some x \<Rightarrow> has (ms_flags x) flags))"

definition on_channel :: "world \<Rightarrow> chid \<Rightarrow> mid \<Rightarrow> bool" where
  "on_channel w chptr m = (case mships w m of None \<Rightarrow> False | Some x \<Rightarrow> ms_chptr x = chptr)"

definition find_channel_link :: "cid \<Rightarrow> chid \<Rightarrow> world \<Rightarrow> mid option" where
  "find_channel_link client_p chptr w =
    (if \<not> IsClient (clients w client_p) then None
     else find (on_channel w chptr) (cl_channel (clients w client_p)))"

text \<open>The flood counter of joins: a \<^verbatim>\<open>float\<close> that drains over time, clamped to its bounds.\<close>

definition drained :: "config \<Rightarrow> int \<Rightarrow> rat \<Rightarrow> rat" where
  "drained c elapsed n =
    rnd c (n - rnd c (rnd c (of_int elapsed) *
      rnd c (rnd c (of_int (joinfloodcount c)) / rnd c (of_int (joinfloodtime c)))))"

definition join_flood :: "chid \<Rightarrow> cid \<Rightarrow> bool \<Rightarrow> world \<Rightarrow> world" where
  "join_flood chptr who flood_ctrl w =
    (let ch = chans w chptr; c = cfg w;
         n0 = (if flood_ctrl then rnd c (ch_number_joined ch + 1) else ch_number_joined ch);
         n = drained c (CurrentTime w - ch_last_join_time ch) n0;
         w1 = (if n \<le> 0 then upd_chan chptr (\<lambda>x. x\<lparr>ch_number_joined := 0, ch_flood_noticed := False\<rparr>) w
               else if rnd c (of_int (joinfloodcount c)) \<le> n then
                 (let w2 = upd_chan chptr (\<lambda>x. x\<lparr>ch_number_joined := rnd c (of_int (joinfloodcount c))\<rparr>) w in
                  if ch_flood_noticed ch then w2
                  else send (To_ops ''Possible Join Flooder''
                         [cl_name (clients w who), cl_name (clients w (cl_servptr (clients w who))), ch_name ch])
                       (upd_chan chptr (\<lambda>x. x\<lparr>ch_flood_noticed := True\<rparr>) w2))
               else upd_chan chptr (\<lambda>x. x\<lparr>ch_number_joined := n\<rparr>) w) in
     upd_chan chptr (\<lambda>x. x\<lparr>ch_last_join_time := CurrentTime w\<rparr>) w1)"

text \<open>\<open>ms\<close> is the address the block allocator returns for the new membership.\<close>

definition add_user_to_channel :: "mid \<Rightarrow> chid \<Rightarrow> cid \<Rightarrow> 32 word \<Rightarrow> bool \<Rightarrow> world \<Rightarrow> world" where
  "add_user_to_channel ms chptr who flags flood_ctrl w =
    (let w1 = (if 0 < joinfloodtime (cfg w) then join_flood chptr who flood_ctrl w else w);
         w2 = w1\<lparr>mships := (mships w1)(ms \<mapsto> \<lparr>ms_chptr = chptr, ms_client = who, ms_flags = flags, ms_lmsg = None,
                  ms_nmsg = 0, ms_lsize = 0, ms_lmsg_time = 0\<rparr>)\<rparr>;
         w3 = upd_chan chptr (\<lambda>x. x\<lparr>ch_members := ms # ch_members x\<rparr>) w2 in
     upd_client who (\<lambda>x. x\<lparr>cl_channel := ms # cl_channel x\<rparr>) w3)"

subsection \<open>Invitations\<close>

definition del_invite :: "chid \<Rightarrow> cid \<Rightarrow> world \<Rightarrow> world" where
  "del_invite chptr who w =
    upd_chan chptr (\<lambda>x. x\<lparr>ch_invites := remove1 who (ch_invites x)\<rparr>)
      (upd_client who (\<lambda>x. x\<lparr>cl_invited := remove1 chptr (cl_invited x)\<rparr>) w)"

definition add_invite :: "chid \<Rightarrow> cid \<Rightarrow> world \<Rightarrow> world option" where
  "add_invite chptr who w =
    (let w1 = del_invite chptr who w; inv = cl_invited (clients w1 who) in
     do {
       w2 \<leftarrow> (if max_chans_per_user (cfg w) \<le> length inv
              then (if inv = [] then None else Some (del_invite (last inv) who w1))
              else Some w1);
       Some (upd_client who (\<lambda>x. x\<lparr>cl_invited := chptr # cl_invited x\<rparr>)
              (upd_chan chptr (\<lambda>x. x\<lparr>ch_invites := who # ch_invites x\<rparr>) w2)) })"

subsection \<open>Topics\<close>

definition free_topic :: "chid \<Rightarrow> world \<Rightarrow> world" where
  "free_topic chptr w =
    (if ch_topic (chans w chptr) = None then w
     else upd_chan chptr (\<lambda>x. x\<lparr>ch_topic := None, ch_topic_info := None\<rparr>) w)"

definition allocate_topic :: "chid \<Rightarrow> world \<Rightarrow> world" where
  "allocate_topic chptr w = upd_chan chptr (\<lambda>x. x\<lparr>ch_topic := Some [], ch_topic_info := Some []\<rparr>) w"

definition set_channel_topic :: "chid \<Rightarrow> string \<Rightarrow> string \<Rightarrow> int \<Rightarrow> world \<Rightarrow> world" where
  "set_channel_topic chptr topic topic_info topicts w =
    (if topic \<noteq> [] then
       (let w1 = (if ch_topic (chans w chptr) = None then allocate_topic chptr w else w) in
        upd_chan chptr (\<lambda>x. x\<lparr>ch_topic := Some (fit (TOPICLEN (cfg w) + 1) topic),
          ch_topic_info := Some (fit (NICKLEN (cfg w) + HOSTLEN + USERLEN + 5) topic_info), ch_topic_time := topicts\<rparr>) w1)
     else free_topic chptr w)"

subsection \<open>Creating and destroying channels\<close>

definition no_mode :: mode where
  "no_mode = \<lparr>md_mode = 0, md_limit = 0, md_key = [], md_forward = [], md_msgs = 0, md_per = 0\<rparr>"

text \<open>\<open>chptr\<close> is the address the block allocator returns; the block is zeroed.\<close>

definition make_channel :: "chid \<Rightarrow> string \<Rightarrow> world \<Rightarrow> world" where
  "make_channel chptr chname w =
    w\<lparr>chans := (chans w)(chptr := \<lparr>ch_name = fit (CHANNELLEN + 1) chname, ch_mode = no_mode, ch_topic = None,
        ch_topic_info = None, ch_topic_time = 0, ch_members = [], ch_invites = [], ch_banlist = [], ch_exceptlist = [],
        ch_invexlist = [], ch_flood_noticed = False, ch_number_joined = 0, ch_last_join_time = CurrentTime w,
        ch_channelts = CurrentTime w\<rparr>),
      global_channel_list := chptr # global_channel_list w,
      channel_names := chptr # channel_names w\<rparr>"

definition destroy_channel :: "chid \<Rightarrow> world \<Rightarrow> world" where
  "destroy_channel chptr w =
    (let w1 = fold (del_invite chptr) (ch_invites (chans w chptr)) w;
         w2 = free_channel_list CHFL_INVEX chptr
                (free_channel_list CHFL_EXCEPTION chptr (free_channel_list CHFL_BAN chptr w1));
         w3 = free_topic chptr w2 in
     w3\<lparr>global_channel_list := remove1 chptr (global_channel_list w3),
        channel_names := remove1 chptr (channel_names w3),
        lazylink_channels := (if hub (cfg w3) then remove1 chptr (lazylink_channels w3) else lazylink_channels w3)\<rparr>)"

definition remove_user_from_channel :: "mid \<Rightarrow> world \<Rightarrow> world option" where
  "remove_user_from_channel member w =
    (case mships w member of
       None \<Rightarrow> None
     | Some ms \<Rightarrow>
         (let chptr = ms_chptr ms;
              w1 = upd_chan chptr (\<lambda>x. x\<lparr>ch_members := remove1 member (ch_members x)\<rparr>) w;
              w2 = upd_client (ms_client ms) (\<lambda>x. x\<lparr>cl_channel := remove1 member (cl_channel x)\<rparr>) w1;
              w3 = w2\<lparr>mships := (mships w2)(member := None)\<rparr> in
          Some (if ch_members (chans w3 chptr) = [] then destroy_channel chptr w3 else w3)))"

subsection \<open>Joining\<close>

datatype join_result = JOIN_OK | ERR_BANNEDFROMCHAN | ERR_INVITEONLYCHAN | ERR_OPERONLYCHAN | ERR_CHANNELISFULL |
  ERR_NEEDREGGEDNICK | ERR_CHANBANREASON | ERR_BADCHANNELKEY

text \<open>The list length and the limit are both \<^verbatim>\<open>unsigned\<close>.\<close>

definition can_join :: "cid \<Rightarrow> chid \<Rightarrow> string option \<Rightarrow> world \<Rightarrow> join_result option" where
  "can_join source_p chptr key w =
    (let c = clients w source_p; ch = chans w chptr; m = ch_mode ch in
     do {
       banned \<leftarrow> is_banned chptr source_p w;
       if banned then Some ERR_BANNEDFROMCHAN
       else do {
         uninvited \<leftarrow>
           (if has (md_mode m) MODE_INVITEONLY \<and> chptr \<notin> set (cl_invited c) then
              (if \<not> use_invex (cfg w) then Some True else map_option Not (find_bmask c (ch_invexlist ch)))
            else Some False);
         Some
           (if uninvited then ERR_INVITEONLYCHAN
            else if has (md_mode m) MODE_OPERONLY \<and> \<not> cl_oper c then ERR_OPERONLYCHAN
            else if md_limit m \<noteq> 0 \<and> md_limit m \<le> of_nat (length (ch_members ch)) then ERR_CHANNELISFULL
            else if has (md_mode m) MODE_REGONLY \<and> \<not> cl_regnick c then ERR_NEEDREGGEDNICK
            else if has (md_mode m) MODE_SSLONLY \<and> \<not> cl_ssl c then ERR_CHANBANREASON
            else if md_key m \<noteq> [] \<and> (case key of None \<Rightarrow> True | Some k \<Rightarrow> irccmp (md_key m) k \<noteq> 0) then ERR_BADCHANNELKEY
            else JOIN_OK) } })"


subsection \<open>Speaking\<close>

text \<open>The scrubbing of \<open>check_nospam\<close>: the formatting codes it knows are dropped, the rest goes to lower case.\<close>

function strip_codes :: "string \<Rightarrow> string" where
  "strip_codes [] = []"
| "strip_codes (c # t) =
    (if (of_char c :: int) = 2 then strip_codes t
     else if (of_char c :: int) = 3 then
       (if IsDigit (rd t 0) then
          (let t2 = drop 1 t;
               t3 = (if IsDigit (rd t2 0) then drop 1 t2 else t2) in
           if rd t3 0 = CHR '','' then
             (let t4 = (if IsDigit (rd t3 1) then drop 2 t3 else t3) in
              strip_codes (if IsDigit (rd t4 0) then drop 1 t4 else t4))
           else strip_codes t3)
        else strip_codes t)
     else if (of_char c :: int) = 7 then strip_codes t
     else if (of_char c :: int) = 0x16 then strip_codes t
     else if (of_char c :: int) = 0x1f then strip_codes t
     else ToLower c # strip_codes t)"
  by pat_completeness auto
termination by (relation "measure length") auto

definition strstr_in :: "string \<Rightarrow> string \<Rightarrow> bool" where
  "strstr_in s needle \<longleftrightarrow> (\<exists>k\<le>length s. take (length needle) (drop k s) = needle)"

text \<open>\<open>auxbuf\<close> holds 512 characters with the terminator.  The result is whether the text is refused.\<close>

definition check_nospam :: "string \<Rightarrow> bool option" where
  "check_nospam text =
    (let aux = strip_codes text in
     if 512 \<le> length aux then None
     else Some (strstr_in aux ''http'' \<or> strstr_in aux ''www.'' \<or> strstr_in aux ''/server'' \<or>
                strstr_in aux ''irc.'' \<or> strstr_in aux ''ftp://''))"

text \<open>\<^verbatim>\<open>strncasecmp\<close> of the C library, in the C locale, on two texts of the given length.\<close>

definition c_tolower :: "char \<Rightarrow> char" where
  "c_tolower c = (if 65 \<le> (of_char c :: int) \<and> (of_char c :: int) \<le> 90 then char_of ((of_char c :: nat) + 32) else c)"

definition other_channel :: "string \<Rightarrow> string \<Rightarrow> bool" where
  "other_channel text chname =
    (if CHR ''#'' \<notin> set text then False
     else (let cp = dropWhile (\<lambda>c. c \<noteq> CHR ''#'') text; w = takeWhile (\<lambda>c. c \<noteq> CHR '' '') cp in
           length w \<noteq> length chname \<or> map c_tolower w \<noteq> map c_tolower chname))"

text \<open>
  Message counters are compared as the C code does: \<open>nmsg\<close> is an \<^verbatim>\<open>int\<close> that is converted to \<^verbatim>\<open>unsigned\<close>.
\<close>

definition check_for_chan_flood :: "cid \<Rightarrow> chid \<Rightarrow> mid \<Rightarrow> world \<Rightarrow> (bool \<times> world) option" where
  "check_for_chan_flood cptr chptr lp w =
    (let m = ch_mode (chans w chptr) in
     if md_msgs m \<le> 1 \<or> md_per m < 1 then Some (False, w)
     else case mships w lp of
            None \<Rightarrow> None
          | Some ms \<Rightarrow>
              (if uint (md_per m) \<le> CurrentTime w - ms_lmsg_time ms then
                 Some (False, upd_ms lp (\<lambda>x. x\<lparr>ms_lmsg_time := CurrentTime w, ms_nmsg := 1\<rparr>) w)
               else
                 (let w1 = upd_ms lp (\<lambda>x. x\<lparr>ms_nmsg := ms_nmsg x + 1, ms_lmsg_time := CurrentTime w\<rparr>) w in
                  if md_msgs m \<le> word_of_int (ms_nmsg ms + 1)
                  then Some (True, upd_client cptr (\<lambda>x. x\<lparr>cl_since := CurrentTime w + 10\<rparr>) w1)
                  else Some (False, w1))))"

datatype send_result = CAN_SEND_NO | CAN_SEND_NONOP | CAN_SEND_OPV | CAN_SEND_NOCTRLS | CAN_SEND_NOREGNICK |
  SEND_NOSPAM | SEND_REPEAT | SEND_FLOOD

abbreviation ANY_STATUS :: "32 word" where
  "ANY_STATUS \<equiv> CHFL_OWNER OR CHFL_PROTECTED OR CHFL_CHANOP OR CHFL_HALFOP OR CHFL_VOICE"

text \<open>The membership part of \<open>can_send\<close>: an answer, or none and the state with the ban cache filled.\<close>

definition member_may_speak :: "chid \<Rightarrow> cid \<Rightarrow> mid \<Rightarrow> world \<Rightarrow> (send_result option \<times> world) option" where
  "member_may_speak chptr source_p m w =
    (case mships w m of
       None \<Rightarrow> None
     | Some ms \<Rightarrow>
         (if has (ms_flags ms) ANY_STATUS then Some (Some CAN_SEND_OPV, w)
          else if quiet_on_ban (cfg w) \<and> MyClient (clients w source_p) then
            (if has (ms_flags ms) CHFL_BAN_SILENCED then Some (Some CAN_SEND_NO, w)
             else if \<not> has (ms_flags ms) CHFL_BAN_CHECKED then do {
               banned \<leftarrow> is_banned chptr source_p w;
               if banned then
                 Some (Some CAN_SEND_NO,
                   upd_ms m (\<lambda>x. x\<lparr>ms_flags := ms_flags x OR (CHFL_BAN_CHECKED OR CHFL_BAN_SILENCED)\<rparr>) w)
               else Some (None, upd_ms m (\<lambda>x. x\<lparr>ms_flags := ms_flags x OR CHFL_BAN_CHECKED\<rparr>) w) }
             else Some (None, w))
          else Some (None, w)))"

text \<open>The part of \<open>can_send\<close> that looks at the text: \<open>+f\<close>, \<open>+S\<close> and \<open>+d\<close>, in that order.\<close>

definition text_may_pass :: "chid \<Rightarrow> cid \<Rightarrow> mid option \<Rightarrow> string \<Rightarrow> world \<Rightarrow> (send_result \<times> world) option" where
  "text_may_pass chptr source_p ms text w = do {
     (flood, w1) \<leftarrow> (case ms of None \<Rightarrow> Some (False, w) | Some m \<Rightarrow> check_for_chan_flood source_p chptr m w);
     if flood then Some (SEND_FLOOD, w1) else do {
       let ch = chans w1 chptr;
       spam \<leftarrow> (if has (md_mode (ch_mode ch)) MODE_NOSPAM then
                  do { s \<leftarrow> check_nospam text; Some (s \<or> other_channel text (ch_name ch)) }
                else Some False);
       if spam then Some (SEND_NOSPAM, w1)
       else case ms of
              None \<Rightarrow> Some (CAN_SEND_NONOP, w1)
            | Some m \<Rightarrow>
                (if \<not> has (md_mode (ch_mode ch)) MODE_NOFLOOD then Some (CAN_SEND_NONOP, w1)
                 else case mships w1 m of
                        None \<Rightarrow> None
                      | Some x \<Rightarrow>
                          (if ms_lmsg x = Some text \<and> ms_lsize x = int (length text) \<and>
                              CurrentTime w1 - ms_lmsg_time x < 10
                           then Some (SEND_REPEAT, w1)
                           else Some (CAN_SEND_NONOP, upd_ms m (\<lambda>x. x\<lparr>ms_lmsg := Some text,
                                  ms_lsize := int (length text), ms_lmsg_time := CurrentTime w1\<rparr>) w1))) } }"

definition can_send :: "chid \<Rightarrow> cid \<Rightarrow> mid option \<Rightarrow> string option \<Rightarrow> bool \<Rightarrow> world \<Rightarrow> (send_result \<times> world) option" where
  "can_send chptr source_p ms0 text notice w =
    (let c = clients w source_p; m = md_mode (ch_mode (chans w chptr)) in
     if IsServer c \<or> cl_services c then Some (CAN_SEND_OPV, w)
     else if MyClient c \<and> \<not> cl_exempt_resv c \<and> \<not> (cl_oper c \<and> oper_pass_resv (cfg w)) \<and>
        (\<not> lookup_resv (ch_name (chans w chptr)) w) = restrict_channels (cfg w)
     then Some (CAN_SEND_NO, w)
     else do {
       let ms = (case ms0 of None \<Rightarrow> find_channel_link source_p chptr w | Some _ \<Rightarrow> ms0);
       (answer, w1) \<leftarrow> (case ms of
          Some i \<Rightarrow> member_may_speak chptr source_p i w
        | None \<Rightarrow> Some (if has m MODE_NOPRIVMSGS then Some CAN_SEND_NO else None, w));
       case answer of
         Some r \<Rightarrow> Some (r, w1)
       | None \<Rightarrow>
           (if has m MODE_MODERATED then Some (CAN_SEND_NO, w1)
            else if has m MODE_MODREG \<and> \<not> cl_regnick c then Some (CAN_SEND_NOREGNICK, w1)
            else if has m MODE_NOCTRL \<and> msg_has_ctrls text then Some (CAN_SEND_NOCTRLS, w1)
            else if notice \<and> has m MODE_NONOTICES then Some (CAN_SEND_NO, w1)
            else case text of
                   None \<Rightarrow> Some (CAN_SEND_NONOP, w1)
                 | Some t \<Rightarrow> text_may_pass chptr source_p ms t w1) })"

subsection \<open>Spam bots\<close>

abbreviation OPER_SPAM_COUNTDOWN :: int where "OPER_SPAM_COUNTDOWN \<equiv> 5"
abbreviation JOIN_LEAVE_COUNT_EXPIRE_TIME :: int where "JOIN_LEAVE_COUNT_EXPIRE_TIME \<equiv> 120"

definition check_spambot_warning :: "cid \<Rightarrow> string option \<Rightarrow> world \<Rightarrow> world" where
  "check_spambot_warning source_p name w =
    (let c = clients w source_p; now = CurrentTime w; t_delta = now - cl_last_leave_time c in
     if spam_num (cfg w) \<noteq> 0 \<and> spam_num (cfg w) \<le> cl_join_leave_count c then
       (let k = (if 0 < cl_oper_warn_count_down c then cl_oper_warn_count_down c - 1 else 0);
            w1 = upd_client source_p (\<lambda>x. x\<lparr>cl_oper_warn_count_down := k\<rparr>) w in
        if k = 0 then
          upd_client source_p (\<lambda>x. x\<lparr>cl_oper_warn_count_down := OPER_SPAM_COUNTDOWN\<rparr>)
            (send (To_ops ''possible spambot'' ([cl_name c, cl_username c, cl_realhost c] @
                (case name of None \<Rightarrow> [] | Some n \<Rightarrow> [n]))) w1)
        else w1)
     else
       (let n = (if JOIN_LEAVE_COUNT_EXPIRE_TIME < t_delta then
                   (let d = t_delta div JOIN_LEAVE_COUNT_EXPIRE_TIME in
                    if cl_join_leave_count c < d then 0 else cl_join_leave_count c - d)
                 else if now - cl_last_join_time c < spam_time (cfg w) then cl_join_leave_count c + 1
                 else cl_join_leave_count c);
            w1 = upd_client source_p (\<lambda>x. x\<lparr>cl_join_leave_count := n\<rparr>) w in
        case name of
          Some _ \<Rightarrow> upd_client source_p (\<lambda>x. x\<lparr>cl_last_join_time := now\<rparr>) w1
        | None \<Rightarrow> upd_client source_p (\<lambda>x. x\<lparr>cl_last_leave_time := now\<rparr>) w1))"


subsection \<open>The membership invariant\<close>

text \<open>
  Every membership hangs exactly once in its channel's list and exactly once in its client's list, every
  entry of either list is such a membership, and a client has at most one membership of a channel.
\<close>

definition links_ok :: "world \<Rightarrow> bool" where
  "links_ok w \<longleftrightarrow>
     (\<forall>ch. distinct (ch_members (chans w ch)) \<and>
        (\<forall>m. m \<in> set (ch_members (chans w ch)) \<longleftrightarrow> (\<exists>x. mships w m = Some x \<and> ms_chptr x = ch))) \<and>
     (\<forall>c. distinct (cl_channel (clients w c)) \<and>
        (\<forall>m. m \<in> set (cl_channel (clients w c)) \<longleftrightarrow> (\<exists>x. mships w m = Some x \<and> ms_client x = c))) \<and>
     (\<forall>m m' x x'. mships w m = Some x \<longrightarrow> mships w m' = Some x' \<longrightarrow>
        ms_chptr x = ms_chptr x' \<longrightarrow> ms_client x = ms_client x' \<longrightarrow> m = m')"

definition is_member :: "world \<Rightarrow> cid \<Rightarrow> chid \<Rightarrow> bool" where
  "is_member w c ch \<longleftrightarrow> (\<exists>m x. mships w m = Some x \<and> ms_chptr x = ch \<and> ms_client x = c)"

lemma links_okD:
  assumes "links_ok w"
  shows "distinct (ch_members (chans w ch))" "distinct (cl_channel (clients w c))"
    "m \<in> set (ch_members (chans w ch)) \<longleftrightarrow> (\<exists>x. mships w m = Some x \<and> ms_chptr x = ch)"
    "m \<in> set (cl_channel (clients w c)) \<longleftrightarrow> (\<exists>x. mships w m = Some x \<and> ms_client x = c)"
    "mships w m = Some x \<Longrightarrow> mships w m' = Some x' \<Longrightarrow> ms_chptr x = ms_chptr x' \<Longrightarrow> ms_client x = ms_client x' \<Longrightarrow> m = m'"
  using assms unfolding links_ok_def by blast+

lemma links_okI:
  assumes "\<And>ch. distinct (ch_members (chans w ch))" "\<And>c. distinct (cl_channel (clients w c))"
    "\<And>ch m. m \<in> set (ch_members (chans w ch)) \<longleftrightarrow> (\<exists>x. mships w m = Some x \<and> ms_chptr x = ch)"
    "\<And>c m. m \<in> set (cl_channel (clients w c)) \<longleftrightarrow> (\<exists>x. mships w m = Some x \<and> ms_client x = c)"
    "\<And>m m' x x'. mships w m = Some x \<Longrightarrow> mships w m' = Some x' \<Longrightarrow> ms_chptr x = ms_chptr x' \<Longrightarrow>
       ms_client x = ms_client x' \<Longrightarrow> m = m'"
  shows "links_ok w"
  unfolding links_ok_def using assms by blast

lemma links_ok_cong:
  assumes "mships w' = mships w" "\<And>ch. ch_members (chans w' ch) = ch_members (chans w ch)"
    "\<And>c. cl_channel (clients w' c) = cl_channel (clients w c)"
  shows "links_ok w' = links_ok w"
  unfolding links_ok_def assms by simp

text \<open>The operations that do not touch memberships.\<close>

lemma join_flood_frame [simp]:
  "mships (join_flood ch who f w) = mships w" "clients (join_flood ch who f w) = clients w"
  "ch_members (chans (join_flood ch who f w) c) = ch_members (chans w c)" "cfg (join_flood ch who f w) = cfg w"
  by (simp_all add: join_flood_def Let_def)

lemma del_invite_frame [simp]:
  "mships (del_invite ch who w) = mships w" "cfg (del_invite ch who w) = cfg w"
  "ch_members (chans (del_invite ch who w) c) = ch_members (chans w c)"
  "cl_channel (clients (del_invite ch who w) p) = cl_channel (clients w p)"
  by (simp_all add: del_invite_def)

lemma fold_del_invite_frame [simp]:
  "mships (fold (del_invite ch) ps w) = mships w" "cfg (fold (del_invite ch) ps w) = cfg w"
  "ch_members (chans (fold (del_invite ch) ps w) c) = ch_members (chans w c)"
  "cl_channel (clients (fold (del_invite ch) ps w) p) = cl_channel (clients w p)"
  by (induction ps arbitrary: w) auto

lemma free_channel_list_frame [simp]:
  "mships (free_channel_list t ch w) = mships w" "clients (free_channel_list t ch w) = clients w"
  "ch_members (chans (free_channel_list t ch w) c) = ch_members (chans w c)" "cfg (free_channel_list t ch w) = cfg w"
  "ch_invites (chans (free_channel_list t ch w) c) = ch_invites (chans w c)"
  by (cases t; simp add: free_channel_list_def upd_id_list_def)+

lemma free_topic_frame [simp]:
  "mships (free_topic ch w) = mships w" "clients (free_topic ch w) = clients w"
  "ch_members (chans (free_topic ch w) c) = ch_members (chans w c)" "cfg (free_topic ch w) = cfg w"
  "ch_invites (chans (free_topic ch w) c) = ch_invites (chans w c)" "id_list t (chans (free_topic ch w) c) = id_list t (chans w c)"
  by (cases t; simp add: free_topic_def id_list_def)+

lemma destroy_channel_frame [simp]:
  "mships (destroy_channel ch w) = mships w" "ch_members (chans (destroy_channel ch w) c) = ch_members (chans w c)"
  "cl_channel (clients (destroy_channel ch w) p) = cl_channel (clients w p)"
  by (simp_all add: destroy_channel_def Let_def)

lemma find_channel_link_iff:
  assumes "links_ok w" "IsClient (clients w c)"
  shows "find_channel_link c ch w = Some m \<longleftrightarrow> (\<exists>x. mships w m = Some x \<and> ms_chptr x = ch \<and> ms_client x = c)"
proof -
  have in_list: "m \<in> set (cl_channel (clients w c)) \<and> on_channel w ch m \<longleftrightarrow>
      (\<exists>x. mships w m = Some x \<and> ms_chptr x = ch \<and> ms_client x = c)" for m
    using links_okD(4) [OF assms(1), of m c] by (auto simp: on_channel_def split: option.splits)
  show ?thesis
  proof
    assume "find_channel_link c ch w = Some m"
    then have "m \<in> set (cl_channel (clients w c)) \<and> on_channel w ch m"
      using assms(2) by (auto simp: find_channel_link_def find_Some_iff)
    then show "\<exists>x. mships w m = Some x \<and> ms_chptr x = ch \<and> ms_client x = c" using in_list by simp
  next
    assume r: "\<exists>x. mships w m = Some x \<and> ms_chptr x = ch \<and> ms_client x = c"
    then have "find (on_channel w ch) (cl_channel (clients w c)) \<noteq> None"
      using in_list [of m] by (auto simp: find_None_iff)
    then obtain m' where m': "find (on_channel w ch) (cl_channel (clients w c)) = Some m'" by auto
    then have "m' \<in> set (cl_channel (clients w c)) \<and> on_channel w ch m'" by (auto simp: find_Some_iff)
    then have "\<exists>x. mships w m' = Some x \<and> ms_chptr x = ch \<and> ms_client x = c" using in_list by simp
    with r have "m' = m" using links_okD(5) [OF assms(1)] by metis
    with m' show "find_channel_link c ch w = Some m" using assms(2) by (simp add: find_channel_link_def)
  qed
qed

lemma find_channel_link_None:
  assumes "links_ok w" "IsClient (clients w c)"
  shows "find_channel_link c ch w = None \<longleftrightarrow> \<not> is_member w c ch"
  using find_channel_link_iff [OF assms, of ch] unfolding is_member_def
  by (cases "find_channel_link c ch w") fastforce+

lemma add_user_to_channel_frame:
  "mships (add_user_to_channel ms ch who f fl w) =
     (mships w)(ms \<mapsto> \<lparr>ms_chptr = ch, ms_client = who, ms_flags = f, ms_lmsg = None, ms_nmsg = 0, ms_lsize = 0, ms_lmsg_time = 0\<rparr>)"
  "ch_members (chans (add_user_to_channel ms ch who f fl w) c) =
     (if c = ch then ms # ch_members (chans w c) else ch_members (chans w c))"
  "cl_channel (clients (add_user_to_channel ms ch who f fl w) p) =
     (if p = who then ms # cl_channel (clients w p) else cl_channel (clients w p))"
  "cl_status (clients (add_user_to_channel ms ch who f fl w) p) = cl_status (clients w p)"
  by (simp_all add: add_user_to_channel_def Let_def)


lemma ex_fresh_entry:
  assumes "f a = None"
  shows "(\<exists>m x. (f(a \<mapsto> v)) m = Some x \<and> P x) \<longleftrightarrow> P v \<or> (\<exists>m x. f m = Some x \<and> P x)"
  using assms by (metis fun_upd_apply option.distinct(1) option.inject)

lemma ex_dropped_entry: "(\<exists>i y. (f(a := None)) i = Some y \<and> P y) \<longleftrightarrow> (\<exists>i y. f i = Some y \<and> i \<noteq> a \<and> P y)"
  by auto

lemma add_user_to_channel_ok:
  assumes "links_ok w" "mships w ms = None" "\<not> is_member w who chptr"
  shows "links_ok (add_user_to_channel ms chptr who flags flood_ctrl w)"
    "is_member (add_user_to_channel ms chptr who flags flood_ctrl w) c ch \<longleftrightarrow> is_member w c ch \<or> c = who \<and> ch = chptr"
proof -
  let ?w' = "add_user_to_channel ms chptr who flags flood_ctrl w"
  note F = add_user_to_channel_frame [of ms chptr who flags flood_ctrl w] and L = links_okD [OF assms(1)]
  have new: "ms \<notin> set (ch_members (chans w c))" "ms \<notin> set (cl_channel (clients w p))" for c p
    using L(3,4) assms(2) by auto
  have ok: "links_ok ?w'"
  proof (rule links_okI)
    fix m m' x x'
    assume h: "mships ?w' m = Some x" "mships ?w' m' = Some x'" "ms_chptr x = ms_chptr x'" "ms_client x = ms_client x'"
    have other: "mships w i = Some y \<Longrightarrow> \<not> (ms_chptr y = chptr \<and> ms_client y = who)" for i y
      using assms(3) by (auto simp: is_member_def)
    show "m = m'"
    proof (cases "m = ms \<or> m' = ms")
      case True with h other [of m x] other [of m' x'] show ?thesis by (auto simp: F split: if_splits)
    next
      case False with h L(5) [of m x m' x'] show ?thesis by (simp add: F)
    qed
  qed (auto simp: F L(1,2) new, use L(3,4) assms(2) in auto)
  have mem: "is_member ?w' c ch \<longleftrightarrow> is_member w c ch \<or> c = who \<and> ch = chptr" for c ch
    using ex_fresh_entry [of "mships w" ms, OF assms(2), of _ "\<lambda>x. ms_chptr x = ch \<and> ms_client x = c"]
    by (auto simp: is_member_def F(1))
  show "links_ok ?w'" "is_member ?w' c ch \<longleftrightarrow> is_member w c ch \<or> c = who \<and> ch = chptr"
    using ok mem by simp_all
qed

text \<open>
  C16: Joining a client that is not on the channel, with a fresh membership, keeps the membership invariant,
  adds exactly that client to that channel, and \<open>find_channel_link\<close> then finds the new membership.
\<close>

theorem join_correct:
  assumes "links_ok w" "mships w ms = None" "\<not> is_member w who chptr" "IsClient (clients w who)"
  shows "let w' = add_user_to_channel ms chptr who flags flood_ctrl w in
    links_ok w' \<and> (\<forall>c ch. is_member w' c ch \<longleftrightarrow> is_member w c ch \<or> c = who \<and> ch = chptr) \<and>
    find_channel_link who chptr w' = Some ms \<and> has_member_flags (Some ms) f w' = has flags f"
proof -
  let ?w' = "add_user_to_channel ms chptr who flags flood_ctrl w"
  note F = add_user_to_channel_frame [of ms chptr who flags flood_ctrl w] and J = add_user_to_channel_ok [OF assms(1-3), where flags = flags and flood_ctrl = flood_ctrl]
  have "IsClient (clients ?w' who)" using assms(4) by (simp add: IsClient_def F)
  then have "find_channel_link who chptr ?w' = Some ms"
    using find_channel_link_iff [OF J(1), of who chptr ms] by (simp add: F)
  with J show ?thesis by (simp add: Let_def has_member_flags_def F)
qed

theorem join_correct_witness:
  "find_channel_link 1 1 (add_user_to_channel 7 1 1 CHFL_CHANOP False a_world) = Some 7 \<and>
   has_member_flags (Some 7) CHFL_CHANOP (add_user_to_channel 7 1 1 CHFL_CHANOP False a_world)"
proof -
  have m: "mships a_world x = None" for x by (simp add: a_world_def)
  have l: "links_ok a_world" by (simp add: links_ok_def m a_channel_def a_client_def)
  have n: "\<not> is_member a_world 1 1" by (simp add: is_member_def m)
  have "has CHFL_CHANOP CHFL_CHANOP" by (simp add: has_def)
  with join_correct [OF l m n, of 7 CHFL_CHANOP False CHFL_CHANOP] show ?thesis by (simp add: Let_def)
qed

lemma destroyed_channel:
  assumes "distinct (global_channel_list w)" "distinct (channel_names w)"
  shows "ch \<notin> set (global_channel_list (destroy_channel ch w))" "ch \<notin> set (channel_names (destroy_channel ch w))"
proof -
  have g: "global_channel_list (del_invite ch c w) = global_channel_list w"
      "channel_names (del_invite ch c w) = channel_names w" for c w
    by (simp_all add: del_invite_def)
  have f: "global_channel_list (fold (del_invite ch) cs w) = global_channel_list w \<and>
      channel_names (fold (del_invite ch) cs w) = channel_names w" for cs
    by (induction cs arbitrary: w) (auto simp: g)
  show "ch \<notin> set (global_channel_list (destroy_channel ch w))" "ch \<notin> set (channel_names (destroy_channel ch w))"
    using assms by (auto simp: destroy_channel_def Let_def free_channel_list_def free_topic_def f)
qed

lemma remove_user_frame:
  assumes "mships w m = Some x" "remove_user_from_channel m w = Some w'"
  shows "mships w' = (mships w)(m := None)"
    "ch_members (chans w' c) = (if c = ms_chptr x then remove1 m (ch_members (chans w c)) else ch_members (chans w c))"
    "cl_channel (clients w' p) = (if p = ms_client x then remove1 m (cl_channel (clients w p)) else cl_channel (clients w p))"
  using assms by (auto simp: remove_user_from_channel_def Let_def)

lemma remove_user_ok:
  assumes "links_ok w" "mships w m = Some x"
  shows "\<exists>w'. remove_user_from_channel m w = Some w' \<and> links_ok w' \<and>
    (\<forall>c ch. is_member w' c ch \<longleftrightarrow> is_member w c ch \<and> \<not> (c = ms_client x \<and> ch = ms_chptr x))"
proof -
  let ?ch = "ms_chptr x"
  obtain w' where w': "remove_user_from_channel m w = Some w'"
    using assms(2) by (auto simp: remove_user_from_channel_def Let_def)
  note F = remove_user_frame [OF assms(2) w'] and L = links_okD [OF assms(1)]
  have d: "set (remove1 m (ch_members (chans w c))) = set (ch_members (chans w c)) - {m}"
      "set (remove1 m (cl_channel (clients w p))) = set (cl_channel (clients w p)) - {m}" for c p
    using L(1) [of c] L(2) [of p] by simp_all
  have ok: "links_ok w'"
  proof (rule links_okI)
    fix m1 m2 x1 x2
    assume "mships w' m1 = Some x1" "mships w' m2 = Some x2" "ms_chptr x1 = ms_chptr x2" "ms_client x1 = ms_client x2"
    then show "m1 = m2" using L(5) [of m1 x1 m2 x2] by (simp add: F split: if_splits)
  qed (auto simp: F L(1-4) d assms(2))
  have mem: "is_member w' c ch \<longleftrightarrow> is_member w c ch \<and> \<not> (c = ms_client x \<and> ch = ?ch)" for c ch
  proof -
    have same: "mships w i = Some y \<Longrightarrow> ms_chptr y = ?ch \<Longrightarrow> ms_client y = ms_client x \<Longrightarrow> i = m" for i y
      using L(5) [OF _ assms(2), of i y] by simp
    have "is_member w' c ch \<longleftrightarrow> (\<exists>i y. mships w i = Some y \<and> i \<noteq> m \<and> ms_chptr y = ch \<and> ms_client y = c)"
      unfolding is_member_def F(1) by (rule ex_dropped_entry)
    moreover have "(\<exists>i y. mships w i = Some y \<and> i \<noteq> m \<and> ms_chptr y = ch \<and> ms_client y = c) \<longleftrightarrow>
        is_member w c ch \<and> \<not> (c = ms_client x \<and> ch = ?ch)"
    proof (cases "c = ms_client x \<and> ch = ?ch")
      case True then show ?thesis using same by auto
    next
      case False
      then have "mships w i = Some y \<Longrightarrow> ms_chptr y = ch \<Longrightarrow> ms_client y = c \<Longrightarrow> i \<noteq> m" for i y
        using assms(2) by auto
      with False show ?thesis unfolding is_member_def by blast
    qed
    ultimately show ?thesis by simp
  qed
  show ?thesis using w' ok mem by blast
qed

text \<open>
  C18: A client leaving a channel keeps the membership invariant and removes exactly that membership; the
  channel is destroyed, and found by no name lookup and in no list of channels any more, exactly when it
  was the last member.
\<close>

theorem part_correct:
  assumes "links_ok w" "mships w m = Some x" "distinct (global_channel_list w)" "distinct (channel_names w)"
    "ms_chptr x \<in> set (global_channel_list w)"
  shows "\<exists>w'. remove_user_from_channel m w = Some w' \<and> links_ok w' \<and>
    (\<forall>c ch. is_member w' c ch \<longleftrightarrow> is_member w c ch \<and> \<not> (c = ms_client x \<and> ch = ms_chptr x)) \<and>
    ((ms_chptr x \<notin> set (global_channel_list w')) = (ch_members (chans w (ms_chptr x)) = [m])) \<and>
    (ms_chptr x \<notin> set (global_channel_list w') \<longrightarrow> ms_chptr x \<notin> set (channel_names w'))"
proof -
  let ?ch = "ms_chptr x"
  obtain w' where w': "remove_user_from_channel m w = Some w'" and ok: "links_ok w'"
    and mem: "\<forall>c ch. is_member w' c ch \<longleftrightarrow> is_member w c ch \<and> \<not> (c = ms_client x \<and> ch = ?ch)"
    using remove_user_ok [OF assms(1,2)] by blast
  note L = links_okD [OF assms(1)]
  have e: "remove1 m (ch_members (chans w ?ch)) = [] \<longleftrightarrow> ch_members (chans w ?ch) = [m]"
    using L(3) [of m ?ch] assms(2) by (cases "ch_members (chans w ?ch)") auto
  obtain w3 where w3: "global_channel_list w3 = global_channel_list w" "channel_names w3 = channel_names w"
      and w'3: "w' = (if ch_members (chans w ?ch) = [m] then destroy_channel ?ch w3 else w3)"
  proof
    let ?w3 = "upd_client (ms_client x) (\<lambda>y. y\<lparr>cl_channel := remove1 m (cl_channel y)\<rparr>)
      (upd_chan ?ch (\<lambda>y. y\<lparr>ch_members := remove1 m (ch_members y)\<rparr>) w)\<lparr>mships := (mships w)(m := None)\<rparr>"
    have "remove_user_from_channel m w =
        Some (if remove1 m (ch_members (chans w ?ch)) = [] then destroy_channel ?ch ?w3 else ?w3)"
      unfolding remove_user_from_channel_def assms(2) option.case Let_def
      by simp
    then show "w' = (if ch_members (chans w ?ch) = [m] then destroy_channel ?ch ?w3 else ?w3)"
      unfolding e w' by (rule option.inject [THEN iffD1])
  qed simp_all
  have "?ch \<notin> set (global_channel_list (destroy_channel ?ch w3))" "?ch \<notin> set (channel_names (destroy_channel ?ch w3))"
    using destroyed_channel [of w3 ?ch] assms(3,4) w3 by simp_all
  then have "(?ch \<notin> set (global_channel_list w')) = (ch_members (chans w ?ch) = [m])"
      "?ch \<notin> set (global_channel_list w') \<longrightarrow> ?ch \<notin> set (channel_names w')"
    using assms(5) w3 w'3 by (cases "ch_members (chans w ?ch) = [m]"; simp)+
  then show ?thesis using w' ok mem by blast
qed

theorem part_correct_witness:
  "\<exists>w'. remove_user_from_channel 7 (add_user_to_channel 7 1 1 CHFL_CHANOP False a_world) = Some w' \<and>
     \<not> is_member w' 1 1 \<and> 1 \<notin> set (global_channel_list w')"
proof -
  let ?w = "add_user_to_channel 7 1 1 CHFL_CHANOP False a_world"
  have m: "mships a_world x = None" for x by (simp add: a_world_def)
  note F = add_user_to_channel_frame
  have l: "links_ok ?w" by (auto simp: links_ok_def F m a_channel_def a_client_def)
  let ?x = "\<lparr>ms_chptr = 1, ms_client = 1, ms_flags = CHFL_CHANOP, ms_lmsg = None, ms_nmsg = 0, ms_lsize = 0, ms_lmsg_time = 0\<rparr>"
  have s: "mships ?w 7 = Some ?x" by (simp add: F)
  have g: "global_channel_list ?w = [1]" "channel_names ?w = [1]"
    by (simp_all add: add_user_to_channel_def join_flood_def Let_def, simp_all add: a_world_def)
  have "ch_members (chans ?w 1) = [7]" by (simp add: F) (simp add: a_channel_def)
  with part_correct [OF l s] g show ?thesis by auto
qed


subsection \<open>Invitations\<close>

text \<open>A client is in a channel's list of invited clients exactly when the channel is in the client's list.\<close>

definition invites_ok :: "world \<Rightarrow> bool" where
  "invites_ok w \<longleftrightarrow>
     (\<forall>c ch. distinct (cl_invited (clients w c)) \<and> distinct (ch_invites (chans w ch)) \<and>
        (c \<in> set (ch_invites (chans w ch)) \<longleftrightarrow> ch \<in> set (cl_invited (clients w c))))"

lemma invites_okD:
  assumes "invites_ok w"
  shows "distinct (cl_invited (clients w c))" "distinct (ch_invites (chans w ch))"
    "c \<in> set (ch_invites (chans w ch)) \<longleftrightarrow> ch \<in> set (cl_invited (clients w c))"
  using assms by (simp_all add: invites_ok_def)

lemma del_invite_lists:
  "cl_invited (clients (del_invite ch who w) c) = (if c = who then remove1 ch (cl_invited (clients w c)) else cl_invited (clients w c))"
  "ch_invites (chans (del_invite ch who w) k) = (if k = ch then remove1 who (ch_invites (chans w k)) else ch_invites (chans w k))"
  by (simp_all add: del_invite_def)

lemma invites_ok_del: "invites_ok w \<Longrightarrow> invites_ok (del_invite ch who w)"
  unfolding invites_ok_def del_invite_lists by auto




subsection \<open>Who may join\<close>

text \<open>
  C13: \<open>can_join\<close> always answers for a local client, and lets it in exactly when every restriction of the
  channel is met: not banned or excepted, invited or invite-excepted on a \<open>+i\<close> channel, an operator on
  \<open>+O\<close>, room under the limit, a registered nick on \<open>+R\<close>, TLS on \<open>+E\<close>, and the key, compared without case.
\<close>

theorem can_join_iff:
  assumes "client_strings_ok (clients w p)" "cl_local (clients w p)"
    "\<forall>b\<in>set (ch_banlist (chans w ch)) \<union> set (ch_exceptlist (chans w ch)) \<union> set (ch_invexlist (chans w ch)). usable b"
    "length (ch_members (chans w ch)) < 2 ^ 32"
  shows "\<exists>r. can_join p ch key w = Some r \<and> (r = JOIN_OK \<longleftrightarrow>
    (let c = clients w p; k = chans w ch; m = ch_mode k in
     ((\<exists>b\<in>set (ch_banlist k). covers b c) \<longrightarrow> use_except (cfg w) \<and> (\<exists>e\<in>set (ch_exceptlist k). covers e c)) \<and>
     (has (md_mode m) MODE_INVITEONLY \<longrightarrow>
        ch \<in> set (cl_invited c) \<or> use_invex (cfg w) \<and> (\<exists>i\<in>set (ch_invexlist k). covers i c)) \<and>
     (has (md_mode m) MODE_OPERONLY \<longrightarrow> cl_oper c) \<and>
     (md_limit m \<noteq> 0 \<longrightarrow> length (ch_members k) < unat (md_limit m)) \<and>
     (has (md_mode m) MODE_REGONLY \<longrightarrow> cl_regnick c) \<and>
     (has (md_mode m) MODE_SSLONLY \<longrightarrow> cl_ssl c) \<and>
     (md_key m \<noteq> [] \<longrightarrow> (\<exists>s. key = Some s \<and> irccmp (md_key m) s = 0))))"
proof -
  have banned: "is_banned ch p w = Some ((\<exists>b\<in>set (ch_banlist (chans w ch)). covers b (clients w p)) \<and>
      \<not> (use_except (cfg w) \<and> (\<exists>e\<in>set (ch_exceptlist (chans w ch)). covers e (clients w p))))"
    using assms(1-3) find_bmask_correct by (simp add: is_banned_def)
  have invex: "find_bmask (clients w p) (ch_invexlist (chans w ch)) =
      Some (\<exists>i\<in>set (ch_invexlist (chans w ch)). covers i (clients w p))"
    using assms(1-3) find_bmask_correct by simp
  have limit: "l \<le> word_of_nat (length (ch_members (chans w ch))) \<longleftrightarrow> unat l \<le> length (ch_members (chans w ch))"
    for l :: "32 word"
    using assms(4) by (simp add: word_le_nat_alt unat_of_nat)
  have key: "(case key of None \<Rightarrow> True | Some k \<Rightarrow> irccmp s k \<noteq> 0) \<longleftrightarrow> \<not> (\<exists>k. key = Some k \<and> irccmp s k = 0)" for s
    by (cases key) auto
  have ladder: "(if a then E1 else if b then E2 else if c then E3 else if d then E4 else if e then E5 else if f then E6 else
      JOIN_OK) = JOIN_OK \<longleftrightarrow> \<not> a \<and> \<not> b \<and> \<not> c \<and> \<not> d \<and> \<not> e \<and> \<not> f"
    if "JOIN_OK \<notin> {E1, E2, E3, E4, E5, E6}" for a b c d e f E1 E2 E3 E4 E5 E6
    using that by auto
  let ?u = "has (md_mode (ch_mode (chans w ch))) MODE_INVITEONLY \<and> ch \<notin> set (cl_invited (clients w p)) \<and>
    \<not> (use_invex (cfg w) \<and> (\<exists>i\<in>set (ch_invexlist (chans w ch)). covers i (clients w p)))"
  have uninvited: "(if has (md_mode (ch_mode (chans w ch))) MODE_INVITEONLY \<and> ch \<notin> set (cl_invited (clients w p)) then
      if \<not> use_invex (cfg w) then Some True else map_option Not (find_bmask (clients w p) (ch_invexlist (chans w ch)))
      else Some False) = Some ?u"
    by (simp add: invex)
  show ?thesis
    unfolding can_join_def Let_def banned uninvited limit key Option.bind.bind_lunit
    by (rule if_split [THEN iffD2]) (simp add: ladder not_le; blast)
qed

theorem can_join_iff_witness:
  "can_join 1 1 None (a_world\<lparr>chans := (\<lambda>_. a_channel\<lparr>ch_mode := a_mode\<lparr>md_key := ''sesame''\<rparr>\<rparr>)\<rparr>) \<noteq> Some JOIN_OK \<and>
   can_join 1 1 (Some ''Sesame'') (a_world\<lparr>chans := (\<lambda>_. a_channel\<lparr>ch_mode := a_mode\<lparr>md_key := ''sesame''\<rparr>\<rparr>)\<rparr>) = Some JOIN_OK"
proof -
  let ?w = "a_world\<lparr>chans := (\<lambda>_. a_channel\<lparr>ch_mode := a_mode\<lparr>md_key := ''sesame''\<rparr>\<rparr>)\<rparr>"
  have c: "client_strings_ok (clients ?w 1)" "cl_local (clients ?w 1)" by (simp_all add: client_strings_ok_def, simp_all add: a_client_def)
  have l: "ch_banlist a_channel = []" "ch_exceptlist a_channel = []" "ch_invexlist a_channel = []" "ch_members a_channel = []"
      "md_mode a_mode = 0" "md_limit a_mode = 0"
    by (simp_all add: a_channel_def a_mode_def)
  have "ToLower CHR ''s'' = ToLower CHR ''S''"
    by (simp add: char_eq_nat_iff of_char_ToLower del: of_char_eq_iff)
  then have k: "irccmp ''sesame'' ''Sesame'' = 0" by (simp add: irccmp_iff fold_case_def)
  show ?thesis
    using can_join_iff [OF c, of 1 None] can_join_iff [OF c, of 1 "Some ''Sesame''"] by (auto simp: l k Let_def)
qed


subsection \<open>Who may speak\<close>

text \<open>
  The ban cache of a local member: what the two flags say of it is what \<open>is_banned\<close> would answer now.
\<close>

definition cache_ok :: "chid \<Rightarrow> world \<Rightarrow> bool" where
  "cache_ok ch w \<longleftrightarrow> (\<forall>m x. mships w m = Some x \<longrightarrow> ms_chptr x = ch \<longrightarrow> cl_local (clients w (ms_client x)) \<longrightarrow>
     (has (ms_flags x) CHFL_BAN_SILENCED \<longrightarrow> is_banned ch (ms_client x) w = Some True) \<and>
     (has (ms_flags x) CHFL_BAN_CHECKED \<longrightarrow> \<not> has (ms_flags x) CHFL_BAN_SILENCED \<longrightarrow>
        is_banned ch (ms_client x) w = Some False))"

lemma addr_match_since: "addr_match b (c\<lparr>cl_since := t\<rparr>) = addr_match b c"
proof -
  have s: "cl_local (c\<lparr>cl_since := t\<rparr>) = cl_local c" "cl_ip (c\<lparr>cl_since := t\<rparr>) = cl_ip c"
      "cl_host (c\<lparr>cl_since := t\<rparr>) = cl_host c" "cl_realhost (c\<lparr>cl_since := t\<rparr>) = cl_realhost c"
      "cl_sockhost (c\<lparr>cl_since := t\<rparr>) = cl_sockhost c" by simp_all
  show ?thesis unfolding addr_match_def host_match_def s ..
qed

lemma find_bmask_since [simp]: "find_bmask (c\<lparr>cl_since := t\<rparr>) bs = find_bmask c bs"
proof (induction bs)
  case (Cons b bs)
  have s: "cl_name (c\<lparr>cl_since := t\<rparr>) = cl_name c" "cl_username (c\<lparr>cl_since := t\<rparr>) = cl_username c" by simp_all
  show ?case unfolding find_bmask.simps Cons addr_match_since s ..
qed simp

lemma is_banned_cong:
  assumes "find_bmask (clients w' c) = find_bmask (clients w c)" "chans w' ch = chans w ch" "cfg w' = cfg w"
  shows "is_banned ch c w' = is_banned ch c w"
  unfolding is_banned_def assms ..

lemma is_banned_upd_ms [simp]: "is_banned ch c (upd_ms m f w) = is_banned ch c w"
  by (rule is_banned_cong) simp_all

lemma is_banned_since [simp]: "is_banned ch c (upd_client p (\<lambda>x. x\<lparr>cl_since := t\<rparr>) w) = is_banned ch c w"
  by (rule is_banned_cong) auto

lemma has_flags [simp]: "has CHFL_BAN_CHECKED CHFL_BAN_CHECKED" "has CHFL_BAN_SILENCED CHFL_BAN_SILENCED"
    "has 0x180 CHFL_BAN_CHECKED" "has 0x180 CHFL_BAN_SILENCED" "\<not> has CHFL_BAN_CHECKED CHFL_BAN_SILENCED" "\<not> has CHFL_BAN_SILENCED CHFL_BAN_CHECKED"
  by (simp_all add: has_def)

lemma cache_ok_upd_ms:
  assumes "cache_ok ch w" "\<And>x. mships w m = Some x \<Longrightarrow>
    ms_chptr (f x) = ms_chptr x \<and> ms_client (f x) = ms_client x \<and>
    (has (ms_flags (f x)) CHFL_BAN_SILENCED \<longrightarrow>
       has (ms_flags x) CHFL_BAN_SILENCED \<or> is_banned (ms_chptr x) (ms_client x) w = Some True) \<and>
    (has (ms_flags (f x)) CHFL_BAN_CHECKED \<longrightarrow> \<not> has (ms_flags (f x)) CHFL_BAN_SILENCED \<longrightarrow>
       has (ms_flags x) CHFL_BAN_CHECKED \<and> \<not> has (ms_flags x) CHFL_BAN_SILENCED \<or>
       is_banned (ms_chptr x) (ms_client x) w = Some False)"
  shows "cache_ok ch (upd_ms m f w)"
  unfolding cache_ok_def
proof (intro allI impI)
  fix i x
  assume x: "mships (upd_ms m f w) i = Some x" "ms_chptr x = ch" "cl_local (clients (upd_ms m f w) (ms_client x))"
  show "(has (ms_flags x) CHFL_BAN_SILENCED \<longrightarrow> is_banned ch (ms_client x) (upd_ms m f w) = Some True) \<and>
     (has (ms_flags x) CHFL_BAN_CHECKED \<longrightarrow> \<not> has (ms_flags x) CHFL_BAN_SILENCED \<longrightarrow>
        is_banned ch (ms_client x) (upd_ms m f w) = Some False)"
  proof (cases "i = m")
    case True
    with x obtain y where y: "mships w m = Some y" "x = f y" by auto
    then show ?thesis using x assms(1,2) unfolding cache_ok_def by fastforce
  next
    case False then show ?thesis using x assms(1) by (simp add: cache_ok_def)
  qed
qed

lemma cache_ok_since: "cache_ok ch w \<Longrightarrow> cache_ok ch (upd_client p (\<lambda>x. x\<lparr>cl_since := t\<rparr>) w)"
  by (auto simp: cache_ok_def split: if_splits)

lemma member_may_speak_cache:
  assumes "cache_ok ch w" "member_may_speak ch p m w = Some (r, w')" "on_channel w ch m"
    "\<And>x. mships w m = Some x \<Longrightarrow> ms_client x = p"
  shows "cache_ok ch w'"
proof -
  obtain x where x: "mships w m = Some x" "ms_chptr x = ch" "ms_client x = p"
    using assms(3,4) by (auto simp: on_channel_def split: option.splits)
  have "w' = w \<or> is_banned ch p w = Some True \<and>
        w' = upd_ms m (\<lambda>x. x\<lparr>ms_flags := ms_flags x OR (CHFL_BAN_CHECKED OR CHFL_BAN_SILENCED)\<rparr>) w \<or>
      is_banned ch p w = Some False \<and> w' = upd_ms m (\<lambda>x. x\<lparr>ms_flags := ms_flags x OR CHFL_BAN_CHECKED\<rparr>) w"
    using assms(2) unfolding member_may_speak_def x(1) option.case
    by (simp split: if_splits bind_splits)
  then consider "w' = w" | "is_banned ch p w = Some True"
      "w' = upd_ms m (\<lambda>x. x\<lparr>ms_flags := ms_flags x OR (CHFL_BAN_CHECKED OR CHFL_BAN_SILENCED)\<rparr>) w"
    | "is_banned ch p w = Some False" "w' = upd_ms m (\<lambda>x. x\<lparr>ms_flags := ms_flags x OR CHFL_BAN_CHECKED\<rparr>) w"
    by blast
  then show ?thesis
  proof cases
    case 1 with assms(1) show ?thesis by simp
  next
    case 2
    show ?thesis unfolding 2(2) using 2(1) x by (intro cache_ok_upd_ms [OF assms(1)]) auto
  next
    case 3
    show ?thesis unfolding 3(2) using 3(1) x by (intro cache_ok_upd_ms [OF assms(1)]) auto
  qed
qed

lemma text_may_pass_cache:
  assumes "cache_ok ch w" "text_may_pass ch p ms t w = Some (r, w')"
  shows "cache_ok ch w'"
proof -
  have flood: "cache_ok ch w1" if "check_for_chan_flood p ch m w = Some (f, w1)" for m f w1
    using that assms(1)
    by (auto simp: check_for_chan_flood_def Let_def split: if_splits option.splits
        intro!: cache_ok_upd_ms cache_ok_since)
  obtain f w1 where f: "(case ms of None \<Rightarrow> Some (False, w) | Some m \<Rightarrow> check_for_chan_flood p ch m w) = Some (f, w1)"
    using assms(2) by (auto simp: text_may_pass_def split: bind_splits)
  then have c1: "cache_ok ch w1" using flood assms(1) by (auto split: option.splits)
  from assms(2) f c1 show ?thesis
    by (auto simp: text_may_pass_def Let_def split: if_splits bind_splits option.splits
        intro!: cache_ok_upd_ms)
qed


lemma text_may_pass_result: "text_may_pass ch p ms t w = Some (r, w') \<Longrightarrow> r \<noteq> CAN_SEND_OPV"
  by (auto simp: text_may_pass_def Let_def split: if_splits bind_splits option.splits)

text \<open>What the guards of the channel's modes leave, said of the modes only.\<close>

definition may_speak :: "channel \<Rightarrow> client \<Rightarrow> string option \<Rightarrow> bool \<Rightarrow> bool" where
  "may_speak k c text notice \<longleftrightarrow>
     (let m = md_mode (ch_mode k) in
      \<not> has m MODE_MODERATED \<and> (has m MODE_MODREG \<longrightarrow> cl_regnick c) \<and> (has m MODE_NOCTRL \<longrightarrow> \<not> msg_has_ctrls text) \<and>
      (notice \<longrightarrow> \<not> has m MODE_NONOTICES))"

lemma member_may_speak_result:
  assumes "member_may_speak ch p m w = Some (r, w1)" "mships w m = Some x" "ms_chptr x = ch" "ms_client x = p" "cache_ok ch w"
  shows "(r = Some CAN_SEND_OPV \<longrightarrow> has (ms_flags x) ANY_STATUS) \<and> r \<noteq> Some CAN_SEND_NONOP \<and>
    (r = None \<longrightarrow> \<not> has (ms_flags x) ANY_STATUS \<and>
       (quiet_on_ban (cfg w) \<longrightarrow> MyClient (clients w p) \<longrightarrow> is_banned ch p w = Some False)) \<and>
    chans w1 = chans w \<and> clients w1 = clients w"
proof -
  have c: "MyClient (clients w p) \<Longrightarrow> has (ms_flags x) CHFL_BAN_CHECKED \<Longrightarrow> \<not> has (ms_flags x) CHFL_BAN_SILENCED \<Longrightarrow>
      is_banned ch p w = Some False"
    using assms(2-5) unfolding cache_ok_def MyClient_def by blast
  show ?thesis
    using assms(1) c unfolding member_may_speak_def assms(2) option.case
    by (simp split: if_splits bind_splits; force)
qed





subsection \<open>The join flood counter\<close>

text \<open>
  However C rounds its \<^verbatim>\<open>float\<close>, the join flood counter stays between zero and the configured number, and
  the operators are told of a flood only when the counter has reached it and they were not told since it
  last drained to zero.
\<close>

theorem join_flood_bounds:
  assumes "0 \<le> rnd (cfg w) (of_int (joinfloodcount (cfg w)))"
  shows "let w' = join_flood ch who f w; k = chans w' ch; top = rnd (cfg w) (of_int (joinfloodcount (cfg w))) in
    0 \<le> ch_number_joined k \<and> ch_number_joined k \<le> top \<and>
    (log w' \<noteq> log w \<longrightarrow> ch_number_joined k = top \<and> \<not> ch_flood_noticed (chans w ch) \<and> ch_flood_noticed k) \<and>
    (ch_flood_noticed k \<longrightarrow> 0 < ch_number_joined k \<or> top = 0)"
  using assms unfolding join_flood_def Let_def by (auto simp: not_le)

text \<open>Four joins within a second on a channel that allows three in ten: the last one raises the alarm.\<close>

theorem join_flood_bounds_witness:
  "let c = a_config\<lparr>joinfloodcount := 3, joinfloodtime := 10\<rparr>;
       w = a_world\<lparr>cfg := c, chans := (\<lambda>_. a_channel\<lparr>ch_number_joined := 5/2, ch_last_join_time := 5000\<rparr>)\<rparr>;
       w' = join_flood 1 1 True w in
   ch_number_joined (chans w' 1) = 3 \<and> ch_flood_noticed (chans w' 1) \<and> length (log w') = 1"
proof -
  let ?c = "a_config\<lparr>joinfloodcount := 3, joinfloodtime := 10\<rparr>"
  let ?w = "a_world\<lparr>cfg := ?c, chans := (\<lambda>_. a_channel\<lparr>ch_number_joined := 5/2, ch_last_join_time := 5000\<rparr>)\<rparr>"
  have r: "rnd a_config x = x" for x by (simp add: a_config_def)
  have l: "log a_world = []" "\<not> ch_flood_noticed a_channel" by (simp_all add: a_world_def a_channel_def)
  have e: "log (join_flood 1 1 True ?w) \<noteq> log ?w \<and> length (log (join_flood 1 1 True ?w)) = 1"
    by (simp add: join_flood_def drained_def Let_def r l)
  have "joinfloodcount (cfg ?w) = 3" "rnd (cfg ?w) x = x" for x by (simp_all add: r)
  then show ?thesis using join_flood_bounds [of ?w 1 1 True] e by (simp add: Let_def)
qed

text \<open>The scrubbing of spam checks: it knows bold, colours, bell, reverse and underline, and nothing else.\<close>

lemma strip_codes_plain:
  "\<forall>c\<in>set s. (of_char c :: int) \<notin> {2, 3, 7, 0x16, 0x1f} \<Longrightarrow> strip_codes s = fold_case s"
  by (induction s) (auto simp: fold_case_def)

lemma strip_codes_code:
  "(of_char c :: int) \<in> {2, 7, 0x16, 0x1f} \<Longrightarrow> strip_codes (c # s) = strip_codes s"
  by auto

end
