(* ===== verification/Channel_Mode.thy ===== *)
theory Channel_Mode
  imports Channel
begin

section \<open>Channel modes\<close>

text \<open>
  channel_mode.c: the handlers of every mode letter, the table that selects them, \<open>set_channel_mode\<close> that
  runs a MODE line through them, and the printing of the changes to the channel and to the servers.

  The file's static variables (\<open>mode_changes\<close>, \<open>mode_limit\<close>, \<open>simple_modes_mask\<close>) and the two counters
  the handlers share by pointer (\<open>errors\<close>, \<open>parn\<close>) are the fields of \<open>run\<close>; what does not change during a
  run is \<open>env\<close>.  \<open>None\<close> is undefined behaviour: a write beyond \<open>modebuf\<close>, \<open>parabuf\<close> or \<open>mode_changes\<close>, or
  what \<open>add_id\<close> runs into.
\<close>

subsection \<open>Cleaning keys and forwards\<close>

definition low7 :: "char \<Rightarrow> char" where
  "low7 c = char_of ((of_char c :: nat) mod 128)"

definition fix_key :: "string \<Rightarrow> string" where
  "fix_key arg = filter (\<lambda>c. c \<noteq> CHR '':'' \<and> 32 < (of_char c :: int) \<and> c \<noteq> CHR '','') (map low7 arg)"

text \<open>The old form keeps control characters; a byte 128 becomes a terminator and cuts the text.\<close>

definition fix_key_old :: "string \<Rightarrow> string" where
  "fix_key_old arg = takeWhile (\<lambda>c. c \<noteq> NUL)
     (filter (\<lambda>c. (of_char c :: int) \<noteq> 10 \<and> c \<noteq> CHR '':'' \<and> (of_char c :: int) \<noteq> 13 \<and> c \<noteq> CHR '','') (map low7 arg))"

definition fix_forward :: "string \<Rightarrow> string" where
  "fix_forward arg = filter (\<lambda>c. c \<noteq> CHR '':'' \<and> 32 < (of_char c :: int)) (map low7 arg)"

definition fix_forward_old :: "string \<Rightarrow> string" where
  "fix_forward_old arg = takeWhile (\<lambda>c. c \<noteq> NUL)
     (filter (\<lambda>c. (of_char c :: int) \<noteq> 10 \<and> c \<noteq> CHR '':'' \<and> (of_char c :: int) \<noteq> 13) (map low7 arg))"

subsection \<open>Numbers\<close>

fun dec_text :: "nat \<Rightarrow> string" where
  "dec_text n = (if n < 10 then [digit n] else dec_text (n div 10) @ [digit (n mod 10)])"

declare dec_text.simps [simp del]

definition int_text :: "int \<Rightarrow> string" where
  "int_text i = (if i < 0 then CHR ''-'' # dec_text (nat (- i)) else dec_text (nat i))"

text \<open>\<^verbatim>\<open>atoi\<close> of the C library: \<^verbatim>\<open>strtol\<close>, which saturates, then cut to an \<^verbatim>\<open>int\<close>.\<close>

definition atoi :: "string \<Rightarrow> int" where
  "atoi s =
    (let s1 = dropWhile c_isspace s;
         neg = (s1 \<noteq> [] \<and> hd s1 = CHR ''-'');
         s2 = (if s1 \<noteq> [] \<and> (hd s1 = CHR ''-'' \<or> hd s1 = CHR ''+'') then drop 1 s1 else s1);
         v = dec_value (takeWhile dec_digit s2);
         l = (if neg then max (- (2 ^ 63)) (- v) else min (2 ^ 63 - 1) v) in
     sint (word_of_int l :: 32 word))"

subsection \<open>The run of a MODE line\<close>

datatype mode_dir = MODE_QUERY | MODE_ADD | MODE_DEL

abbreviation CHACCESS_NOTONCHAN :: int where "CHACCESS_NOTONCHAN \<equiv> -1"
abbreviation CHACCESS_PEON :: int where "CHACCESS_PEON \<equiv> 0"
abbreviation CHACCESS_HALFOP :: int where "CHACCESS_HALFOP \<equiv> 1"
abbreviation CHACCESS_CHANOP :: int where "CHACCESS_CHANOP \<equiv> 2"
abbreviation CHACCESS_PROTECTED :: int where "CHACCESS_PROTECTED \<equiv> 3"
abbreviation CHACCESS_OWNER :: int where "CHACCESS_OWNER \<equiv> 4"
abbreviation CHACCESS_REMOTE :: int where "CHACCESS_REMOTE \<equiv> 5"

abbreviation SM_ERR_NOOPS :: "32 word" where "SM_ERR_NOOPS \<equiv> 0x2"
abbreviation SM_ERR_UNKNOWN :: "32 word" where "SM_ERR_UNKNOWN \<equiv> 0x4"
abbreviation SM_ERR_RPL_B :: "32 word" where "SM_ERR_RPL_B \<equiv> 0x8"
abbreviation SM_ERR_RPL_E :: "32 word" where "SM_ERR_RPL_E \<equiv> 0x10"
abbreviation SM_ERR_NOTONCHANNEL :: "32 word" where "SM_ERR_NOTONCHANNEL \<equiv> 0x20"
abbreviation SM_ERR_RPL_I :: "32 word" where "SM_ERR_RPL_I \<equiv> 0x40"
abbreviation SM_ERR_NOTOPER :: "32 word" where "SM_ERR_NOTOPER \<equiv> 0x80"

abbreviation MAXMODEPARAMS :: nat where "MAXMODEPARAMS \<equiv> 4"
abbreviation MODEBUFLEN :: nat where "MODEBUFLEN \<equiv> 200"
abbreviation IRCD_BUFSIZE :: nat where "IRCD_BUFSIZE \<equiv> 512"
abbreviation BAN_FUDGE :: nat where "BAN_FUDGE \<equiv> 10"

abbreviation CAP_EX :: "32 word" where "CAP_EX \<equiv> 0x4"
abbreviation CAP_IE :: "32 word" where "CAP_IE \<equiv> 0x20"
abbreviation CAP_TS6 :: "32 word" where "CAP_TS6 \<equiv> 0x400"

text \<open>\<open>mems\<close>, whom a change is shown to.\<close>

datatype audience = ALL_MEMBERS | NON_CHANOPS | ONLY_CHANOPS | ONLY_SERVERS

text \<open>
  The argument of a change is a pointer.  For the key and the forward it points into the channel's own mode
  record, so it shows what is there when the line is printed; the others point to text that stays as it is.
\<close>

datatype change_arg = Arg_null | Arg_text string | Arg_key | Arg_forward

record mode_change =
  mc_letter :: char
  mc_arg :: change_arg
  mc_id :: "string option"
  mc_dir :: mode_dir
  mc_caps :: "32 word"
  mc_nocaps :: "32 word"
  mc_mems :: audience

record env =
  client_p :: cid
  source_p :: cid
  chptr :: chid
  parv :: "string list"
  alev :: int
  chname :: string

record run =
  wld :: world
  mode_changes :: "mode_change list"
  mode_limit :: nat
  simple_modes_mask :: "32 word"
  errors :: "32 word"
  parn :: nat

definition src :: "env \<Rightarrow> run \<Rightarrow> client" where
  "src e r = clients (wld r) (source_p e)"

definition chn :: "env \<Rightarrow> run \<Rightarrow> channel" where
  "chn e r = chans (wld r) (chptr e)"

definition tell :: "event \<Rightarrow> run \<Rightarrow> run" where
  "tell v r = r\<lparr>wld := send v (wld r)\<rparr>"

definition set_error :: "32 word \<Rightarrow> run \<Rightarrow> run" where
  "set_error f r = r\<lparr>errors := errors r OR f\<rparr>"

text \<open>An error message is sent once per line.\<close>

definition complain :: "32 word \<Rightarrow> event \<Rightarrow> run \<Rightarrow> run" where
  "complain f v r = set_error f (if has (errors r) f then r else tell v r)"

definition deny :: "env \<Rightarrow> string \<Rightarrow> run \<Rightarrow> run" where
  "deny e numeric r =
    complain SM_ERR_NOOPS (To_one (source_p e)
      (if alev e = CHACCESS_NOTONCHAN then ''ERR_NOTONCHANNEL'' else numeric) [chname e]) r"

definition has_param :: "env \<Rightarrow> run \<Rightarrow> bool" where
  "has_param e r \<longleftrightarrow> parn r < length (parv e)"

text \<open>\<open>mode_changes[mode_count++] = ...\<close>, an array of \<open>IRCD_BUFSIZE\<close> entries.\<close>

definition change :: "char \<Rightarrow> mode_dir \<Rightarrow> 32 word \<Rightarrow> audience \<Rightarrow> string option \<Rightarrow> change_arg \<Rightarrow> run \<Rightarrow> run option" where
  "change c d caps mems i arg r =
    (if IRCD_BUFSIZE \<le> length (mode_changes r) then None
     else Some (r\<lparr>mode_changes := mode_changes r @
       [\<lparr>mc_letter = c, mc_arg = arg, mc_id = i, mc_dir = d, mc_caps = caps, mc_nocaps = 0, mc_mems = mems\<rparr>]\<rparr>))"

text \<open>\<open>MyClient(source_p) && (++mode_limit > MAXMODEPARAMS)\<close>\<close>

definition over_limit :: "env \<Rightarrow> run \<Rightarrow> bool \<times> run" where
  "over_limit e r =
    (if MyClient (src e r)
     then (MAXMODEPARAMS < mode_limit r + 1, r\<lparr>mode_limit := mode_limit r + 1\<rparr>)
     else (False, r))"

text \<open>A repeated \<open>+l\<close>, \<open>+k\<close>, \<open>+F\<close> or \<open>+f\<close> strikes the earlier one out.\<close>

definition strike :: "char \<Rightarrow> run \<Rightarrow> run" where
  "strike c r = r\<lparr>mode_changes :=
     map (\<lambda>m. if mc_letter m = c \<and> mc_dir m = MODE_ADD then m\<lparr>mc_letter := NUL\<rparr> else m) (mode_changes r)\<rparr>"

definition upd_mode :: "env \<Rightarrow> (mode \<Rightarrow> mode) \<Rightarrow> run \<Rightarrow> run" where
  "upd_mode e f r = r\<lparr>wld := upd_chan (chptr e) (\<lambda>x. x\<lparr>ch_mode := f (ch_mode x)\<rparr>) (wld r)\<rparr>"

type_synonym handler = "env \<Rightarrow> mode_dir \<Rightarrow> char \<Rightarrow> run \<Rightarrow> run option"


subsection \<open>Simple modes\<close>

definition chm_nosuch :: handler where
  "chm_nosuch e d c r =
    (if has (errors r) SM_ERR_UNKNOWN then Some r
     else Some (tell (To_one (source_p e) ''ERR_UNKNOWNMODE'' [[c]]) (set_error SM_ERR_UNKNOWN r)))"

definition nonssl_member :: "world \<Rightarrow> mid \<Rightarrow> bool" where
  "nonssl_member w m = (case mships w m of None \<Rightarrow> False
     | Some x \<Rightarrow> \<not> cl_services (clients w (ms_client x)) \<and> \<not> cl_ssl (clients w (ms_client x)))"

definition set_simple :: "32 word \<Rightarrow> env \<Rightarrow> mode_dir \<Rightarrow> char \<Rightarrow> run \<Rightarrow> run option" where
  "set_simple mode_type e d c r =
    (if has (simple_modes_mask r) mode_type then Some r
     else
       (let r1 = r\<lparr>simple_modes_mask := simple_modes_mask r OR mode_type\<rparr>;
            on = has (md_mode (ch_mode (chn e r))) mode_type in
        if d = MODE_ADD \<and> \<not> on then
          change c MODE_ADD 0 ALL_MEMBERS None Arg_null (upd_mode e (\<lambda>m. m\<lparr>md_mode := md_mode m OR mode_type\<rparr>) r1)
        else if d = MODE_DEL \<and> on then
          change c MODE_DEL 0 ALL_MEMBERS None Arg_null (upd_mode e (\<lambda>m. m\<lparr>md_mode := md_mode m AND NOT mode_type\<rparr>) r1)
        else Some r1))"

definition chm_simple :: "32 word \<Rightarrow> handler" where
  "chm_simple mode_type e d c r =
    (if alev e < CHACCESS_HALFOP \<or> mode_type = MODE_PRIVATE \<and> alev e < CHACCESS_CHANOP
     then Some (deny e ''ERR_CHANOPRIVSNEEDED'' r)
     else if mode_type = MODE_OPERONLY \<and> alev e < CHACCESS_REMOTE \<and> \<not> cl_oper (src e r)
     then Some (complain SM_ERR_NOTOPER (To_one (source_p e) ''ERR_NOPRIVS'' [''mode'']) r)
     else if mode_type = MODE_CHANREG \<and> alev e < CHACCESS_REMOTE \<and> \<not> cl_services (src e r)
     then Some (complain SM_ERR_NOTOPER (To_one (source_p e) ''ERR_NOPRIVS'' [''mode'']) r)
     else if mode_type = MODE_SSLONLY \<and> d = MODE_ADD \<and> alev e < CHACCESS_REMOTE \<and> \<not> HAVE_LIBCRYPTO (cfg (wld r))
     then Some (complain SM_ERR_UNKNOWN (To_one (source_p e) ''ERR_UNKNOWNMODE'' [[c]]) r)
     else if mode_type = MODE_SSLONLY \<and> d = MODE_ADD \<and> alev e < CHACCESS_REMOTE \<and>
        (\<exists>m\<in>set (ch_members (chn e r)). nonssl_member (wld r) m)
     then Some (tell (To_one (source_p e) ''ERR_CANNOTCHANGECHANMODE'' [[c], ''all members must be connected via SSL'']) r)
     else set_simple mode_type e d c r)"

subsection \<open>The three lists\<close>

definition show_list :: "env \<Rightarrow> string \<Rightarrow> string \<Rightarrow> ban list \<Rightarrow> run \<Rightarrow> run" where
  "show_list e entry fin bs r =
    tell (To_one (source_p e) fin [chname e])
      (fold (\<lambda>b. tell (To_one (client_p e) entry
          [chname e, bn_name b, bn_username b, bn_host b, bn_who b, int_text (bn_when b)])) bs r)"

text \<open>
  The mask is copied out of the parameter and the parameter is used up; a server's mask with a space in it
  is then dropped.
\<close>

definition chm_ban :: handler where
  "chm_ban e d c r =
    (if d = MODE_QUERY \<or> \<not> has_param e r then
       (if has (errors r) SM_ERR_RPL_B then Some r
        else Some (show_list e ''RPL_BANLIST'' ''RPL_ENDOFBANLIST'' (ch_banlist (chn e r)) (set_error SM_ERR_RPL_B r)))
     else if alev e < CHACCESS_HALFOP then Some (deny e ''ERR_CHANOPRIVSNEEDED'' r)
     else
       (let (full, r1) = over_limit e r in
        if full then Some r1
        else
          (let mask = parv e ! parn r1; r2 = r1\<lparr>parn := parn r1 + 1\<rparr> in
           if IsServer (clients (wld r2) (client_p e)) \<and> CHR '' '' \<in> set mask then Some r2
           else if d = MODE_ADD then do {
             (ok, mask', w) \<leftarrow> add_id (source_p e) (chptr e) mask CHFL_BAN (wld r2);
             let r3 = r2\<lparr>wld := w\<rparr>;
             if \<not> ok then Some r3 else change c d 0 ALL_MEMBERS None (Arg_text mask') r3 }
           else
             (let (ok, mask', w) = del_id (chptr e) (Some mask) CHFL_BAN (wld r2) in
              change c d 0 ALL_MEMBERS None (Arg_text (the mask')) (r2\<lparr>wld := w\<rparr>)))))"

definition chm_id :: "id_type \<Rightarrow> bool \<Rightarrow> 32 word \<Rightarrow> string \<Rightarrow> string \<Rightarrow> 32 word \<Rightarrow> handler" where
  "chm_id t used listed entry fin cap e d c r =
    (if \<not> used \<and> MyClient (src e r) \<and> d = MODE_ADD \<and> has_param e r then Some (set_error listed r)
     else if alev e < CHACCESS_HALFOP then Some (deny e ''ERR_CHANOPRIVSNEEDED'' r)
     else if d = MODE_QUERY \<or> \<not> has_param e r then
       (if has (errors r) listed then Some r
        else Some (show_list e entry fin (id_list t (chn e r)) (set_error listed r)))
     else
       (let (full, r1) = over_limit e r in
        if full then Some r1
        else
          (let mask = parv e ! parn r1; r2 = r1\<lparr>parn := parn r1 + 1\<rparr> in
           if IsServer (clients (wld r2) (client_p e)) \<and> CHR '' '' \<in> set mask then Some r2
           else do {
             (ok, mask', w) \<leftarrow>
               (if d = MODE_ADD then add_id (source_p e) (chptr e) mask t (wld r2)
                else (case del_id (chptr e) (Some mask) t (wld r2) of (ok, mask', w) \<Rightarrow> Some (ok, the mask', w)));
             let r3 = r2\<lparr>wld := w\<rparr>;
             if \<not> ok then Some r3
             else change c d cap (if used then ONLY_CHANOPS else ONLY_SERVERS) None (Arg_text mask') r3 })))"

definition chm_except :: handler where
  "chm_except e d c r =
    chm_id CHFL_EXCEPTION (use_except (cfg (wld r))) SM_ERR_RPL_E ''RPL_EXCEPTLIST'' ''RPL_ENDOFEXCEPTLIST'' CAP_EX e d c r"

definition chm_invex :: handler where
  "chm_invex e d c r =
    chm_id CHFL_INVEX (use_invex (cfg (wld r))) SM_ERR_RPL_I ''RPL_INVITELIST'' ''RPL_ENDOFINVITELIST'' CAP_IE e d c r"

subsection \<open>Modes of members\<close>

text \<open>What the five handlers share: the parameter names a client, who must be on the channel.\<close>

definition mode_target :: "env \<Rightarrow> run \<Rightarrow> (cid \<times> mid) option \<times> run" where
  "mode_target e r =
    (let opnick = parv e ! parn r;
         r1 = r\<lparr>parn := parn r + 1\<rparr>;
         (found, w) = find_chasing (client_p e) (source_p e) opnick (wld r1);
         r2 = r1\<lparr>wld := w\<rparr> in
     case found of
       None \<Rightarrow> (None, r2)
     | Some t \<Rightarrow>
         (if \<not> IsClient (clients w t) then (None, r2)
          else case find_channel_link t (chptr e) w of
                 Some m \<Rightarrow> (Some (t, m), r2)
               | None \<Rightarrow>
                   (None, set_error SM_ERR_NOTONCHANNEL
                      (if \<not> has (errors r2) SM_ERR_NOTONCHANNEL \<and> MyClient (src e r2)
                       then tell (To_one (source_p e) ''ERR_USERNOTINCHANNEL'' [opnick, chname e]) r2 else r2))))"

definition set_status :: "char \<Rightarrow> 32 word \<Rightarrow> bool \<Rightarrow> mode_dir \<Rightarrow> cid \<Rightarrow> mid \<Rightarrow> run \<Rightarrow> run option" where
  "set_status c flag undeop d t m r = do {
     let x = clients (wld r) t;
     r1 \<leftarrow> change c d 0 ALL_MEMBERS (Some (cl_id x)) (Arg_text (cl_name x)) r;
     Some (r1\<lparr>wld := upd_ms m (\<lambda>y. y\<lparr>ms_flags :=
       (if d = MODE_ADD then (if undeop then (ms_flags y OR flag) AND NOT CHFL_DEOPPED else ms_flags y OR flag)
        else ms_flags y AND NOT flag)\<rparr>) (wld r1)\<rparr>) }"

definition redundant :: "mode_dir \<Rightarrow> mid \<Rightarrow> 32 word \<Rightarrow> run \<Rightarrow> bool" where
  "redundant d m flag r \<longleftrightarrow>
    d = MODE_ADD \<and> has_member_flags (Some m) flag (wld r) \<or> d = MODE_DEL \<and> \<not> has_member_flags (Some m) flag (wld r)"

definition chm_owner :: handler where
  "chm_owner e d c r =
    (if alev e < CHACCESS_OWNER then Some (deny e ''ERR_CHANOWNPRIVNEEDED'' r)
     else if d = MODE_QUERY \<or> \<not> has_param e r then Some r
     else
       (case mode_target e r of
          (None, r1) \<Rightarrow> Some r1
        | (Some (t, m), r1) \<Rightarrow>
            (let (full, r2) = over_limit e r1 in
             if full \<or> redundant d m CHFL_OWNER r2 then Some r2
             else set_status CHR ''q'' CHFL_OWNER True d t m r2)))"

definition chm_protect :: handler where
  "chm_protect e d c r =
    (if alev e < CHACCESS_PROTECTED then Some (deny e ''ERR_CHANOWNPRIVNEEDED'' r)
     else if d = MODE_QUERY \<or> \<not> has_param e r then Some r
     else
       (case mode_target e r of
          (None, r1) \<Rightarrow> Some r1
        | (Some (t, m), r1) \<Rightarrow>
            (if alev e < CHACCESS_OWNER \<and> source_p e \<noteq> t
             then Some (complain SM_ERR_NOOPS (To_one (source_p e) ''ERR_CHANOWNPRIVNEEDED'' [chname e]) r1)
             else
               (let (full, r2) = over_limit e r1 in
                if full \<or> redundant d m CHFL_PROTECTED r2 then Some r2
                else set_status CHR ''a'' CHFL_PROTECTED True d t m r2))))"

text \<open>Whom op, half-op and voice may not be taken from, with what the source is told.\<close>

definition shielded :: "env \<Rightarrow> mode_dir \<Rightarrow> cid \<Rightarrow> mid \<Rightarrow> run \<Rightarrow> string option" where
  "shielded e d t m r =
    (let w = wld r; nick = cl_name (clients w t) in
     if d = MODE_DEL \<and> cl_services (clients w t) \<and> alev e < CHACCESS_REMOTE
     then Some (nick @ '' is a network service'')
     else if CHANAQ (cfg w) \<and> d = MODE_DEL \<and> has_member_flags (Some m) CHFL_OWNER w \<and> alev e < CHACCESS_OWNER \<and> source_p e \<noteq> t
     then Some (nick @ '' is a channel owner'')
     else if CHANAQ (cfg w) \<and> d = MODE_DEL \<and> has_member_flags (Some m) CHFL_PROTECTED w \<and> alev e < CHACCESS_OWNER \<and> source_p e \<noteq> t
     then Some (nick @ '' is a channel admin'')
     else None)"

definition status_mode :: "int \<Rightarrow> char \<Rightarrow> 32 word \<Rightarrow> bool \<Rightarrow> handler" where
  "status_mode need letter flag undeop e d c r =
    (if alev e < need then Some (deny e ''ERR_CHANOPRIVSNEEDED'' r)
     else if d = MODE_QUERY \<or> \<not> has_param e r then Some r
     else
       (case mode_target e r of
          (None, r1) \<Rightarrow> Some r1
        | (Some (t, m), r1) \<Rightarrow>
            (let (full, r2) = over_limit e r1 in
             if full \<or> redundant d m flag r2 then Some r2
             else case shielded e d t m r2 of
                    Some why \<Rightarrow> Some (complain SM_ERR_NOOPS (To_one (source_p e) ''ERR_CANNOTCHANGECHANMODE'' [[c], why]) r2)
                  | None \<Rightarrow> set_status letter flag undeop d t m r2)))"

definition chm_op :: handler where
  "chm_op = status_mode CHACCESS_CHANOP CHR ''o'' CHFL_CHANOP True"

definition chm_hop :: handler where
  "chm_hop e d c r =
    status_mode (if has (md_mode (ch_mode (chn e r))) MODE_PRIVATE then CHACCESS_CHANOP else CHACCESS_HALFOP)
      CHR ''h'' CHFL_HALFOP True e d c r"

definition chm_voice :: handler where
  "chm_voice = status_mode CHACCESS_HALFOP CHR ''v'' CHFL_VOICE False"


subsection \<open>Modes with a parameter\<close>

definition chm_limit :: handler where
  "chm_limit e d c r =
    (if alev e < CHACCESS_HALFOP then Some (deny e ''ERR_CHANOPRIVSNEEDED'' r)
     else if d = MODE_QUERY then Some r
     else if d = MODE_ADD \<and> has_param e r then
       (let lim = atoi (parv e ! parn r); r1 = r\<lparr>parn := parn r + 1\<rparr> in
        if lim \<le> 0 then Some r1
        else map_option (upd_mode e (\<lambda>m. m\<lparr>md_limit := word_of_int lim\<rparr>))
               (change c MODE_ADD 0 ALL_MEMBERS None (Arg_text (int_text lim)) (strike c r1)))
     else if d = MODE_DEL then
       (if md_limit (ch_mode (chn e r)) = 0 then Some r
        else change c MODE_DEL 0 ALL_MEMBERS None Arg_null (upd_mode e (\<lambda>m. m\<lparr>md_limit := 0\<rparr>) r))
     else Some r)"

text \<open>\<open>msgs:secs\<close>; the change shows the parameter as it was given.\<close>

definition chm_floodtime :: handler where
  "chm_floodtime e d c r =
    (if alev e < CHACCESS_HALFOP then Some (deny e ''ERR_CHANOPRIVSNEEDED'' r)
     else if d = MODE_QUERY then Some r
     else if d = MODE_ADD \<and> has_param e r then
       (let lstr = parv e ! parn r; r1 = r\<lparr>parn := parn r + 1\<rparr> in
        if CHR '':'' \<notin> set lstr then Some r1
        else
          (let xxi = atoi (until CHR '':'' lstr); xyi = atoi (after CHR '':'' lstr) in
           if 99 < xxi \<or> 99 < xyi \<or> xxi \<le> 1 \<or> xyi = 0 then Some r1
           else map_option (upd_mode e (\<lambda>m. m\<lparr>md_msgs := word_of_int xxi, md_per := word_of_int xyi\<rparr>))
                  (change c MODE_ADD 0 ALL_MEMBERS None (Arg_text lstr) (strike c r1))))
     else if d = MODE_DEL then
       (if md_msgs (ch_mode (chn e r)) = 0 then Some r
        else change c MODE_DEL 0 ALL_MEMBERS None Arg_null (upd_mode e (\<lambda>m. m\<lparr>md_msgs := 0, md_per := 0\<rparr>) r))
     else Some r)"

text \<open>The \<open>strtoken\<close> loop over a comma separated list.\<close>

function comma_tokens :: "string \<Rightarrow> string list" where
  "comma_tokens s =
    (let s1 = dropWhile (\<lambda>c. c = CHR '','') s in
     if s1 = [] then []
     else takeWhile (\<lambda>c. c \<noteq> CHR '','') s1 # comma_tokens (drop 1 (dropWhile (\<lambda>c. c \<noteq> CHR '','') s1)))"
  by pat_completeness auto
termination
proof (relation "measure length", simp, goal_cases)
  case (1 s s1)
  define x where "x = dropWhile (\<lambda>c. c \<noteq> CHR '','') s1"
  have "length x \<le> length s1" unfolding x_def by (rule length_dropWhile_le)
  moreover have "length s1 \<le> length s" unfolding 1(1) by (rule length_dropWhile_le)
  moreover have "0 < length s1" using 1(2) by simp
  ultimately have "length (drop 1 x) < length s" by (simp only: length_drop)
  then show ?case unfolding x_def by simp
qed

declare comma_tokens.simps [simp del]

text \<open>The forward is a buffer of 128 characters.\<close>

definition chm_forward :: handler where
  "chm_forward e d c r =
    (if alev e < CHACCESS_HALFOP then Some (deny e ''ERR_CHANOPRIVSNEEDED'' r)
     else if d = MODE_QUERY then Some r
     else if d = MODE_ADD \<and> has_param e r then
       (let p = parv e ! parn r;
            fwd = (if MyClient (src e r) then fix_forward p else fix_forward_old p);
            r1 = r\<lparr>parn := parn r + 1\<rparr> in
        if fwd = [] then Some r1
        else
          (case find (\<lambda>t. \<not> check_channel_name t (\<not> cl_oper (src e r)) (cfg (wld r))) (comma_tokens fwd) of
             Some bad \<Rightarrow> Some (tell (To_one (source_p e) ''ERR_BADCHANNAME'' [bad]) r1)
           | None \<Rightarrow>
               change c MODE_ADD 0 ALL_MEMBERS None Arg_forward
                 (strike c (upd_mode e (\<lambda>m. m\<lparr>md_forward := fit 128 fwd\<rparr>) r1))))
     else if d = MODE_DEL then
       (let r1 = (if has_param e r then r\<lparr>parn := parn r + 1\<rparr> else r) in
        if md_forward (ch_mode (chn e r1)) = [] then Some r1
        else change c MODE_DEL 0 ALL_MEMBERS None (Arg_text []) (upd_mode e (\<lambda>m. m\<lparr>md_forward := []\<rparr>) r1))
     else Some r)"

definition chm_key :: handler where
  "chm_key e d c r =
    (if alev e < CHACCESS_HALFOP then Some (deny e ''ERR_CHANOPRIVSNEEDED'' r)
     else if d = MODE_QUERY then Some r
     else if d = MODE_ADD \<and> has_param e r then
       (let p = parv e ! parn r;
            key = (if MyClient (src e r) then fix_key p else fix_key_old p);
            r1 = r\<lparr>parn := parn r + 1\<rparr> in
        if key = [] then Some r1
        else change c MODE_ADD 0 ALL_MEMBERS None Arg_key
               (strike c (upd_mode e (\<lambda>m. m\<lparr>md_key := fit KEYLEN key\<rparr>) r1)))
     else if d = MODE_DEL then
       (let r1 = (if has_param e r then r\<lparr>parn := parn r + 1\<rparr> else r) in
        if md_key (ch_mode (chn e r1)) = [] then Some r1
        else change c MODE_DEL 0 ALL_MEMBERS None (Arg_text ''*'') (upd_mode e (\<lambda>m. m\<lparr>md_key := []\<rparr>) r1))
     else Some r)"

subsection \<open>The table and the line\<close>

definition ModeTable :: "config \<Rightarrow> char \<Rightarrow> handler" where
  "ModeTable k c =
    (if c = CHR ''B'' then chm_simple MODE_BWSAVER
     else if c = CHR ''C'' then chm_simple MODE_STRIPCOLOR
     else if c = CHR ''E'' then chm_simple MODE_SSLONLY
     else if c = CHR ''F'' then chm_forward
     else if c = CHR ''I'' then chm_invex
     else if c = CHR ''M'' then chm_simple MODE_MODREG
     else if c = CHR ''N'' then chm_simple MODE_NONOTICES
     else if c = CHR ''O'' then chm_simple MODE_OPERONLY
     else if c = CHR ''R'' then chm_simple MODE_REGONLY
     else if c = CHR ''S'' then chm_simple MODE_NOSPAM
     else if c = CHR ''a'' then (if CHANAQ k then chm_protect else chm_nosuch)
     else if c = CHR ''b'' then chm_ban
     else if c = CHR ''c'' then chm_simple MODE_NOCTRL
     else if c = CHR ''d'' then chm_simple MODE_NOFLOOD
     else if c = CHR ''e'' then chm_except
     else if c = CHR ''f'' then chm_floodtime
     else if c = CHR ''h'' then (if HALFOPS k then chm_hop else chm_nosuch)
     else if c = CHR ''i'' then chm_simple MODE_INVITEONLY
     else if c = CHR ''k'' then chm_key
     else if c = CHR ''l'' then chm_limit
     else if c = CHR ''m'' then chm_simple MODE_MODERATED
     else if c = CHR ''n'' then chm_simple MODE_NOPRIVMSGS
     else if c = CHR ''o'' then chm_op
     else if c = CHR ''p'' then chm_simple MODE_PRIVATE
     else if c = CHR ''q'' then (if CHANAQ k then chm_owner else chm_nosuch)
     else if c = CHR ''r'' then chm_simple MODE_CHANREG
     else if c = CHR ''s'' then chm_simple MODE_SECRET
     else if c = CHR ''t'' then chm_simple MODE_TOPICLIMIT
     else if c = CHR ''v'' then chm_voice
     else chm_nosuch)"

definition get_channel_access :: "cid \<Rightarrow> mid option \<Rightarrow> world \<Rightarrow> int" where
  "get_channel_access s member w =
    (if \<not> MyClient (clients w s) then CHACCESS_REMOTE
     else if member = None then CHACCESS_NOTONCHAN
     else if CHANAQ (cfg w) \<and> has_member_flags member CHFL_OWNER w then CHACCESS_OWNER
     else if CHANAQ (cfg w) \<and> has_member_flags member CHFL_PROTECTED w then CHACCESS_PROTECTED
     else if has_member_flags member CHFL_CHANOP w then CHACCESS_CHANOP
     else if HALFOPS (cfg w) \<and> has_member_flags member CHFL_HALFOP w then CHACCESS_HALFOP
     else CHACCESS_PEON)"

text \<open>The loop over the letters.\<close>

fun mode_letters :: "env \<Rightarrow> mode_dir \<Rightarrow> string \<Rightarrow> run \<Rightarrow> run option" where
  "mode_letters e d [] r = Some r"
| "mode_letters e d (c # ml) r =
    (if c = CHR ''+'' then mode_letters e MODE_ADD ml r
     else if c = CHR ''-'' then mode_letters e MODE_DEL ml r
     else if c = CHR ''='' then mode_letters e MODE_QUERY ml r
     else do { r' \<leftarrow> ModeTable (cfg (wld r)) c e d c r; mode_letters e d ml r' })"

definition start_run :: "world \<Rightarrow> run" where
  "start_run w = \<lparr>wld = w, mode_changes = [], mode_limit = 0, simple_modes_mask = 0, errors = 0, parn = 1\<rparr>"

definition start_env :: "cid \<Rightarrow> cid \<Rightarrow> chid \<Rightarrow> mid option \<Rightarrow> string list \<Rightarrow> string \<Rightarrow> world \<Rightarrow> env" where
  "start_env c s ch member pv name w =
    \<lparr>client_p = c, source_p = s, chptr = ch, parv = pv, alev = get_channel_access s member w, chname = name\<rparr>"

subsection \<open>Telling the channel and the servers\<close>

record chcap =
  cc_count :: nat
  cap_yes :: "32 word"
  cap_no :: "32 word"

definition arg_of :: "env \<Rightarrow> world \<Rightarrow> mode_change \<Rightarrow> string option" where
  "arg_of e w m = (case mc_arg m of
     Arg_null \<Rightarrow> None
   | Arg_text s \<Rightarrow> Some s
   | Arg_key \<Rightarrow> Some (md_key (ch_mode (chans w (chptr e))))
   | Arg_forward \<Rightarrow> Some (md_forward (ch_mode (chans w (chptr e)))))"

text \<open>\<open>mbl\<close> and \<open>pbl\<close> are the lengths of the two buffers; \<open>mc\<close> counts parameters, \<open>nc\<close> letters.\<close>

record printer =
  modebuf :: string
  parabuf :: string
  pr_mc :: nat
  pr_nc :: nat
  pr_dir :: mode_dir
  pr_out :: "string list"

definition line_full :: "string option \<Rightarrow> printer \<Rightarrow> bool" where
  "line_full arg p \<longleftrightarrow>
    (let arglen = (case arg of None \<Rightarrow> 0 | Some s \<Rightarrow> length s) in
     pr_mc p = MAXMODEPARAMS \<or> IRCD_BUFSIZE < arglen + length (modebuf p) + length (parabuf p) + 2 \<or>
     MODEBUFLEN \<le> arglen + length (parabuf p) + BAN_FUDGE)"

text \<open>One letter and its parameter; \<open>None\<close> is a write beyond a buffer.\<close>

definition put_change :: "char \<Rightarrow> mode_dir \<Rightarrow> string option \<Rightarrow> printer \<Rightarrow> printer option" where
  "put_change c d arg p =
    (let mb = modebuf p @ (if pr_dir p \<noteq> d then (if d = MODE_ADD then ''+'' else ''-'') else []) @ [c];
         pb = (case arg of None \<Rightarrow> parabuf p | Some s \<Rightarrow> parabuf p @ s @ '' '') in
     if IRCD_BUFSIZE \<le> length mb \<or> MODEBUFLEN \<le> length pb then None
     else Some (p\<lparr>modebuf := mb, parabuf := pb, pr_dir := d, pr_nc := pr_nc p + 1,
            pr_mc := (if arg = None then pr_mc p else pr_mc p + 1)\<rparr>))"

definition flush_line :: "string \<Rightarrow> bool \<Rightarrow> printer \<Rightarrow> printer" where
  "flush_line header drop_minus p =
    (let mb = (if drop_minus \<and> modebuf p \<noteq> [] \<and> last (modebuf p) = CHR ''-'' then butlast (modebuf p) else modebuf p) in
     \<lparr>modebuf = header, parabuf = [], pr_mc = 0, pr_nc = 0, pr_dir = MODE_QUERY,
      pr_out = (if pr_nc p \<noteq> 0 then pr_out p @ [mb @ '' '' @ parabuf p] else pr_out p)\<rparr>)"

definition trim_line :: "printer \<Rightarrow> string list" where
  "trim_line p =
    (let pb = (if parabuf p \<noteq> [] \<and> last (parabuf p) = CHR '' '' then butlast (parabuf p) else parabuf p) in
     if pr_nc p \<noteq> 0 then pr_out p @ [modebuf p @ '' '' @ pb] else pr_out p)"

fun print_changes :: "string \<Rightarrow> bool \<Rightarrow> (char \<times> mode_dir \<times> string option) list \<Rightarrow> printer \<Rightarrow> printer option" where
  "print_changes header dm [] p = Some p"
| "print_changes header dm ((c, d, arg) # ms) p = do {
     let p1 = (if line_full arg p then flush_line header dm p else p);
     p2 \<leftarrow> put_change c d arg p1;
     print_changes header dm ms p2 }"

definition print_lines :: "string \<Rightarrow> string \<Rightarrow> bool \<Rightarrow> (char \<times> mode_dir \<times> string option) list \<Rightarrow> string list option" where
  "print_lines first header dm ms =
    (if IRCD_BUFSIZE \<le> length first \<or> IRCD_BUFSIZE \<le> length header then None
     else map_option trim_line (print_changes header dm ms
       \<lparr>modebuf = first, parabuf = [], pr_mc = 0, pr_nc = 0, pr_dir = MODE_QUERY, pr_out = []\<rparr>))"

definition server_header :: "bool \<Rightarrow> 32 word \<Rightarrow> client \<Rightarrow> channel \<Rightarrow> string" where
  "server_header first cap s ch =
    (if has cap CAP_TS6 \<and> cl_id s \<noteq> [] then
       (if first then '':'' @ cl_id s @ '' TMODE '' @ int_text (ch_channelts ch) @ '' '' @ ch_name ch @ '' ''
        else '':'' @ cl_id s @ '' MODE '' @ ch_name ch @ '' '')
     else '':'' @ cl_name s @ '' MODE '' @ ch_name ch @ '' '')"

definition server_arg :: "32 word \<Rightarrow> env \<Rightarrow> world \<Rightarrow> mode_change \<Rightarrow> string option" where
  "server_arg cap e w m =
    (case (if has cap CAP_TS6 then mc_id m else None) of
       None \<Rightarrow> arg_of e w m
     | Some i \<Rightarrow> (if i = [] then arg_of e w m else Some i))"

definition send_cap_mode_changes :: "env \<Rightarrow> mode_change list \<Rightarrow> 32 word \<Rightarrow> 32 word \<Rightarrow> world \<Rightarrow> world option" where
  "send_cap_mode_changes e ms cap nocap w =
    (let s = clients w (source_p e); ch = chans w (chptr e);
         shown = filter (\<lambda>m. mc_letter m \<noteq> NUL \<and> cap AND mc_caps m = mc_caps m \<and> nocap AND mc_nocaps m = mc_nocaps m) ms in
     map_option (\<lambda>ls. fold (\<lambda>l. send (To_servers (chptr e) cap nocap l)) ls w)
       (print_lines (server_header True cap s ch) (server_header False cap s ch) False
         (map (\<lambda>m. (mc_letter m, mc_dir m, server_arg cap e w m)) shown)))"

text \<open>
  \<open>hidden\<close> is \<^verbatim>\<open>IsHidden(source_p) || ConfigServerHide.hide_servers\<close>, looked at for the first line only.
\<close>

definition channel_header :: "bool \<Rightarrow> bool \<Rightarrow> env \<Rightarrow> world \<Rightarrow> string" where
  "channel_header first hidden e w =
    (let s = clients w (source_p e) in
     if IsServer s then
       '':'' @ (if \<not> first \<or> hidden then cl_name (clients w (me w)) else cl_name s) @ '' MODE '' @ chname e @ '' ''
     else '':'' @ nuh_text (cl_name s) (cl_username s) (cl_host s) @ '' MODE '' @ chname e @ '' '')"

definition send_mode_changes :: "bool \<Rightarrow> chcap list \<Rightarrow> env \<Rightarrow> mode_change list \<Rightarrow> world \<Rightarrow> world option" where
  "send_mode_changes hidden combos e ms w =
    (if ms = [] then Some w
     else do {
       let shown = filter (\<lambda>m. mc_letter m \<noteq> NUL \<and> mc_mems m \<noteq> NON_CHANOPS \<and> mc_mems m \<noteq> ONLY_SERVERS) ms;
       ls \<leftarrow> print_lines (channel_header True hidden e w) (channel_header False hidden e w) True
               (map (\<lambda>m. (mc_letter m, mc_dir m, arg_of e w m)) shown);
       let w1 = fold (\<lambda>l. send (To_channel 0 (chptr e) l)) ls w;
       fold (\<lambda>k ow. do { v \<leftarrow> ow; if cc_count k \<noteq> 0 then send_cap_mode_changes e ms (cap_yes k) (cap_no k) v else Some v })
         combos (Some w1) })"

definition set_channel_mode ::
  "bool \<Rightarrow> chcap list \<Rightarrow> cid \<Rightarrow> cid \<Rightarrow> chid \<Rightarrow> mid option \<Rightarrow> string list \<Rightarrow> string \<Rightarrow> world \<Rightarrow> world option" where
  "set_channel_mode hidden combos c s ch member pv name w =
    (let e = start_env c s ch member pv name w in
     do { r \<leftarrow> mode_letters e MODE_ADD (pv ! 0) (start_run w);
          send_mode_changes hidden combos e (mode_changes r) (wld r) })"

subsection \<open>Combinations of server capabilities\<close>

definition channel_capabs :: "32 word list" where
  "channel_capabs = [CAP_EX, CAP_IE, CAP_TS6]"

definition combo :: "nat \<Rightarrow> chcap" where
  "combo m = \<lparr>cc_count = 0,
     cap_yes = fold (\<lambda>i y. if bit m i then y OR channel_capabs ! i else y) [0..<3] 0,
     cap_no = fold (\<lambda>i n. if bit m i then n else n OR channel_capabs ! i) [0..<3] 0\<rparr>"

definition init_chcap_usage_counts :: "chcap list" where
  "init_chcap_usage_counts = map combo [0..<8]"

definition caps_fit :: "32 word \<Rightarrow> chcap \<Rightarrow> bool" where
  "caps_fit caps k \<longleftrightarrow> caps AND cap_yes k = cap_yes k \<and> caps AND cap_no k = 0"

text \<open>\<open>None\<close> is the failed assertion.\<close>

fun bump_combo :: "32 word \<Rightarrow> (nat \<Rightarrow> nat option) \<Rightarrow> chcap list \<Rightarrow> chcap list option" where
  "bump_combo caps f [] = None"
| "bump_combo caps f (k # ks) =
    (if caps_fit caps k then map_option (\<lambda>n. k\<lparr>cc_count := n\<rparr> # ks) (f (cc_count k))
     else map_option (\<lambda>ks'. k # ks') (bump_combo caps f ks))"

definition set_chcap_usage_counts :: "32 word \<Rightarrow> chcap list \<Rightarrow> chcap list option" where
  "set_chcap_usage_counts caps ks = bump_combo caps (\<lambda>n. Some (n + 1)) ks"

definition unset_chcap_usage_counts :: "32 word \<Rightarrow> chcap list \<Rightarrow> chcap list option" where
  "unset_chcap_usage_counts caps ks = bump_combo caps (\<lambda>n. if n = 0 then None else Some (n - 1)) ks"

subsection \<open>Showing the modes of a channel\<close>

definition mode_flags :: "(32 word \<times> char) list" where
  "mode_flags =
    [(MODE_BWSAVER, CHR ''B''), (MODE_STRIPCOLOR, CHR ''C''), (MODE_MODREG, CHR ''M''), (MODE_NONOTICES, CHR ''N''),
     (MODE_OPERONLY, CHR ''O''), (MODE_REGONLY, CHR ''R''), (MODE_NOSPAM, CHR ''S''), (MODE_NOCTRL, CHR ''c''),
     (MODE_INVITEONLY, CHR ''i''), (MODE_MODERATED, CHR ''m''), (MODE_NOPRIVMSGS, CHR ''n''), (MODE_PRIVATE, CHR ''p''),
     (MODE_CHANREG, CHR ''r''), (MODE_SECRET, CHR ''s''), (MODE_TOPICLIMIT, CHR ''t''), (MODE_NOFLOOD, CHR ''d'')]"

text \<open>
  \<open>pre\<close> is what lies before \<open>pbuf\<close>, which moves only past the limit; \<open>at\<close> is the text that starts at
  \<open>pbuf\<close>, which each of the later parameters overwrites.
\<close>

definition channel_modes :: "chid \<Rightarrow> cid \<Rightarrow> world \<Rightarrow> string \<times> string" where
  "channel_modes ch c w =
    (let m = ch_mode (chans w ch);
         sees = (find_channel_link c ch w \<noteq> None \<or> IsServer (clients w c) \<or> cl_services (clients w c));
         pre = (if md_limit m \<noteq> 0 \<and> sees then int_text (sint (md_limit m)) @ '' '' else []);
         at1 = (if md_forward m \<noteq> [] \<and> sees then md_forward m @ '' '' else []);
         at2 = (if md_key m \<noteq> [] \<and> (at1 \<noteq> [] \<or> sees) then md_key m @ '' '' else at1);
         at3 = (if md_msgs m \<noteq> 0 \<and> md_per m \<noteq> 0 \<and> sees
                then int_text (sint (md_msgs m)) @ '':'' @ int_text (sint (md_per m)) @ '' '' else at2) in
     (''+'' @ map snd (filter (\<lambda>(f, l). has (md_mode m) f) mode_flags) @
        (if md_limit m \<noteq> 0 then ''l'' else []) @ (if md_forward m \<noteq> [] then ''F'' else []) @
        (if md_key m \<noteq> [] then ''k'' else []) @ (if md_msgs m \<noteq> 0 \<and> md_per m \<noteq> 0 then ''f'' else []),
      pre @ at3))"


section \<open>What a MODE line may do\<close>

subsection \<open>Frames of the small steps\<close>

named_theorems run_frame \<open>what the small steps of a run leave alone\<close>

lemma tell_frame [run_frame, simp]:
  "chans (wld (tell v r)) = chans (wld r)" "mships (wld (tell v r)) = mships (wld r)"
  "clients (wld (tell v r)) = clients (wld r)" "cfg (wld (tell v r)) = cfg (wld r)"
  "mode_changes (tell v r) = mode_changes r" "parn (tell v r) = parn r" "mode_limit (tell v r) = mode_limit r"
  "errors (tell v r) = errors r" "simple_modes_mask (tell v r) = simple_modes_mask r"
  by (simp_all add: tell_def)

lemma set_error_frame [run_frame, simp]:
  "wld (set_error f r) = wld r" "mode_changes (set_error f r) = mode_changes r" "parn (set_error f r) = parn r"
  "mode_limit (set_error f r) = mode_limit r" "simple_modes_mask (set_error f r) = simple_modes_mask r"
  by (simp_all add: set_error_def)

lemma complain_frame [run_frame, simp]:
  "chans (wld (complain f v r)) = chans (wld r)" "mships (wld (complain f v r)) = mships (wld r)"
  "clients (wld (complain f v r)) = clients (wld r)" "cfg (wld (complain f v r)) = cfg (wld r)"
  "mode_changes (complain f v r) = mode_changes r" "parn (complain f v r) = parn r" "mode_limit (complain f v r) = mode_limit r"
  by (simp_all add: complain_def)

lemma deny_frame [run_frame, simp]:
  "chans (wld (deny e n r)) = chans (wld r)" "mships (wld (deny e n r)) = mships (wld r)"
  "clients (wld (deny e n r)) = clients (wld r)" "cfg (wld (deny e n r)) = cfg (wld r)"
  "mode_changes (deny e n r) = mode_changes r" "parn (deny e n r) = parn r" "mode_limit (deny e n r) = mode_limit r"
  by (simp_all add: deny_def)

lemma strike_frame [run_frame, simp]:
  "wld (strike c r) = wld r" "length (mode_changes (strike c r)) = length (mode_changes r)" "parn (strike c r) = parn r"
  "mode_limit (strike c r) = mode_limit r"
  by (simp_all add: strike_def)

lemma upd_mode_frame [run_frame, simp]:
  "mships (wld (upd_mode e f r)) = mships (wld r)" "clients (wld (upd_mode e f r)) = clients (wld r)"
  "cfg (wld (upd_mode e f r)) = cfg (wld r)" "mode_changes (upd_mode e f r) = mode_changes r" "parn (upd_mode e f r) = parn r"
  "mode_limit (upd_mode e f r) = mode_limit r"
  "chans (wld (upd_mode e f r)) ch = (if ch = chptr e then (chans (wld r) ch)\<lparr>ch_mode := f (ch_mode (chans (wld r) ch))\<rparr>
     else chans (wld r) ch)"
  by (simp_all add: upd_mode_def)

lemma fold_tell_frame [run_frame, simp]:
  "chans (wld (fold (\<lambda>b. tell (f b)) bs r)) = chans (wld r)" "mships (wld (fold (\<lambda>b. tell (f b)) bs r)) = mships (wld r)"
  "clients (wld (fold (\<lambda>b. tell (f b)) bs r)) = clients (wld r)" "cfg (wld (fold (\<lambda>b. tell (f b)) bs r)) = cfg (wld r)"
  "mode_changes (fold (\<lambda>b. tell (f b)) bs r) = mode_changes r" "parn (fold (\<lambda>b. tell (f b)) bs r) = parn r"
  "mode_limit (fold (\<lambda>b. tell (f b)) bs r) = mode_limit r"
  by (induction bs arbitrary: r) auto

lemma show_list_frame [run_frame, simp]:
  "chans (wld (show_list e a b bs r)) = chans (wld r)" "mships (wld (show_list e a b bs r)) = mships (wld r)"
  "clients (wld (show_list e a b bs r)) = clients (wld r)" "cfg (wld (show_list e a b bs r)) = cfg (wld r)"
  "mode_changes (show_list e a b bs r) = mode_changes r" "parn (show_list e a b bs r) = parn r"
  "mode_limit (show_list e a b bs r) = mode_limit r"
  by (simp_all add: show_list_def)

lemma over_limit_frame:
  assumes "over_limit e r = (full, r')"
  shows "wld r' = wld r" "mode_changes r' = mode_changes r" "parn r' = parn r" "mode_limit r \<le> mode_limit r'"
    "MyClient (src e r) \<Longrightarrow> mode_limit r' = mode_limit r + 1" "MyClient (src e r) \<Longrightarrow> full = (MAXMODEPARAMS \<le> mode_limit r)"
    "errors r' = errors r" "simple_modes_mask r' = simple_modes_mask r"
  using assms by (auto simp: over_limit_def split: if_splits)

lemma change_frame:
  assumes "change c d caps mems i arg r = Some r'"
  shows "wld r' = wld r" "length (mode_changes r') = Suc (length (mode_changes r))" "parn r' = parn r"
    "length (mode_changes r) < IRCD_BUFSIZE" "mode_limit r' = mode_limit r"
    "mode_changes r' = mode_changes r @ [\<lparr>mc_letter = c, mc_arg = arg, mc_id = i, mc_dir = d, mc_caps = caps, mc_nocaps = 0, mc_mems = mems\<rparr>]"
  using assms by (auto simp: change_def split: if_splits)

lemma find_chasing_frame:
  assumes "find_chasing c s u w = (t, w')"
  shows "chans w' = chans w" "mships w' = mships w" "clients w' = clients w" "cfg w' = cfg w"
  using assms by (auto simp: find_chasing_def split: option.splits if_splits)

lemma mode_target_frame:
  assumes "mode_target e r = (t, r')"
  shows "chans (wld r') = chans (wld r)" "mships (wld r') = mships (wld r)" "clients (wld r') = clients (wld r)"
    "cfg (wld r') = cfg (wld r)" "mode_changes r' = mode_changes r" "parn r' = Suc (parn r)" "mode_limit r' = mode_limit r"
proof -
  obtain f w where fw: "find_chasing (client_p e) (source_p e) (parv e ! parn r) (wld r) = (f, w)"
    by (cases "find_chasing (client_p e) (source_p e) (parv e ! parn r) (wld r)")
  note F = find_chasing_frame [OF fw]
  show "chans (wld r') = chans (wld r)" "mships (wld r') = mships (wld r)" "clients (wld r') = clients (wld r)"
    "cfg (wld r') = cfg (wld r)" "mode_changes r' = mode_changes r" "parn r' = Suc (parn r)" "mode_limit r' = mode_limit r"
    using assms unfolding mode_target_def Let_def
    by (auto simp: fw F split: option.splits if_splits)
qed

lemma mode_target_found:
  assumes "mode_target e r = (Some (t, m), r')"
  shows "IsClient (clients (wld r) t)" "find_channel_link t (chptr e) (wld r') = Some m"
proof -
  obtain f w where fw: "find_chasing (client_p e) (source_p e) (parv e ! parn r) (wld r) = (f, w)"
    by (cases "find_chasing (client_p e) (source_p e) (parv e ! parn r) (wld r)")
  note F = find_chasing_frame [OF fw]
  show "IsClient (clients (wld r) t)" "find_channel_link t (chptr e) (wld r') = Some m"
    using assms unfolding mode_target_def Let_def
    by (auto simp: fw F split: option.splits if_splits)
qed

lemmas link_frame = over_limit_frame change_frame mode_target_frame

text \<open>A fact of every handler is a fact of every entry of the table.\<close>

lemma ModeTable_all:
  assumes "P chm_nosuch" "\<And>m. P (chm_simple m)" "P chm_ban" "P chm_except" "P chm_invex"
    "CHANAQ k \<Longrightarrow> P chm_owner" "CHANAQ k \<Longrightarrow> P chm_protect" "P chm_op" "HALFOPS k \<Longrightarrow> P chm_hop" "P chm_voice"
    "P chm_limit" "P chm_floodtime" "P chm_forward" "P chm_key"
  shows "P (ModeTable k c)"
  unfolding ModeTable_def by (simp add: assms)

text \<open>An invariant of the handlers is an invariant of the line.\<close>

lemma mode_letters_inv:
  assumes "\<And>c d r r'. I r \<Longrightarrow> ModeTable (cfg (wld r)) c e d c r = Some r' \<Longrightarrow> I r'"
    "mode_letters e d ml r = Some r'" "I r"
  shows "I r'"
  using assms(2,3)
proof (induction ml arbitrary: d r)
  case (Cons c ml)
  show ?case
  proof (cases "c \<in> {CHR ''+'', CHR ''-'', CHR ''=''}")
    case True with Cons show ?thesis by auto
  next
    case False
    then obtain r1 where r1: "ModeTable (cfg (wld r)) c e d c r = Some r1" "mode_letters e d ml r1 = Some r'"
      using Cons.prems(1) by (auto split: bind_splits)
    show ?thesis by (rule Cons.IH [OF r1(2) assms(1) [OF Cons.prems(2) r1(1)]])
  qed
qed simp

text \<open>Without half-op access no handler does more than answer.\<close>

definition idle :: "run \<Rightarrow> run \<Rightarrow> bool" where
  "idle r r' \<longleftrightarrow> chans (wld r') = chans (wld r) \<and> mships (wld r') = mships (wld r) \<and>
     clients (wld r') = clients (wld r) \<and> cfg (wld r') = cfg (wld r) \<and> mode_changes r' = mode_changes r"

lemma status_mode_idle: "alev e < need \<Longrightarrow> \<exists>r'. status_mode need l f u e d c r = Some r' \<and> idle r r'"
  by (simp add: status_mode_def idle_def)

lemma chm_id_idle: "alev e < CHACCESS_HALFOP \<Longrightarrow> \<exists>r'. chm_id t used lst en fi cap e d c r = Some r' \<and> idle r r'"
  by (simp add: chm_id_def idle_def)

lemma ModeTable_idle:
  assumes "alev e < CHACCESS_HALFOP"
  shows "\<exists>r'. ModeTable k x e d c r = Some r' \<and> idle r r'"
proof (rule ModeTable_all [where P = "\<lambda>h. \<exists>r'. h e d c r = Some r' \<and> idle r r'"])
  show "\<exists>r'. chm_op e d c r = Some r' \<and> idle r r'" "\<exists>r'. chm_hop e d c r = Some r' \<and> idle r r'"
    "\<exists>r'. chm_voice e d c r = Some r' \<and> idle r r'"
    unfolding chm_op_def chm_hop_def chm_voice_def using assms by (auto intro!: status_mode_idle)
  show "\<exists>r'. chm_except e d c r = Some r' \<and> idle r r'" "\<exists>r'. chm_invex e d c r = Some r' \<and> idle r r'"
    unfolding chm_except_def chm_invex_def using assms by (auto intro!: chm_id_idle)
qed (use assms in \<open>simp_all add: chm_nosuch_def chm_simple_def chm_ban_def chm_owner_def chm_protect_def chm_limit_def
    chm_floodtime_def chm_forward_def chm_key_def idle_def\<close>)

lemma mode_letters_idle:
  assumes "alev e < CHACCESS_HALFOP"
  shows "\<exists>r'. mode_letters e d ml r = Some r' \<and> idle r r'"
proof (induction ml arbitrary: d r)
  case Nil show ?case by (simp add: idle_def)
next
  case (Cons c ml)
  obtain r1 where r1: "ModeTable (cfg (wld r)) c e d c r = Some r1" "idle r r1"
    using ModeTable_idle [OF assms] by blast
  obtain r2 where "mode_letters e d ml r1 = Some r2" "idle r1 r2" using Cons [of d r1] by blast
  moreover from this r1(2) have "idle r r2" by (simp add: idle_def)
  ultimately show ?case using r1(1) Cons by auto
qed

lemma has_mono:
  assumes "f AND g = f" "has x f"
  shows "has x g"
proof (rule ccontr)
  assume "\<not> has x g"
  then have "x AND g = 0" by (simp add: has_def)
  moreover have "x AND f = (x AND g) AND f" using assms(1) by (metis and.assoc and.commute)
  ultimately show False using assms(2) by (simp add: has_def)
qed

text \<open>
  C28: A local client that is not on the channel, or is on it without any status, changes nothing with a MODE
  line, whatever letters and parameters it holds: the line is processed to its end, and all that
  happens is that answers are sent.
\<close>

theorem peon_changes_nothing:
  assumes "MyClient (clients w s)" "member = None \<or> \<not> has_member_flags member (CHFL_OWNER OR CHFL_PROTECTED OR CHFL_CHANOP OR CHFL_HALFOP) w"
  shows "\<exists>w'. set_channel_mode hidden combos c s ch member pv name w = Some w' \<and>
    chans w' = chans w \<and> mships w' = mships w \<and> clients w' = clients w"
proof -
  let ?e = "start_env c s ch member pv name w"
  have "\<not> has_member_flags member f w" if "f \<in> {CHFL_OWNER, CHFL_PROTECTED, CHFL_CHANOP, CHFL_HALFOP}" for f
  proof -
    have "has x (CHFL_OWNER OR CHFL_PROTECTED OR CHFL_CHANOP OR CHFL_HALFOP)" if "has x f" for x
      using \<open>f \<in> _\<close> by (intro has_mono [OF _ that]) auto
    then show ?thesis using assms(2) by (auto simp: has_member_flags_def split: option.splits)
  qed
  then have "alev ?e < CHACCESS_HALFOP"
    using assms(1) by (simp add: start_env_def get_channel_access_def)
  from mode_letters_idle [OF this] obtain r where
      r: "mode_letters ?e MODE_ADD (pv ! 0) (start_run w) = Some r" "idle (start_run w) r" by blast
  then show ?thesis
    by (simp add: set_channel_mode_def idle_def start_run_def send_mode_changes_def Let_def)
qed

theorem peon_changes_nothing_witness:
  "\<exists>w'. set_channel_mode False [] 1 1 1 None [''+o-b+k'', ''alice'', ''*!*@*'', ''key''] ''#isabelle'' a_world = Some w' \<and>
     chans w' = chans a_world"
  using peon_changes_nothing [of a_world 1 None False "[]" 1 1 "[''+o-b+k'', ''alice'', ''*!*@*'', ''key'']" "''#isabelle''"]
  by auto

end
