(* ===== verification/Mode_Line.thy ===== *)
theory Mode_Line
  imports Channel_Mode
begin

section \<open>What a MODE line keeps\<close>

text \<open>
  Every handler of a mode letter keeps the memberships and the shape of the lists, uses at most one parameter
  and notes at most one change; from this follow the properties of \<open>set_channel_mode\<close> as a whole.
\<close>

subsection \<open>What every handler keeps\<close>

definition ms_ends :: "membership \<Rightarrow> chid \<times> cid" where
  "ms_ends x = (ms_chptr x, ms_client x)"

text \<open>A MODE line neither adds nor moves memberships.\<close>

definition same_links :: "world \<Rightarrow> world \<Rightarrow> bool" where
  "same_links w w' \<longleftrightarrow> clients w' = clients w \<and> cfg w' = cfg w \<and>
     (\<forall>ch. ch_members (chans w' ch) = ch_members (chans w ch)) \<and>
     (\<forall>m. map_option ms_ends (mships w' m) = map_option ms_ends (mships w m))"

lemma same_links_refl [simp]: "same_links w w"
  by (simp add: same_links_def)

lemma same_links_trans: "same_links a b \<Longrightarrow> same_links b c \<Longrightarrow> same_links a c"
  by (simp add: same_links_def)

lemma ends_iff: "map_option ms_ends a = map_option ms_ends b \<Longrightarrow>
    (\<exists>x. a = Some x \<and> Q (ms_chptr x) (ms_client x)) \<longleftrightarrow> (\<exists>x. b = Some x \<and> Q (ms_chptr x) (ms_client x))"
  by (cases a; cases b) (auto simp: ms_ends_def)

lemma links_ok_same:
  assumes "same_links w w'" "links_ok w"
  shows "links_ok w'"
proof (rule links_okI)
  have s: "map_option ms_ends (mships w' m) = map_option ms_ends (mships w m)" for m
    using assms(1) by (simp add: same_links_def)
  note L = links_okD [OF assms(2)]
  show "distinct (ch_members (chans w' ch))" "distinct (cl_channel (clients w' c))" for ch c
    using assms(1) L(1,2) by (simp_all add: same_links_def)
  show "m \<in> set (ch_members (chans w' ch)) \<longleftrightarrow> (\<exists>x. mships w' m = Some x \<and> ms_chptr x = ch)" for ch m
    using assms(1) L(3) ends_iff [OF s, of m "\<lambda>a b. a = ch"] by (simp add: same_links_def)
  show "m \<in> set (cl_channel (clients w' c)) \<longleftrightarrow> (\<exists>x. mships w' m = Some x \<and> ms_client x = c)" for c m
    using assms(1) L(4) ends_iff [OF s, of m "\<lambda>a b. b = c"] by (simp add: same_links_def)
  fix m m' x x'
  assume a: "mships w' m = Some x" "mships w' m' = Some x'" "ms_chptr x = ms_chptr x'" "ms_client x = ms_client x'"
  have "map_option ms_ends (mships w m) = Some (ms_ends x)" "map_option ms_ends (mships w m') = Some (ms_ends x')"
    using s [of m] s [of m'] a(1,2) by simp_all
  then obtain y y' where "mships w m = Some y" "ms_ends y = ms_ends x" "mships w m' = Some y'" "ms_ends y' = ms_ends x'"
    by auto
  with a(3,4) show "m = m'" using L(5) [of m y m' y'] by (simp add: ms_ends_def)
qed

lemma same_links_send [simp]: "same_links w (send v w)"
  by (simp add: same_links_def)

lemma same_links_upd_ms:
  "(\<And>x. ms_ends (f x) = ms_ends x) \<Longrightarrow> same_links w (upd_ms m f w)"
  by (auto simp: same_links_def option.map_comp comp_def)

lemma same_links_fold:
  "(\<And>m x. ms_ends (f x) = ms_ends x) \<Longrightarrow> same_links w (fold (\<lambda>m. upd_ms m f) ms w)"
proof (induction ms arbitrary: w)
  case (Cons m ms)
  show ?case using same_links_trans [OF same_links_upd_ms Cons.IH] Cons.prems by simp
qed simp

lemma same_links_clear: "same_links w (clear_ban_cache ch w)"
  unfolding clear_ban_cache_def by (rule same_links_fold) (simp add: ms_ends_def forget_ban_def)

lemma same_links_upd_chan:
  "(\<And>x. ch_members (f x) = ch_members x) \<Longrightarrow> same_links w (upd_chan ch f w)"
  by (simp add: same_links_def)

lemma ch_members_upd_id_list [simp]: "ch_members (upd_id_list t f x) = ch_members x"
  by (cases t) (simp_all add: upd_id_list_def)

lemma same_links_cache: "same_links w (if b then w else clear_ban_cache ch w)"
  by (simp add: same_links_clear)

lemma same_links_cache_upd:
  "same_links w (upd_chan ch (upd_id_list t f) (if b then w else clear_ban_cache ch w))"
  by (rule same_links_trans [OF same_links_cache same_links_upd_chan]) simp

lemma same_links_add_id:
  assumes "add_id c ch s t w = Some (ok, s', w')"
  shows "same_links w w'"
  by (rule add_id_cases [OF assms]) (simp_all only: same_links_send same_links_cache same_links_cache_upd)

lemma del_id_world:
  assumes "del_id ch s t w = (ok, s', w')"
  shows "w' = w \<or> w' = (if t = CHFL_INVEX then w else clear_ban_cache ch w) \<or>
    (\<exists>f. w' = upd_chan ch (upd_id_list t f) (if t = CHFL_INVEX then w else clear_ban_cache ch w))"
  using assms unfolding del_id_def Let_def by (simp split: option.splits prod.splits if_splits; blast)

lemma same_links_del_id: "del_id ch s t w = (ok, s', w') \<Longrightarrow> same_links w w'"
  using del_id_world [of ch s t w ok s' w'] same_links_cache_upd same_links_cache by (metis same_links_refl)

text \<open>The statuses of a member, and when they are all still there.\<close>

definition statuses :: "32 word set" where
  "statuses = {CHFL_OWNER, CHFL_PROTECTED, CHFL_CHANOP, CHFL_HALFOP, CHFL_VOICE}"

definition keeps_status :: "mid \<Rightarrow> membership \<Rightarrow> world \<Rightarrow> bool" where
  "keeps_status m x w \<longleftrightarrow> (\<exists>y. mships w m = Some y \<and> ms_ends y = ms_ends x \<and>
     (\<forall>f\<in>statuses. has (ms_flags x) f \<longrightarrow> has (ms_flags y) f))"

lemma has_clear:
  assumes "f AND g = 0"
  shows "has (x AND NOT g) f = has x f"
proof -
  have nb: "\<not> (bit f n \<and> bit g n)" for n
    using arg_cong [OF assms, of "\<lambda>x. bit x n"] by (simp add: bit_and_iff)
  have "NOT g AND f = f" by (rule bit_word_eqI) (use nb in \<open>auto simp: bit_and_iff bit_not_iff\<close>)
  then show ?thesis by (simp add: has_def and.assoc)
qed

lemma status_not_ban: "f \<in> statuses \<Longrightarrow> has (x AND NOT (CHFL_BAN_SILENCED OR CHFL_BAN_CHECKED)) f = has x f"
  unfolding statuses_def by (rule has_clear) auto

lemma status_not_deop: "f \<in> statuses \<Longrightarrow> has (x AND NOT CHFL_DEOPPED) f = has x f"
  unfolding statuses_def by (rule has_clear) auto

lemma keeps_status_send [simp]: "keeps_status m x (send v w) = keeps_status m x w"
  by (simp add: keeps_status_def)

lemma keeps_status_upd_chan [simp]: "keeps_status m x (upd_chan ch f w) = keeps_status m x w"
  by (simp add: keeps_status_def)

lemma keeps_status_upd_ms:
  assumes "keeps_status m x w"
    "\<And>y. i = m \<Longrightarrow> mships w m = Some y \<Longrightarrow> ms_ends (f y) = ms_ends y \<and> (\<forall>g\<in>statuses. has (ms_flags y) g \<longrightarrow> has (ms_flags (f y)) g)"
  shows "keeps_status m x (upd_ms i f w)"
  using assms by (cases "i = m") (auto simp: keeps_status_def)

lemma keeps_status_clear: "keeps_status m x w \<Longrightarrow> keeps_status m x (clear_ban_cache ch w)"
proof -
  have "keeps_status m x (fold (\<lambda>m. upd_ms m f) ms w)"
    if "keeps_status m x w" "\<And>y. ms_ends (f y) = ms_ends y \<and> (\<forall>g\<in>statuses. has (ms_flags y) g \<longrightarrow> has (ms_flags (f y)) g)"
    for f ms w
    using that by (induction ms arbitrary: w) (auto intro!: keeps_status_upd_ms)
  then show "keeps_status m x w \<Longrightarrow> keeps_status m x (clear_ban_cache ch w)"
    unfolding clear_ban_cache_def by (simp add: ms_ends_def forget_ban_def status_not_ban [simplified])
qed

lemma keeps_status_cache: "keeps_status m x w \<Longrightarrow> keeps_status m x (if b then w else clear_ban_cache ch w)"
  by (simp add: keeps_status_clear)

lemma keeps_status_add_id:
  assumes "add_id c ch s t w = Some (ok, s', w')" "keeps_status m x w"
  shows "keeps_status m x w'"
  by (rule add_id_cases [OF assms(1)]) (simp_all only: keeps_status_send keeps_status_upd_chan keeps_status_cache assms(2))

lemma keeps_status_del_id: "del_id ch s t w = (ok, s', w') \<Longrightarrow> keeps_status m x w \<Longrightarrow> keeps_status m x w'"
  using del_id_world [of ch s t w ok s' w'] keeps_status_cache by (metis keeps_status_upd_chan)


subsection \<open>One handler at a time\<close>

text \<open>
  \<open>calm\<close>: memberships and channels as they were, at most one more parameter used and one more change noted.
\<close>

definition wsame :: "world \<Rightarrow> world \<Rightarrow> bool" where
  "wsame w w' \<longleftrightarrow> chans w' = chans w \<and> mships w' = mships w \<and> clients w' = clients w \<and> cfg w' = cfg w"

definition progress :: "env \<Rightarrow> run \<Rightarrow> run \<Rightarrow> bool" where
  "progress e r r' \<longleftrightarrow> parn r \<le> parn r' \<and> parn r' \<le> max (parn r) (length (parv e)) \<and>
     length (mode_changes r) \<le> length (mode_changes r') \<and> length (mode_changes r') \<le> Suc (length (mode_changes r))"

lemma wsame_refl [simp]: "wsame w w" by (simp add: wsame_def)

lemma wsame_trans: "wsame a b \<Longrightarrow> wsame b c \<Longrightarrow> wsame a c" by (simp add: wsame_def)

definition stay :: "env \<Rightarrow> run \<Rightarrow> run \<Rightarrow> bool" where
  "stay e r r' \<longleftrightarrow> wsame (wld r) (wld r') \<and> progress e r r' \<and> length (mode_changes r') = length (mode_changes r)"

lemma wsame_links: "wsame w w' \<Longrightarrow> same_links w w'" by (simp add: wsame_def same_links_def)

lemma wsame_keeps: "wsame w w' \<Longrightarrow> keeps_status m x w' = keeps_status m x w" by (simp add: wsame_def keeps_status_def)

lemma wsame_steps [simp]:
  "wsame (wld r) (wld (tell v r))" "wsame (wld r) (wld (complain f v r))" "wsame (wld r) (wld (deny e n r))"
  "wsame (wld r) (wld (show_list e a b bs r))"
  by (simp_all add: wsame_def)

lemma stay_steps [simp]:
  "stay e r r" "stay e r (tell v r)" "stay e r (complain f v r)" "stay e r (deny e' n r)" "stay e r (show_list e' a b bs r)"
  "stay e r (set_error f r)"
  by (simp_all add: stay_def progress_def)

lemma stay_then:
  "stay e r r1 \<Longrightarrow> stay e r (complain f v r1)" "stay e r r1 \<Longrightarrow> stay e r (tell v r1)"
  by (auto simp: stay_def progress_def intro: wsame_trans)

text \<open>The flags of a membership that the ban cache reads, and what a member mode does to a membership.\<close>

definition cache_flags :: "membership \<Rightarrow> bool \<times> bool" where
  "cache_flags x = (has (ms_flags x) CHFL_BAN_CHECKED, has (ms_flags x) CHFL_BAN_SILENCED)"

definition status_change :: "32 word \<Rightarrow> mode_dir \<Rightarrow> (membership \<Rightarrow> membership) \<Rightarrow> bool" where
  "status_change flag d f \<longleftrightarrow> (\<forall>x. ms_ends (f x) = ms_ends x) \<and>
      (\<forall>x g. g \<in> statuses \<longrightarrow> has (ms_flags x) g \<longrightarrow> d = MODE_ADD \<or> flag AND g = 0 \<longrightarrow> has (ms_flags (f x)) g) \<and>
      (flag \<in> statuses \<longrightarrow> (\<forall>x. cache_flags (f x) = cache_flags x))"

lemma set_status_frame:
  assumes "set_status c flag u d t m r = Some r'"
  shows "\<exists>f. wld r' = upd_ms m f (wld r) \<and> status_change flag d f"
    "parn r' = parn r" "length (mode_changes r') = Suc (length (mode_changes r))"
proof -
  obtain r1 where r1: "change c d 0 ALL_MEMBERS (Some (cl_id (clients (wld r) t))) (Arg_text (cl_name (clients (wld r) t))) r = Some r1"
      and r': "r' = r1\<lparr>wld := upd_ms m (\<lambda>y. y\<lparr>ms_flags :=
       (if d = MODE_ADD then (if u then (ms_flags y OR flag) AND NOT CHFL_DEOPPED else ms_flags y OR flag)
        else ms_flags y AND NOT flag)\<rparr>) (wld r1)\<rparr>"
    using assms by (auto simp: set_status_def Let_def split: bind_splits)
  note F = change_frame [OF r1]
  show "parn r' = parn r" "length (mode_changes r') = Suc (length (mode_changes r))" using F r' by simp_all
  let ?f = "\<lambda>y. y\<lparr>ms_flags := (if d = MODE_ADD then (if u then (ms_flags y OR flag) AND NOT CHFL_DEOPPED else ms_flags y OR flag)
        else ms_flags y AND NOT flag)\<rparr>"
  have "has (ms_flags (?f x)) g" if "g \<in> statuses" "has (ms_flags x) g" "d = MODE_ADD \<or> flag AND g = 0" for x g
  proof (cases "d = MODE_ADD")
    case True with that(2) status_not_deop [OF that(1)] show ?thesis by simp
  next
    case False
    with that(3) have "g AND flag = 0" by (simp add: and.commute)
    with False that(2) has_clear [of g flag] show ?thesis by simp
  qed
  note flags = this
  show "\<exists>f. wld r' = upd_ms m f (wld r) \<and> status_change flag d f"
    unfolding status_change_def
  proof (intro exI [of _ ?f] conjI allI impI)
    show "wld r' = upd_ms m ?f (wld r)" using F(1) r' by simp
    fix x show "ms_ends (?f x) = ms_ends x" by (simp add: ms_ends_def)
  next
    fix x g assume "g \<in> statuses" "has (ms_flags x) g" "d = MODE_ADD \<or> flag AND g = 0"
    then show "has (ms_flags (?f x)) g" by (rule flags)
  next
    fix x assume "flag \<in> statuses"
    then have "CHFL_BAN_CHECKED AND flag = 0" "CHFL_BAN_SILENCED AND flag = 0" by (auto simp: statuses_def)
    moreover from this have "\<not> has flag CHFL_BAN_CHECKED" "\<not> has flag CHFL_BAN_SILENCED"
      by (simp_all add: has_def and.commute)
    moreover have "has (y AND NOT CHFL_DEOPPED) CHFL_BAN_CHECKED = has y CHFL_BAN_CHECKED"
      "has (y AND NOT CHFL_DEOPPED) CHFL_BAN_SILENCED = has y CHFL_BAN_SILENCED" for y
      by (rule has_clear; simp)+
    ultimately show "cache_flags (?f x) = cache_flags x" by (simp add: cache_flags_def has_clear)
  qed
qed


text \<open>The member modes: either nothing happens to the state, or the target's flag is set or cleared.\<close>

definition member_step :: "char \<Rightarrow> 32 word \<Rightarrow> bool \<Rightarrow> env \<Rightarrow> mode_dir \<Rightarrow> cid \<Rightarrow> mid \<Rightarrow> run \<Rightarrow> run \<Rightarrow> bool" where
  "member_step l flag u e d t m r r' \<longleftrightarrow> d \<noteq> MODE_QUERY \<and> (\<exists>r2. wsame (wld r) (wld r2) \<and> progress e r r2 \<and>
     mode_changes r2 = mode_changes r \<and> IsClient (clients (wld r2) t) \<and>
     find_channel_link t (chptr e) (wld r2) = Some m \<and> \<not> redundant d m flag r2 \<and> set_status l flag u d t m r2 = Some r')"

lemma mode_target_steps:
  assumes "has_param e r" "mode_target e r = (found, r1)" "over_limit e r1 = (full, r2)"
  shows "wsame (wld r) (wld r1)" "wsame (wld r) (wld r2)" "progress e r r1" "progress e r r2"
    "mode_changes r1 = mode_changes r" "mode_changes r2 = mode_changes r"
    "stay e r r1" "stay e r r2"
    "found = Some (t, m) \<Longrightarrow> IsClient (clients (wld r2) t) \<and> find_channel_link t (chptr e) (wld r2) = Some m"
  using mode_target_frame [OF assms(2)] over_limit_frame [OF assms(3)] assms(1) mode_target_found [of e r t m r1] assms(2)
  by (auto simp: wsame_def progress_def has_param_def stay_def)

lemma status_mode_cases:
  assumes "status_mode need l flag u e d c r = Some r'"
  shows "stay e r r' \<or>
    need \<le> alev e \<and> (\<exists>t m. member_step l flag u e d t m r r' \<and>
      (\<exists>r2. wsame (wld r) (wld r2) \<and> shielded e d t m r2 = None))"
proof (cases "alev e < need \<or> d = MODE_QUERY \<or> \<not> has_param e r")
  case True
  then have "stay e r r'" using assms by (auto simp: status_mode_def split: if_splits)
  then show ?thesis ..
next
  case go: False
  obtain found r1 where t: "mode_target e r = (found, r1)" by (cases "mode_target e r")
  obtain full r2 where o: "over_limit e r1 = (full, r2)" by (cases "over_limit e r1")
  have hp: "has_param e r" using go by simp
  note S = mode_target_steps [OF hp t o]
  show ?thesis
  proof (cases found)
    case None
    then have "stay e r r'" using assms go t S(7) by (auto simp: status_mode_def split: if_splits)
    then show ?thesis ..
  next
    case (Some tm)
    obtain tt m where tm: "tm = (tt, m)" by (cases tm)
    have eq: "(if full \<or> redundant d m flag r2 then Some r2
             else case shielded e d tt m r2 of
                    Some why \<Rightarrow> Some (complain SM_ERR_NOOPS (To_one (source_p e) ''ERR_CANNOTCHANGECHANMODE'' [[c], why]) r2)
                  | None \<Rightarrow> set_status l flag u d tt m r2) = Some r'"
      using assms go t o Some tm by (simp add: status_mode_def)
    show ?thesis
    proof (cases "full \<or> redundant d m flag r2 \<or> shielded e d tt m r2 \<noteq> None")
      case True
      then have "stay e r r'" using eq S(8) by (auto split: if_splits option.splits intro: stay_then)
      then show ?thesis ..
    next
      case False
      with eq have "member_step l flag u e d tt m r r'" unfolding member_step_def
        using S(2,4,6) S(9) [of tt m] Some tm go by (intro conjI exI [of _ r2]) auto
      with False S(2) go show ?thesis by (metis not_le)
    qed
  qed
qed

lemma chm_owner_cases:
  assumes "chm_owner e d c r = Some r'"
  shows "stay e r r' \<or>
    CHACCESS_OWNER \<le> alev e \<and> (\<exists>t m. member_step CHR ''q'' CHFL_OWNER True e d t m r r')"
proof (cases "alev e < CHACCESS_OWNER \<or> d = MODE_QUERY \<or> \<not> has_param e r")
  case True
  then have "stay e r r'" using assms by (auto simp: chm_owner_def split: if_splits)
  then show ?thesis ..
next
  case go: False
  obtain found r1 where t: "mode_target e r = (found, r1)" by (cases "mode_target e r")
  obtain full r2 where o: "over_limit e r1 = (full, r2)" by (cases "over_limit e r1")
  have hp: "has_param e r" using go by simp
  note S = mode_target_steps [OF hp t o]
  show ?thesis
  proof (cases found)
    case None
    then have "stay e r r'" using assms go t S(7) by (auto simp: chm_owner_def split: if_splits)
    then show ?thesis ..
  next
    case (Some tm)
    obtain tt m where tm: "tm = (tt, m)" by (cases tm)
    show ?thesis
    proof (cases "full \<or> redundant d m CHFL_OWNER r2")
      case True
      then have "stay e r r'" using assms go t o Some tm S(8) by (auto simp: chm_owner_def split: if_splits)
      then show ?thesis ..
    next
      case False
      with assms go t o Some tm have "member_step CHR ''q'' CHFL_OWNER True e d tt m r r'"
        unfolding member_step_def
        using S(2,4,6) S(9) [of tt m] by (intro conjI exI [of _ r2]) (auto simp: chm_owner_def)
      with go show ?thesis by (metis not_le)
    qed
  qed
qed

lemma chm_protect_cases:
  assumes "chm_protect e d c r = Some r'"
  shows "stay e r r' \<or>
    (\<exists>t m. (CHACCESS_OWNER \<le> alev e \<or> source_p e = t) \<and> member_step CHR ''a'' CHFL_PROTECTED True e d t m r r')"
proof (cases "alev e < CHACCESS_PROTECTED \<or> d = MODE_QUERY \<or> \<not> has_param e r")
  case True
  then have "stay e r r'" using assms by (auto simp: chm_protect_def split: if_splits)
  then show ?thesis ..
next
  case go: False
  obtain found r1 where t: "mode_target e r = (found, r1)" by (cases "mode_target e r")
  obtain full r2 where o: "over_limit e r1 = (full, r2)" by (cases "over_limit e r1")
  have hp: "has_param e r" using go by simp
  note S = mode_target_steps [OF hp t o]
  show ?thesis
  proof (cases found)
    case None
    then have "stay e r r'" using assms go t S(7) by (auto simp: chm_protect_def split: if_splits)
    then show ?thesis ..
  next
    case (Some tm)
    obtain tt m where tm: "tm = (tt, m)" by (cases tm)
    show ?thesis
    proof (cases "(alev e < CHACCESS_OWNER \<and> source_p e \<noteq> tt) \<or> full \<or> redundant d m CHFL_PROTECTED r2")
      case True
      then have "stay e r r'" using assms go t o Some tm S(7,8)
        by (auto simp: chm_protect_def intro: stay_then split: if_splits)
      then show ?thesis ..
    next
      case False
      with assms go t o Some tm have "member_step CHR ''a'' CHFL_PROTECTED True e d tt m r r'"
        unfolding member_step_def
        using S(2,4,6) S(9) [of tt m] by (intro conjI exI [of _ r2]) (auto simp: chm_protect_def split: if_splits)
      with False show ?thesis by (metis not_le)
    qed
  qed
qed

subsection \<open>The state a line keeps well formed\<close>

text \<open>
  \<open>state_ok\<close>: the memberships are linked on both sides, every list of masks is well formed, and the ban cache
  of every local member is what \<open>is_banned\<close> would answer.
\<close>

definition state_ok :: "world \<Rightarrow> bool" where
  "state_ok w \<longleftrightarrow> links_ok w \<and> 2 \<le> NICKLEN (cfg w) \<and> (\<forall>ch. bans_ok (cfg w) (chans w ch) \<and> cache_ok ch w)"

lemma is_banned_same_lists:
  assumes "clients w' = clients w" "cfg w' = cfg w" "ch_banlist (chans w' ch) = ch_banlist (chans w ch)"
    "ch_exceptlist (chans w' ch) = ch_exceptlist (chans w ch)"
  shows "is_banned ch c w' = is_banned ch c w"
  unfolding is_banned_def assms ..

lemma cache_ok_cong:
  assumes "mships w' = mships w" "clients w' = clients w" "cfg w' = cfg w"
    "ch_banlist (chans w' ch) = ch_banlist (chans w ch)" "ch_exceptlist (chans w' ch) = ch_exceptlist (chans w ch)"
  shows "cache_ok ch w' = cache_ok ch w"
  unfolding cache_ok_def is_banned_same_lists [OF assms(2-5)] assms(1,2) ..

lemma bans_ok_cong: "(\<And>t. id_list t ch' = id_list t ch) \<Longrightarrow> bans_ok c ch' = bans_ok c ch"
  by (simp add: bans_ok_def)

lemma id_list_eqD: "(\<And>t. id_list t ch' = id_list t ch) \<Longrightarrow>
    ch_banlist ch' = ch_banlist ch \<and> ch_exceptlist ch' = ch_exceptlist ch"
proof -
  assume e: "\<And>t. id_list t ch' = id_list t ch"
  show ?thesis using e [of CHFL_BAN] e [of CHFL_EXCEPTION] by (simp add: id_list_def)
qed

lemma state_ok_keep:
  assumes "state_ok w" "mships w' = mships w" "clients w' = clients w" "cfg w' = cfg w"
    "\<And>ch t. id_list t (chans w' ch) = id_list t (chans w ch)" "\<And>ch. ch_members (chans w' ch) = ch_members (chans w ch)"
  shows "state_ok w'"
proof -
  have "same_links w w'" using assms by (simp add: same_links_def)
  moreover have "cache_ok ch w' = cache_ok ch w" for ch
    using id_list_eqD [OF assms(5)] by (intro cache_ok_cong assms) simp_all
  ultimately show ?thesis
    using assms(1,4) links_ok_same bans_ok_cong [OF assms(5)] by (simp add: state_ok_def)
qed

lemma state_ok_upd_ms:
  assumes "state_ok w" "\<And>x. ms_ends (f x) = ms_ends x" "\<And>x. cache_flags (f x) = cache_flags x"
  shows "state_ok (upd_ms m f w)"
proof -
  have "cache_ok ch (upd_ms m f w)" for ch
    using assms by (intro cache_ok_upd_ms) (auto simp: state_ok_def cache_flags_def ms_ends_def)
  then show ?thesis
    using assms(1) links_ok_same [OF same_links_upd_ms [OF assms(2)]] by (simp add: state_ok_def)
qed

text \<open>Clearing the cache of a channel: its local members have neither flag, and nobody else changes.\<close>

lemma fold_upd_ms_at:
  assumes "\<And>x. f (f x) = f x"
  shows "mships (fold (\<lambda>m. upd_ms m f) ms w) i = (if i \<in> set ms then map_option f (mships w i) else mships w i)"
  using assms by (induction ms arbitrary: w) (auto simp: option.map_comp comp_def)

lemma not_has_cleared: "\<not> has (x AND NOT (CHFL_BAN_SILENCED OR CHFL_BAN_CHECKED)) CHFL_BAN_SILENCED"
    "\<not> has (x AND NOT (CHFL_BAN_SILENCED OR CHFL_BAN_CHECKED)) CHFL_BAN_CHECKED"
  by (simp_all add: has_def and.assoc)

lemma forget_ban_simps [simp]:
  "ms_ends (forget_ban x) = ms_ends x" "cache_flags (forget_ban x) = (False, False)" "forget_ban (forget_ban x) = forget_ban x"
  "ms_client (forget_ban x) = ms_client x" "ms_chptr (forget_ban x) = ms_chptr x"
  using not_has_cleared [of "ms_flags x"]
  by (simp_all add: forget_ban_def ms_ends_def cache_flags_def and.assoc)

lemma cleared_mships:
  "mships (clear_ban_cache ch w) i = (if i \<in> set (ch_members (chans w ch))
     then map_option (\<lambda>x. if cl_local (clients w (ms_client x)) then forget_ban x else x) (mships w i) else mships w i)"
  unfolding clear_ban_cache_def by (rule fold_upd_ms_at) simp

lemma cache_ok_cleared:
  assumes "links_ok w" "mships w' = mships (clear_ban_cache ch w)" "clients w' = clients w"
  shows "cache_ok ch w'"
  unfolding cache_ok_def
proof (intro allI impI)
  fix m x assume x: "mships w' m = Some x" "ms_chptr x = ch" "cl_local (clients w' (ms_client x))"
  show "(has (ms_flags x) CHFL_BAN_SILENCED \<longrightarrow> is_banned ch (ms_client x) w' = Some True) \<and>
     (has (ms_flags x) CHFL_BAN_CHECKED \<longrightarrow> \<not> has (ms_flags x) CHFL_BAN_SILENCED \<longrightarrow> is_banned ch (ms_client x) w' = Some False)"
  proof (cases "mships w m")
    case None with x assms(2) show ?thesis by (simp add: cleared_mships split: if_splits)
  next
    case (Some y)
    then have "ms_chptr y = ch" "ms_client y = ms_client x"
      using x(1,2) assms(2) by (auto simp: cleared_mships split: if_splits)
    moreover have "m \<in> set (ch_members (chans w ch))" using links_okD(3) [OF assms(1)] Some \<open>ms_chptr y = ch\<close> by blast
    ultimately have "x = forget_ban y"
      using Some x(1,3) assms(2,3) by (simp add: cleared_mships)
    then have "cache_flags x = (False, False)" by simp
    then show ?thesis by (simp add: cache_flags_def)
  qed
qed

lemma cache_ok_elsewhere:
  assumes "links_ok w" "cache_ok k w" "k \<noteq> ch" "mships w' = mships (clear_ban_cache ch w) \<or> mships w' = mships w" "clients w' = clients w" "cfg w' = cfg w"
    "chans w' k = chans w k"
  shows "cache_ok k w'"
proof -
  have "mships w' m = mships w m \<or> (\<exists>x. mships w' m = Some x \<and> ms_chptr x = ch)" for m
  proof (cases "mships w' m = mships w m")
    case False
    with assms(4) have "m \<in> set (ch_members (chans w ch))" "mships w' m = mships (clear_ban_cache ch w) m"
      by (auto simp: cleared_mships split: if_splits)
    moreover from this(1) obtain x where "mships w m = Some x" "ms_chptr x = ch" using links_okD(3) [OF assms(1)] by blast
    ultimately show ?thesis by (simp add: cleared_mships)
  qed simp
  note m = this
  have b: "is_banned k c w' = is_banned k c w" for c by (rule is_banned_same_lists) (simp_all only: assms)
  show ?thesis unfolding cache_ok_def b assms(5)
  proof (intro allI impI)
    fix i x assume x: "mships w' i = Some x" "ms_chptr x = k" "cl_local (clients w (ms_client x))"
    with m [of i] assms(3) have "mships w i = Some x" by auto
    with x(2,3) assms(2) show "(has (ms_flags x) CHFL_BAN_SILENCED \<longrightarrow> is_banned k (ms_client x) w = Some True) \<and>
     (has (ms_flags x) CHFL_BAN_CHECKED \<longrightarrow> \<not> has (ms_flags x) CHFL_BAN_SILENCED \<longrightarrow> is_banned k (ms_client x) w = Some False)"
      unfolding cache_ok_def by blast
  qed
qed

text \<open>A list that is changed once the cache is cleared, or that the cache does not depend on.\<close>

lemma state_ok_list:
  assumes "state_ok w" "w' = upd_chan ch (upd_id_list t f) (if t = CHFL_INVEX then w else clear_ban_cache ch w)"
    "bans_ok (cfg w) (upd_id_list t f (chans w ch))"
  shows "state_ok w'"
proof -
  have l: "links_ok w" and c: "cache_ok k w" and b: "bans_ok (cfg w) (chans w k)" for k
    using assms(1) by (auto simp: state_ok_def)
  have e: "clients w' = clients w" "cfg w' = cfg w"
      "chans w' k = (if k = ch then upd_id_list t f (chans w ch) else chans w k)" for k
    using assms(2) by auto
  have "cache_ok k w'" for k
  proof (cases "k = ch")
    case False
    have "mships w' = mships (clear_ban_cache ch w) \<or> mships w' = mships w" using assms(2) by simp
    from cache_ok_elsewhere [OF l c False this e(1,2)] False e(3) show ?thesis by simp
  next
    case True
    show ?thesis
    proof (cases "t = CHFL_INVEX")
      case False with assms(2) True show ?thesis by (intro cache_ok_cleared [OF l, of w', folded True]) simp_all
    next
      case inv: True
      have "cache_ok k w' = cache_ok k w"
        using assms(2) True inv by (intro cache_ok_cong) (simp_all add: upd_id_list_def)
      with c show ?thesis by simp
    qed
  qed
  moreover have "links_ok w'" unfolding assms(2) by (rule links_ok_same [OF same_links_cache_upd l])
  moreover have "bans_ok (cfg w') (chans w' k)" for k using assms(3) b e by simp
  ultimately show ?thesis using assms(1) e(2) by (simp add: state_ok_def)
qed

lemma state_ok_clear: "state_ok w \<Longrightarrow> state_ok (if t = CHFL_INVEX then w else clear_ban_cache ch w)"
proof (cases "t = CHFL_INVEX")
  case False
  assume s: "state_ok w"
  then have l: "links_ok w" by (simp add: state_ok_def)
  have "cache_ok k (clear_ban_cache ch w)" for k
    using cache_ok_cleared [OF l, of "clear_ban_cache ch w" ch] cache_ok_elsewhere [OF l, of k ch "clear_ban_cache ch w"] s
    by (cases "k = ch") (auto simp: state_ok_def)
  then show ?thesis
    using s False links_ok_same [OF same_links_clear l] by (simp add: state_ok_def)
qed simp

lemma state_ok_send: "state_ok w \<Longrightarrow> state_ok (send v w)"
  by (erule state_ok_keep) simp_all

lemma state_ok_add_id:
  assumes "add_id c ch s t w = Some (ok, s', w')" "state_ok w" "cstr s"
  shows "state_ok w'"
proof -
  have "bans_ok (cfg w') (chans w' ch)"
    using add_id_keeps [OF assms(1)] assms(2,3) by (simp add: state_ok_def)
  note b = this
  show ?thesis
  proof (rule add_id_cases [OF assms(1)], goal_cases)
    case 1 then show ?thesis using state_ok_send assms(2) by simp
  next
    case (2 n u h) then show ?thesis using state_ok_clear assms(2) by blast
  next
    case new: (3 n u h b')
    have "bans_ok (cfg w) (upd_id_list t (\<lambda>bs. b' # bs) (chans w ch))" using b new(13) by (simp split: if_splits)
    then show ?thesis using state_ok_list [OF assms(2) new(13)] by simp
  qed
qed

lemma remove_first_sub: "set (remove_first P xs) \<subseteq> set xs" "distinct (map k xs) \<Longrightarrow> distinct (map k (remove_first P xs))"
proof -
  show s: "set (remove_first P xs) \<subseteq> set xs" for xs by (induction xs) auto
  show "distinct (map k xs) \<Longrightarrow> distinct (map k (remove_first P xs))" using s by (induction xs) auto
qed

lemma bans_ok_remove: "bans_ok c ch \<Longrightarrow> bans_ok c (upd_id_list t (remove_first P) ch)"
  unfolding bans_ok_def id_list_upd by (simp add: remove_first_sub(2)) (meson remove_first_sub(1) subsetD)

lemma state_ok_del_id:
  assumes "del_id ch s t w = (ok, s', w')" "state_ok w"
  shows "state_ok w'"
proof -
  have b: "bans_ok (cfg w) (chans w ch)" using assms(2) by (simp add: state_ok_def)
  have "w' = w \<or> w' = (if t = CHFL_INVEX then w else clear_ban_cache ch w) \<or>
    (\<exists>P. w' = upd_chan ch (upd_id_list t (remove_first P)) (if t = CHFL_INVEX then w else clear_ban_cache ch w))"
    using assms(1) unfolding del_id_def Let_def by (simp split: option.splits prod.splits if_splits; blast)
  then show ?thesis
    using assms(2) state_ok_clear [OF assms(2)] state_ok_list [OF assms(2) _ bans_ok_remove [OF b]] by metis
qed

text \<open>\<open>mild\<close>: members keep what they are and have.\<close>

definition mild :: "env \<Rightarrow> run \<Rightarrow> run \<Rightarrow> bool" where
  "mild e r r' \<longleftrightarrow> same_links (wld r) (wld r') \<and> progress e r r' \<and>
     (\<forall>m x. keeps_status m x (wld r) \<longrightarrow> keeps_status m x (wld r')) \<and>
     ((\<forall>s\<in>set (parv e). cstr s) \<longrightarrow> state_ok (wld r) \<longrightarrow> state_ok (wld r'))"

lemma wsame_state: "wsame w w' \<Longrightarrow> state_ok w \<Longrightarrow> state_ok w'"
  by (erule state_ok_keep) (simp_all add: wsame_def)

lemma stay_mild: "stay e r r' \<Longrightarrow> mild e r r'"
  by (auto simp: stay_def mild_def wsame_links wsame_keeps wsame_state)

lemma mild_refl [simp]: "mild e r r"
  by (simp add: stay_mild)

lemma mild_steps [simp]:
  "mild e r (tell v r)" "mild e r (complain f v r)" "mild e r (deny e' n r)" "mild e r (show_list e' a b bs r)"
  "mild e r (set_error f r)"
  by (simp_all add: stay_mild)

lemma mild_param:
  "has_param e r \<Longrightarrow> mild e r (r\<lparr>parn := Suc (parn r)\<rparr>)"
  by (simp add: mild_def progress_def has_param_def)

text \<open>Steps that change the world and note at most one change.\<close>

definition same_notes :: "run \<Rightarrow> run \<Rightarrow> bool" where
  "same_notes r r' \<longleftrightarrow> length (mode_changes r') = length (mode_changes r)"

lemma mild_change:
  assumes "mild e r r1" "same_notes r r1" "change c d caps mems i arg r1 = Some r'"
  shows "mild e r r'"
  using assms change_frame [OF assms(3)] by (auto simp: mild_def progress_def same_notes_def)

lemma state_ok_mode: "state_ok w \<Longrightarrow> state_ok (upd_chan ch (\<lambda>x. x\<lparr>ch_mode := f (ch_mode x)\<rparr>) w)"
  by (erule state_ok_keep) (auto simp: id_list_def split: id_type.splits)

lemma mild_upd_mode: "mild e r r1 \<Longrightarrow> mild e r (upd_mode e' f r1)"
  unfolding mild_def progress_def upd_mode_def
  by (auto intro: same_links_trans [OF _ same_links_upd_chan] state_ok_mode)

lemma mild_strike: "mild e r r1 \<Longrightarrow> mild e r (strike c r1)"
  by (simp add: mild_def progress_def)

lemma same_notes_simps [simp]:
  "same_notes r r" "same_notes r (r\<lparr>parn := n\<rparr>)" "same_notes r (upd_mode e f r1) = same_notes r r1"
  "same_notes r (strike c r1) = same_notes r r1" "same_notes r (r\<lparr>simple_modes_mask := k\<rparr>)"
  by (simp_all add: same_notes_def)

lemma mild_mask: "mild e r (r\<lparr>simple_modes_mask := k\<rparr>)"
  by (simp add: mild_def progress_def)

lemma mild_nosuch: "chm_nosuch e d c r = Some r' \<Longrightarrow> mild e r r'"
  by (auto simp: chm_nosuch_def mild_def progress_def wsame_keeps wsame_links tell_def set_error_def
      intro: state_ok_send split: if_splits)

lemma mild_simple: "chm_simple t e d c r = Some r' \<Longrightarrow> mild e r r'"
  unfolding chm_simple_def set_simple_def Let_def
  by (auto split: if_splits intro!: mild_mask elim!: mild_change [rotated 2] intro: mild_upd_mode)

lemma mild_limit:
  assumes "chm_limit e d c r = Some r'"
  shows "mild e r r'"
  using assms unfolding chm_limit_def Let_def
  by (auto split: if_splits intro!: mild_param mild_upd_mode mild_strike elim!: mild_change [rotated 2])

lemma mild_floodtime:
  assumes "chm_floodtime e d c r = Some r'"
  shows "mild e r r'"
  using assms unfolding chm_floodtime_def Let_def
  by (auto split: if_splits intro!: mild_param mild_upd_mode mild_strike elim!: mild_change [rotated 2])

lemma mild_tell: "mild e r r1 \<Longrightarrow> mild e r (tell v r1)"
  unfolding mild_def progress_def tell_def by (auto intro: same_links_trans state_ok_send)

lemma mild_forward:
  assumes "chm_forward e d c r = Some r'"
  shows "mild e r r'"
  using assms unfolding chm_forward_def Let_def
  by (auto split: if_splits option.splits intro!: mild_param mild_upd_mode mild_strike mild_tell elim!: mild_change [rotated 2])

lemma mild_key:
  assumes "chm_key e d c r = Some r'"
  shows "mild e r r'"
  using assms unfolding chm_key_def Let_def
  by (auto split: if_splits option.splits intro!: mild_param mild_upd_mode mild_strike elim!: mild_change [rotated 2])

lemma mild_over_limit: "over_limit e r = (full, r') \<Longrightarrow> mild e r r' \<and> same_notes r r' \<and> parn r' = parn r"
  by (auto simp: over_limit_def mild_def progress_def same_notes_def split: if_splits)

lemma mild_world:
  assumes "mild e r r1" "same_links (wld r1) w" "\<And>m x. keeps_status m x (wld r1) \<Longrightarrow> keeps_status m x w"
    "(\<forall>s\<in>set (parv e). cstr s) \<Longrightarrow> state_ok (wld r1) \<Longrightarrow> state_ok w"
  shows "mild e r (r1\<lparr>wld := w\<rparr>)"
  using assms by (auto simp: mild_def progress_def intro: same_links_trans)

lemma mild_consume: "over_limit e r = (full, r1) \<Longrightarrow> has_param e r \<Longrightarrow>
    mild e r (r1\<lparr>parn := Suc (parn r1)\<rparr>) \<and> same_notes r (r1\<lparr>parn := Suc (parn r1)\<rparr>)"
  by (auto simp: over_limit_def mild_def progress_def same_notes_def has_param_def split: if_splits)

lemma mild_after_add:
  assumes "mild e r r2" "(\<forall>s\<in>set (parv e). cstr s) \<longrightarrow> cstr msk" "add_id s ch msk t (wld r2) = Some (ok, msk', w)"
  shows "mild e r (r2\<lparr>wld := w\<rparr>)"
  using assms(2) state_ok_add_id [OF assms(3)]
  by (intro mild_world [OF assms(1) same_links_add_id [OF assms(3)] keeps_status_add_id [OF assms(3)]]) auto

lemma param_cstr: "has_param e r \<Longrightarrow> (\<forall>s\<in>set (parv e). cstr s) \<longrightarrow> cstr (parv e ! parn r)"
  by (simp add: has_param_def)

lemma mild_after_del:
  assumes "mild e r r2" "del_id ch msk t (wld r2) = (ok, msk', w)"
  shows "mild e r (r2\<lparr>wld := w\<rparr>)"
  using state_ok_del_id [OF assms(2)]
  by (intro mild_world [OF assms(1) same_links_del_id [OF assms(2)] keeps_status_del_id [OF assms(2)]])

lemma same_notes_wld [simp]: "same_notes r (r2\<lparr>wld := w\<rparr>) = same_notes r r2"
  by (simp add: same_notes_def)

lemma mild_shown [simp]: "mild e r (show_list e' a b bs (set_error f r))"
  by (rule stay_mild) (simp add: stay_def progress_def wsame_def)

lemma mild_ban:
  assumes "chm_ban e d c r = Some r'"
  shows "mild e r r'"
proof (cases "d = MODE_QUERY \<or> \<not> has_param e r \<or> alev e < CHACCESS_HALFOP")
  case True with assms show ?thesis by (auto simp: chm_ban_def mild_shown split: if_splits)
next
  case False
  obtain full r1 where o: "over_limit e r = (full, r1)" by (cases "over_limit e r")
  let ?r2 = "r1\<lparr>parn := Suc (parn r)\<rparr>"
  have m2: "mild e r ?r2" "same_notes r ?r2"
    using mild_consume [OF o] mild_over_limit [OF o] False by auto
  have pc: "(\<forall>s\<in>set (parv e). cstr s) \<longrightarrow> cstr (parv e ! parn r)" using False param_cstr by blast
  show ?thesis
    using assms False o m2 mild_over_limit [OF o]
    by (auto simp: chm_ban_def Let_def split: if_splits bind_splits prod.splits
        intro: mild_after_add [OF m2(1) pc, simplified] mild_change [OF mild_after_add [OF m2(1) pc, simplified]]
          mild_change [OF mild_after_del [OF m2(1), simplified]])
qed

lemma mild_id:
  assumes "chm_id t used lst en fi cap e d c r = Some r'"
  shows "mild e r r'"
proof (cases "(\<not> used \<and> MyClient (src e r) \<and> d = MODE_ADD \<and> has_param e r) \<or> d = MODE_QUERY \<or> \<not> has_param e r \<or>
    alev e < CHACCESS_HALFOP")
  case True with assms show ?thesis by (auto simp: chm_id_def split: if_splits)
next
  case False
  obtain full r1 where o: "over_limit e r = (full, r1)" by (cases "over_limit e r")
  let ?r2 = "r1\<lparr>parn := Suc (parn r)\<rparr>"
  have m2: "mild e r ?r2" "same_notes r ?r2"
    using mild_consume [OF o] mild_over_limit [OF o] False by auto
  have pc: "(\<forall>s\<in>set (parv e). cstr s) \<longrightarrow> cstr (parv e ! parn r)" using False param_cstr by blast
  show ?thesis
    using assms False o m2 mild_over_limit [OF o]
    by (auto simp: chm_id_def Let_def split: if_splits bind_splits prod.splits
        intro: mild_after_add [OF m2(1) pc, simplified] mild_change [OF mild_after_add [OF m2(1) pc, simplified]]
          mild_after_del [OF m2(1), simplified] mild_change [OF mild_after_del [OF m2(1), simplified]])
qed

lemma mild_except: "chm_except e d c r = Some r' \<Longrightarrow> mild e r r'"
  unfolding chm_except_def by (rule mild_id)

lemma mild_invex: "chm_invex e d c r = Some r' \<Longrightarrow> mild e r r'"
  unfolding chm_invex_def by (rule mild_id)

lemmas mild_handlers = mild_nosuch mild_simple mild_ban mild_except mild_invex mild_limit mild_floodtime mild_forward mild_key

text \<open>A member mode keeps the links and, when it may not touch a member, that member's statuses.\<close>

lemma member_step_links:
  assumes "member_step l flag u e d t i r r'"
  shows "same_links (wld r) (wld r') \<and> progress e r r'"
proof -
  obtain r2 where r2: "wsame (wld r) (wld r2)" "progress e r r2" "mode_changes r2 = mode_changes r"
      "set_status l flag u d t i r2 = Some r'" using assms by (auto simp: member_step_def)
  from set_status_frame(1) [OF r2(4)] obtain f where f: "wld r' = upd_ms i f (wld r2)" "status_change flag d f" by blast
  have "same_links (wld r2) (wld r')" unfolding f(1) using f(2) by (intro same_links_upd_ms) (simp add: status_change_def)
  then show ?thesis
    using same_links_trans [OF wsame_links [OF r2(1)]] r2(2,3) set_status_frame(2,3) [OF r2(4)] by (auto simp: progress_def)
qed

lemma member_step_keeps:
  assumes "member_step l flag u e d t i r r'" "keeps_status m x (wld r)" "links_ok (wld r)"
    "i = m \<Longrightarrow> t = ms_client x \<Longrightarrow> d = MODE_ADD"
  shows "keeps_status m x (wld r')"
proof -
  obtain r2 where r2: "wsame (wld r) (wld r2)" "IsClient (clients (wld r2) t)"
      "find_channel_link t (chptr e) (wld r2) = Some i" "set_status l flag u d t i r2 = Some r'"
    using assms(1) by (auto simp: member_step_def)
  have "links_ok (wld r2)" using links_ok_same [OF wsame_links [OF r2(1)] assms(3)] .
  then obtain y where y: "mships (wld r2) i = Some y" "ms_client y = t"
    using find_channel_link_iff [of "wld r2" t "chptr e" i] r2(2,3) by blast
  have k: "keeps_status m x (wld r2)" using wsame_keeps [OF r2(1)] assms(2) by simp
  from set_status_frame(1) [OF r2(4)] obtain f where f: "wld r' = upd_ms i f (wld r2)" "status_change flag d f" by blast
  show ?thesis unfolding f(1)
  proof (rule keeps_status_upd_ms [OF k])
    fix z assume "i = m" "mships (wld r2) m = Some z"
    moreover from this y k have "t = ms_client x" by (auto simp: keeps_status_def ms_ends_def)
    ultimately have "d = MODE_ADD" using assms(4) by simp
    with f(2) show "ms_ends (f z) = ms_ends z \<and> (\<forall>g\<in>statuses. has (ms_flags z) g \<longrightarrow> has (ms_flags (f z)) g)"
      by (simp add: status_change_def)
  qed
qed


lemma member_step_state:
  assumes "member_step l flag u e d t i r r'" "flag \<in> statuses" "state_ok (wld r)"
  shows "state_ok (wld r')"
proof -
  obtain r2 where r2: "wsame (wld r) (wld r2)" "set_status l flag u d t i r2 = Some r'"
    using assms(1) by (auto simp: member_step_def)
  from set_status_frame(1) [OF r2(2)] obtain f where "wld r' = upd_ms i f (wld r2)" "status_change flag d f" by blast
  then show ?thesis using state_ok_upd_ms [OF wsame_state [OF r2(1) assms(3)]] assms(2) by (simp add: status_change_def)
qed

lemma mild_keepsD: "mild e r r' \<Longrightarrow> keeps_status m x (wld r) \<Longrightarrow> keeps_status m x (wld r')"
  by (simp add: mild_def)

text \<open>The memberships a source without owner access may not touch.\<close>

definition untouchable :: "env \<Rightarrow> membership \<Rightarrow> bool" where
  "untouchable e x \<longleftrightarrow> alev e < CHACCESS_OWNER \<and> source_p e \<noteq> ms_client x \<and>
     (has (ms_flags x) CHFL_OWNER \<or> has (ms_flags x) CHFL_PROTECTED)"

lemma shielded_keeps:
  assumes "shielded e d t m r2 = None" "untouchable e x" "t = ms_client x" "CHANAQ (cfg (wld r2))"
    "keeps_status m x (wld r2)"
  shows "d \<noteq> MODE_DEL"
proof -
  have "has_member_flags (Some m) CHFL_OWNER (wld r2) \<or> has_member_flags (Some m) CHFL_PROTECTED (wld r2)"
    using assms(2,5) by (auto simp: untouchable_def keeps_status_def has_member_flags_def statuses_def)
  then show ?thesis
    using assms(1-4) by (auto simp: shielded_def untouchable_def Let_def split: if_splits)
qed

lemma status_mode_keeps:
  assumes "status_mode need l f u e d c r = Some r'" "untouchable e x" "links_ok (wld r)" "CHANAQ (cfg (wld r))"
    "keeps_status m x (wld r)"
  shows "same_links (wld r) (wld r') \<and> progress e r r' \<and> keeps_status m x (wld r')"
  using status_mode_cases [OF assms(1)]
proof (elim disjE conjE exE)
  assume "stay e r r'" with stay_mild [OF this] assms(5) show ?thesis by (simp add: mild_def)
next
  fix t i r2 assume st: "member_step l f u e d t i r r'" and r2: "wsame (wld r) (wld r2)" "shielded e d t i r2 = None"
  have "d = MODE_ADD" if "i = m" "t = ms_client x"
  proof -
    have "d \<noteq> MODE_DEL"
      using shielded_keeps [OF r2(2) assms(2) that(2)] r2(1) assms(4,5) wsame_keeps [OF r2(1)] that(1)
      by (simp add: wsame_def)
    moreover have "d \<noteq> MODE_QUERY" using st by (simp add: member_step_def)
    ultimately show ?thesis by (cases d) auto
  qed
  from member_step_links [OF st] member_step_keeps [OF st assms(5,3) this] show ?thesis by simp
qed

lemma ModeTable_keeps:
  assumes "untouchable e x" "links_ok (wld r)" "CHANAQ (cfg (wld r))" "keeps_status m x (wld r)"
    "ModeTable k a e d c r = Some r'"
  shows "same_links (wld r) (wld r') \<and> progress e r r' \<and> keeps_status m x (wld r')"
proof -
  let ?Q = "\<lambda>h. h e d c r = Some r' \<longrightarrow> same_links (wld r) (wld r') \<and> progress e r r' \<and> keeps_status m x (wld r')"
  have mild: "mild e r r' \<Longrightarrow> same_links (wld r) (wld r') \<and> progress e r r' \<and> keeps_status m x (wld r')"
    using assms(4) by (simp add: mild_def)
  have "?Q (ModeTable k a)"
  proof (rule ModeTable_all [where P = ?Q])
    show "?Q chm_op" "?Q chm_hop" "?Q chm_voice"
      unfolding chm_op_def chm_hop_def chm_voice_def using status_mode_keeps [OF _ assms(1-4)] by blast+
    show "?Q chm_owner"
    proof
      assume "chm_owner e d c r = Some r'"
      then have "stay e r r'" using chm_owner_cases assms(1) unfolding untouchable_def by (metis not_le)
      then show "same_links (wld r) (wld r') \<and> progress e r r' \<and> keeps_status m x (wld r')" by (intro mild stay_mild)
    qed
    show "?Q chm_protect"
    proof
      assume "chm_protect e d c r = Some r'"
      from chm_protect_cases [OF this] show "same_links (wld r) (wld r') \<and> progress e r r' \<and> keeps_status m x (wld r')"
      proof (elim disjE conjE exE)
        fix t i assume st: "member_step CHR ''a'' CHFL_PROTECTED True e d t i r r'" and t: "source_p e = t"
        have "i = m \<Longrightarrow> t = ms_client x \<Longrightarrow> d = MODE_ADD" using t assms(1) by (simp add: untouchable_def)
        from member_step_links [OF st] member_step_keeps [OF st assms(4,2) this]
        show ?thesis by simp
      qed (use assms(1) in \<open>auto simp: untouchable_def intro: mild stay_mild dest: mild [OF stay_mild]\<close>)
    qed
  qed (blast dest: mild_handlers mild)+
  with assms(5) show ?thesis by simp
qed

lemma mode_letters_keeps:
  assumes "untouchable e x" "mode_letters e d ml r = Some r'" "links_ok (wld r)" "CHANAQ (cfg (wld r))" "keeps_status m x (wld r)"
  shows "keeps_status m x (wld r')"
proof -
  let ?I = "\<lambda>r. links_ok (wld r) \<and> CHANAQ (cfg (wld r)) \<and> keeps_status m x (wld r)"
  have step: "?I r'" if I: "?I r" and h: "ModeTable (cfg (wld r)) c e d c r = Some r'" for c d r r'
  proof -
    from I have l: "links_ok (wld r)" and q: "CHANAQ (cfg (wld r))" and ks: "keeps_status m x (wld r)" by simp_all
    from ModeTable_keeps [OF assms(1) l q ks h]
    have s: "same_links (wld r) (wld r')" and k: "keeps_status m x (wld r')" by simp_all
    with links_ok_same [OF s l] q show ?thesis by (simp add: same_links_def)
  qed
  have "?I r'" by (rule mode_letters_inv [where I = ?I, OF step assms(2)]) (use assms in auto)
  then show ?thesis by simp
qed


subsection \<open>The properties of a line\<close>

lemma fold_send_frame [simp]:
  "mships (fold (\<lambda>l. send (f l)) ls w) = mships w" "chans (fold (\<lambda>l. send (f l)) ls w) = chans w"
  "clients (fold (\<lambda>l. send (f l)) ls w) = clients w" "cfg (fold (\<lambda>l. send (f l)) ls w) = cfg w"
  by (induction ls arbitrary: w) auto

lemma send_cap_frame: "send_cap_mode_changes e ms a b w = Some w' \<Longrightarrow> wsame w w'"
  by (auto simp: send_cap_mode_changes_def wsame_def Let_def)

lemma fold_combos_frame:
  "fold (\<lambda>k ow. do { v \<leftarrow> ow; if 0 < cc_count k then send_cap_mode_changes e ms (cap_yes k) (cap_no k) v else Some v })
     ks ow = Some w' \<Longrightarrow> \<exists>w. ow = Some w \<and> wsame w w'"
proof (induction ks arbitrary: ow)
  case (Cons k ks)
  let ?o = "do { v \<leftarrow> ow; if 0 < cc_count k then send_cap_mode_changes e ms (cap_yes k) (cap_no k) v else Some v }"
  from Cons.prems have "fold (\<lambda>k ow. do { v \<leftarrow> ow; if 0 < cc_count k then send_cap_mode_changes e ms (cap_yes k) (cap_no k) v else Some v })
     ks ?o = Some w'" by simp
  from Cons.IH [OF this] obtain w1 where w1: "?o = Some w1" "wsame w1 w'" by blast
  then show ?case
    by (auto split: bind_splits if_splits dest!: send_cap_frame intro: wsame_trans)
qed simp

lemma send_mode_changes_frame:
  assumes "send_mode_changes hidden ks e ms w = Some w'"
  shows "wsame w w'"
proof (cases "ms = []")
  case False
  with assms obtain ls where "\<exists>v. Some (fold (\<lambda>l. send (To_channel 0 (chptr e) l)) ls w) = Some v \<and> wsame v w'"
    by (auto simp: send_mode_changes_def Let_def split: bind_splits dest!: fold_combos_frame)
  then show ?thesis by (auto simp: wsame_def)
qed (use assms in \<open>simp add: send_mode_changes_def\<close>)

text \<open>
  C11: A local client that is not an owner of the channel can take no status from an owner or a protected member
  other than itself, however it writes its MODE line: such a member keeps its membership and every
  status it had.
\<close>

theorem owners_and_protected_safe:
  assumes "set_channel_mode hidden combos c s ch member pv name w = Some w'" "links_ok w" "CHANAQ (cfg w)"
    "MyClient (clients w s)" "\<not> has_member_flags member CHFL_OWNER w"
    "mships w m = Some x" "ms_client x \<noteq> s" "has (ms_flags x) CHFL_OWNER \<or> has (ms_flags x) CHFL_PROTECTED"
  shows "\<exists>y. mships w' m = Some y \<and> ms_chptr y = ms_chptr x \<and> ms_client y = ms_client x \<and>
    (\<forall>f\<in>{CHFL_OWNER, CHFL_PROTECTED, CHFL_CHANOP, CHFL_HALFOP, CHFL_VOICE}. has (ms_flags x) f \<longrightarrow> has (ms_flags y) f)"
proof -
  let ?e = "start_env c s ch member pv name w"
  obtain r where r: "mode_letters ?e MODE_ADD (pv ! 0) (start_run w) = Some r"
      and snd: "send_mode_changes hidden combos ?e (mode_changes r) (wld r) = Some w'"
    using assms(1) by (auto simp: set_channel_mode_def Let_def split: bind_splits)
  have u: "untouchable ?e x"
    using assms(4,5,7,8) by (auto simp: untouchable_def start_env_def get_channel_access_def)
  have k: "keeps_status m x (wld (start_run w))"
    using assms(6) by (simp add: keeps_status_def start_run_def)
  have "keeps_status m x (wld r)"
    by (rule mode_letters_keeps [OF u r _ _ k]) (use assms(2,3) in \<open>simp_all add: start_run_def\<close>)
  then have "keeps_status m x w'" using wsame_keeps [OF send_mode_changes_frame [OF snd]] by simp
  then show ?thesis unfolding keeps_status_def statuses_def ms_ends_def by auto
qed

text \<open>An operator, client 1, who tries to take the operator status of an owner, client 2.\<close>

definition duel :: world where
  "duel = a_world\<lparr>clients := (\<lambda>c. if c = 2 then a_client\<lparr>cl_name := ''bob'', cl_channel := [20]\<rparr>
       else if c = 1 then a_client\<lparr>cl_channel := [10]\<rparr> else a_client),
     chans := (\<lambda>k. if k = 1 then a_channel\<lparr>ch_members := [20, 10]\<rparr> else a_channel),
     mships := (\<lambda>_. None)(10 \<mapsto> \<lparr>ms_chptr = 1, ms_client = 1, ms_flags = 4, ms_lmsg = None, ms_nmsg = 0, ms_lsize = 0, ms_lmsg_time = 0\<rparr>,
                          20 \<mapsto> \<lparr>ms_chptr = 1, ms_client = 2, ms_flags = 5, ms_lmsg = None, ms_nmsg = 0, ms_lsize = 0, ms_lmsg_time = 0\<rparr>),
     client_names := [2]\<rparr>"

lemma duel_links: "links_ok duel"
  unfolding links_ok_def duel_def by (auto simp: a_channel_def a_client_def split: if_splits)

theorem owners_and_protected_safe_witness:
  "\<exists>w' y. set_channel_mode False [] 1 1 1 (Some 10) [''-o'', ''bob''] ''#isabelle'' duel = Some w' \<and>
     mships w' 20 = Some y \<and> has (ms_flags y) CHFL_CHANOP"
proof -
  have c: "CHANAQ a_config" "HALFOPS a_config" by (simp_all add: a_config_def)
  have b: "cl_name (a_client\<lparr>cl_name := ''bob'', cl_channel := [20]\<rparr>) = ''bob''" "\<not> IsServer a_client" "\<not> cl_services a_client"
      "cl_status a_client = STAT_CLIENT" "cl_local a_client"
    by (simp_all add: a_client_def IsServer_def)
  have f: "has 4 4" "has 5 4" "has 5 1" "\<not> has 4 1" "\<not> has 4 2" for x :: "32 word" by (simp_all add: has_def)
  have r: "\<exists>w'. set_channel_mode False [] 1 1 1 (Some 10) [''-o'', ''bob''] ''#isabelle'' duel = Some w'"
    by (simp add: set_channel_mode_def start_env_def start_run_def get_channel_access_def has_member_flags_def duel_def
        ModeTable_def chm_op_def status_mode_def has_param_def mode_target_def find_chasing_def find_person_def IsDigit_iff rd_def
        lookup_client_def find_channel_link_def on_channel_def over_limit_def src_def redundant_def shielded_def
        complain_def set_error_def tell_def send_mode_changes_def MyClient_def IsClient_def b c f Let_def)
  then obtain w' where w': "set_channel_mode False [] 1 1 1 (Some 10) [''-o'', ''bob''] ''#isabelle'' duel = Some w'" ..
  have "MyClient (clients duel 1)" "CHANAQ (cfg duel)" "\<not> has_member_flags (Some 10) CHFL_OWNER duel"
      "mships duel 20 = Some \<lparr>ms_chptr = 1, ms_client = 2, ms_flags = 5, ms_lmsg = None, ms_nmsg = 0, ms_lsize = 0, ms_lmsg_time = 0\<rparr>"
    by (simp_all add: duel_def MyClient_def IsClient_def has_member_flags_def b c f)
  from owners_and_protected_safe [OF w' duel_links this(2,1,3,4)] show ?thesis using w' f by auto
qed


lemma ModeTable_progress:
  assumes "ModeTable k a e d c r = Some r'"
  shows "same_links (wld r) (wld r') \<and> progress e r r'"
proof -
  let ?Q = "\<lambda>h. h e d c r = Some r' \<longrightarrow> same_links (wld r) (wld r') \<and> progress e r r'"
  have mild: "mild e r r' \<Longrightarrow> same_links (wld r) (wld r') \<and> progress e r r'" by (simp add: mild_def)
  note cases = status_mode_cases chm_owner_cases chm_protect_cases
  have "?Q (ModeTable k a)"
  proof (rule ModeTable_all [where P = ?Q])
    show "?Q chm_op" "?Q chm_hop" "?Q chm_voice" "?Q chm_owner" "?Q chm_protect"
      unfolding chm_op_def chm_hop_def chm_voice_def
      by (blast dest: cases stay_mild mild member_step_links)+
  qed (blast dest: mild_handlers mild)+
  with assms show ?thesis by simp
qed

text \<open>A mask whose host part the address parser can read without leaving its buffers.\<close>

definition readable_mask :: "env \<Rightarrow> world \<Rightarrow> string \<Rightarrow> bool" where
  "readable_mask e w s \<longleftrightarrow> parse_netmask (snd (snd (split_id (cfg w)
     (if MyClient (clients w (source_p e)) then collapse s else s)))) \<noteq> None"

lemma add_id_total:
  assumes "readable_mask e w s"
  shows "\<exists>x. add_id (source_p e) ch s t w = Some x"
proof -
  obtain n u h where sp: "split_id (cfg w) (if MyClient (clients w (source_p e)) then collapse s else s) = (n, u, h)"
    by (metis prod_cases3)
  with assms obtain a where "parse_netmask h = Some a" by (auto simp: readable_mask_def)
  with sp show ?thesis by (auto simp: add_id_def Let_def)
qed

lemma readable_mask_cong: "clients w' = clients w \<Longrightarrow> cfg w' = cfg w \<Longrightarrow> readable_mask e w' s = readable_mask e w s"
  by (simp add: readable_mask_def)

lemma change_total: "length (mode_changes r) < IRCD_BUFSIZE \<Longrightarrow> \<exists>r'. change c d caps mems i arg r = Some r'"
  by (simp add: change_def)

lemma set_status_total: "length (mode_changes r) < IRCD_BUFSIZE \<Longrightarrow> \<exists>r'. set_status c f u d t m r = Some r'"
  by (simp add: set_status_def change_def Let_def)

lemma room_after_target:
  assumes "mode_target e r = (x, r1)" "over_limit e r1 = (full, r2)" "length (mode_changes r) < IRCD_BUFSIZE"
  shows "length (mode_changes r2) < IRCD_BUFSIZE"
  using mode_target_frame [OF assms(1)] over_limit_frame [OF assms(2)] assms(3) by simp

lemma status_mode_total:
  assumes "length (mode_changes r) < IRCD_BUFSIZE"
  shows "\<exists>r'. status_mode need l f u e d c r = Some r'" "\<exists>r'. chm_owner e d c r = Some r'" "\<exists>r'. chm_protect e d c r = Some r'"
  using room_after_target [OF _ _ assms] set_status_total
  unfolding status_mode_def chm_owner_def chm_protect_def
  by (auto split: prod.splits option.splits)

lemma chm_simple_total:
  assumes "length (mode_changes r) < IRCD_BUFSIZE"
  shows "\<exists>r'. chm_simple t e d c r = Some r'"
proof -
  have "\<exists>r'. set_simple t e d c r = Some r'" using assms by (auto simp: set_simple_def Let_def intro!: change_total)
  then show ?thesis by (simp add: chm_simple_def)
qed

lemma param_modes_total:
  assumes "length (mode_changes r) < IRCD_BUFSIZE"
  shows "\<exists>r'. chm_limit e d c r = Some r'" "\<exists>r'. chm_floodtime e d c r = Some r'"
    "\<exists>r'. chm_forward e d c r = Some r'" "\<exists>r'. chm_key e d c r = Some r'"
  using assms unfolding chm_limit_def chm_floodtime_def chm_forward_def chm_key_def Let_def
  by (auto intro!: change_total split: option.splits)

lemma id_modes_total:
  assumes "length (mode_changes r) < IRCD_BUFSIZE" "\<forall>s\<in>set (parv e). readable_mask e (wld r) s"
  shows "\<exists>r'. chm_ban e d c r = Some r'" "\<exists>r'. chm_id t used lst en fi cap e d c r = Some r'"
proof -
  obtain full r1 where o: "over_limit e r = (full, r1)" by (cases "over_limit e r")
  note F = over_limit_frame(1-3) [OF o]
  have m: "\<exists>x. add_id (source_p e) ch (parv e ! parn r) t (wld r) = Some x" if "has_param e r" for ch t
    using assms(2) that by (intro add_id_total) (simp add: has_param_def)
  have room: "length (mode_changes (r1\<lparr>parn := n, wld := w\<rparr>)) < IRCD_BUFSIZE" for n w using F assms(1) by simp
  have w: "wld (r1\<lparr>parn := n\<rparr>) = wld r" for n using F by simp
  show "\<exists>r'. chm_ban e d c r = Some r'" "\<exists>r'. chm_id t used lst en fi cap e d c r = Some r'"
    unfolding chm_ban_def chm_id_def o prod.case Let_def w F(3) using m [of "chptr e" CHFL_BAN] m [of "chptr e" t]
    by (auto intro!: change_total [OF room] split: prod.splits)
qed

lemma ModeTable_total:
  assumes "length (mode_changes r) < IRCD_BUFSIZE" "\<forall>s\<in>set (parv e). readable_mask e (wld r) s"
  shows "\<exists>r'. ModeTable k a e d c r = Some r'"
  by (rule ModeTable_all [where P = "\<lambda>h. \<exists>r'. h e d c r = Some r'"])
    (use assms in \<open>simp_all add: chm_nosuch_def chm_simple_total param_modes_total id_modes_total status_mode_total
      chm_except_def chm_invex_def chm_op_def chm_hop_def chm_voice_def\<close>)

text \<open>
  C27: A MODE line of at most 512 letters whose masks the address parser can read is processed to its end: the
  record of changes is never overrun and gets at most one entry per letter, no parameter beyond the last
  is read, and nobody joins or leaves by it.
\<close>

theorem line_is_processed:
  assumes "length ml \<le> IRCD_BUFSIZE" "\<forall>s\<in>set (parv e). readable_mask e w s"
  shows "\<exists>r. mode_letters e d ml (start_run w) = Some r \<and> length (mode_changes r) \<le> length ml \<and>
    parn r \<le> max 1 (length (parv e)) \<and> (\<forall>ch. ch_members (chans (wld r) ch) = ch_members (chans w ch))"
proof -
  have "\<exists>r. mode_letters e d ml r0 = Some r \<and> length (mode_changes r) \<le> length (mode_changes r0) + length ml \<and>
      parn r \<le> max (parn r0) (length (parv e)) \<and> same_links (wld r0) (wld r)"
    if "length (mode_changes r0) + length ml \<le> IRCD_BUFSIZE" "\<forall>s\<in>set (parv e). readable_mask e (wld r0) s" for r0
    using that
  proof (induction ml arbitrary: d r0)
    case (Cons c ml)
    show ?case
    proof (cases "c \<in> {CHR ''+'', CHR ''-'', CHR ''=''}")
      case True
      then obtain d' where d': "mode_letters e d (c # ml) r0 = mode_letters e d' ml r0" by auto
      from Cons.IH [OF _ Cons.prems(2), of d'] Cons.prems(1) obtain r where
          "mode_letters e d' ml r0 = Some r" "length (mode_changes r) \<le> length (mode_changes r0) + length ml"
          "parn r \<le> max (parn r0) (length (parv e))" "same_links (wld r0) (wld r)" by auto
      with d' show ?thesis by auto
    next
      case False
      obtain r1 where r1: "ModeTable (cfg (wld r0)) c e d c r0 = Some r1"
        using ModeTable_total [OF _ Cons.prems(2), of "cfg (wld r0)" c d c] Cons.prems(1) by auto
      from ModeTable_progress [OF this] have p: "same_links (wld r0) (wld r1)" "progress e r0 r1" by simp_all
      have m: "\<forall>s\<in>set (parv e). readable_mask e (wld r1) s"
        using Cons.prems(2) p(1) readable_mask_cong [of "wld r1" "wld r0"] by (simp add: same_links_def)
      have "length (mode_changes r1) + length ml \<le> IRCD_BUFSIZE" using Cons.prems(1) p(2) by (simp add: progress_def)
      from Cons.IH [OF this m, of d] obtain r where r:
          "mode_letters e d ml r1 = Some r" "length (mode_changes r) \<le> length (mode_changes r1) + length ml"
          "parn r \<le> max (parn r1) (length (parv e))" "same_links (wld r1) (wld r)" by blast
      have "mode_letters e d (c # ml) r0 = Some r" using r1 r(1) False by simp
      moreover have "length (mode_changes r) \<le> length (mode_changes r0) + length (c # ml)" "parn r \<le> max (parn r0) (length (parv e))"
        using r(2,3) p(2) unfolding progress_def by auto
      ultimately show ?thesis using same_links_trans [OF p(1) r(4)] by blast
    qed
  qed simp
  from this [of "start_run w"] assms show ?thesis by (auto simp: start_run_def same_links_def)
qed


theorem line_is_processed_witness:
  "\<exists>r. mode_letters (start_env 1 1 1 None [''+mb'', ''bob''] ''#isabelle'' a_world) MODE_ADD ''+mb'' (start_run a_world) = Some r \<and>
     length (mode_changes r) \<le> 3 \<and> parn r \<le> 2"
proof -
  have m: "readable_mask (start_env 1 1 1 None [''+mb'', ''bob''] ''#isabelle'' a_world) a_world s" if "s \<in> {''+mb'', ''bob''}" for s
  proof -
    have "check_string (collapse ''+mb'') = ''+mb''" "check_string (collapse ''bob'') = ''bob''"
      by (simp_all add: check_string_def rd_def char_class)
    moreover have "split_nuh (Some 31) 11 64 ''+mb'' = (Some ''+mb'', ''*'', ''*'')"
      "split_nuh (Some 31) 11 64 ''bob'' = (Some ''bob'', ''*'', ''*'')" by code_simp+
    moreover have "parse_netmask ''*'' = Some HM_HOST" by (simp add: parse_netmask_def)
    moreover have "MyClient a_client" "NICKLEN a_config = 31"
      by (simp_all add: a_client_def MyClient_def IsClient_def a_config_def)
    ultimately show ?thesis using that by (auto simp: readable_mask_def start_env_def split_id_def a_world_def)
  qed
  then have "\<forall>s\<in>set (parv (start_env 1 1 1 None [''+mb'', ''bob''] ''#isabelle'' a_world)).
      readable_mask (start_env 1 1 1 None [''+mb'', ''bob''] ''#isabelle'' a_world) a_world s"
    by (auto simp: start_env_def)
  from line_is_processed [OF _ this, of "''+mb''" MODE_ADD] show ?thesis by (auto simp: start_env_def)
qed


subsection \<open>The invariant over a line\<close>

lemma flags_are_statuses: "CHFL_CHANOP \<in> statuses" "CHFL_HALFOP \<in> statuses" "CHFL_VOICE \<in> statuses"
    "CHFL_OWNER \<in> statuses" "CHFL_PROTECTED \<in> statuses"
  by (simp_all add: statuses_def)

lemma ModeTable_state:
  assumes "ModeTable k a e d c r = Some r'" "\<forall>s\<in>set (parv e). cstr s" "state_ok (wld r)"
  shows "state_ok (wld r')"
proof -
  let ?Q = "\<lambda>h. h e d c r = Some r' \<longrightarrow> state_ok (wld r')"
  have mild: "mild e r r' \<Longrightarrow> state_ok (wld r')" using assms(2,3) by (simp add: mild_def)
  have step: "member_step l f u e d t i r r' \<Longrightarrow> f \<in> statuses \<Longrightarrow> state_ok (wld r')" for l f u t i
    using member_step_state assms(3) by blast
  note cases = status_mode_cases chm_owner_cases chm_protect_cases
  have "?Q (ModeTable k a)"
  proof (rule ModeTable_all [where P = ?Q])
    show "?Q chm_op" "?Q chm_hop" "?Q chm_voice" "?Q chm_owner" "?Q chm_protect"
      unfolding chm_op_def chm_hop_def chm_voice_def
      by (blast dest: cases stay_mild mild step intro: flags_are_statuses)+
  qed (blast dest: mild_handlers mild)+
  with assms(1) show ?thesis by simp
qed

text \<open>
  C10: A MODE line keeps the whole state well formed, whoever sends it and whatever it asks for: memberships stay
  linked from both sides, no list of any channel holds two masks equal up to case or a mask longer than its
  buffers, and the ban cache of every local member still says what \<open>is_banned\<close> would answer on the lists
  as they are now.
\<close>

theorem mode_line_keeps_state:
  assumes "set_channel_mode hidden combos c s ch member pv name w = Some w'" "\<forall>t\<in>set pv. cstr t"
    "2 \<le> NICKLEN (cfg w)" "links_ok w" "\<And>k. bans_ok (cfg w) (chans w k)" "\<And>k. cache_ok k w"
  shows "links_ok w' \<and> (\<forall>k. bans_ok (cfg w') (chans w' k) \<and> cache_ok k w')"
proof -
  let ?e = "start_env c s ch member pv name w"
  obtain r where r: "mode_letters ?e MODE_ADD (pv ! 0) (start_run w) = Some r"
      and snd: "send_mode_changes hidden combos ?e (mode_changes r) (wld r) = Some w'"
    using assms(1) by (auto simp: set_channel_mode_def Let_def split: bind_splits)
  have p: "\<forall>t\<in>set (parv ?e). cstr t" using assms(2) by (simp add: start_env_def)
  have "state_ok (wld (start_run w))" using assms(3-6) by (simp add: state_ok_def start_run_def)
  then have "state_ok (wld r)"
    by (intro mode_letters_inv [where I = "\<lambda>r. state_ok (wld r)", OF _ r]) (blast intro: ModeTable_state [OF _ p])+
  then show ?thesis using wsame_state [OF send_mode_changes_frame [OF snd]] by (simp add: state_ok_def)
qed

theorem mode_line_keeps_state_witness:
  "\<exists>w'. set_channel_mode False [] 1 1 1 (Some 10) [''+m''] ''#isabelle'' duel = Some w' \<and>
     has (md_mode (ch_mode (chans w' 1))) MODE_MODERATED \<and> links_ok w' \<and> cache_ok 1 w'"
proof -
  have b: "\<not> IsServer a_client" "cl_status a_client = STAT_CLIENT" "cl_local a_client" "md_mode (ch_mode a_channel) = 0"
      "CHANAQ a_config" "HALFOPS a_config" "cl_name a_client = ''alice''" "cl_username a_client = ''al''" "cl_host a_client = ''home.example''"
    by (simp_all add: example_defs IsServer_def)
  have f: "has 4 4" "\<not> has 4 1" "\<not> has 4 2" "\<not> has (0 :: 32 word) g" "\<not> has 4 0x80" "\<not> has 4 0x100" "\<not> has 5 0x80" "\<not> has 5 0x100"
    for g by (simp_all add: has_def)
  have "\<exists>w'. set_channel_mode False [] 1 1 1 (Some 10) [''+m''] ''#isabelle'' duel = Some w' \<and>
      has (md_mode (ch_mode (chans w' 1))) MODE_MODERATED"
    by (simp add: set_channel_mode_def start_env_def start_run_def get_channel_access_def has_member_flags_def duel_def
        ModeTable_def chm_simple_def set_simple_def chn_def src_def change_def upd_mode_def send_mode_changes_def MyClient_def IsClient_def b f
        print_lines_def line_full_def put_change_def channel_header_def nuh_text_def arg_of_def trim_line_def Let_def)
  then obtain w' where w': "set_channel_mode False [] 1 1 1 (Some 10) [''+m''] ''#isabelle'' duel = Some w'"
      "has (md_mode (ch_mode (chans w' 1))) MODE_MODERATED" by blast
  have d: "2 \<le> NICKLEN (cfg duel)" "bans_ok (cfg duel) (chans duel k)" "cache_ok k duel" for k
    by (auto simp: duel_def bans_ok_def id_list_def a_channel_def a_config_def cache_ok_def f split: id_type.splits if_splits)
  from mode_line_keeps_state [OF w'(1) _ d(1) duel_links d(2,3)] show ?thesis using w' by auto
qed

end
