(* ===== verification/Mode_Print.thy ===== *)
theory Mode_Print
  imports Mode_Line
begin

section \<open>Printing mode changes\<close>

text \<open>
  The two printers of \<open>send_mode_changes\<close> and \<open>send_cap_mode_changes\<close> share \<open>print_lines\<close>: here is what it
  prints, and when it overruns its buffers.
\<close>

subsection \<open>The printed lines\<close>

text \<open>What a line should show: its letters under their signs, and its parameters.\<close>

type_synonym shown = "char \<times> mode_dir \<times> string option"

fun paint :: "mode_dir \<Rightarrow> shown list \<Rightarrow> string" where
  "paint d0 [] = []"
| "paint d0 ((c, d, a) # g) = (if d0 \<noteq> d then (if d = MODE_ADD then ''+'' else ''-'') else []) @ c # paint d g"

definition params :: "shown list \<Rightarrow> string" where
  "params g = concat (map (\<lambda>(c, d, a). case a of None \<Rightarrow> [] | Some s \<Rightarrow> s @ '' '') g)"

definition nparams :: "shown list \<Rightarrow> nat" where
  "nparams g = length (filter (\<lambda>(c, d, a). a \<noteq> None) g)"

fun lines_of :: "string \<Rightarrow> string \<Rightarrow> shown list list \<Rightarrow> string list" where
  "lines_of h header [] = []"
| "lines_of h header (g # gs) =
    (h @ paint MODE_QUERY g @ '' '' @ (if gs = [] then butlast (params g) else params g)) # lines_of header header gs"

definition last_dir :: "mode_dir \<Rightarrow> shown list \<Rightarrow> mode_dir" where
  "last_dir d g = (if g = [] then d else fst (snd (last g)))"

lemma paint_snoc:
  "paint d0 (g @ [(c, d, a)]) =
    paint d0 g @ (if last_dir d0 g \<noteq> d then (if d = MODE_ADD then ''+'' else ''-'') else []) @ [c]"
  by (induction d0 g rule: paint.induct) (auto simp: last_dir_def)

lemma paint_length: "length (paint d g) \<le> 2 * length g"
  by (induction d g rule: paint.induct) auto

lemma paint_last: "g \<noteq> [] \<Longrightarrow> last (paint d g) = fst (last g) \<and> paint d g \<noteq> []"
  by (induction g rule: rev_induct) (auto simp: paint_snoc)

lemma params_snoc: "params (g @ [(c, d, a)]) = params g @ (case a of None \<Rightarrow> [] | Some s \<Rightarrow> s @ '' '')"
  by (simp add: params_def)

lemma params_end: "params g \<noteq> [] \<Longrightarrow> last (params g) = CHR '' ''"
proof (induction g rule: rev_induct)
  case (snoc m g)
  obtain c d a where "m = (c, d, a)" by (cases m) auto
  with snoc show ?case by (cases a) (simp_all add: params_snoc)
qed (simp add: params_def)

lemma nparams_snoc: "nparams (g @ [(c, d, a)]) = (if a = None then nparams g else nparams g + 1)"
  by (simp add: nparams_def)

text \<open>Parameters and headers that leave room in the buffers.\<close>

definition fits :: "shown \<Rightarrow> bool" where
  "fits m \<longleftrightarrow> fst m \<noteq> CHR ''-'' \<and> (\<forall>s. snd (snd m) = Some s \<longrightarrow> length s + BAN_FUDGE < MODEBUFLEN)"

definition room :: "string \<Rightarrow> nat \<Rightarrow> bool" where
  "room h n \<longleftrightarrow> length h \<le> 320 \<and> length h + 2 * n < IRCD_BUFSIZE"

text \<open>The printer holds the group \<open>g\<close> behind the header \<open>h\<close>.\<close>

definition printing :: "string \<Rightarrow> shown list \<Rightarrow> printer \<Rightarrow> bool" where
  "printing h g p \<longleftrightarrow> modebuf p = h @ paint MODE_QUERY g \<and> parabuf p = params g \<and> pr_mc p = nparams g \<and>
     pr_nc p = length g \<and> pr_dir p = last_dir MODE_QUERY g \<and> nparams g \<le> MAXMODEPARAMS"

lemma put_printing:
  assumes "printing h g p" "\<not> line_full a p" "fits (c, d, a)" "room h (Suc (length g))"
  shows "\<exists>p'. put_change c d a p = Some p' \<and> printing h (g @ [(c, d, a)]) p' \<and> pr_out p' = pr_out p"
proof -
  have n: "nparams g < MAXMODEPARAMS" using assms(1,2) by (simp add: line_full_def printing_def Let_def)
  have "length (parabuf p) + (case a of None \<Rightarrow> 0 | Some s \<Rightarrow> length s + 1) < MODEBUFLEN"
    using assms(1,2) by (auto simp: line_full_def printing_def Let_def split: option.splits)
  moreover have "length (modebuf p) + 2 < IRCD_BUFSIZE"
    using assms(1,4) paint_length [of MODE_QUERY g] by (simp add: printing_def room_def)
  ultimately show ?thesis
    using assms(1) n
    by (cases a) (auto simp: put_change_def printing_def paint_snoc params_snoc nparams_snoc last_dir_def Let_def)
qed

lemma fresh_not_full:
  assumes "printing h [] p" "fits (c, d, a)" "room h n"
  shows "\<not> line_full a p"
  using assms by (cases a) (auto simp: line_full_def printing_def fits_def room_def params_def nparams_def)

lemma flush_printing:
  assumes "printing h g p" "g \<noteq> []" "\<forall>m\<in>set g. fits m"
  shows "printing header [] (flush_line header dm p)"
    "pr_out (flush_line header dm p) = pr_out p @ [h @ paint MODE_QUERY g @ '' '' @ params g]"
proof -
  have "last (modebuf p) \<noteq> CHR ''-''"
    using assms paint_last [OF assms(2), of MODE_QUERY] by (auto simp: printing_def fits_def dest: last_in_set)
  then show "printing header [] (flush_line header dm p)"
    "pr_out (flush_line header dm p) = pr_out p @ [h @ paint MODE_QUERY g @ '' '' @ params g]"
    using assms(1,2) by (auto simp: flush_line_def printing_def params_def nparams_def last_dir_def Let_def)
qed

lemma print_changes_batches:
  assumes "printing h g p" "\<forall>m\<in>set (g @ ms). fits m" "room h (length g + length ms)" "room header (length ms)"
  shows "\<exists>p' gs. print_changes header dm ms p = Some p' \<and> concat gs = g @ ms \<and> [] \<notin> set gs \<and>
    (\<forall>x\<in>set gs. nparams x \<le> MAXMODEPARAMS) \<and> trim_line p' = pr_out p @ lines_of h header gs"
  using assms
proof (induction ms arbitrary: h g p)
  case Nil
  then have "trim_line p = pr_out p @ lines_of h header (if g = [] then [] else [g])"
    using params_end [of g] by (cases "params g = []") (auto simp: trim_line_def printing_def Let_def)
  then show ?case using Nil.prems(1)
    by (intro exI [of _ p] exI [of _ "if g = [] then [] else [g]"]) (auto simp: printing_def)
next
  case (Cons m ms)
  obtain c d a where m: "m = (c, d, a)" by (cases m) auto
  with Cons.prems(2) have f: "fits (c, d, a)" "\<forall>m\<in>set g. fits m" by simp_all
  show ?case
  proof (cases "line_full a p")
    case False
    have "room h (Suc (length g))" using Cons.prems(3) by (simp add: room_def)
    from put_printing [OF Cons.prems(1) False f(1) this] obtain p2 where
      p2: "put_change c d a p = Some p2" "printing h (g @ [(c, d, a)]) p2" "pr_out p2 = pr_out p" by blast
    from Cons.IH [OF p2(2)] Cons.prems(2-4) obtain p' gs where
      "print_changes header dm ms p2 = Some p'" "concat gs = g @ m # ms" "[] \<notin> set gs"
      "\<forall>x\<in>set gs. nparams x \<le> MAXMODEPARAMS" "trim_line p' = pr_out p @ lines_of h header gs"
      by (auto simp: m p2(3) room_def)
    with p2(1) False show ?thesis by (auto simp: m)
  next
    case True
    then have g: "g \<noteq> []" using fresh_not_full [OF _ f(1) Cons.prems(3)] Cons.prems(1) by auto
    let ?p1 = "flush_line header dm p"
    note F = flush_printing [OF Cons.prems(1) g f(2), of header dm]
    have "room header (Suc (length []))" using Cons.prems(4) by (simp add: room_def)
    from put_printing [OF F(1) fresh_not_full [OF F(1) f(1) this] f(1) this] obtain p2 where
      p2: "put_change c d a ?p1 = Some p2" "printing header [(c, d, a)] p2" "pr_out p2 = pr_out ?p1" by auto
    from Cons.IH [OF p2(2)] Cons.prems(2-4) obtain p' gs where gs:
      "print_changes header dm ms p2 = Some p'" "concat gs = m # ms" "[] \<notin> set gs"
      "\<forall>x\<in>set gs. nparams x \<le> MAXMODEPARAMS" "trim_line p' = pr_out ?p1 @ lines_of header header gs"
      by (auto simp: m p2(3) room_def)
    have "nparams g \<le> MAXMODEPARAMS" using Cons.prems(1) by (simp add: printing_def)
    moreover have "gs \<noteq> []" using gs(2) by auto
    ultimately show ?thesis using True p2(1) gs F(2) g
      by (intro exI [of _ p'] exI [of _ "g # gs"]) (auto simp: m)
  qed
qed

text \<open>
  C26: The printing of mode changes overruns none of its buffers and loses, repeats and reorders nothing, when the
  parameters are shorter than 190 characters and the headers leave room: the changes are cut into
  consecutive non-empty groups of at most four parameters, and each line sent is its header, the letters
  of its group under their signs, and the parameters of its group.
\<close>

theorem print_lines_batches:
  assumes "\<forall>m\<in>set ms. fits m" "room first (length ms)" "room header (length ms)"
  shows "\<exists>gs. concat gs = ms \<and> (\<forall>g\<in>set gs. g \<noteq> [] \<and> nparams g \<le> MAXMODEPARAMS) \<and>
    print_lines first header dm ms = Some (lines_of first header gs)"
proof -
  let ?p = "\<lparr>modebuf = first, parabuf = [], pr_mc = 0, pr_nc = 0, pr_dir = MODE_QUERY, pr_out = []\<rparr>"
  have "printing first [] ?p" by (simp add: printing_def params_def nparams_def last_dir_def)
  from print_changes_batches [OF this, of ms header dm] assms obtain p' gs where
    "print_changes header dm ms ?p = Some p'" "concat gs = ms" "[] \<notin> set gs"
    "\<forall>x\<in>set gs. nparams x \<le> MAXMODEPARAMS" "trim_line p' = lines_of first header gs"
    by auto
  with assms show ?thesis by (intro exI [of _ gs]) (auto simp: print_lines_def room_def)
qed

theorem print_lines_batches_witness:
  "print_lines '':a MODE #x '' '':a MODE #x '' True
     [(CHR ''o'', MODE_ADD, Some ''ann''), (CHR ''m'', MODE_ADD, None), (CHR ''v'', MODE_DEL, Some ''bob'')] =
   Some ['':a MODE #x +om-v ann bob''] \<and>
   (\<exists>gs. print_lines '':a MODE #x '' '':a MODE #x '' True
     [(CHR ''o'', MODE_ADD, Some ''ann''), (CHR ''m'', MODE_ADD, None), (CHR ''v'', MODE_DEL, Some ''bob'')] =
     Some (lines_of '':a MODE #x '' '':a MODE #x '' gs))"
  using print_lines_batches [of "[(CHR ''o'', MODE_ADD, Some ''ann''), (CHR ''m'', MODE_ADD, None), (CHR ''v'', MODE_DEL, Some ''bob'')]"
      "'':a MODE #x ''" "'':a MODE #x ''" True]
  by (auto simp: fits_def room_def print_lines_def line_full_def put_change_def trim_line_def)


subsection \<open>Where a line goes wrong\<close>

text \<open>
  A local client's fifth ban is refused without its mask being used up, so the next letter of the line takes
  the mask as its own parameter: in \<open>+bk mask key\<close> the mask becomes the key.
\<close>

lemma refused_ban_shifts_parameters:
  assumes "MyClient (src e r)" "CHACCESS_HALFOP \<le> alev e" "has_param e r" "MAXMODEPARAMS \<le> mode_limit r"
    "fix_key (parv e ! parn r) \<noteq> []" "length (mode_changes r) < IRCD_BUFSIZE"
  shows "\<exists>r'. mode_letters e MODE_ADD ''bk'' r = Some r' \<and>
    md_key (ch_mode (chn e r')) = fit KEYLEN (fix_key (parv e ! parn r)) \<and>
    ch_banlist (chn e r') = ch_banlist (chn e r)"
  using assms
  by (simp add: ModeTable_def chm_ban_def over_limit_def has_param_def chm_key_def src_def change_def chn_def strike_def Let_def)

text \<open>A single change whose parameter does not fit \<open>parabuf\<close>.\<close>

lemma print_lines_long:
  assumes "MODEBUFLEN \<le> length s + 1"
  shows "print_lines first header dm [(c, d, Some s)] = None"
  using assms by (auto simp: print_lines_def line_full_def put_change_def flush_line_def Let_def)

text \<open>
  C34: A channel operator can overrun the server's \<open>parabuf\<close> with one \<open>+f\<close>: the parameter is read as two small numbers, but
  the text as it was given is printed, and nothing bounds its length.  With a parameter of 199 characters
  or more that starts with two numbers in range, \<open>set_channel_mode\<close> writes beyond the buffer.
\<close>

theorem floodtime_overruns_parabuf:
  assumes "MyClient (clients w s)" "has_member_flags member CHFL_CHANOP w"
    "MODEBUFLEN \<le> length arg + 1" "CHR '':'' \<in> set arg"
    "1 < atoi (until CHR '':'' arg)" "atoi (until CHR '':'' arg) \<le> 99"
    "atoi (after CHR '':'' arg) \<noteq> 0" "atoi (after CHR '':'' arg) \<le> 99"
  shows "set_channel_mode hidden combos c s ch member [''+f'', arg] name w = None"
proof -
  let ?e = "start_env c s ch member [''+f'', arg] name w"
  have a: "CHACCESS_HALFOP \<le> alev ?e"
    using assms(1,2) by (cases member) (auto simp: start_env_def get_channel_access_def has_member_flags_def)
  obtain r where r: "mode_letters ?e MODE_ADD ''+f'' (start_run w) = Some r"
      "mode_changes r = [\<lparr>mc_letter = CHR ''f'', mc_arg = Arg_text arg, mc_id = None, mc_dir = MODE_ADD, mc_caps = 0, mc_nocaps = 0,
         mc_mems = ALL_MEMBERS\<rparr>]"
    using a assms(4-8)
    by (simp add: ModeTable_def chm_floodtime_def has_param_def start_run_def change_def strike_def start_env_def Let_def)
  have "set_channel_mode hidden combos c s ch member [''+f'', arg] name w = send_mode_changes hidden combos ?e (mode_changes r) (wld r)"
    using r(1) by (simp add: set_channel_mode_def del: mode_letters.simps)
  also have "\<dots> = None"
    using r(2) by (simp add: send_mode_changes_def arg_of_def print_lines_long [OF assms(3)] Let_def)
  finally show ?thesis .
qed

theorem floodtime_overruns_parabuf_witness:
  "set_channel_mode False [] 1 1 1 (Some 10) [''+f'', ''2:9'' @ replicate 200 CHR ''x''] ''#isabelle'' duel = None"
proof -
  let ?arg = "''2:9'' @ replicate 200 CHR ''x''"
  have nd: "dec_digit CHR ''9''" "\<not> dec_digit CHR ''x''" by (simp_all add: dec_digit_def)
  have t: "takeWhile dec_digit (CHR ''9'' # replicate n CHR ''x'') = ''9''" for n
    using nd by (cases n) simp_all
  have u: "until CHR '':'' ?arg = ''2''" "after CHR '':'' ?arg = CHR ''9'' # replicate 200 CHR ''x''"
    by (simp_all add: until_def after_def)
  have "atoi ''2'' = 2" by code_simp
  moreover have "atoi (CHR ''9'' # replicate n CHR ''x'') = 9" for n
    unfolding atoi_def Let_def by (simp add: c_isspace_def t nd dec_value_def del: takeWhile.simps)
  moreover have "MyClient (clients duel 1)" "has_member_flags (Some 10) CHFL_CHANOP duel"
    by (simp_all add: duel_def has_member_flags_def has_def MyClient_def IsClient_def a_client_def)
  ultimately show ?thesis
    by (intro floodtime_overruns_parabuf) (simp_all add: u [simplified])
qed

end
