(* ===== verification/Recv_Queue.thy ===== *)
theory Recv_Queue
  imports Ircd_Prelude Char_Tables "HOL-Library.Monad_Syntax"
begin

section \<open>Receive queues\<close>

text \<open>
  dbuf.c, the queue of bytes a connection is buffered in, and the part of packet.c that takes lines out of it
  and holds a client to its allowance.

  The block list of \<open>dbuf_queue\<close> is a list of blocks, first block first; a block is the filled part of its data,
  so its \<open>size\<close> is a length.  What lies behind it in the block is never read.
\<close>

subsection \<open>The queue\<close>

abbreviation DBUF_BLOCK_SIZE :: nat where "DBUF_BLOCK_SIZE \<equiv> 1024"

record dbuf_queue =
  blocks :: "string list"
  total_size :: nat

definition dbuf_alloc :: "dbuf_queue \<Rightarrow> dbuf_queue" where
  "dbuf_alloc q = q\<lparr>blocks := blocks q @ [[]]\<rparr>"

text \<open>One turn of the loop: what still fits goes into the last block, or into a new one when that is full.\<close>

definition put_some :: "dbuf_queue \<Rightarrow> string \<Rightarrow> dbuf_queue \<times> string" where
  "put_some q data =
    (let q1 = (if DBUF_BLOCK_SIZE - length (last (blocks q)) = 0 then dbuf_alloc q else q);
         amount = min (DBUF_BLOCK_SIZE - length (last (blocks q1))) (length data) in
     (q1\<lparr>blocks := butlast (blocks q1) @ [last (blocks q1) @ take amount data], total_size := total_size q1 + amount\<rparr>,
      drop amount data))"

lemma put_some_less: "data \<noteq> [] \<Longrightarrow> length (snd (put_some q data)) < length data"
  by (auto simp: put_some_def dbuf_alloc_def Let_def)

function put_loop :: "dbuf_queue \<Rightarrow> string \<Rightarrow> dbuf_queue" where
  "put_loop q data = (if data = [] then q else case put_some q data of (q1, rest) \<Rightarrow> put_loop q1 rest)"
  by pat_completeness auto
termination
proof (relation "measure (\<lambda>(q, data). length data)", simp, goal_cases)
  case (1 q data q1 rest)
  then show ?case using put_some_less [of data q] by (simp add: snd_def split: prod.splits)
qed

declare put_loop.simps [simp del]

text \<open>\<open>None\<close> is the failed assertion.\<close>

definition dbuf_put :: "dbuf_queue \<Rightarrow> string \<Rightarrow> dbuf_queue option" where
  "dbuf_put q data =
    (if data = [] then None else Some (put_loop (if blocks q = [] then dbuf_alloc q else q) data))"

text \<open>\<open>None\<close> is reading through the head of an empty list.\<close>

fun delete_loop :: "nat \<Rightarrow> string list \<Rightarrow> nat \<Rightarrow> (string list \<times> nat) option" where
  "delete_loop count bs left =
    (if count = 0 then Some (bs, left)
     else case bs of
            [] \<Rightarrow> None
          | first # bs' \<Rightarrow>
              (if count < length first then Some (drop count first # bs', left - count)
               else delete_loop (count - length first) bs' (left - length first)))"

declare delete_loop.simps [simp del]

definition dbuf_delete :: "dbuf_queue \<Rightarrow> nat \<Rightarrow> dbuf_queue option" where
  "dbuf_delete q count =
    (if total_size q < count then None
     else map_option (\<lambda>(bs, n). q\<lparr>blocks := bs, total_size := n\<rparr>) (delete_loop count (blocks q) (total_size q)))"

definition dbuf_length :: "dbuf_queue \<Rightarrow> nat" where
  "dbuf_length q = total_size q"

definition dbuf_clear :: "dbuf_queue \<Rightarrow> dbuf_queue option" where
  "dbuf_clear q = dbuf_delete q (dbuf_length q)"

subsection \<open>The queue as a string\<close>

definition content :: "dbuf_queue \<Rightarrow> string" where
  "content q = concat (blocks q)"

definition queue_ok :: "dbuf_queue \<Rightarrow> bool" where
  "queue_ok q \<longleftrightarrow> total_size q = length (content q) \<and> (\<forall>b\<in>set (blocks q). b \<noteq> [] \<and> length b \<le> DBUF_BLOCK_SIZE)"

text \<open>Between two turns of \<open>dbuf_put\<close> the last block may be a fresh one.\<close>

definition filling :: "dbuf_queue \<Rightarrow> bool" where
  "filling q \<longleftrightarrow> blocks q \<noteq> [] \<and> total_size q = length (content q) \<and>
     (\<forall>b\<in>set (butlast (blocks q)). b \<noteq> [] \<and> length b \<le> DBUF_BLOCK_SIZE) \<and> length (last (blocks q)) \<le> DBUF_BLOCK_SIZE"

lemma last_split: "xs \<noteq> [] \<Longrightarrow> (\<forall>x\<in>set xs. P x) \<longleftrightarrow> (\<forall>x\<in>set (butlast xs). P x) \<and> P (last xs)"
  by (induction xs rule: rev_induct) auto

lemma concat_last: "xs \<noteq> [] \<Longrightarrow> concat xs = concat (butlast xs) @ last xs"
  by (induction xs rule: rev_induct) auto

lemma put_some_correct:
  assumes "filling q" "data \<noteq> []" "put_some q data = (q1, rest)"
  shows "filling q1 \<and> last (blocks q1) \<noteq> [] \<and> content q1 @ rest = content q @ data"
proof -
  let ?q = "if DBUF_BLOCK_SIZE - length (last (blocks q)) = 0 then dbuf_alloc q else q"
  let ?l = "last (blocks ?q)" and ?i = "butlast (blocks ?q)"
  let ?n = "min (DBUF_BLOCK_SIZE - length ?l) (length data)"
  have q: "blocks ?q \<noteq> []" "content ?q = content q" "total_size ?q = total_size q"
    using assms(1) by (auto simp: dbuf_alloc_def content_def filling_def)
  have l: "length ?l < DBUF_BLOCK_SIZE" by (auto simp: dbuf_alloc_def)
  have i: "\<forall>b\<in>set ?i. b \<noteq> [] \<and> length b \<le> DBUF_BLOCK_SIZE"
  proof (cases "DBUF_BLOCK_SIZE - length (last (blocks q)) = 0")
    case True
    then have "last (blocks q) \<noteq> []" by auto
    with True assms(1) last_split [of "blocks q" "\<lambda>b. b \<noteq> [] \<and> length b \<le> DBUF_BLOCK_SIZE"]
    show ?thesis by (simp add: dbuf_alloc_def filling_def)
  next
    case False with assms(1) show ?thesis by (simp add: filling_def)
  qed
  have c: "content q = concat ?i @ ?l" using q(1,2) concat_last by (metis content_def)
  have r: "q1 = ?q\<lparr>blocks := ?i @ [?l @ take ?n data], total_size := total_size ?q + ?n\<rparr>" "rest = drop ?n data"
    using assms(3) unfolding put_some_def Let_def by (simp_all only: prod.inject)
  have "content q1 = content q @ take ?n data" unfolding r(1) using c by (simp add: content_def)
  moreover have "take ?n data \<noteq> []" using assms(2) l by simp
  ultimately show ?thesis
    using q(3) l i assms(1) unfolding r by (auto simp: filling_def)
qed

lemma put_loop_correct:
  assumes "filling q" "data \<noteq> []"
  shows "queue_ok (put_loop q data) \<and> content (put_loop q data) = content q @ data"
  using assms
proof (induction q data rule: put_loop.induct)
  case (1 q data)
  obtain q1 rest where p: "put_some q data = (q1, rest)" by (cases "put_some q data")
  note c = put_some_correct [OF "1.prems" p]
  have e: "put_loop q data = put_loop q1 rest" using "1.prems"(2) p by (simp add: put_loop.simps [of q])
  show ?case
  proof (cases "rest = []")
    case True
    with c have "queue_ok q1"
      using last_split [of "blocks q1" "\<lambda>b. b \<noteq> [] \<and> length b \<le> DBUF_BLOCK_SIZE"] by (auto simp: filling_def queue_ok_def)
    then show ?thesis using e c True by (simp add: put_loop.simps [of q1])
  next
    case False with "1.IH" [OF "1.prems"(2) p [symmetric]] c e show ?thesis by simp
  qed
qed

lemma dbuf_put_refines:
  assumes "queue_ok q" "data \<noteq> []"
  shows "\<exists>q'. dbuf_put q data = Some q' \<and> queue_ok q' \<and> content q' = content q @ data"
proof -
  let ?q = "if blocks q = [] then dbuf_alloc q else q"
  have "filling ?q \<and> content ?q = content q"
    using assms(1) last_split [of "blocks q" "\<lambda>b. b \<noteq> [] \<and> length b \<le> DBUF_BLOCK_SIZE"]
    by (auto simp: filling_def queue_ok_def dbuf_alloc_def content_def)
  with put_loop_correct [of ?q data] assms(2) show ?thesis by (auto simp: dbuf_put_def)
qed

lemma delete_loop_correct:
  assumes "\<forall>b\<in>set bs. b \<noteq> [] \<and> length b \<le> DBUF_BLOCK_SIZE" "count \<le> length (concat bs)" "left = length (concat bs)"
  shows "\<exists>bs' left'. delete_loop count bs left = Some (bs', left') \<and> concat bs' = drop count (concat bs) \<and>
    left' = length (concat bs') \<and> (\<forall>b\<in>set bs'. b \<noteq> [] \<and> length b \<le> DBUF_BLOCK_SIZE)"
  using assms
proof (induction bs arbitrary: count left)
  case Nil then show ?case by (simp add: delete_loop.simps)
next
  case (Cons b bs)
  consider "count = 0" | "0 < count" "count < length b" | "0 < count" "length b \<le> count" by linarith
  then show ?case
  proof cases
    case 1 with Cons.prems show ?thesis by (simp add: delete_loop.simps)
  next
    case 2 with Cons.prems show ?thesis by (auto simp: delete_loop.simps [of count])
  next
    case 3
    with Cons.IH [of "count - length b" "left - length b"] Cons.prems show ?thesis
      by (simp add: delete_loop.simps [of count])
  qed
qed

lemma dbuf_delete_refines:
  assumes "queue_ok q" "count \<le> length (content q)"
  shows "\<exists>q'. dbuf_delete q count = Some q' \<and> queue_ok q' \<and> content q' = drop count (content q)"
proof -
  have t: "total_size q = length (concat (blocks q))" using assms(1) by (simp add: queue_ok_def content_def)
  from delete_loop_correct [OF _ _ t, of count] assms obtain bs' n where
    "delete_loop count (blocks q) (total_size q) = Some (bs', n)" "concat bs' = drop count (concat (blocks q))"
    "n = length (concat bs')" "\<forall>b\<in>set bs'. b \<noteq> [] \<and> length b \<le> DBUF_BLOCK_SIZE"
    by (auto simp: queue_ok_def content_def)
  then show ?thesis using assms by (auto simp: dbuf_delete_def queue_ok_def content_def)
qed


text \<open>
  C29: The queue is a string: data put in comes out behind what was there, and deleting takes as many bytes from the
  front, across the borders of the blocks; the total is always their sum and no block is empty or holds
  more than its 1024 bytes.
\<close>

theorem dbuf_is_a_queue:
  assumes "queue_ok q" "data \<noteq> []" "n \<le> length (content q) + length data"
  shows "\<exists>q1 q2. dbuf_put q data = Some q1 \<and> queue_ok q1 \<and> content q1 = content q @ data \<and>
    dbuf_delete q1 n = Some q2 \<and> queue_ok q2 \<and> content q2 = drop n (content q @ data)"
proof -
  obtain q1 where q1: "dbuf_put q data = Some q1" "queue_ok q1" "content q1 = content q @ data"
    using dbuf_put_refines [OF assms(1,2)] by blast
  moreover have "\<exists>q2. dbuf_delete q1 n = Some q2 \<and> queue_ok q2 \<and> content q2 = drop n (content q1)"
    using dbuf_delete_refines [OF q1(2), of n] q1(3) assms(3) by simp
  ultimately show ?thesis by auto
qed

theorem dbuf_is_a_queue_witness:
  "\<exists>q1 q2. dbuf_put \<lparr>blocks = [''NICK a''], total_size = 6\<rparr> ''lice'' = Some q1 \<and> dbuf_delete q1 5 = Some q2 \<and> content q2 = ''alice''"
  using dbuf_is_a_queue [of "\<lparr>blocks = [''NICK a''], total_size = 6\<rparr>" "''lice''" 5]
  by (auto simp: queue_ok_def content_def)

subsection \<open>Taking a line out\<close>

abbreviation LINE_MAX :: nat where "LINE_MAX \<equiv> 510"

definition empty_char :: "char \<Rightarrow> bool" where
  "empty_char c \<longleftrightarrow> IsEol c \<or> c = CHR '' ''"

text \<open>The locals of \<open>extract_one_line\<close>.\<close>

record line_scan =
  ln_buffer :: string
  line_bytes :: nat
  empty_bytes :: nat
  ln_phase :: nat

text \<open>One character; \<open>None\<close> is the return in phase 2, before the character is counted.\<close>

definition scan_char :: "char \<Rightarrow> line_scan \<Rightarrow> line_scan option" where
  "scan_char c s =
    (if IsEol c \<or> c = CHR '' '' \<and> ln_phase s \<noteq> 1 then
       Some (s\<lparr>empty_bytes := empty_bytes s + 1, ln_phase := (if ln_phase s = 1 then 2 else ln_phase s)\<rparr>)
     else if ln_phase s = 2 then None
     else Some (s\<lparr>ln_phase := 1, line_bytes := line_bytes s + 1,
       ln_buffer := (if line_bytes s < LINE_MAX then ln_buffer s @ [c] else ln_buffer s)\<rparr>))"

fun scan_block :: "string \<Rightarrow> line_scan \<Rightarrow> bool \<times> line_scan" where
  "scan_block [] s = (False, s)"
| "scan_block (c # cs) s = (case scan_char c s of None \<Rightarrow> (True, s) | Some s' \<Rightarrow> scan_block cs s')"

fun scan_blocks :: "string list \<Rightarrow> line_scan \<Rightarrow> bool \<times> line_scan" where
  "scan_blocks [] s = (False, s)"
| "scan_blocks (b # bs) s = (case scan_block b s of (True, s') \<Rightarrow> (True, s') | (False, s') \<Rightarrow> scan_blocks bs s')"

definition scan_start :: line_scan where
  "scan_start = \<lparr>ln_buffer = [], line_bytes = 0, empty_bytes = 0, ln_phase = 0\<rparr>"

text \<open>What it returns, the line in the buffer, and the queue.\<close>

definition extract_one_line :: "dbuf_queue \<Rightarrow> (nat \<times> string \<times> dbuf_queue) option" where
  "extract_one_line q =
    (let (next_line, s) = scan_blocks (blocks q) scan_start;
         s1 = (if \<not> next_line \<and> ln_phase s \<noteq> 2 then s\<lparr>line_bytes := 0\<rparr> else s) in
     map_option (\<lambda>q'. (min (line_bytes s1) LINE_MAX, ln_buffer s1, q')) (dbuf_delete q (line_bytes s1 + empty_bytes s1)))"

text \<open>
  The line as it should be: the first one of the text without what is empty around it, cut to its length; nothing
  while no line is complete.
\<close>

definition next_line :: "string \<Rightarrow> string \<times> string" where
  "next_line t =
    (let s = dropWhile empty_char t; l = takeWhile (\<lambda>c. \<not> IsEol c) s; r = dropWhile (\<lambda>c. \<not> IsEol c) s in
     if r = [] then ([], s) else (take LINE_MAX l, dropWhile empty_char r))"

lemma scan_block_append:
  "scan_block (a @ b) s = (case scan_block a s of (True, s') \<Rightarrow> (True, s') | (False, s') \<Rightarrow> scan_block b s')"
  by (induction a arbitrary: s) (auto split: option.splits)

lemma scan_blocks_concat: "scan_blocks bs s = scan_block (concat bs) s"
  by (induction bs arbitrary: s) (auto simp: scan_block_append split: prod.splits bool.splits)

abbreviation at :: "string \<Rightarrow> nat \<Rightarrow> nat \<Rightarrow> nat \<Rightarrow> line_scan" where
  "at b n e p \<equiv> \<lparr>ln_buffer = b, line_bytes = n, empty_bytes = e, ln_phase = p\<rparr>"

lemma scan_phase0:
  "scan_block t (at b n e 0) = scan_block (dropWhile empty_char t) (at b n (e + length (takeWhile empty_char t)) 0)"
  by (induction t arbitrary: e) (auto simp: scan_char_def empty_char_def)

lemma scan_phase1:
  assumes "\<forall>c\<in>set l. \<not> IsEol c"
  shows "scan_block (l @ r) (at (take LINE_MAX k) (length k) e 1) = scan_block r (at (take LINE_MAX (k @ l)) (length (k @ l)) e 1)"
  using assms
proof (induction l arbitrary: k)
  case (Cons c l)
  have "scan_char c (at (take LINE_MAX k) (length k) e 1) = Some (at (take LINE_MAX (k @ [c])) (length (k @ [c])) e 1)"
    using Cons.prems by (auto simp: scan_char_def)
  then have "scan_block ((c # l) @ r) (at (take LINE_MAX k) (length k) e 1) =
      scan_block (l @ r) (at (take LINE_MAX (k @ [c])) (length (k @ [c])) e 1)" by simp
  also have "\<dots> = scan_block r (at (take LINE_MAX ((k @ [c]) @ l)) (length ((k @ [c]) @ l)) e 1)"
    using Cons.prems by (intro Cons.IH) auto
  finally show ?case by simp
qed simp

lemma scan_phase01:
  assumes "\<forall>c\<in>set l. \<not> IsEol c" "l \<noteq> []" "\<not> empty_char (hd l)"
  shows "scan_block (l @ r) (at [] 0 e 0) = scan_block r (at (take LINE_MAX l) (length l) e 1)"
proof -
  obtain c l' where l: "l = c # l'" using assms(2) by (cases l) auto
  have "scan_char c (at [] 0 e 0) = Some (at (take LINE_MAX [c]) (length [c]) e 1)"
    using assms(3) l by (simp add: scan_char_def empty_char_def)
  then have "scan_block (l @ r) (at [] 0 e 0) = scan_block (l' @ r) (at (take LINE_MAX [c]) (length [c]) e 1)" by (simp add: l)
  also have "\<dots> = scan_block r (at (take LINE_MAX ([c] @ l')) (length ([c] @ l')) e 1)"
    using assms(1) l by (intro scan_phase1) auto
  finally show ?thesis by (simp add: l)
qed

lemma scan_phase2:
  "scan_block r (at b n e 2) = (dropWhile empty_char r \<noteq> [], at b n (e + length (takeWhile empty_char r)) 2)"
  by (induction r arbitrary: e) (auto simp: scan_char_def empty_char_def)

text \<open>The scan of a whole text.\<close>

lemma scan_text:
  assumes "s = dropWhile empty_char t" "l = takeWhile (\<lambda>c. \<not> IsEol c) s" "r = dropWhile (\<lambda>c. \<not> IsEol c) s" "n = length t - length s"
  shows "scan_block t scan_start =
    (if s = [] then (False, at [] 0 n 0)
     else if r = [] then (False, at (take LINE_MAX l) (length l) n 1)
     else (dropWhile empty_char r \<noteq> [], at (take LINE_MAX l) (length l) (n + length (takeWhile empty_char r)) 2))"
proof -
  have n: "n = length (takeWhile empty_char t)"
    unfolding assms(1,4) by (metis add_diff_cancel_right' length_append takeWhile_dropWhile_id)
  have e: "scan_block t scan_start = scan_block (l @ r) (at [] 0 n 0)"
    using scan_phase0 [of t "[]" 0 0] assms(1-3) n by (simp add: scan_start_def)
  show ?thesis
  proof (cases "s = []")
    case True
    then have "l = []" "r = []" using assms(2,3) by simp_all
    then show ?thesis using e True by simp
  next
    case False
    then have h: "\<not> empty_char (hd s)" unfolding assms(1) using hd_dropWhile by blast
    have ne: "l \<noteq> []" using False h unfolding assms(2) by (cases s) (auto simp: empty_char_def)
    have hl: "hd l = hd s" using ne unfolding assms(2) by (cases s) (auto split: if_splits)
    have "\<forall>c\<in>set l. \<not> IsEol c" unfolding assms(2) by (auto dest: set_takeWhileD)
    from scan_phase01 [OF this ne] h hl
    have e1: "scan_block t scan_start = scan_block r (at (take LINE_MAX l) (length l) n 1)" unfolding e by simp
    show ?thesis
    proof (cases r)
      case Nil then show ?thesis using e1 False by simp
    next
      case (Cons c r')
      have "IsEol c" using Cons unfolding assms(3) by (metis hd_dropWhile list.distinct(1) list.sel(1))
      then have "scan_block r (at (take LINE_MAX l) (length l) n 1) = scan_block r' (at (take LINE_MAX l) (length l) (n + 1) 2)"
        by (simp add: scan_char_def Cons)
      then show ?thesis using e1 False Cons \<open>IsEol c\<close> by (simp add: scan_phase2 empty_char_def)
    qed
  qed
qed

lemma extract_line_refines:
  assumes "queue_ok q"
  shows "\<exists>b q'. extract_one_line q = Some (length (fst (next_line (content q))), b, q') \<and> queue_ok q' \<and>
    content q' = snd (next_line (content q)) \<and> (fst (next_line (content q)) \<noteq> [] \<longrightarrow> b = fst (next_line (content q)))"
proof -
  define s where "s = dropWhile empty_char (content q)"
  define l where "l = takeWhile (\<lambda>c. \<not> IsEol c) s"
  define r where "r = dropWhile (\<lambda>c. \<not> IsEol c) s"
  define n where "n = length (content q) - length s"
  note S = scan_text [OF s_def l_def r_def n_def]
  have c: "content q = takeWhile empty_char (content q) @ s" "s = l @ r" "r = takeWhile empty_char r @ dropWhile empty_char r"
    unfolding s_def l_def r_def by simp_all
  have n: "length (takeWhile empty_char (content q)) = n" unfolding n_def using c(1) by (metis add_diff_cancel_right' length_append)
  have d0: "drop n (content q) = s" using c(1) n by (metis append_eq_conv_conj)
  have "drop (length l + (n + k)) (content q) = drop k r" for k
    using d0 c(2) by (metis add.commute append_eq_conv_conj drop_drop)
  then have d: "drop (length l + (n + length (takeWhile empty_char r))) (content q) = dropWhile empty_char r"
    by (simp add: dropWhile_eq_drop)
  have "length (content q) = n + length s" using c(1) n by (metis length_append)
  moreover have "length s = length l + length r" using c(2) by simp
  ultimately have len: "n \<le> length (content q)" "length l + (n + length (takeWhile empty_char r)) \<le> length (content q)"
    using length_takeWhile_le [of empty_char r] by simp_all
  have nl: "next_line (content q) = (if r = [] then ([], s) else (take LINE_MAX l, dropWhile empty_char r))"
    by (simp add: next_line_def s_def l_def r_def Let_def)
  have x: "scan_blocks (blocks q) scan_start = scan_block (content q) scan_start" by (simp add: scan_blocks_concat content_def)
  show ?thesis
  proof (cases "r = []")
    case True
    from dbuf_delete_refines [OF assms len(1)] d0 obtain q' where
      "dbuf_delete q n = Some q'" "queue_ok q'" "content q' = s" by auto
    moreover have "extract_one_line q = map_option (\<lambda>q'. (0, (if s = [] then [] else take LINE_MAX l), q')) (dbuf_delete q n)"
      using True by (simp add: extract_one_line_def x S Let_def)
    ultimately show ?thesis using True by (simp add: nl)
  next
    case False
    then have "s \<noteq> []" using c(2) by auto
    from dbuf_delete_refines [OF assms len(2)] d obtain q' where
      "dbuf_delete q (length l + (n + length (takeWhile empty_char r))) = Some q'" "queue_ok q'" "content q' = dropWhile empty_char r" by auto
    moreover have "extract_one_line q = map_option (\<lambda>q'. (min (length l) LINE_MAX, take LINE_MAX l, q'))
        (dbuf_delete q (length l + (n + length (takeWhile empty_char r))))"
      using False \<open>s \<noteq> []\<close> by (simp add: extract_one_line_def x S Let_def)
    ultimately show ?thesis using False by (simp add: nl)
  qed
qed

text \<open>
  C7: \<open>extract_one_line\<close> takes exactly the next line out of a queue, wherever the blocks are cut: it returns the
  line without what is empty around it, cut to 510 characters, with its length, and leaves the rest of
  the text; while no line is complete it returns 0, and only drops what is empty in front.
\<close>

theorem extract_one_line_correct:
  assumes "queue_ok q"
  shows "\<exists>b q'. extract_one_line q = Some (length (fst (next_line (content q))), b, q') \<and> queue_ok q' \<and>
    content q' = snd (next_line (content q)) \<and> (fst (next_line (content q)) \<noteq> [] \<longrightarrow> b = fst (next_line (content q)))"
  by (rule extract_line_refines [OF assms])

theorem extract_one_line_correct_witness:
  "\<exists>q'. extract_one_line \<lparr>blocks = [''  PI'', ''NG a'' @ [CHR 0x0D], [CHR 0x0A] @ ''NEXT''], total_size = 14\<rparr> = Some (6, ''PING a'', q') \<and>
     content q' = ''NEXT''"
proof -
  let ?q = "\<lparr>blocks = [''  PI'', ''NG a'' @ [CHR 0x0D], [CHR 0x0A] @ ''NEXT''], total_size = 14\<rparr>"
  have "queue_ok ?q" by (simp add: queue_ok_def content_def)
  moreover have "next_line (content ?q) = (''PING a'', ''NEXT'')"
    by (simp add: next_line_def content_def empty_char_def char_class)
  ultimately show ?thesis using extract_one_line_correct [of ?q] by auto
qed


subsection \<open>Handing lines on, and flood control\<close>

text \<open>
  What packet.c reads and writes of a connection.  \<open>parse\<close> and all that it calls is an argument \<open>f\<close> of the
  definitions below: a function of the line and the connection.
\<close>

record conn =
  cn_status :: nat
  cn_defunct :: bool
  cn_dead :: bool
  cn_oper :: bool
  cn_canflood :: bool
  cn_flood_done :: bool
  buf_recvq :: dbuf_queue
  allow_read :: int
  sent_parsed :: int
  recv_messages :: nat
  recv_bytes :: nat

record flood_config =
  no_oper_flood :: bool
  true_no_oper_flood :: bool
  client_flood :: nat

abbreviation MAX_FLOOD :: nat where "MAX_FLOOD \<equiv> 5"

definition conn_connecting :: "conn \<Rightarrow> bool" where "conn_connecting c \<longleftrightarrow> cn_status c = 0x01"
definition conn_handshake :: "conn \<Rightarrow> bool" where "conn_handshake c \<longleftrightarrow> cn_status c = 0x02"
definition conn_unknown :: "conn \<Rightarrow> bool" where "conn_unknown c \<longleftrightarrow> cn_status c = 0x08"
definition conn_server :: "conn \<Rightarrow> bool" where "conn_server c \<longleftrightarrow> cn_status c = 0x10"
definition conn_client :: "conn \<Rightarrow> bool" where "conn_client c \<longleftrightarrow> cn_status c = 0x20"

type_synonym line_handler = "string \<Rightarrow> conn \<Rightarrow> conn"

definition client_dopacket :: "line_handler \<Rightarrow> string \<Rightarrow> conn \<Rightarrow> conn" where
  "client_dopacket f l c = f l (c\<lparr>recv_messages := recv_messages c + 1, recv_bytes := recv_bytes c + length l\<rparr>)"

text \<open>One line out of the queue of a connection, \<open>None\<close> while there is none.\<close>

definition next_packet :: "conn \<Rightarrow> (string option \<times> conn) option" where
  "next_packet c = map_option (\<lambda>(dolen, l, q). (if dolen = 0 then None else Some l, c\<lparr>buf_recvq := q\<rparr>))
     (extract_one_line (buf_recvq c))"

fun unknown_loop :: "line_handler \<Rightarrow> nat \<Rightarrow> conn \<Rightarrow> conn option" where
  "unknown_loop f 0 c = Some c"
| "unknown_loop f (Suc i) c =
    (if cn_defunct c then Some c
     else do {
       (l, c1) \<leftarrow> next_packet c;
       case l of
         None \<Rightarrow> Some c1
       | Some line \<Rightarrow>
           (let c2 = client_dopacket f line c1 in if \<not> conn_unknown c2 then Some c2 else unknown_loop f i c2) })"

partial_function (option) server_loop :: "line_handler \<Rightarrow> conn \<Rightarrow> conn option" where
  "server_loop f c =
    (if cn_defunct c then Some c
     else do {
       (l, c1) \<leftarrow> next_packet c;
       case l of None \<Rightarrow> Some c1 | Some line \<Rightarrow> server_loop f (client_dopacket f line c1) })"

text \<open>\<open>checkflood\<close> is 1, or 0 and -1 for clients that may flood.\<close>

definition may_read :: "int \<Rightarrow> conn \<Rightarrow> bool" where
  "may_read checkflood c \<longleftrightarrow>
    \<not> (if 0 < checkflood then allow_read c \<le> sent_parsed c else 4 * allow_read c \<le> sent_parsed c \<and> checkflood \<noteq> -1)"

partial_function (option) client_loop :: "line_handler \<Rightarrow> int \<Rightarrow> conn \<Rightarrow> conn option" where
  "client_loop f checkflood c =
    (if cn_defunct c \<or> \<not> may_read checkflood c then Some c
     else do {
       (l, c1) \<leftarrow> next_packet c;
       case l of
         None \<Rightarrow> Some c1
       | Some line \<Rightarrow>
           (let c2 = client_dopacket f line c1 in client_loop f checkflood (c2\<lparr>sent_parsed := sent_parsed c2 + 1\<rparr>)) })"

definition checkflood_of :: "flood_config \<Rightarrow> conn \<Rightarrow> int" where
  "checkflood_of k c =
    (if no_oper_flood k \<and> (cn_oper c \<or> cn_canflood c) then (if true_no_oper_flood k then -1 else 0) else 1)"

definition parse_client_queued :: "flood_config \<Rightarrow> line_handler \<Rightarrow> conn \<Rightarrow> conn option" where
  "parse_client_queued k f c = do {
     c1 \<leftarrow> (if conn_unknown c then unknown_loop f MAX_FLOOD c else Some c);
     if conn_unknown c \<and> cn_defunct c1 then Some c1
     else if conn_server c1 \<or> conn_connecting c1 \<or> conn_handshake c1 then server_loop f c1
     else if conn_client c1 then client_loop f (checkflood_of k c1) c1
     else Some c1 }"

definition flood_endgrace :: "conn \<Rightarrow> conn" where
  "flood_endgrace c = c\<lparr>cn_flood_done := True, allow_read := int MAX_FLOOD, sent_parsed := 0\<rparr>"

definition flood_recalc :: "flood_config \<Rightarrow> line_handler \<Rightarrow> conn \<Rightarrow> conn option" where
  "flood_recalc k f c =
    (let s = (if cn_flood_done c then sent_parsed c - 2 else 0) in
     parse_client_queued k f (c\<lparr>sent_parsed := (if s < 0 then 0 else s)\<rparr>))"

text \<open>What \<open>read_packet\<close> does with the data one successful read gives; the result says whether it exits the client.\<close>

definition read_data :: "flood_config \<Rightarrow> line_handler \<Rightarrow> string \<Rightarrow> conn \<Rightarrow> (bool \<times> conn) option" where
  "read_data k f data c = do {
     q \<leftarrow> dbuf_put (buf_recvq c) data;
     c1 \<leftarrow> parse_client_queued k f (c\<lparr>buf_recvq := q\<rparr>);
     Some (\<not> cn_defunct c1 \<and> \<not> (conn_server c1 \<or> conn_handshake c1 \<or> conn_connecting c1) \<and>
       client_flood k < dbuf_length (buf_recvq c1) \<and> \<not> (no_oper_flood k \<and> cn_oper c1), c1) }"


text \<open>What a line handler must leave alone for its connection to be served to the end.\<close>

definition keeps_queue :: "line_handler \<Rightarrow> bool" where
  "keeps_queue f \<longleftrightarrow> (\<forall>l c. queue_ok (buf_recvq c) \<longrightarrow> queue_ok (buf_recvq (f l c)) \<and>
     length (content (buf_recvq (f l c))) \<le> length (content (buf_recvq c)))"

lemma next_line_shrinks:
  "length (snd (next_line t)) \<le> length t" "fst (next_line t) \<noteq> [] \<Longrightarrow> length (snd (next_line t)) < length t"
proof -
  define s where "s = dropWhile empty_char t"
  have a: "length s \<le> length t" unfolding s_def by (rule length_dropWhile_le)
  have b: "length (dropWhile empty_char (dropWhile (\<lambda>c. \<not> IsEol c) s)) \<le> length (dropWhile (\<lambda>c. \<not> IsEol c) s)"
    by (rule length_dropWhile_le)
  have c: "length s = length (takeWhile (\<lambda>c. \<not> IsEol c) s) + length (dropWhile (\<lambda>c. \<not> IsEol c) s)"
    by (metis length_append takeWhile_dropWhile_id)
  define l where "l = takeWhile (\<lambda>c. \<not> IsEol c) s"
  define r where "r = dropWhile (\<lambda>c. \<not> IsEol c) s"
  define r' where "r' = dropWhile empty_char r"
  show "length (snd (next_line t)) \<le> length t" "fst (next_line t) \<noteq> [] \<Longrightarrow> length (snd (next_line t)) < length t"
    using a b c unfolding next_line_def Let_def s_def [symmetric] l_def [symmetric] r_def [symmetric] r'_def [symmetric]
    by (cases l; simp split: if_splits)+
qed

lemma next_packet_ok:
  assumes "queue_ok (buf_recvq c)"
  shows "\<exists>l q. next_packet c = Some (l, c\<lparr>buf_recvq := q\<rparr>) \<and> queue_ok q \<and>
    length (content q) \<le> length (content (buf_recvq c)) \<and> (l \<noteq> None \<longrightarrow> length (content q) < length (content (buf_recvq c)))"
proof -
  let ?n = "next_line (content (buf_recvq c))"
  obtain b q where e: "extract_one_line (buf_recvq c) = Some (length (fst ?n), b, q)" "queue_ok q" "content q = snd ?n"
    using extract_line_refines [OF assms] by blast
  have "next_packet c = Some (if fst ?n = [] then None else Some b, c\<lparr>buf_recvq := q\<rparr>)" by (simp add: next_packet_def e(1))
  then show ?thesis using e(2,3) next_line_shrinks [of "content (buf_recvq c)"] by auto
qed

text \<open>One turn of a loop that has found a line.\<close>

lemma turn_ok:
  assumes "keeps_queue f" "queue_ok q"
  shows "queue_ok (buf_recvq (client_dopacket f l (c\<lparr>buf_recvq := q\<rparr>)))"
    "length (content (buf_recvq (client_dopacket f l (c\<lparr>buf_recvq := q\<rparr>)))) \<le> length (content q)"
proof -
  let ?c = "c\<lparr>buf_recvq := q, recv_messages := recv_messages c + 1, recv_bytes := recv_bytes c + length l\<rparr>"
  have "queue_ok (buf_recvq (f l ?c)) \<and> length (content (buf_recvq (f l ?c))) \<le> length (content (buf_recvq ?c))"
    using assms(1) [unfolded keeps_queue_def, rule_format, of ?c l] assms(2) by simp
  then show "queue_ok (buf_recvq (client_dopacket f l (c\<lparr>buf_recvq := q\<rparr>)))"
    "length (content (buf_recvq (client_dopacket f l (c\<lparr>buf_recvq := q\<rparr>)))) \<le> length (content q)"
    by (simp_all add: client_dopacket_def)
qed

lemma unknown_loop_total:
  assumes "keeps_queue f" "queue_ok (buf_recvq c)"
  shows "\<exists>c'. unknown_loop f i c = Some c' \<and> queue_ok (buf_recvq c')"
  using assms(2)
proof (induction i arbitrary: c)
  case (Suc i)
  obtain l q where n: "next_packet c = Some (l, c\<lparr>buf_recvq := q\<rparr>)" "queue_ok q"
    using next_packet_ok [OF Suc.prems] by blast
  show ?case
  proof (cases l)
    case None then show ?thesis using n Suc.prems by simp
  next
    case (Some line)
    with n Suc.IH [OF turn_ok(1) [OF assms(1) n(2)]] turn_ok(1) [OF assms(1) n(2)] Suc.prems show ?thesis
      by (auto simp: Let_def)
  qed
qed simp

lemma server_loop_total:
  assumes "keeps_queue f" "queue_ok (buf_recvq c)"
  shows "\<exists>c'. server_loop f c = Some c' \<and> queue_ok (buf_recvq c')"
  using assms(2)
proof (induction "length (content (buf_recvq c))" arbitrary: c rule: less_induct)
  case less
  obtain l q where n: "next_packet c = Some (l, c\<lparr>buf_recvq := q\<rparr>)" "queue_ok q"
      "l \<noteq> None \<Longrightarrow> length (content q) < length (content (buf_recvq c))"
    using next_packet_ok [OF less.prems] by blast
  show ?case
  proof (cases l)
    case None then show ?thesis using n less.prems by (simp add: server_loop.simps [of f c])
  next
    case (Some line)
    note t = turn_ok [OF assms(1) n(2), of line c]
    from less.hyps [OF _ t(1)] t(2) n(3) Some have
      "\<exists>c'. server_loop f (client_dopacket f line (c\<lparr>buf_recvq := q\<rparr>)) = Some c' \<and> queue_ok (buf_recvq c')" by auto
    then show ?thesis using n(1) Some less.prems by (simp add: server_loop.simps [of f c])
  qed
qed

lemma client_loop_total:
  assumes "keeps_queue f" "queue_ok (buf_recvq c)"
  shows "\<exists>c'. client_loop f k c = Some c' \<and> queue_ok (buf_recvq c')"
  using assms(2)
proof (induction "length (content (buf_recvq c))" arbitrary: c rule: less_induct)
  case less
  obtain l q where n: "next_packet c = Some (l, c\<lparr>buf_recvq := q\<rparr>)" "queue_ok q"
      "l \<noteq> None \<Longrightarrow> length (content q) < length (content (buf_recvq c))"
    using next_packet_ok [OF less.prems] by blast
  show ?case
  proof (cases l)
    case None then show ?thesis using n less.prems by (simp add: client_loop.simps [of f k c])
  next
    case (Some line)
    let ?c = "client_dopacket f line (c\<lparr>buf_recvq := q\<rparr>)"
    note t = turn_ok [OF assms(1) n(2), of line c]
    have "\<exists>c'. client_loop f k (?c\<lparr>sent_parsed := sent_parsed ?c + 1\<rparr>) = Some c' \<and> queue_ok (buf_recvq c')"
      using t n(3) Some by (intro less.hyps) auto
    then show ?thesis using n(1) Some less.prems by (simp add: client_loop.simps [of f k c] Let_def)
  qed
qed

lemma parse_client_queued_total:
  assumes "keeps_queue f" "queue_ok (buf_recvq c)"
  shows "\<exists>c'. parse_client_queued k f c = Some c' \<and> queue_ok (buf_recvq c')"
proof -
  obtain c1 where c1: "(if conn_unknown c then unknown_loop f MAX_FLOOD c else Some c) = Some c1" "queue_ok (buf_recvq c1)"
    using unknown_loop_total [OF assms, of MAX_FLOOD] assms(2) by (cases "conn_unknown c") auto
  show ?thesis
    using server_loop_total [OF assms(1) c1(2)] client_loop_total [OF assms(1) c1(2)] c1
    unfolding parse_client_queued_def c1(1) by auto
qed

text \<open>A handler that, besides, leaves the accounting of the connection alone.\<close>

definition account :: "conn \<Rightarrow> nat \<times> bool \<times> bool \<times> bool \<times> int \<times> int \<times> nat" where
  "account c = (cn_status c, cn_oper c, cn_canflood c, cn_flood_done c, allow_read c, sent_parsed c, recv_messages c)"

definition quiet :: "line_handler \<Rightarrow> bool" where
  "quiet f \<longleftrightarrow> keeps_queue f \<and> (\<forall>l c. account (f l c) = account c)"

text \<open>How far a connection may have got since it was \<open>c\<close>.\<close>

definition served :: "conn \<Rightarrow> conn \<Rightarrow> bool" where
  "served c c' \<longleftrightarrow> cn_status c' = cn_status c \<and> cn_oper c' = cn_oper c \<and> cn_canflood c' = cn_canflood c \<and>
     cn_flood_done c' = cn_flood_done c \<and> allow_read c' = allow_read c \<and> queue_ok (buf_recvq c') \<and>
     sent_parsed c \<le> sent_parsed c' \<and> sent_parsed c' \<le> max (sent_parsed c) (allow_read c) \<and>
     int (recv_messages c') = int (recv_messages c) + (sent_parsed c' - sent_parsed c)"

lemma client_loop_served:
  assumes "quiet f" "queue_ok (buf_recvq c)"
  shows "\<exists>c'. client_loop f 1 c = Some c' \<and> served c c'"
  using assms(2)
proof (induction "length (content (buf_recvq c))" arbitrary: c rule: less_induct)
  case less
  have kq: "keeps_queue f" using assms(1) by (simp add: quiet_def)
  obtain l q where n: "next_packet c = Some (l, c\<lparr>buf_recvq := q\<rparr>)" "queue_ok q"
      "l \<noteq> None \<Longrightarrow> length (content q) < length (content (buf_recvq c))"
    using next_packet_ok [OF less.prems] by blast
  show ?case
  proof (cases "cn_defunct c \<or> \<not> may_read 1 c \<or> l = None")
    case True then show ?thesis using n less.prems by (auto simp: client_loop.simps [of f 1 c] served_def)
  next
    case False
    then obtain line where l: "l = Some line" by auto
    let ?c = "client_dopacket f line (c\<lparr>buf_recvq := q\<rparr>)" and ?c' = "\<lambda>c. c\<lparr>sent_parsed := sent_parsed c + 1\<rparr>"
    note t = turn_ok [OF kq n(2), of line c]
    have a: "account ?c = account (c\<lparr>recv_messages := recv_messages c + 1\<rparr>)"
      using assms(1) by (simp add: quiet_def client_dopacket_def account_def)
    obtain c' where c': "client_loop f 1 (?c' ?c) = Some c'" "served (?c' ?c) c'"
      using less.hyps [of "?c' ?c"] t n(3) l by auto
    have "served c c'" using c'(2) a False by (auto simp: served_def account_def may_read_def)
    then show ?thesis using c'(1) n(1) l False by (simp add: client_loop.simps [of f 1 c] Let_def)
  qed
qed

text \<open>A connection of a client: data arrives and seconds pass, in any order.\<close>

inductive flood_run :: "flood_config \<Rightarrow> line_handler \<Rightarrow> conn \<Rightarrow> nat \<Rightarrow> conn \<Rightarrow> bool" for k f c where
  start: "flood_run k f c 0 c"
| arrive: "flood_run k f c n c1 \<Longrightarrow> read_data k f data c1 = Some (exit, c2) \<Longrightarrow> flood_run k f c n c2"
| second: "flood_run k f c n c1 \<Longrightarrow> flood_recalc k f c1 = Some c2 \<Longrightarrow> flood_run k f c (Suc n) c2"

definition within_rate :: "conn \<Rightarrow> nat \<Rightarrow> conn \<Rightarrow> bool" where
  "within_rate c n c' \<longleftrightarrow> cn_status c' = cn_status c \<and> cn_oper c' = cn_oper c \<and> cn_canflood c' = cn_canflood c \<and>
     cn_flood_done c' = cn_flood_done c \<and> allow_read c' = allow_read c \<and> queue_ok (buf_recvq c') \<and>
     0 \<le> sent_parsed c' \<and> sent_parsed c' \<le> allow_read c \<and>
     int (recv_messages c') \<le> int (recv_messages c) + sent_parsed c' + 2 * int n"

lemma parse_client_served:
  assumes "quiet f" "conn_client c" "checkflood_of k c = 1" "queue_ok (buf_recvq c)" "parse_client_queued k f c = Some c'"
  shows "served c c'"
proof -
  have "parse_client_queued k f c = client_loop f 1 c"
    using assms(2,3) by (simp add: parse_client_queued_def conn_client_def conn_unknown_def conn_server_def
        conn_connecting_def conn_handshake_def)
  then show ?thesis using client_loop_served [OF assms(1,4)] assms(5) by auto
qed

lemma checkflood_cong:
  "cn_oper c' = cn_oper c \<Longrightarrow> cn_canflood c' = cn_canflood c \<Longrightarrow> checkflood_of k c' = checkflood_of k c"
  by (simp add: checkflood_of_def)

lemma flood_run_rate:
  assumes "flood_run k f c n c'" "quiet f" "conn_client c" "checkflood_of k c = 1" "cn_flood_done c" "queue_ok (buf_recvq c)"
    "0 \<le> sent_parsed c" "sent_parsed c \<le> allow_read c"
  shows "within_rate c n c'"
  using assms(1)
proof induction
  case start then show ?case using assms by (simp add: within_rate_def)
next
  case (arrive n c1 data exit c2)
  then obtain q where q: "dbuf_put (buf_recvq c1) data = Some q" "parse_client_queued k f (c1\<lparr>buf_recvq := q\<rparr>) = Some c2"
    by (auto simp: read_data_def split: bind_splits)
  have "queue_ok q"
    using dbuf_put_refines [of "buf_recvq c1" data] q(1) arrive.IH by (auto simp: within_rate_def dbuf_put_def split: if_splits)
  with parse_client_served [OF assms(2) _ _ _ q(2)] arrive.IH assms(3,4) checkflood_cong [of c1 c k]
  have "served (c1\<lparr>buf_recvq := q\<rparr>) c2" by (simp add: within_rate_def conn_client_def checkflood_of_def)
  then show ?case using arrive.IH by (auto simp: within_rate_def served_def)
next
  case (second n c1 c2)
  let ?c = "c1\<lparr>sent_parsed := max 0 (sent_parsed c1 - 2)\<rparr>"
  have p: "parse_client_queued k f ?c = Some c2"
    using second.hyps(2) second.IH assms(5) by (simp add: flood_recalc_def within_rate_def Let_def max_def split: if_splits)
  have "served ?c c2"
    using parse_client_served [OF assms(2) _ _ _ p] second.IH assms(3,4) checkflood_cong [of c1 c k]
    by (simp add: within_rate_def conn_client_def checkflood_of_def)
  then show ?case using second.IH by (auto simp: within_rate_def served_def)
qed



definition a_conn :: conn where
  "a_conn = \<lparr>cn_status = 0x20, cn_defunct = False, cn_dead = False, cn_oper = False, cn_canflood = False, cn_flood_done = True,
     buf_recvq = \<lparr>blocks = [], total_size = 0\<rparr>, allow_read = 5, sent_parsed = 5, recv_messages = 5, recv_bytes = 60\<rparr>"

definition a_flood_config :: flood_config where
  "a_flood_config = \<lparr>no_oper_flood = True, true_no_oper_flood = False, client_flood = 2560\<rparr>"


end
