(* ===== verification/Parse.thy ===== *)
theory Parse
  imports Ircd_Prelude Char_Tables "HOL-Library.Monad_Syntax"
begin

section \<open>The message parser\<close>

text \<open>
  parse.c: the tree of command names, the splitting of a line into its prefix, command and parameters, and the
  dispatch to a handler, with the checks on the way.
\<close>

subsection \<open>The tree of commands\<close>

text \<open>A message is referred to by its number; \<open>pointers\<close> has an entry for each index below \<open>MAXPTRLEN\<close>.\<close>

abbreviation MAXPTRLEN :: nat where "MAXPTRLEN \<equiv> 32"

datatype mtree = MessageTree (tlinks: int) (tmsg: "nat option") (pointers: "nat \<Rightarrow> mtree option")

definition empty_tree :: mtree where
  "empty_tree = MessageTree 0 None (\<lambda>_. None)"

definition ptr_index :: "char \<Rightarrow> nat" where
  "ptr_index c = of_char c mod MAXPTRLEN"

fun add_msg_element :: "nat \<Rightarrow> string \<Rightarrow> mtree \<Rightarrow> mtree" where
  "add_msg_element m [] t = MessageTree (tlinks t + 1) (Some m) (pointers t)"
| "add_msg_element m (c # cmd) t =
    (case pointers t (ptr_index c) of
       None \<Rightarrow> MessageTree (tlinks t + 1) (tmsg t) ((pointers t)(ptr_index c \<mapsto> add_msg_element m cmd empty_tree))
     | Some n \<Rightarrow> MessageTree (tlinks t) (tmsg t) ((pointers t)(ptr_index c \<mapsto> add_msg_element m cmd n)))"

text \<open>
  At the end of a name that has no message the code goes on through \<open>pointers[0]\<close> and past the end of the name;
  that is \<open>None\<close> here, unless the pointer is null.
\<close>

fun del_msg_element :: "string \<Rightarrow> mtree \<Rightarrow> mtree option" where
  "del_msg_element [] t =
    (if tmsg t \<noteq> None then Some (MessageTree (tlinks t - 1) None (pointers t))
     else if pointers t 0 = None then Some t else None)"
| "del_msg_element (c # cmd) t =
    (case pointers t (ptr_index c) of
       None \<Rightarrow> Some t
     | Some n \<Rightarrow> do {
         n' \<leftarrow> del_msg_element cmd n;
         Some (if tlinks n' = 0 then MessageTree (tlinks t - 1) (tmsg t) ((pointers t)(ptr_index c := None))
               else MessageTree (tlinks t) (tmsg t) ((pointers t)(ptr_index c \<mapsto> n'))) })"

fun msg_tree_parse :: "string \<Rightarrow> mtree \<Rightarrow> nat option" where
  "msg_tree_parse [] t = None"
| "msg_tree_parse (c # cmd) t =
    (if IsAlpha c then
       (case pointers t (ptr_index c) of
          None \<Rightarrow> None
        | Some n \<Rightarrow> (if cmd = [] then tmsg n else msg_tree_parse cmd n))
     else None)"

record message =
  msg_cmd :: string
  msg_count :: nat
  msg_rcount :: nat
  msg_parameters :: nat
  msg_unreg :: bool
  msg_bytes :: nat

record command_table =
  msg_tree :: mtree
  messages :: "nat \<Rightarrow> message"

definition clear_tree_parse :: "command_table \<Rightarrow> command_table" where
  "clear_tree_parse st = st\<lparr>msg_tree := empty_tree\<rparr>"

definition find_command :: "string \<Rightarrow> command_table \<Rightarrow> nat option" where
  "find_command cmd st = msg_tree_parse cmd (msg_tree st)"

definition mod_add_cmd :: "nat \<Rightarrow> command_table \<Rightarrow> command_table" where
  "mod_add_cmd m st =
    (if find_command (msg_cmd (messages st m)) st \<noteq> None then st
     else st\<lparr>msg_tree := add_msg_element m (msg_cmd (messages st m)) (msg_tree st),
       messages := (messages st)(m := (messages st m)\<lparr>msg_count := 0, msg_rcount := 0, msg_bytes := 0\<rparr>)\<rparr>)"

definition mod_del_cmd :: "nat \<Rightarrow> command_table \<Rightarrow> command_table option" where
  "mod_del_cmd m st = map_option (\<lambda>t. st\<lparr>msg_tree := t\<rparr>) (del_msg_element (msg_cmd (messages st m)) (msg_tree st))"

subsection \<open>The tree as a map\<close>

fun look :: "mtree \<Rightarrow> nat list \<Rightarrow> nat option" where
  "look t [] = tmsg t"
| "look t (i # p) = (case pointers t i of None \<Rightarrow> None | Some n \<Rightarrow> look n p)"

text \<open>Names that differ in case, or in the characters that fold with it, have the same path.\<close>

definition path :: "string \<Rightarrow> nat list" where
  "path cmd = map ptr_index cmd"

definition command_name :: "string \<Rightarrow> bool" where
  "command_name cmd \<longleftrightarrow> cmd \<noteq> [] \<and> (\<forall>c\<in>set cmd. IsAlpha c)"

text \<open>\<open>links\<close> counts what a node refers to, and no node but the root refers to nothing.\<close>

inductive tree_ok :: "mtree \<Rightarrow> bool" where
  "tlinks t = int (card (dom (pointers t))) + (if tmsg t = None then 0 else 1) \<Longrightarrow> finite (dom (pointers t)) \<Longrightarrow>
   (\<And>i n. pointers t i = Some n \<Longrightarrow> 1 \<le> i \<and> i < MAXPTRLEN \<and> 0 < tlinks n \<and> tree_ok n) \<Longrightarrow> tree_ok t"

inductive_cases tree_okE: "tree_ok t"

lemma tree_okD:
  assumes "tree_ok t"
  shows "tlinks t = int (card (dom (pointers t))) + (if tmsg t = None then 0 else 1)" "finite (dom (pointers t))"
    "pointers t i = Some n \<Longrightarrow> 1 \<le> i \<and> i < MAXPTRLEN \<and> 0 < tlinks n \<and> tree_ok n"
  using assms by (auto elim: tree_okE)

lemma ptr_index_alpha: "IsAlpha c \<Longrightarrow> 1 \<le> ptr_index c \<and> ptr_index c < MAXPTRLEN"
proof -
  assume "IsAlpha c"
  then have "65 \<le> n \<and> n \<le> 94 \<or> 97 \<le> n \<and> n \<le> 126" if "n = of_char c" for n :: nat
    using that by (simp add: IsAlpha_iff)
  moreover have "n mod 32 = n - 64" if "65 \<le> n" "n \<le> 94" for n :: nat using that by (intro mod_nat_eqI) auto
  moreover have "n mod 32 = n - 96" if "97 \<le> n" "n \<le> 126" for n :: nat using that by (intro mod_nat_eqI) auto
  ultimately have "1 \<le> n mod 32 \<and> n mod 32 < 32" if "n = of_char c" for n :: nat using that by fastforce
  then show ?thesis unfolding ptr_index_def by blast
qed

lemma look_empty [simp]: "look empty_tree p = None"
  by (cases p) (simp_all add: empty_tree_def)

lemma tree_ok_empty [simp]: "tree_ok empty_tree"
  by (rule tree_ok.intros) (simp_all add: empty_tree_def)

lemma tree_ok_set:
  assumes "tree_ok t" "tree_ok n" "0 < tlinks n" "1 \<le> i" "i < MAXPTRLEN"
  shows "tree_ok (MessageTree (if pointers t i = None then tlinks t + 1 else tlinks t) (tmsg t) ((pointers t)(i \<mapsto> n)))"
proof -
  note T = tree_okD [OF assms(1)]
  have s: "dom ((pointers t)(i \<mapsto> n)) = insert i (dom (pointers t))" by auto
  have "card (insert i (dom (pointers t))) =
      (if pointers t i = None then Suc (card (dom (pointers t))) else card (dom (pointers t)))"
    using T(2) by (simp add: card_insert_if domIff)
  then show ?thesis
    using assms T unfolding s by (intro tree_ok.intros) (auto simp: s split: if_splits)
qed

lemma tree_ok_unset:
  assumes "tree_ok t" "pointers t i \<noteq> None"
  shows "tree_ok (MessageTree (tlinks t - 1) (tmsg t) ((pointers t)(i := None)))"
proof -
  note T = tree_okD [OF assms(1)]
  have s: "dom ((pointers t)(i := None)) = (dom (pointers t)) - {i}" by auto
  have "i \<in> dom (pointers t)" using assms(2) by (simp add: domIff)
  then have "card (dom (pointers t)) = Suc (card (dom (pointers t) - {i}))"
    using T(2) by (simp only: card_Suc_Diff1)
  then show ?thesis
    using T by (intro tree_ok.intros) (auto simp: s split: if_splits)
qed

lemma add_links: "cmd \<noteq> [] \<or> tmsg t = None \<Longrightarrow> tree_ok t \<Longrightarrow> 0 < tlinks (add_msg_element m cmd t)"
proof (cases cmd)
  case (Cons c r)
  assume t: "tree_ok t"
  have "pointers t (ptr_index c) \<noteq> None \<Longrightarrow> 0 < card (dom (pointers t))"
    using tree_okD(2) [OF t] by (auto simp: card_gt_0_iff)
  then show ?thesis using tree_okD(1) [OF t] Cons by (auto split: option.splits)
qed (auto dest: tree_okD(1))

lemma add_correct:
  assumes "tree_ok t" "\<forall>c\<in>set cmd. IsAlpha c" "look t (path cmd) = None"
  shows "tree_ok (add_msg_element m cmd t) \<and> look (add_msg_element m cmd t) p = (if p = path cmd then Some m else look t p)"
  using assms
proof (induction cmd arbitrary: t p)
  case Nil
  note T = tree_okD [OF Nil.prems(1)]
  have "tree_ok (MessageTree (tlinks t + 1) (Some m) (pointers t))"
    using T Nil.prems(3) by (intro tree_ok.intros) (auto simp: path_def)
  then show ?case by (cases p) (auto simp: path_def)
next
  case (Cons c cmd)
  let ?i = "ptr_index c" and ?n = "case pointers t (ptr_index c) of None \<Rightarrow> empty_tree | Some n \<Rightarrow> n"
  have i: "1 \<le> ?i" "?i < MAXPTRLEN" using ptr_index_alpha Cons.prems(2) by auto
  have n: "tree_ok ?n" using tree_okD(3) [OF Cons.prems(1)] by (auto split: option.splits)
  have ln: "look ?n q = (case pointers t ?i of None \<Rightarrow> None | Some n \<Rightarrow> look n q)" for q by (simp split: option.splits)
  have "look ?n (path cmd) = None" using Cons.prems(3) by (simp add: path_def split: option.splits)
  with Cons.IH [OF n] Cons.prems(2) have ih: "tree_ok (add_msg_element m cmd ?n)"
      "look (add_msg_element m cmd ?n) q = (if q = path cmd then Some m else look ?n q)" for q by simp_all
  have l: "0 < tlinks (add_msg_element m cmd ?n)"
    using add_links [OF _ n, of cmd m] Cons.prems(3) by (cases cmd) (auto simp: path_def empty_tree_def split: option.splits)
  have e: "add_msg_element m (c # cmd) t =
      MessageTree (if pointers t ?i = None then tlinks t + 1 else tlinks t) (tmsg t) ((pointers t)(?i \<mapsto> add_msg_element m cmd ?n))"
    by (simp split: option.splits)
  have "tree_ok (add_msg_element m (c # cmd) t)" unfolding e by (rule tree_ok_set [OF Cons.prems(1) ih(1) l i])
  moreover have "look (add_msg_element m (c # cmd) t) p = (if p = path (c # cmd) then Some m else look t p)"
    unfolding e by (cases p) (auto simp: ih(2) ln path_def split: option.splits)
  ultimately show ?case ..
qed

lemma no_links: "tree_ok t \<Longrightarrow> tlinks t = 0 \<Longrightarrow> look t p = None"
proof -
  assume t: "tree_ok t" "tlinks t = 0"
  note T = tree_okD(1,2) [OF t(1)]
  have "card (dom (pointers t)) = 0" "tmsg t = None" using T(1) t(2) by (auto split: if_splits)
  then have "pointers t i = None" for i using T(2) by auto
  with \<open>tmsg t = None\<close> show ?thesis by (cases p) auto
qed

lemma links_nonneg: "tree_ok t \<Longrightarrow> 0 \<le> tlinks t"
  by (auto dest: tree_okD(1))

lemma del_correct:
  assumes "tree_ok t" "\<forall>c\<in>set cmd. IsAlpha c"
  shows "\<exists>t'. del_msg_element cmd t = Some t' \<and> tree_ok t' \<and> (\<forall>p. look t' p = (if p = path cmd then None else look t p))"
  using assms
proof (induction cmd arbitrary: t)
  case Nil
  note T = tree_okD [OF Nil.prems(1)]
  have z: "pointers t 0 = None" using T(3) [of 0] by (cases "pointers t 0") auto
  show ?case
  proof (cases "tmsg t")
    case None
    then show ?thesis using z Nil.prems by (auto simp: path_def)
  next
    case (Some m)
    have "tree_ok (MessageTree (tlinks t - 1) None (pointers t))" using T Some by (intro tree_ok.intros) auto
    moreover have "look (MessageTree (tlinks t - 1) None (pointers t)) p = (if p = [] then None else look t p)" for p by (cases p) auto
    ultimately show ?thesis using Some by (simp add: path_def)
  qed
next
  case (Cons c cmd)
  let ?i = "ptr_index c"
  have i: "1 \<le> ?i" "?i < MAXPTRLEN" using ptr_index_alpha Cons.prems(2) by auto
  show ?case
  proof (cases "pointers t ?i")
    case None then show ?thesis using Cons.prems by (auto simp: path_def)
  next
    case (Some n)
    with tree_okD(3) [OF Cons.prems(1)] have n: "tree_ok n" by blast
    from Cons.IH [OF this] Cons.prems(2) obtain n' where n': "del_msg_element cmd n = Some n'" "tree_ok n'"
        "\<And>p. look n' p = (if p = path cmd then None else look n p)" by auto
    show ?thesis
    proof (cases "tlinks n' = 0")
      case True
      let ?t = "MessageTree (tlinks t - 1) (tmsg t) ((pointers t)(?i := None))"
      have "look ?t p = (if p = path (c # cmd) then None else look t p)" for p
      proof (cases p)
        case (Cons j q)
        have "q = path cmd \<or> look n q = None" using no_links [OF n'(2) True, of q] n'(3) [of q] by (auto split: if_splits)
        then show ?thesis using Cons Some by (auto simp: path_def)
      qed (simp add: path_def)
      with tree_ok_unset [OF Cons.prems(1), of ?i] Some n'(1) True show ?thesis by auto
    next
      case False
      let ?t = "MessageTree (tlinks t) (tmsg t) ((pointers t)(?i \<mapsto> n'))"
      have "tree_ok ?t" using tree_ok_set [OF Cons.prems(1) n'(2) _ i] links_nonneg [OF n'(2)] False Some by simp
      moreover have "look ?t p = (if p = path (c # cmd) then None else look t p)" for p
        using n'(3) Some by (cases p) (auto simp: path_def)
      ultimately show ?thesis using Some n'(1) False by auto
    qed
  qed
qed

lemma parse_is_look: "msg_tree_parse cmd t = (if command_name cmd then look t (path cmd) else None)"
proof (induction cmd arbitrary: t)
  case (Cons c cmd)
  show ?case
  proof (cases "cmd = []")
    case False
    then show ?thesis by (simp add: Cons.IH command_name_def path_def split: option.splits)
  qed (simp add: command_name_def path_def split: option.splits)
qed (simp add: command_name_def)

text \<open>Adding a name that is not there and deleting it again gives the same tree, with every node freed.\<close>

lemma del_add:
  assumes "tree_ok t" "\<forall>c\<in>set cmd. IsAlpha c" "look t (path cmd) = None"
  shows "del_msg_element cmd (add_msg_element m cmd t) = Some t"
  using assms
proof (induction cmd arbitrary: t)
  case Nil
  then have "tmsg t = None" by (simp add: path_def)
  then show ?case by (cases t) simp
next
  case (Cons c cmd)
  show ?case
  proof (cases "pointers t (ptr_index c)")
    case None
    have "del_msg_element cmd (add_msg_element m cmd empty_tree) = Some empty_tree"
      using Cons.IH [of empty_tree] Cons.prems(2) by simp
    then show ?thesis using None by (cases t) (auto simp: empty_tree_def)
  next
    case (Some n)
    note n = tree_okD(3) [OF Cons.prems(1) Some]
    have "del_msg_element cmd (add_msg_element m cmd n) = Some n"
      using Cons.IH [of n] n Cons.prems(2,3) Some by (simp add: path_def)
    then show ?thesis using Some n by (cases t) auto
  qed
qed


definition table_ok :: "command_table \<Rightarrow> bool" where
  "table_ok st \<longleftrightarrow> tree_ok (msg_tree st)"

lemma find_command_look:
  "find_command cmd st = (if command_name cmd then look (msg_tree st) (path cmd) else None)"
  by (simp add: find_command_def parse_is_look)

lemma mod_add_correct:
  assumes "table_ok st" "command_name (msg_cmd (messages st m))"
  shows "table_ok (mod_add_cmd m st)"
    "find_command cmd (mod_add_cmd m st) = (case find_command cmd st of
      Some k \<Rightarrow> Some k
    | None \<Rightarrow> if command_name cmd \<and> path cmd = path (msg_cmd (messages st m)) then Some m else None)"
proof -
  let ?n = "msg_cmd (messages st m)"
  have a: "\<forall>c\<in>set ?n. IsAlpha c" using assms(2) by (simp add: command_name_def)
  have "tree_ok (msg_tree st)" using assms(1) by (simp add: table_ok_def)
  note A = add_correct [OF this a]
  show "table_ok (mod_add_cmd m st)"
    using assms A by (auto simp: mod_add_cmd_def find_command_look table_ok_def)
  show "find_command cmd (mod_add_cmd m st) = (case find_command cmd st of
      Some k \<Rightarrow> Some k
    | None \<Rightarrow> if command_name cmd \<and> path cmd = path ?n then Some m else None)"
  proof (cases "find_command ?n st")
    case None
    then have "look (msg_tree st) (path ?n) = None" using assms(2) by (simp add: find_command_look)
    then show ?thesis using A None by (auto simp: mod_add_cmd_def find_command_look split: option.splits)
  next
    case (Some k)
    then show ?thesis using assms(2) by (auto simp: mod_add_cmd_def find_command_look split: option.splits)
  qed
qed

lemma mod_del_correct:
  assumes "table_ok st" "command_name (msg_cmd (messages st m))"
  shows "\<exists>st'. mod_del_cmd m st = Some st' \<and> table_ok st' \<and>
    (\<forall>cmd. find_command cmd st' = (if path cmd = path (msg_cmd (messages st m)) then None else find_command cmd st))"
proof -
  have "tree_ok (msg_tree st)" using assms(1) by (simp add: table_ok_def)
  from del_correct [OF this, of "msg_cmd (messages st m)"] assms(2) obtain t' where
    "del_msg_element (msg_cmd (messages st m)) (msg_tree st) = Some t'" "tree_ok t'"
    "\<And>p. look t' p = (if p = path (msg_cmd (messages st m)) then None else look (msg_tree st) p)"
    by (auto simp: command_name_def)
  then show ?thesis by (auto simp: mod_del_cmd_def table_ok_def find_command_look)
qed

text \<open>
  C24: The tree of commands is a map from names, up to folding, to messages.  \<open>mod_add_cmd\<close> makes exactly the new
  name lead to the new message unless the name is taken, \<open>mod_del_cmd\<close> takes exactly the name out, always
  within the tree's nodes and with every reference count right, and a name that is added and deleted
  again leaves the tree as it was, with no node left behind.
\<close>

theorem command_tree_correct:
  assumes "table_ok st" "command_name name" "msg_cmd (messages st m) = name"
  shows "(table_ok (mod_add_cmd m st) \<and> (\<forall>cmd. find_command cmd (mod_add_cmd m st) =
      (case find_command cmd st of Some k \<Rightarrow> Some k
       | None \<Rightarrow> if command_name cmd \<and> path cmd = path name then Some m else None))) \<and>
    (\<exists>st'. mod_del_cmd m st = Some st' \<and> table_ok st' \<and>
      (\<forall>cmd. find_command cmd st' = (if path cmd = path name then None else find_command cmd st))) \<and>
    (find_command name st = None \<longrightarrow> (\<exists>st'. mod_del_cmd m (mod_add_cmd m st) = Some st' \<and> msg_tree st' = msg_tree st))"
proof -
  have "\<exists>st'. mod_del_cmd m (mod_add_cmd m st) = Some st' \<and> msg_tree st' = msg_tree st" if "find_command name st = None"
  proof -
    have "look (msg_tree st) (path name) = None" using that assms(2) by (simp add: find_command_look)
    with del_add [of "msg_tree st" name m] assms show ?thesis
      using that by (simp add: mod_add_cmd_def mod_del_cmd_def table_ok_def command_name_def)
  qed
  with mod_add_correct [of st m] mod_del_correct [of st m] show ?thesis unfolding assms(3) using assms(1,2) by blast
qed

text \<open>
  A message whose name was taken when it was added takes the name away from its holder when it is
  deleted: \<open>mod_del_cmd\<close> goes by the name alone.
\<close>

lemma refused_command_deletes_holder:
  assumes "table_ok st" "command_name (msg_cmd (messages st m))" "find_command (msg_cmd (messages st m)) st = Some k" "k \<noteq> m"
  shows "mod_add_cmd m st = st \<and> (\<exists>st'. mod_del_cmd m st = Some st' \<and> find_command (msg_cmd (messages st m)) st' = None)"
  using mod_del_correct [OF assms(1,2)] assms(3) by (auto simp: mod_add_cmd_def)

definition a_message :: "string \<Rightarrow> message" where
  "a_message name = \<lparr>msg_cmd = name, msg_count = 0, msg_rcount = 0, msg_parameters = 1, msg_unreg = False, msg_bytes = 0\<rparr>"

definition a_table :: command_table where
  "a_table = \<lparr>msg_tree = empty_tree, messages = (\<lambda>m. a_message (if m = 0 then ''PART'' else ''PASS''))\<rparr>"

lemma alpha_examples [simp]: "command_name ''PART''" "command_name ''PASS''" "command_name ''part''"
  by (simp_all add: command_name_def IsAlpha_iff)

theorem command_tree_correct_witness:
  "find_command ''part'' (mod_add_cmd 1 (mod_add_cmd 0 a_table)) = Some 0 \<and>
   find_command ''PASS'' (mod_add_cmd 1 (mod_add_cmd 0 a_table)) = Some 1 \<and>
   find_command ''PASS'' (mod_add_cmd 0 a_table) = None"
proof -
  let ?st = "mod_add_cmd 0 a_table"
  have p: "path ''part'' = path ''PART''" "path ''PASS'' \<noteq> path ''PART''" by (simp_all add: path_def ptr_index_def)
  have e: "table_ok a_table" "find_command cmd a_table = None" for cmd
    by (simp_all add: a_table_def table_ok_def find_command_look)
  have n: "msg_cmd (messages a_table 0) = ''PART''" "msg_cmd (messages ?st 1) = ''PASS''"
    by (simp_all add: a_table_def mod_add_cmd_def a_message_def)
  from command_tree_correct [OF e(1) alpha_examples(1) n(1)] have s: "table_ok ?st"
    "find_command cmd ?st = (if command_name cmd \<and> path cmd = path ''PART'' then Some 0 else None)" for cmd
    using e(2) by simp_all
  have "find_command cmd (mod_add_cmd 1 ?st) = (case find_command cmd ?st of Some k \<Rightarrow> Some k
      | None \<Rightarrow> if command_name cmd \<and> path cmd = path ''PASS'' then Some 1 else None)" for cmd
    using command_tree_correct [OF s(1) alpha_examples(2) n(2)] by blast
  then show ?thesis using p s(2) by simp
qed

subsection \<open>Parameters\<close>

abbreviation MAXPARA :: nat where "MAXPARA \<equiv> 15"

text \<open>
  The loop of \<open>string_to_array\<close>, entered with \<open>buf\<close> on a character that is not a space and \<open>x\<close> the number of the
  next parameter.  After the last turn the rest of the line is taken from \<open>p\<close>, right behind the space that
  ended the parameter before it.
\<close>

function split_params :: "nat \<Rightarrow> string \<Rightarrow> string list" where
  "split_params x buf =
    (if buf = [] then []
     else if hd buf = CHR '':'' then [tl buf]
     else
       (let tok = takeWhile (\<lambda>c. c \<noteq> CHR '' '') buf; rest = dropWhile (\<lambda>c. c \<noteq> CHR '' '') buf in
        if rest = [] then [tok]
        else
          (let p = tl rest; buf' = dropWhile (\<lambda>c. c = CHR '' '') p in
           if buf' = [] then [tok]
           else if x + 1 < MAXPARA - 1 then tok # split_params (x + 1) buf'
           else [tok, if hd p = CHR '':'' then tl p else p])))"
  by pat_completeness auto
termination
proof (relation "measure (\<lambda>(x, buf). length buf)", simp, goal_cases)
  case (1 x buf tok rest p buf')
  have "length buf' \<le> length p" using length_dropWhile_le 1 by metis
  moreover have "length rest \<le> length buf" using length_dropWhile_le 1 by metis
  moreover have "length p < length rest" using 1 by simp
  ultimately show ?case by simp
qed

declare split_params.simps [simp del]

definition string_to_array :: "string \<Rightarrow> string list" where
  "string_to_array s = split_params 1 (dropWhile (\<lambda>c. c = CHR '' '') s)"


lemma split_params_next:
  assumes "buf \<noteq> []" "hd buf \<noteq> CHR '':''" "takeWhile (\<lambda>c. c \<noteq> CHR '' '') buf = tok" "dropWhile (\<lambda>c. c \<noteq> CHR '' '') buf = rest"
    "rest \<noteq> []" "tl rest = p" "dropWhile (\<lambda>c. c = CHR '' '') p = buf'" "buf' \<noteq> []"
  shows "split_params x buf = (if x + 1 < MAXPARA - 1 then tok # split_params (x + 1) buf'
    else [tok, if hd p = CHR '':'' then tl p else p])"
  unfolding split_params.simps [of x buf] Let_def assms(3,4,6,7) using assms(1,2,5,8) by simp

text \<open>The shape of what comes out.\<close>

definition middle_param :: "string \<Rightarrow> bool" where
  "middle_param s \<longleftrightarrow> s \<noteq> [] \<and> hd s \<noteq> CHR '':'' \<and> CHR '' '' \<notin> set s"

lemma hd_takeWhile: "takeWhile P s \<noteq> [] \<Longrightarrow> hd (takeWhile P s) = hd s"
  by (cases s) (auto split: if_splits)

lemma split_params_shape:
  assumes "x < MAXPARA - 1" "buf = [] \<or> hd buf \<noteq> CHR '' ''"
  shows "length (split_params x buf) + x \<le> MAXPARA \<and> (\<forall>s\<in>set (butlast (split_params x buf)). middle_param s)"
  using assms
proof (induction x buf rule: split_params.induct)
  case (1 x buf)
  let ?tok = "takeWhile (\<lambda>c. c \<noteq> CHR '' '') buf" and ?rest = "dropWhile (\<lambda>c. c \<noteq> CHR '' '') buf"
  let ?buf' = "dropWhile (\<lambda>c. c = CHR '' '') (tl ?rest)"
  consider "buf = [] \<or> hd buf = CHR '':'' \<or> ?rest = [] \<or> ?buf' = []" |
    "buf \<noteq> []" "hd buf \<noteq> CHR '':''" "?rest \<noteq> []" "?buf' \<noteq> []" "x + 1 < MAXPARA - 1" |
    "buf \<noteq> []" "hd buf \<noteq> CHR '':''" "?rest \<noteq> []" "?buf' \<noteq> []" "\<not> x + 1 < MAXPARA - 1" by blast
  then show ?case
  proof cases
    case 1
    then have "length (split_params x buf) \<le> 1"
      by (elim disjE; subst split_params.simps) (simp_all add: Let_def del: dropWhile_eq_Nil_conv)
    moreover from this have "butlast (split_params x buf) = []" by (cases "split_params x buf") auto
    ultimately show ?thesis using "1.prems"(1) by simp
  next
    case 2
    have "?tok \<noteq> []" using 2(1) "1.prems"(2) by (cases buf) auto
    then have tok: "middle_param ?tok"
      using 2(1,2) by (auto simp: middle_param_def hd_takeWhile dest: set_takeWhileD)
    have h: "hd ?buf' \<noteq> CHR '' ''" using 2(4) hd_dropWhile by blast
    have e: "split_params x buf = ?tok # split_params (x + 1) ?buf'"
      using split_params_next [OF 2(1,2) refl refl 2(3) refl refl 2(4), of x] 2(5) by simp
    have "length (split_params (x + 1) ?buf') + (x + 1) \<le> MAXPARA \<and> (\<forall>s\<in>set (butlast (split_params (x + 1) ?buf')). middle_param s)"
      using "1.IH" [OF 2(1,2) refl refl 2(3) refl refl 2(4,5) 2(5)] h by blast
    then show ?thesis unfolding e using tok by auto
  next
    case 3
    have "?tok \<noteq> []" using 3(1) "1.prems"(2) by (cases buf) auto
    then have tok: "middle_param ?tok"
      using 3(1,2) by (auto simp: middle_param_def hd_takeWhile dest: set_takeWhileD)
    with split_params_next [OF 3(1,2) refl refl 3(3) refl refl 3(4), of x] 3(5) "1.prems"(1) show ?thesis by simp
  qed
qed

lemma string_to_array_shape:
  "length (string_to_array s) \<le> MAXPARA - 1 \<and> (\<forall>t\<in>set (butlast (string_to_array s)). middle_param t)"
proof -
  let ?s = "dropWhile (\<lambda>c. c = CHR '' '') s"
  have "?s = [] \<or> hd ?s \<noteq> CHR '' ''" using hd_dropWhile by blast
  from split_params_shape [OF _ this, of 1] show ?thesis by (simp add: string_to_array_def)
qed

text \<open>The way a line with these parameters is written.\<close>

fun join_params :: "string list \<Rightarrow> string \<Rightarrow> string" where
  "join_params [] l = CHR '':'' # l"
| "join_params (m # ms) l = m @ CHR '' '' # join_params ms l"

lemma join_params_hd: "(\<forall>m\<in>set ms. middle_param m) \<Longrightarrow> join_params ms l \<noteq> [] \<and> hd (join_params ms l) \<noteq> CHR '' ''"
  by (cases ms) (auto simp: middle_param_def neq_Nil_conv)

lemma split_join:
  assumes "\<forall>m\<in>set ms. middle_param m" "length ms + x < MAXPARA"
  shows "split_params x (join_params ms l) = ms @ [l]"
  using assms
proof (induction ms arbitrary: x)
  case Nil then show ?case by (simp add: split_params.simps)
next
  case (Cons m ms)
  let ?b = "m @ CHR '' '' # join_params ms l"
  have m: "m \<noteq> []" "hd m \<noteq> CHR '':''" "\<forall>c\<in>set m. c \<noteq> CHR '' ''" using Cons.prems(1) by (auto simp: middle_param_def)
  have j: "join_params ms l \<noteq> []" "hd (join_params ms l) \<noteq> CHR '' ''" using join_params_hd Cons.prems(1) by auto
  have t: "takeWhile (\<lambda>c. c \<noteq> CHR '' '') ?b = m" "dropWhile (\<lambda>c. c \<noteq> CHR '' '') ?b = CHR '' '' # join_params ms l"
    using m(3) by (simp_all add: takeWhile_append2 dropWhile_append2)
  have d: "dropWhile (\<lambda>c. c = CHR '' '') (join_params ms l) = join_params ms l"
    using j by (cases "join_params ms l") auto
  have b: "?b \<noteq> []" "hd ?b \<noteq> CHR '':''" using m(1,2) by auto
  note e = split_params_next [OF b t _ _ d j(1), of x]
  show ?case
  proof (cases "x + 1 < MAXPARA - 1")
    case True
    with Cons.IH [of "x + 1"] Cons.prems have "split_params (x + 1) (join_params ms l) = ms @ [l]" by simp
    with True show ?thesis using e by simp
  next
    case False
    then have "ms = []" using Cons.prems(2) by (cases ms) auto
    with False e show ?thesis by simp
  qed
qed

text \<open>Every parameter list of up to 13 words and a last one of any text is read back as it was written.\<close>

lemma string_to_array_roundtrip:
  assumes "\<forall>m\<in>set ms. middle_param m" "length ms \<le> 13"
  shows "string_to_array (join_params ms l) = ms @ [l]"
proof -
  have "dropWhile (\<lambda>c. c = CHR '' '') (join_params ms l) = join_params ms l"
    using join_params_hd [OF assms(1), of l] by (cases "join_params ms l") auto
  then show ?thesis using split_join [OF assms(1), of 1 l] assms(2) by (simp add: string_to_array_def)
qed


subsection \<open>Dispatch\<close>

text \<open>
  What the parser reads of a client.  The lookups \<open>find_person\<close>, \<open>find_server\<close> and \<open>hash_find_channel\<close> are
  arguments; their models are in the theories of the client and hash tables.
\<close>

record peer =
  pe_name :: string
  pe_id :: string
  pe_status :: nat
  pe_from :: nat
  pe_local :: bool
  pe_oper :: bool
  pe_defunct :: bool
  pe_ts6 :: bool
  pe_handler :: nat

definition peer_server :: "peer \<Rightarrow> bool" where "peer_server p \<longleftrightarrow> pe_status p = 0x10"
definition peer_client :: "peer \<Rightarrow> bool" where "peer_client p \<longleftrightarrow> pe_status p = 0x20"
definition peer_me :: "peer \<Rightarrow> bool" where "peer_me p \<longleftrightarrow> pe_status p = 0x04"
definition peer_registered :: "peer \<Rightarrow> bool" where "peer_registered p \<longleftrightarrow> 0x08 < pe_status p"
definition peer_linking :: "peer \<Rightarrow> bool" where "peer_linking p \<longleftrightarrow> pe_status p = 0x02 \<or> pe_status p = 0x01 \<or> peer_server p"

definition ID_or_name :: "peer \<Rightarrow> peer \<Rightarrow> string" where
  "ID_or_name x c = (if pe_ts6 c \<and> pe_id x \<noteq> [] then pe_id x else pe_name x)"

datatype parse_event =
  To_peer nat string "string list" | To_opers "string list" | To_chan nat "string list" | Exit_client nat string

record parser =
  commands :: command_table
  peers :: "nat \<Rightarrow> peer"
  my_name :: string
  hide_servers :: bool
  is_unpf :: nat
  is_wrdi :: nat
  is_empt :: nat
  is_num :: nat
  is_unco :: nat
  outbox :: "parse_event list"

record lookups =
  lk_person :: "nat \<Rightarrow> string \<Rightarrow> nat option"
  lk_server :: "string \<Rightarrow> nat option"
  lk_channel :: "string \<Rightarrow> nat option"

text \<open>The call of a handler: message, handler index, connection, source, \<open>parc\<close> and \<open>parv\<close>.\<close>

datatype dispatch = Call (called: nat) (handler_of: nat) (on_link: nat) (call_from: nat) (parc: nat) (parv0: string) (parv1: "string list")

definition post :: "parse_event list \<Rightarrow> parser \<Rightarrow> parser" where
  "post es st = st\<lparr>outbox := outbox st @ es\<rparr>"

definition remove_unknown :: "nat \<Rightarrow> string \<Rightarrow> string \<Rightarrow> parser \<Rightarrow> parser" where
  "remove_unknown client lsender lbuffer st =
    (let n = pe_name (peers st client) in
     if IsDigit (rd lsender 0) \<and> length lsender \<le> 3 \<or> CHR ''.'' \<in> set lsender then
       post [To_opers [''Unknown prefix'', lbuffer, n, lsender], To_opers [''Unknown prefix'', lbuffer, n, lsender],
             To_peer client ''SQUIT'' [lsender, lbuffer, n]] st
     else post [To_peer client ''KILL'' [lsender, my_name st]] st)"

definition cancel_clients :: "nat \<Rightarrow> nat \<Rightarrow> parser \<Rightarrow> parser" where
  "cancel_clients client source st =
    (let s = peers st source; via = pe_name (peers st (pe_from s)); c = pe_name (peers st client) in
     if peer_server s \<or> peer_me s then
       post [To_opers [''Message for'', pe_name s, via, c], To_opers [''Message for'', pe_name s, via, c],
             To_opers [''Not dropping server'', c, pe_name s]] st
     else post [To_opers [''Message for'', pe_name s, via, c], To_opers [''Message for'', pe_name s, via, c]] st)"

text \<open>The prefix: the source and the rest of the line, or nothing when the line is dropped.\<close>

definition orelse :: "'a option \<Rightarrow> 'a option \<Rightarrow> 'a option" where
  "orelse a b = (case a of None \<Rightarrow> b | Some x \<Rightarrow> Some x)"

definition find_source :: "lookups \<Rightarrow> nat \<Rightarrow> string \<Rightarrow> parser \<Rightarrow> nat option" where
  "find_source lk client sender st =
    (let c = peers st client in
     orelse (lk_person lk client sender) (orelse (lk_server lk sender)
       (if pe_ts6 c \<and> rd (pe_name c) 0 = CHR ''*'' \<and> IsDigit (rd sender 0) \<and> length sender = 3 then Some client else None)))"

definition parse_prefix :: "lookups \<Rightarrow> nat \<Rightarrow> string \<Rightarrow> parser \<Rightarrow> parser \<times> (nat \<times> string) option" where
  "parse_prefix lk client pbuffer st =
    (let ch = dropWhile (\<lambda>c. c = CHR '' '') pbuffer in
     if rd ch 0 \<noteq> CHR '':'' then (st, Some (client, ch))
     else
       (let ch1 = tl ch;
            sender = takeWhile (\<lambda>c. c \<noteq> CHR '' '') ch1;
            ch2 = (if CHR '' '' \<in> set ch1 then tl (dropWhile (\<lambda>c. c \<noteq> CHR '' '') ch1) else ch1);
            ch3 = dropWhile (\<lambda>c. c = CHR '' '') ch2 in
        if sender = [] \<or> \<not> peer_server (peers st client) then (st, Some (client, ch3))
        else
          (case find_source lk client sender st of
             None \<Rightarrow>
               (remove_unknown client sender (takeWhile (\<lambda>c. c = CHR '' '') pbuffer @ CHR '':'' # sender)
                 (st\<lparr>is_unpf := is_unpf st + 1\<rparr>), None)
           | Some from \<Rightarrow>
               (if pe_from (peers st from) \<noteq> client
                then (cancel_clients client from (st\<lparr>is_wrdi := is_wrdi st + 1\<rparr>), None)
                else (st, Some (from, ch3))))))"

definition upd_message :: "nat \<Rightarrow> (message \<Rightarrow> message) \<Rightarrow> parser \<Rightarrow> parser" where
  "upd_message m f st = st\<lparr>commands := (commands st)\<lparr>messages := (messages (commands st))(m := f (messages (commands st) m))\<rparr>\<rparr>"

definition handle_command :: "nat \<Rightarrow> nat \<Rightarrow> nat \<Rightarrow> nat \<Rightarrow> string list \<Rightarrow> parser \<Rightarrow> parser \<times> dispatch option" where
  "handle_command m client from i ps st =
    (let c = peers st client;
         st1 = upd_message m (\<lambda>x. x\<lparr>msg_count := msg_count x + 1,
                 msg_rcount := (if peer_server c then msg_rcount x + 1 else msg_rcount x)\<rparr>) st;
         msg = messages (commands st1) m; n = pe_name (peers st from) in
     if \<not> peer_registered c \<and> peer_linking c \<and> \<not> msg_unreg msg then (st1, None)
     else if i < msg_parameters msg then
       (if \<not> peer_server c then (post [To_peer client ''ERR_NEEDMOREPARAMS'' [if n = [] then ''*'' else n, msg_cmd msg]] st1, None)
        else (post [To_opers [''Dropping server'', pe_name c, msg_cmd msg], Exit_client client ''Not enough arguments to server command.''] st1, None))
     else (st1, Some (Call m (pe_handler c) client from i n ps)))"

definition number :: "string \<Rightarrow> nat" where
  "number ds = foldl (\<lambda>v c. 10 * v + (of_char c - 48)) 0 ds"

definition do_numeric :: "lookups \<Rightarrow> string \<Rightarrow> nat \<Rightarrow> nat \<Rightarrow> string list \<Rightarrow> parser \<Rightarrow> parser" where
  "do_numeric lk numeric0 client source ps st =
    (let s = peers st source; c = peers st client in
     if ps = [] \<or> \<not> peer_server s then st
     else
       (let numeric = (if rd numeric0 0 = CHR ''0'' then CHR ''1'' # tl numeric0 else numeric0);
            buffer = concat (map (\<lambda>p. CHR '' '' # p) (butlast (tl ps))) @ '' :'' @ last ps in
        case orelse (lk_person lk client (hd ps)) (lk_server lk (hd ps)) of
          Some target \<Rightarrow>
            (let t = peers st target in
             if peer_me t then
               (if number numeric \<noteq> 401 then post [To_opers [pe_name s, pe_name c, numeric, buffer]] st else st)
             else if pe_from t = client then st
             else if number numeric = 501 \<and> pe_local t \<and> peer_client t then st
             else if hide_servers st \<and> pe_local t \<and> peer_client t \<and> \<not> pe_oper t then
               post [To_peer target numeric [my_name st, pe_name t, buffer]] st
             else post [To_peer target numeric [ID_or_name s (peers st (pe_from t)), ID_or_name t (peers st (pe_from t)), buffer]] st)
        | None \<Rightarrow>
            (case lk_channel lk (hd ps) of
               None \<Rightarrow> st
             | Some ch \<Rightarrow> post [To_chan ch [pe_name s, numeric, buffer]] st)))"

definition parse :: "lookups \<Rightarrow> nat \<Rightarrow> string \<Rightarrow> parser \<Rightarrow> parser \<times> dispatch option" where
  "parse lk client pbuffer st =
    (if pe_defunct (peers st client) then (st, None)
     else case parse_prefix lk client pbuffer st of
       (st1, None) \<Rightarrow> (st1, None)
     | (st1, Some (from, ch)) \<Rightarrow>
         (if ch = [] then (st1\<lparr>is_empt := is_empt st1 + 1\<rparr>, None)
          else if rd ch 3 = CHR '' '' \<and> IsDigit (rd ch 0) \<and> IsDigit (rd ch 1) \<and> IsDigit (rd ch 2) then
            (do_numeric lk (take 3 ch) client from (string_to_array (drop 4 ch)) (st1\<lparr>is_num := is_num st1 + 1\<rparr>), None)
          else
            (let name = takeWhile (\<lambda>c. c \<noteq> CHR '' '') ch; rest = dropWhile (\<lambda>c. c \<noteq> CHR '' '') ch in
             case find_command name (commands st1) of
               None \<Rightarrow>
                 ((if peer_client (peers st1 from) then post [To_peer from ''ERR_UNKNOWNCOMMAND'' [name]] else id)
                    (st1\<lparr>is_unco := is_unco st1 + 1\<rparr>), None)
             | Some m \<Rightarrow>
                 (let ii = (if rest = [] then length ch else length (tl rest));
                      ps = (if rest = [] then [] else string_to_array (tl rest));
                      i = (if rest = [] then 0 else 1 + length ps) in
                  handle_command m client from i ps (upd_message m (\<lambda>x. x\<lparr>msg_bytes := msg_bytes x + ii\<rparr>) st1)))))"


subsection \<open>Who may speak for whom\<close>

lemma parse_prefix_source:
  assumes "parse_prefix lk client pbuffer st = (st1, Some (fr, ch))"
  shows "st1 = st" "fr = client \<or> peer_server (peers st client) \<and> pe_from (peers st fr) = client"
  using assms by (auto simp: parse_prefix_def Let_def split: if_splits option.splits)

lemma handle_command_call:
  assumes "handle_command m client fr i ps st = (st', Some d)"
  shows "d = Call m (pe_handler (peers st client)) client fr i (pe_name (peers st fr)) ps"
    "msg_parameters (messages (commands st) m) \<le> i"
    "peer_registered (peers st client) \<or> \<not> peer_linking (peers st client) \<or> msg_unreg (messages (commands st) m)"
  using assms by (auto simp: handle_command_def upd_message_def Let_def split: if_splits)

text \<open>
  C5: Nobody speaks for another.  When a line leads to the call of a handler, the connection is alive, the handler is
  the one for its kind, and the source handed over is the connection itself, or, when the connection is
  a server, a client behind that very link; a prefix written by anyone else is ignored.  The message is
  the one of the command, it has the parameters it asks for, and no more than 14 words come with it.
\<close>

theorem no_spoofing:
  assumes "parse lk client pbuffer st = (st', Some d)"
  shows "\<not> pe_defunct (peers st client) \<and> on_link d = client \<and> handler_of d = pe_handler (peers st client) \<and>
    (call_from d = client \<or> peer_server (peers st client) \<and> pe_from (peers st (call_from d)) = client) \<and>
    parv0 d = pe_name (peers st (call_from d)) \<and>
    (\<exists>name. find_command name (commands st) = Some (called d)) \<and>
    msg_parameters (messages (commands st) (called d)) \<le> parc d \<and> parc d \<le> length (parv1 d) + 1 \<and>
    length (parv1 d) \<le> MAXPARA - 1 \<and> (\<forall>w\<in>set (butlast (parv1 d)). middle_param w)"
proof -
  have live: "\<not> pe_defunct (peers st client)" using assms by (auto simp: parse_def split: if_splits)
  obtain fr ch where pp: "parse_prefix lk client pbuffer st = (st, Some (fr, ch))"
    using assms live parse_prefix_source(1) by (fastforce simp: parse_def split: prod.splits option.splits)
  let ?rest = "dropWhile (\<lambda>c. c \<noteq> CHR '' '') ch" and ?name = "takeWhile (\<lambda>c. c \<noteq> CHR '' '') ch"
  define ps where "ps = (if ?rest = [] then [] else string_to_array (tl ?rest))"
  define i where "i = (if ?rest = [] then 0 else 1 + length ps)"
  define ii where "ii = (if ?rest = [] then length ch else length (tl ?rest))"
  have "\<exists>m. find_command ?name (commands st) = Some m \<and>
      handle_command m client fr i ps (upd_message m (\<lambda>x. x\<lparr>msg_bytes := msg_bytes x + ii\<rparr>) st) = (st', Some d)"
    using assms live unfolding parse_def pp i_def ps_def ii_def
    by (simp add: Let_def del: dropWhile_eq_Nil_conv split: if_splits option.splits)
  then obtain m where m: "find_command ?name (commands st) = Some m"
    and h: "handle_command m client fr i ps (upd_message m (\<lambda>x. x\<lparr>msg_bytes := msg_bytes x + ii\<rparr>) st) = (st', Some d)" by blast
  note H = handle_command_call [OF h]
  have d: "d = Call m (pe_handler (peers st client)) client fr i (pe_name (peers st fr)) ps"
    using H(1) by (simp add: upd_message_def)
  have "msg_parameters (messages (commands st) m) \<le> i" using H(2) by (simp add: upd_message_def)
  moreover have "length ps \<le> MAXPARA - 1" "\<forall>w\<in>set (butlast ps). middle_param w"
    using string_to_array_shape [of "tl ?rest"] unfolding ps_def by auto
  moreover have "i \<le> length ps + 1" by (simp add: i_def)
  ultimately show ?thesis using live parse_prefix_source(2) [OF pp] m unfolding d by auto
qed

lemma rd_append_alpha: "\<forall>c\<in>set name. IsAlpha c \<Longrightarrow> name \<noteq> [] \<Longrightarrow> \<not> IsDigit (rd (name @ r) 0) \<and> rd (name @ r) 0 \<noteq> CHR '':''"
  by (cases name) (auto simp: rd_def IsAlpha_iff IsDigit_iff)

text \<open>
  C23: A line of a known command and its parameters, up to 13 words and a last one of any text behind a colon,
  reaches the handler of the connection as it was written, when the connection is alive and registered
  and the command asks for no more.
\<close>

theorem line_is_dispatched:
  assumes "command_name name" "find_command name (commands st) = Some m" "\<forall>w\<in>set ms. middle_param w" "length ms \<le> 13"
    "\<not> pe_defunct (peers st client)" "peer_registered (peers st client)" "msg_parameters (messages (commands st) m) \<le> length ms + 2"
  shows "snd (parse lk client (name @ CHR '' '' # join_params ms l) st) =
    Some (Call m (pe_handler (peers st client)) client client (length ms + 2) (pe_name (peers st client)) (ms @ [l]))"
proof -
  let ?b = "name @ CHR '' '' # join_params ms l"
  have n: "name \<noteq> []" "\<forall>c\<in>set name. IsAlpha c" using assms(1) by (auto simp: command_name_def)
  then have sp: "\<forall>c\<in>set name. c \<noteq> CHR '' ''" by (auto simp: IsAlpha_iff)
  then have t: "takeWhile (\<lambda>c. c \<noteq> CHR '' '') ?b = name" "dropWhile (\<lambda>c. c \<noteq> CHR '' '') ?b = CHR '' '' # join_params ms l"
    by (simp_all add: takeWhile_append2 dropWhile_append2)
  have d: "dropWhile (\<lambda>c. c = CHR '' '') ?b = ?b" using n(1) sp by (cases name) auto
  note r = rd_append_alpha [OF n(2,1), of "CHR '' '' # join_params ms l"]
  have pp: "parse_prefix lk client ?b st = (st, Some (client, ?b))" unfolding parse_prefix_def Let_def d using r by simp
  have sa: "string_to_array (join_params ms l) = ms @ [l]" by (rule string_to_array_roundtrip [OF assms(3,4)])
  show ?thesis
    using assms(5-7) r unfolding parse_def pp
    by (simp add: t [simplified] assms(2) sa handle_command_def upd_message_def Let_def del: takeWhile_append dropWhile_append)
qed


text \<open>A client 1 and a server 2, and one command.\<close>

definition a_peer :: peer where
  "a_peer = \<lparr>pe_name = ''alice'', pe_id = [], pe_status = 0x20, pe_from = 1, pe_local = True, pe_oper = False, pe_defunct = False,
     pe_ts6 = False, pe_handler = 1\<rparr>"

definition a_parser :: parser where
  "a_parser = \<lparr>commands = mod_add_cmd 0 a_table, peers = (\<lambda>_. a_peer), my_name = ''irc.example'', hide_servers = False, is_unpf = 0,
     is_wrdi = 0, is_empt = 0, is_num = 0, is_unco = 0, outbox = []\<rparr>"

definition a_lookups :: lookups where
  "a_lookups = \<lparr>lk_person = (\<lambda>_ _. None), lk_server = (\<lambda>_. None), lk_channel = (\<lambda>_. None)\<rparr>"

lemma a_parser_finds: "find_command ''PART'' (commands a_parser) = Some 0" "msg_parameters (messages (commands a_parser) 0) = 1"
proof -
  have e: "table_ok a_table" "find_command cmd a_table = None" "msg_cmd (messages a_table 0) = ''PART''" for cmd
    by (simp_all add: a_table_def table_ok_def find_command_look a_message_def)
  from mod_add_correct [OF e(1), of 0] show "find_command ''PART'' (commands a_parser) = Some 0"
    by (simp add: a_parser_def e)
  show "msg_parameters (messages (commands a_parser) 0) = 1"
    using e by (simp add: a_parser_def mod_add_cmd_def a_table_def a_message_def)
qed

theorem line_is_dispatched_witness:
  "snd (parse a_lookups 1 ''PART #isabelle :gone for now'' a_parser) = Some (Call 0 1 1 1 3 ''alice'' [''#isabelle'', ''gone for now''])"
  using line_is_dispatched [of "''PART''" a_parser 0 "[''#isabelle'']" 1 a_lookups "''gone for now''"] a_parser_finds
  by (simp add: middle_param_def a_parser_def a_peer_def peer_registered_def)

theorem no_spoofing_witness:
  "\<exists>st' d. parse a_lookups 1 '':bob PART #isabelle :gone for now'' a_parser = (st', Some d) \<and> call_from d = 1"
proof -
  have "parse_prefix a_lookups 1 '':bob PART #isabelle :gone for now'' a_parser = (a_parser, Some (1, ''PART #isabelle :gone for now''))"
    by (simp add: parse_prefix_def rd_def a_parser_def a_peer_def peer_server_def)
  moreover have "string_to_array ''#isabelle :gone for now'' = [''#isabelle'', ''gone for now'']"
    using string_to_array_roundtrip [of "[''#isabelle'']" "''gone for now''"] by (simp add: middle_param_def)
  moreover have "\<not> IsDigit CHR ''P''" by (simp add: IsDigit_iff)
  moreover have a: "\<not> pe_defunct (peers a_parser 1)" "peer_registered (peers a_parser 1)"
    by (simp_all add: a_parser_def a_peer_def peer_registered_def)
  ultimately obtain st' d where p: "parse a_lookups 1 '':bob PART #isabelle :gone for now'' a_parser = (st', Some d)"
    using a_parser_finds a
    by (simp add: parse_def handle_command_def upd_message_def rd_def Let_def del: One_nat_def)
  from no_spoofing [OF p] have "call_from d = 1" by (simp add: a_parser_def a_peer_def peer_server_def)
  with p show ?thesis by blast
qed

end
