(* ===== verification/Sjoin.thy ===== *)
theory Sjoin
  imports Mode_Line
begin

section \<open>Channels across servers\<close>

text \<open>
  m_sjoin.c: the SJOIN message with which servers tell each other of a channel, its time stamp, its modes and
  its members, after a link and after every remote join.  \<open>None\<close> is undefined behaviour of the code: a write
  beyond \<open>modebuf\<close>, \<open>parabuf\<close>, \<open>sendbuf\<close>, \<open>nick_buf\<close>, \<open>uid_buf\<close>, \<open>lmodebuf\<close> or \<open>lparabuf\<close>, or a freed membership read.
\<close>

subsection \<open>The network\<close>

text \<open>
  What the handler reads besides the state of the channels: the link a client is behind, the linked servers,
  \<^verbatim>\<open>IsHidden(x) || ConfigServerHide.hide_servers\<close>, a configuration item, the allocators, and for lazy links the
  servers that know the channel.  \<open>old_modebuf\<close> is what the static buffer held before the call.
\<close>

record network =
  from_link :: "cid \<Rightarrow> cid"
  serv_list :: "cid list"
  hidden_server :: "cid \<Rightarrow> bool"
  ignore_bogus_ts :: bool
  new_member :: "world \<Rightarrow> mid"
  new_channel :: "world \<Rightarrow> chid"
  lazy_leaf :: "cid \<Rightarrow> chid \<Rightarrow> bool"
  lazy_known :: "(cid \<times> cid) list"
  old_modebuf :: "char list"

definition ID :: "client \<Rightarrow> string" where
  "ID c = (if cl_id c \<noteq> [] then cl_id c else cl_name c)"

abbreviation IDLEN :: nat where "IDLEN \<equiv> 12"

subsection \<open>The modes of the message\<close>

definition atol :: "string \<Rightarrow> int" where
  "atol s =
    (let s1 = dropWhile c_isspace s;
         neg = (s1 \<noteq> [] \<and> hd s1 = CHR ''-'');
         s2 = (if s1 \<noteq> [] \<and> (hd s1 = CHR ''-'' \<or> hd s1 = CHR ''+'') then drop 1 s1 else s1);
         v = dec_value (takeWhile dec_digit s2) in
     if neg then max (- (2 ^ 63)) (- v) else min (2 ^ 63 - 1) v)"

text \<open>\<^verbatim>\<open>%lu\<close> of a time.\<close>

definition ulong_text :: "int \<Rightarrow> string" where
  "ulong_text i = dec_text (nat (i mod 2 ^ 64))"

definition sjoin_letters :: "(char \<times> 32 word) list" where
  "sjoin_letters =
    [(CHR ''B'', MODE_BWSAVER), (CHR ''C'', MODE_STRIPCOLOR), (CHR ''M'', MODE_MODREG), (CHR ''N'', MODE_NONOTICES),
     (CHR ''O'', MODE_OPERONLY), (CHR ''R'', MODE_REGONLY), (CHR ''S'', MODE_NOSPAM), (CHR ''c'', MODE_NOCTRL),
     (CHR ''t'', MODE_TOPICLIMIT), (CHR ''n'', MODE_NOPRIVMSGS), (CHR ''s'', MODE_SECRET), (CHR ''m'', MODE_MODERATED),
     (CHR ''i'', MODE_INVITEONLY), (CHR ''p'', MODE_PRIVATE), (CHR ''r'', MODE_CHANREG), (CHR ''d'', MODE_NOFLOOD)]"

definition sjoin_flag :: "char \<Rightarrow> 32 word" where
  "sjoin_flag c = (case map_of sjoin_letters c of None \<Rightarrow> 0 | Some f \<Rightarrow> f)"

text \<open>
  The letters, from the parameter \<open>4 + args\<close> on.  \<open>None\<close> is the early return when a parameter uses up the list of
  nicks; until then the message has changed nothing.
\<close>

fun sjoin_modes :: "string list \<Rightarrow> string \<Rightarrow> mode \<times> nat \<Rightarrow> (mode \<times> nat) option" where
  "sjoin_modes pv [] r = Some r"
| "sjoin_modes pv (c # s) (m, args) =
    (let p = pv ! (4 + args); spent = length pv < 5 + (args + 1) in
     if c = CHR ''F'' then (if spent then None else sjoin_modes pv s (m\<lparr>md_forward := fit 128 p\<rparr>, args + 1))
     else if c = CHR ''f'' then
       (if CHR '':'' \<notin> set p then sjoin_modes pv s (m, args)
        else
          (let x = atoi (until CHR '':'' p); y = atoi (tl (dropWhile (\<lambda>d. d \<noteq> CHR '':'') p));
               m1 = (if x < 99 \<and> y < 99 \<and> 1 \<le> x \<and> 0 < y then m\<lparr>md_msgs := word_of_int x, md_per := word_of_int y\<rparr> else m) in
           if spent then None else sjoin_modes pv s (m1, args + 1)))
     else if c = CHR ''k'' then (if spent then None else sjoin_modes pv s (m\<lparr>md_key := fit KEYLEN p\<rparr>, args + 1))
     else if c = CHR ''l'' then (if spent then None else sjoin_modes pv s (m\<lparr>md_limit := word_of_int (atoi p)\<rparr>, args + 1))
     else sjoin_modes pv s (m\<lparr>md_mode := md_mode m OR sjoin_flag c\<rparr>, args))"

subsection \<open>Whose time stamp wins\<close>

fun strcmp :: "string \<Rightarrow> string \<Rightarrow> int" where
  "strcmp [] [] = 0"
| "strcmp [] (b # t) = -1"
| "strcmp (a # s) [] = 1"
| "strcmp (a # s) (b # t) = (if a = b then strcmp s t else if (of_char a :: nat) < of_char b then -1 else 1)"

definition merge_modes :: "mode \<Rightarrow> mode \<Rightarrow> mode" where
  "merge_modes m old =
    \<lparr>md_mode = md_mode m OR md_mode old,
     md_limit = (if md_limit m < md_limit old then md_limit old else md_limit m),
     md_key = (if strcmp (md_key m) (md_key old) < 0 then md_key old else md_key m),
     md_forward = (if strcmp (md_forward m) (md_forward old) < 0 then md_forward old else md_forward m),
     md_msgs = (if md_msgs m < md_msgs old then md_msgs old else md_msgs m),
     md_per = (if md_per m < md_per old then md_per old else md_per m)\<rparr>"

text \<open>\<open>channelts\<close>, \<open>tstosend\<close>, \<open>keep_our_modes\<close>, \<open>keep_new_modes\<close>.\<close>

definition sjoin_ts :: "bool \<Rightarrow> int \<Rightarrow> int \<Rightarrow> int \<times> int \<times> bool \<times> bool" where
  "sjoin_ts isnew newts oldts =
    (if isnew then (newts, newts, True, True)
     else if newts = 0 \<or> oldts = 0 then (0, 0, True, True)
     else if newts = oldts then (oldts, oldts, True, True)
     else if newts < oldts then (newts, newts, False, True)
     else (oldts, oldts, True, False))"

subsection \<open>Announcing the difference\<close>

definition sjoin_flags :: "(32 word \<times> char) list" where
  "sjoin_flags =
    [(MODE_BWSAVER, CHR ''B''), (MODE_STRIPCOLOR, CHR ''C''), (MODE_MODREG, CHR ''M''), (MODE_NONOTICES, CHR ''N''),
     (MODE_OPERONLY, CHR ''O''), (MODE_REGONLY, CHR ''R''), (MODE_NOSPAM, CHR ''S''), (MODE_NOCTRL, CHR ''c''),
     (MODE_NOPRIVMSGS, CHR ''n''), (MODE_TOPICLIMIT, CHR ''t''), (MODE_SECRET, CHR ''s''), (MODE_MODERATED, CHR ''m''),
     (MODE_INVITEONLY, CHR ''i''), (MODE_PRIVATE, CHR ''p''), (MODE_CHANREG, CHR ''r''), (MODE_NOFLOOD, CHR ''d'')]"

definition dropped_modes :: "mode \<Rightarrow> mode \<Rightarrow> string \<times> string" where
  "dropped_modes m old =
    (map snd (filter (\<lambda>(f, l). has (md_mode old) f \<and> \<not> has (md_mode m) f) sjoin_flags) @
       (if md_limit old \<noteq> 0 \<and> md_limit m = 0 then ''l'' else []) @
       (if (md_msgs old \<noteq> 0 \<and> md_msgs m = 0) \<and> (md_per old \<noteq> 0 \<and> md_per m = 0) then ''f'' else []) @
       (if md_key old \<noteq> [] \<and> md_key m = [] then ''k'' else []) @ (if md_forward old \<noteq> [] \<and> md_forward m = [] then ''F'' else []),
     (if md_key old \<noteq> [] \<and> md_key m = [] then md_key old @ '' '' else []) @
       (if md_forward old \<noteq> [] \<and> md_forward m = [] then md_forward old @ '' '' else []))"

definition gained_modes :: "mode \<Rightarrow> mode \<Rightarrow> string \<times> string" where
  "gained_modes m old =
    (let l = (md_limit m \<noteq> 0 \<and> md_limit old \<noteq> md_limit m);
         f = ((md_msgs m \<noteq> 0 \<and> md_msgs old \<noteq> md_msgs m) \<and> (md_per m \<noteq> 0 \<and> md_per old \<noteq> md_per m) \<and>
              md_msgs m < 99 \<and> md_per m < 99);
         k = (md_key m \<noteq> [] \<and> strcmp (md_key old) (md_key m) \<noteq> 0);
         g = (md_forward m \<noteq> [] \<and> strcmp (md_forward old) (md_forward m) \<noteq> 0) in
     (map snd (filter (\<lambda>(f, l). has (md_mode m) f \<and> \<not> has (md_mode old) f) sjoin_flags) @
        (if l then ''l'' else []) @ (if f then ''f'' else []) @ (if k then ''k'' else []) @ (if g then ''F'' else []),
      (if l then int_text (sint (md_limit m)) @ '' '' else []) @
        (if f then int_text (sint (md_msgs m)) @ '':'' @ int_text (sint (md_per m)) @ '' '' else []) @
        (if k then md_key m @ '' '' else []) @ (if g then md_forward m @ '' '' else [])))"

text \<open>What is left in \<open>modebuf\<close> and \<open>parabuf\<close>.\<close>

definition set_final_mode :: "mode \<Rightarrow> mode \<Rightarrow> (string \<times> string) option" where
  "set_final_mode m old =
    (let (minus, dropped) = dropped_modes m old; (plus, gained) = gained_modes m old;
         mb = (if minus = [] then [] else CHR ''-'' # minus) @ (if plus = [] then [] else CHR ''+'' # plus) in
     if MODEBUFLEN \<le> length mb \<or> MODEBUFLEN \<le> length (dropped @ gained) then None else Some (mb, dropped @ gained))"

subsection \<open>The losing side\<close>

definition name_list :: "string list \<Rightarrow> string" where
  "name_list ns = concat (map (\<lambda>n. CHR '' '' # n) ns)"

text \<open>A MODE line with its names, gathered in \<open>sendbuf\<close>.\<close>

definition status_line :: "string \<Rightarrow> chid \<Rightarrow> string \<Rightarrow> string list \<Rightarrow> world \<Rightarrow> world option" where
  "status_line server ch letters ns w =
    (if MODEBUFLEN \<le> length (name_list ns) then None
     else Some (send (To_channel 0 ch ('':'' @ server @ '' MODE '' @ ch_name (chans w ch) @ '' '' @ letters @ name_list ns)) w))"

fun remove_a_mode :: "string \<Rightarrow> chid \<Rightarrow> 32 word \<Rightarrow> char \<Rightarrow> mid list \<Rightarrow> string list \<Rightarrow> world \<Rightarrow> world option" where
  "remove_a_mode server ch msk flag [] ns w =
    (if ns = [] then Some w else status_line server ch (CHR ''-'' # replicate (length ns) flag) ns w)"
| "remove_a_mode server ch msk flag (m # ms) ns w =
    (case mships w m of
       None \<Rightarrow> None
     | Some x \<Rightarrow>
         (if \<not> has (ms_flags x) msk then remove_a_mode server ch msk flag ms ns w
          else
            (let w1 = upd_ms m (\<lambda>x. x\<lparr>ms_flags := ms_flags x AND NOT msk\<rparr>) w;
                 ns1 = ns @ [cl_name (clients w (ms_client x))] in
             if length ns1 < MAXMODEPARAMS then remove_a_mode server ch msk flag ms ns1 w1
             else do {
               w2 \<leftarrow> status_line server ch (CHR ''-'' # replicate (length ns1) flag) ns1 w1;
               remove_a_mode server ch msk flag ms [] w2 })))"

text \<open>The status letters of a build, with their prefixes.\<close>

definition status_letters :: "config \<Rightarrow> (32 word \<times> char \<times> char) list" where
  "status_letters c =
    (if CHANAQ c then [(CHFL_OWNER, CHR ''q'', CHR ''~''), (CHFL_PROTECTED, CHR ''a'', CHR ''&'')] else []) @
    [(CHFL_CHANOP, CHR ''o'', CHR ''@'')] @
    (if HALFOPS c then [(CHFL_HALFOP, CHR ''h'', CHR ''%'')] else []) @ [(CHFL_VOICE, CHR ''v'', CHR ''+'')]"

definition remove_our_modes :: "network \<Rightarrow> chid \<Rightarrow> cid \<Rightarrow> world \<Rightarrow> world option" where
  "remove_our_modes net ch sender w =
    (let server = (if hidden_server net sender then cl_name (clients w (me w)) else cl_name (clients w sender)) in
     fold (\<lambda>(f, l, p) ow. do { v \<leftarrow> ow; remove_a_mode server ch f l (ch_members (chans v ch)) [] v })
       (status_letters (cfg w)) (Some w))"

text \<open>
  The lines that take a list of masks away; \<open>cur\<close> is \<open>cur_len\<close>, \<open>letters\<close> and \<open>pb\<close> are what the buffers hold behind
  the header.
\<close>

fun ban_lines :: "string \<Rightarrow> char \<Rightarrow> ban list \<Rightarrow> string \<Rightarrow> string \<Rightarrow> nat \<Rightarrow> nat \<Rightarrow> string list option" where
  "ban_lines header c [] letters pb cur count =
    (if pb = [] then None else Some [header @ letters @ '' '' @ butlast pb])"
| "ban_lines header c (b # bs) letters pb cur count =
    (let plen = bn_len b + 4; full = (MAXMODEPARAMS \<le> count \<or> IRCD_BUFSIZE - 2 < cur + 1 + (plen - 1));
         letters1 = (if full then [] else letters) @ [c];
         pb1 = (if full then [] else pb) @ nuh_text (bn_name b) (bn_username b) (bn_host b) @ '' '' in
     if full \<and> pb = [] \<or> MODEBUFLEN \<le> length header + length letters1 \<or> IRCD_BUFSIZE \<le> length pb1 then None
     else
       map_option (\<lambda>ls. if full then (header @ letters @ '' '' @ butlast pb) # ls else ls)
         (ban_lines header c bs letters1 pb1 ((if full then length header else cur) + plen) (if full then 1 else count + 1)))"

definition remove_ban_list :: "chid \<Rightarrow> cid \<Rightarrow> id_type \<Rightarrow> char \<Rightarrow> 32 word \<Rightarrow> world \<Rightarrow> world option" where
  "remove_ban_list ch link t c cap w =
    (let header = '':'' @ cl_name (clients w link) @ '' MODE '' @ ch_name (chans w ch) @ '' -'' in
     if MODEBUFLEN \<le> length header then None
     else
       map_option (\<lambda>ls. upd_chan ch (upd_id_list t (\<lambda>_. []))
           (fold (\<lambda>l. send (To_servers ch cap CAP_TS6 l) \<circ> send (To_channel 0 ch l)) ls w))
         (ban_lines header c (id_list t (chans w ch)) [] [] (length header) 0))"

subsection \<open>The members\<close>

function space_words :: "string \<Rightarrow> string list" where
  "space_words s =
    (let s1 = dropWhile (\<lambda>c. c = CHR '' '') s in
     if s1 = [] then [] else takeWhile (\<lambda>c. c \<noteq> CHR '' '') s1 # space_words (dropWhile (\<lambda>c. c \<noteq> CHR '' '') s1))"
  by pat_completeness auto
termination
proof (relation "measure length", goal_cases)
  case (2 s s1)
  obtain c t where s1: "s1 = c # t" using 2(2) by (cases s1) auto
  have "c \<noteq> CHR '' ''" using hd_dropWhile [of "\<lambda>c. c = CHR '' ''" s] 2(2) s1 unfolding 2(1) by (metis list.sel(1))
  then have "length (dropWhile (\<lambda>c. c \<noteq> CHR '' '') s1) \<le> length t" using length_dropWhile_le s1 by simp
  moreover have "length s1 \<le> length s" using 2(1) length_dropWhile_le by simp
  ultimately show ?case using s1 by simp
qed simp

declare space_words.simps [simp del]

fun read_prefix :: "config \<Rightarrow> string \<Rightarrow> 32 word \<Rightarrow> 32 word \<times> string" where
  "read_prefix c [] fl = (fl, [])"
| "read_prefix c (a # s) fl =
    (case find (\<lambda>(f, l, p). p = a) (status_letters c) of
       None \<Rightarrow> (fl, a # s)
     | Some (f, l, p) \<Rightarrow> read_prefix c s (fl OR f))"

definition show_prefix :: "config \<Rightarrow> 32 word \<Rightarrow> string" where
  "show_prefix c fl = map (\<lambda>(f, l, p). p) (filter (\<lambda>(f, l, p). has fl f) (status_letters c))"

text \<open>The locals and buffers of the loop; \<open>sj_mlen\<close> is \<open>mbuf - modebuf\<close>, the others hold what lies before their pointer.\<close>

record sjoin_run =
  sj_world :: world
  sj_modebuf :: "char list"
  sj_mlen :: nat
  sj_para :: "string list"
  sj_nick :: string
  sj_uid :: string
  sj_known :: "(cid \<times> cid) list"

record sjoin_env =
  se_link :: cid
  se_source :: cid
  se_chan :: chid
  se_keep_new :: bool
  se_tosend :: int
  se_parabuf :: string
  se_flood_ctrl :: bool

definition sjoin_header :: "string \<Rightarrow> int \<Rightarrow> string \<Rightarrow> string \<Rightarrow> string \<Rightarrow> string" where
  "sjoin_header who ts name mb pb = '':'' @ who @ '' SJOIN '' @ ulong_text ts @ '' '' @ name @ '' '' @ mb @ '' '' @ pb @ '':''"

text \<open>The C string in a buffer, and writing one to its start.\<close>

definition c_text :: "char list \<Rightarrow> string" where
  "c_text buf = takeWhile (\<lambda>c. c \<noteq> NUL) buf"

definition write_text :: "string \<Rightarrow> char list \<Rightarrow> char list" where
  "write_text s buf = s @ NUL # drop (length s + 1) buf"

text \<open>One nick at the end of \<open>nick_buf\<close> or \<open>uid_buf\<close>; a full buffer is sent first.\<close>

definition relay_entry :: "sjoin_env \<Rightarrow> string \<Rightarrow> 32 word \<Rightarrow> 32 word \<Rightarrow> string \<Rightarrow> string \<Rightarrow> char list \<Rightarrow> world \<Rightarrow> (string \<times> world) option" where
  "relay_entry e who cap nocap entry buf mb w =
    (let full = (IRCD_BUFSIZE - 2 < length buf + length entry);
         buf1 = (if full then sjoin_header who (se_tosend e) (ch_name (chans w (se_chan e))) (c_text mb) (se_parabuf e) else buf);
         w1 = (if full then send (To_servers (se_chan e) cap nocap buf) w else w);
         buf2 = buf1 @ entry @ '' '' in
     if IRCD_BUFSIZE \<le> length buf1 \<or> IRCD_BUFSIZE \<le> length buf2 then None else Some (buf2, w1))"

definition introduce_lazy_link_clients :: "network \<Rightarrow> sjoin_env \<Rightarrow> cid \<Rightarrow> sjoin_run \<Rightarrow> sjoin_run" where
  "introduce_lazy_link_clients net e target r =
    fold (\<lambda>s r. if s = se_link e \<or> \<not> lazy_leaf net s (se_chan e) \<or> (target, s) \<in> set (sj_known r) then r
        else r\<lparr>sj_world := send (To_one s ''NICK'' [cl_name (clients (sj_world r) target)]) (sj_world r),
               sj_known := (target, s) # sj_known r\<rparr>)
      (serv_list net) r"

text \<open>One status letter of the MODE line to the channel; the line is sent when it has its four parameters.\<close>

definition put_status :: "sjoin_env \<Rightarrow> char \<Rightarrow> string \<Rightarrow> sjoin_run \<Rightarrow> sjoin_run option" where
  "put_status e l name r =
    (let mb = (sj_modebuf r)[sj_mlen r := l]; n = sj_mlen r + 1; para = sj_para r @ [name] in
     if MODEBUFLEN \<le> n then None
     else if length para < MAXMODEPARAMS then Some (r\<lparr>sj_modebuf := mb, sj_mlen := n, sj_para := para\<rparr>)
     else do {
       let mb1 = mb[n := NUL];
       w \<leftarrow> status_line (cl_name (clients (sj_world r) (me (sj_world r)))) (se_chan e) (c_text mb1) para (sj_world r);
       Some (r\<lparr>sj_world := w, sj_modebuf := mb1[0 := CHR ''+''], sj_mlen := 1, sj_para := []\<rparr>) })"

definition sjoin_nick :: "network \<Rightarrow> sjoin_env \<Rightarrow> string \<Rightarrow> sjoin_run \<Rightarrow> sjoin_run option" where
  "sjoin_nick net e word r =
    (let (fl0, s) = read_prefix (cfg (sj_world r)) word 0;
         (found, w) = find_chasing (se_link e) (se_source e) s (sj_world r);
         r0 = r\<lparr>sj_world := w\<rparr> in
     case found of
       None \<Rightarrow> Some r0
     | Some target \<Rightarrow>
         (let c = clients w target; src = clients w (se_source e); k = cfg w in
          if from_link net target \<noteq> se_link e \<or> \<not> IsClient c then Some r0
          else do {
            let fl = (if se_keep_new e then fl0
                      else if has fl0 (CHFL_OWNER OR CHFL_PROTECTED OR CHFL_CHANOP OR CHFL_HALFOP) then CHFL_DEOPPED else 0);
            let pre = (if se_keep_new e then show_prefix k fl else []);
            (nb, w1) \<leftarrow> relay_entry e (cl_name src) 0 CAP_TS6 (pre @ cl_name c) (sj_nick r) (sj_modebuf r) w;
            (ub, w2) \<leftarrow> relay_entry e (ID src) CAP_TS6 0 (pre @ ID c) (sj_uid r) (sj_modebuf r) w1;
            let r1 = r\<lparr>sj_world := w2, sj_nick := nb, sj_uid := ub\<rparr>;
            let r2 = (if hub k then introduce_lazy_link_clients net e target r1 else r1);
            let w3 = sj_world r2;
            let r3 = (if find_channel_link target (se_chan e) w3 \<noteq> None then r2
                      else r2\<lparr>sj_world :=
                        send (To_channel 0 (se_chan e) ('':'' @ nuh_text (cl_name c) (cl_username c) (cl_host c) @ '' JOIN :'' @ ch_name (chans w3 (se_chan e))))
                          (add_user_to_channel (new_member net w3) (se_chan e) target fl (se_flood_ctrl e) w3)\<rparr>);
            fold (\<lambda>(f, l, p) r. do { q \<leftarrow> r; if has fl f then put_status e l (cl_name c) q else Some q }) (status_letters k) (Some r3) }))"

fun sjoin_nicks :: "network \<Rightarrow> sjoin_env \<Rightarrow> string list \<Rightarrow> sjoin_run \<Rightarrow> sjoin_run option" where
  "sjoin_nicks net e [] r = Some r"
| "sjoin_nicks net e (s # ss) r = do { r1 \<leftarrow> sjoin_nick net e s r; sjoin_nicks net e ss r1 }"

subsection \<open>The handler\<close>

text \<open>The masks of the losing side, when the winner has an id.\<close>

definition drop_masks :: "chid \<Rightarrow> cid \<Rightarrow> world \<Rightarrow> world option" where
  "drop_masks ch link w = do {
     w1 \<leftarrow> (if ch_banlist (chans w ch) \<noteq> [] then remove_ban_list ch link CHFL_BAN CHR ''b'' 0 w else Some w);
     w2 \<leftarrow> (if ch_exceptlist (chans w1 ch) \<noteq> [] then remove_ban_list ch link CHFL_EXCEPTION CHR ''e'' CAP_EX w1 else Some w1);
     w3 \<leftarrow> (if ch_invexlist (chans w2 ch) \<noteq> [] then remove_ban_list ch link CHFL_INVEX CHR ''I'' CAP_IE w2 else Some w2);
     Some (clear_ban_cache ch w3) }"

text \<open>The buffers to the other servers.\<close>

definition relay_sjoin :: "network \<Rightarrow> cid \<Rightarrow> string \<Rightarrow> string \<Rightarrow> world \<Rightarrow> world" where
  "relay_sjoin net link nb ub w =
    fold (\<lambda>s v. if s = link then v else send (To_one s (butlast (if cl_ts6 (clients v s) then ub else nb)) []) v) (serv_list net) w"

text \<open>Behind the loop: the rest of the MODE line, and the other servers.\<close>

definition sjoin_finish :: "network \<Rightarrow> sjoin_env \<Rightarrow> string \<Rightarrow> bool \<Rightarrow> bool \<Rightarrow> sjoin_run \<Rightarrow> world option" where
  "sjoin_finish net e nicks isnew keep_our r = do {
     let w = sj_world r;
     w1 \<leftarrow> (if sj_para r = [] then Some w
             else status_line (cl_name (clients w (me w))) (se_chan e) (c_text ((sj_modebuf r)[sj_mlen r := NUL])) (sj_para r) w);
     if ch_members (chans w1 (se_chan e)) = [] \<and> isnew then Some (destroy_channel (se_chan e) w1)
     else if nicks = [] then Some w1
     else do {
       let w2 = relay_sjoin net (se_link e) (sj_nick r) (sj_uid r) w1;
       if cl_id (clients w (se_source e)) \<noteq> [] \<and> \<not> keep_our then drop_masks (se_chan e) (se_link e) w2 else Some w2 } }"

text \<open>From the headers on, once the channel has its modes.\<close>

definition sjoin_members :: "network \<Rightarrow> sjoin_env \<Rightarrow> string \<Rightarrow> bool \<Rightarrow> bool \<Rightarrow> char list \<Rightarrow> world \<Rightarrow> world option" where
  "sjoin_members net e nicks isnew keep_our buf w =
    (let src = clients w (se_source e); name = ch_name (chans w (se_chan e)); mb = c_text buf;
         nb = sjoin_header (cl_name src) (se_tosend e) name mb (se_parabuf e);
         ub = sjoin_header (ID src) (se_tosend e) name mb (se_parabuf e) in
     if IRCD_BUFSIZE \<le> length nb \<or> IRCD_BUFSIZE \<le> length ub then None
     else if IRCD_BUFSIZE - max (NICKLEN (cfg w)) IDLEN - 2 - 5 - 1 \<le> length ub then
       Some (send (To_ops ''Long SJOIN from server'' [cl_name src, cl_name (clients w (se_link e))]) w)
     else do {
       r \<leftarrow> sjoin_nicks net e (space_words nicks)
         \<lparr>sj_world = w, sj_modebuf = buf[0 := CHR ''+''], sj_mlen = 1, sj_para = [], sj_nick = nb, sj_uid = ub, sj_known = lazy_known net\<rparr>;
       sjoin_finish net e nicks isnew keep_our r })"

definition sjoin_channel :: "network \<Rightarrow> cid \<Rightarrow> cid \<Rightarrow> string list \<Rightarrow> mode \<Rightarrow> nat \<Rightarrow> bool \<Rightarrow> chid \<Rightarrow> world \<Rightarrow> world option" where
  "sjoin_channel net link sender pv m0 args isnew ch w =
    (let old = ch_mode (chans w ch); oldts = ch_channelts (chans w ch); ts0 = atol (pv ! 1); nicks = pv ! (4 + args);
         bogus = (ignore_bogus_ts net \<and> ts0 < 800000000);
         newts = (if bogus then (if oldts = 0 then 0 else 800000000) else ts0);
         w1 = (if bogus then send (To_ops ''Bogus TS'' [ulong_text ts0, ch_name (chans w ch), cl_name (clients w link)]) w else w);
         (ts, tosend, keep_our, keep_new) = sjoin_ts isnew newts oldts;
         m = (if \<not> keep_new then old else if keep_our then merge_modes m0 old else m0) in
     do {
       (mb, pb) \<leftarrow> set_final_mode m old;
       let w2 = upd_chan ch (\<lambda>x. x\<lparr>ch_channelts := ts, ch_mode := m\<rparr>) w1;
       w3 \<leftarrow> (if \<not> keep_our then remove_our_modes net ch sender w2 else Some w2);
       let w4 = (if mb \<noteq> [] then send (To_channel 0 ch ('':'' @ cl_name (clients w3 (me w3)) @ '' MODE '' @ ch_name (chans w3 ch) @ '' '' @ mb @ '' '' @ pb)) w3 else w3);
       let (mb1, pb1) = (if rd (pv ! 3) 0 \<noteq> CHR ''0'' \<and> keep_new then channel_modes ch sender w4 else (''0'', pb));
       sjoin_members net \<lparr>se_link = link, se_source = sender, se_chan = ch, se_keep_new = keep_new, se_tosend = tosend,
           se_parabuf = pb1, se_flood_ctrl = length (space_words nicks) < 2\<rparr>
         nicks isnew keep_our (write_text mb1 (write_text mb (old_modebuf net))) w4 })"

definition ms_sjoin :: "network \<Rightarrow> cid \<Rightarrow> cid \<Rightarrow> string list \<Rightarrow> world \<Rightarrow> world option" where
  "ms_sjoin net link sender pv w =
    (if IsClient (clients w sender) \<or> length pv < 5 then Some w
     else if rd (pv ! 2) 0 \<noteq> CHR ''#'' then Some w
     else if \<not> check_channel_name (pv ! 2) False (cfg w) then
       Some (send (To_ops ''Too long or invalid channel name'' [cl_name (clients w link), pv ! 2]) w)
     else case sjoin_modes pv (pv ! 3) (no_mode, 0) of
            None \<Rightarrow> Some w
          | Some (m0, args) \<Rightarrow>
              (case lookup_channel (pv ! 2) w of
                 Some ch \<Rightarrow> sjoin_channel net link sender pv m0 args False ch w
               | None \<Rightarrow>
                   (let ch = new_channel net w in
                    sjoin_channel net link sender pv m0 args True ch (make_channel ch (pv ! 2) w))))"


section \<open>What the servers agree on\<close>

subsection \<open>Merging\<close>

lemma strcmp_eq: "strcmp a b = 0 \<longleftrightarrow> a = b"
  by (induction a b rule: strcmp.induct) auto

lemma strcmp_flip: "strcmp b a = - strcmp a b"
  by (induction a b rule: strcmp.induct) auto

lemma strcmp_trans: "strcmp a b < 0 \<Longrightarrow> strcmp b c < 0 \<Longrightarrow> strcmp a c < 0"
proof (induction a b arbitrary: c rule: strcmp.induct)
  case (2 b t) then show ?case by (cases c) auto
next
  case (4 a s b t)
  then obtain d u where c: "c = d # u" by (cases c) auto
  with 4 show ?case by (auto split: if_splits)
qed auto

text \<open>The later of two strings.\<close>

definition later :: "string \<Rightarrow> string \<Rightarrow> string" where
  "later a b = (if strcmp a b < 0 then b else a)"

lemma later_comm: "later a b = later b a"
proof -
  have "strcmp b a = - strcmp a b" by (rule strcmp_flip)
  moreover have "strcmp a b = 0 \<longleftrightarrow> a = b" by (rule strcmp_eq)
  ultimately show ?thesis by (auto simp: later_def)
qed

lemma later_assoc: "later a (later b c) = later (later a b) c"
proof -
  have t: "\<not> strcmp x y < 0 \<Longrightarrow> strcmp x z < 0 \<Longrightarrow> strcmp y z < 0" for x y z
    using strcmp_trans [of y x z] strcmp_flip [of y x] strcmp_eq [of x y] by (cases "x = y") auto
  show ?thesis using strcmp_trans [of a b c] t [of a b c] by (auto simp: later_def)
qed

lemma later_idem [simp]: "later a a = a"
  by (simp add: later_def)

lemma merge_modes_max:
  "merge_modes m old = \<lparr>md_mode = md_mode m OR md_mode old, md_limit = max (md_limit m) (md_limit old),
     md_key = later (md_key m) (md_key old), md_forward = later (md_forward m) (md_forward old),
     md_msgs = max (md_msgs m) (md_msgs old), md_per = max (md_per m) (md_per old)\<rparr>"
proof -
  have "(if a < b then b else a) = max a b" for a b :: "32 word" by (auto simp: max_def)
  then show ?thesis by (simp add: merge_modes_def later_def)
qed

lemma merge_comm: "merge_modes a b = merge_modes b a"
  by (simp add: merge_modes_max later_comm or.commute max.commute)

lemma merge_left_comm: "merge_modes a (merge_modes b c) = merge_modes b (merge_modes a c)"
  using later_comm later_assoc by (simp add: merge_modes_max or.left_commute max.left_commute) metis

lemma merge_idem: "merge_modes a (merge_modes a b) = merge_modes a b"
  by (simp add: merge_modes_max later_assoc flip: or.assoc max.assoc)

text \<open>What a line with a time stamp and modes makes of the ones there are.\<close>

definition settle :: "int \<times> mode \<Rightarrow> int \<times> mode \<Rightarrow> int \<times> mode" where
  "settle new old =
    (let (ts, tosend, keep_our, keep_new) = sjoin_ts False (fst new) (fst old) in
     (ts, if \<not> keep_new then snd old else if keep_our then merge_modes (snd new) (snd old) else snd new))"

lemma settle_alt:
  "0 < t \<Longrightarrow> 0 < u \<Longrightarrow> settle (t, m) (u, n) = (if t < u then (t, m) else if u < t then (u, n) else (u, merge_modes m n))"
  by (simp add: settle_def sjoin_ts_def)

lemma settle_swap:
  assumes "0 < fst a" "0 < fst b" "0 < fst c"
  shows "settle b (settle a c) = settle a (settle b c)" "0 < fst (settle a c)"
proof -
  obtain t m u n v k where e: "a = (t, m)" "b = (u, n)" "c = (v, k)" by (cases a; cases b; cases c)
  show "settle b (settle a c) = settle a (settle b c)" "0 < fst (settle a c)"
    using assms merge_comm [of m n] merge_left_comm [of m n k] unfolding e by (auto simp: settle_alt)
qed

lemma settle_again:
  assumes "0 < fst a" "0 < fst c"
  shows "settle a (settle a c) = settle a c"
proof -
  obtain t m v k where e: "a = (t, m)" "c = (v, k)" by (cases a; cases c)
  have "merge_modes m m = m" by (simp add: merge_modes_max)
  then show ?thesis using assms merge_idem [of m k] unfolding e by (auto simp: settle_alt)
qed

text \<open>With a time stamp of zero the order does matter: the zero makes every later line merge.\<close>

lemma settle_zero:
  assumes "0 < v" "v < u" "md_mode m AND NOT (md_mode k) \<noteq> 0"
  shows "settle (u, m) (settle (0, k) (v, k)) \<noteq> settle (0, k) (settle (u, m) (v, k))"
proof -
  have "md_mode m OR md_mode k \<noteq> md_mode k"
  proof
    assume e: "md_mode m OR md_mode k = md_mode k"
    have "md_mode m AND NOT (md_mode k) = (md_mode m OR md_mode k) AND NOT (md_mode k)" by (simp add: bit.conj_disj_distrib2)
    with e assms(3) show False by simp
  qed
  then have "md_mode (merge_modes m (merge_modes k k)) \<noteq> md_mode (merge_modes k k)" by (simp add: merge_modes_max)
  then show ?thesis using assms(1,2) by (auto simp: settle_def sjoin_ts_def merge_modes_max)
qed


subsection \<open>What the steps leave alone\<close>

text \<open>Everything but the log, the memberships with the lists they hang in, the masks, and the join counters.\<close>

definition kept :: "world \<Rightarrow> world \<Rightarrow> bool" where
  "kept w w' \<longleftrightarrow> cfg w' = cfg w \<and> channel_names w' = channel_names w \<and> client_names w' = client_names w \<and> id_names w' = id_names w \<and>
     history w' = history w \<and> me w' = me w \<and>
     (\<forall>c. ch_name (chans w' c) = ch_name (chans w c) \<and> ch_mode (chans w' c) = ch_mode (chans w c) \<and>
        ch_channelts (chans w' c) = ch_channelts (chans w c)) \<and>
     (\<forall>c. (clients w' c)\<lparr>cl_channel := []\<rparr> = (clients w c)\<lparr>cl_channel := []\<rparr>)"

lemma kept_refl [simp]: "kept w w"
  by (simp add: kept_def)

lemma kept_trans [trans]: "kept w w1 \<Longrightarrow> kept w1 w2 \<Longrightarrow> kept w w2"
  by (simp add: kept_def)

lemma kept_client:
  assumes "kept w w'"
  shows "cl_name (clients w' c) = cl_name (clients w c)" "cl_id (clients w' c) = cl_id (clients w c)"
    "cl_status (clients w' c) = cl_status (clients w c)" "cl_invisible (clients w' c) = cl_invisible (clients w c)"
    "cl_username (clients w' c) = cl_username (clients w c)" "cl_host (clients w' c) = cl_host (clients w c)"
    "cl_ts6 (clients w' c) = cl_ts6 (clients w c)" "cl_local (clients w' c) = cl_local (clients w c)"
proof -
  have "(clients w' c)\<lparr>cl_channel := []\<rparr> = (clients w c)\<lparr>cl_channel := []\<rparr>" using assms by (simp add: kept_def)
  note e = arg_cong [OF this]
  show "cl_name (clients w' c) = cl_name (clients w c)" using e [of cl_name] by simp
  show "cl_id (clients w' c) = cl_id (clients w c)" using e [of cl_id] by simp
  show "cl_status (clients w' c) = cl_status (clients w c)" using e [of cl_status] by simp
  show "cl_invisible (clients w' c) = cl_invisible (clients w c)" using e [of cl_invisible] by simp
  show "cl_username (clients w' c) = cl_username (clients w c)" using e [of cl_username] by simp
  show "cl_host (clients w' c) = cl_host (clients w c)" using e [of cl_host] by simp
  show "cl_ts6 (clients w' c) = cl_ts6 (clients w c)" using e [of cl_ts6] by simp
  show "cl_local (clients w' c) = cl_local (clients w c)" using e [of cl_local] by simp
qed

lemma kept_send [simp]: "kept w (send e w1) \<longleftrightarrow> kept w w1"
  by (simp add: kept_def)

lemma kept_upd_ms [simp]: "kept w (upd_ms m f w1) \<longleftrightarrow> kept w w1"
  by (simp add: kept_def)

lemma kept_fold: "(\<And>x v. kept v (f x v)) \<Longrightarrow> kept w (fold f xs w)"
  by (induction xs arbitrary: w) (auto intro: kept_trans)

lemma kept_clear_ban_cache: "kept w (clear_ban_cache ch w)"
  by (simp add: clear_ban_cache_def kept_fold)

lemma kept_join_flood: "kept w (join_flood ch who f w)"
  by (simp add: kept_def join_flood_def Let_def send_def upd_chan_def)

lemma kept_links:
  "kept w w1 \<Longrightarrow> kept w (upd_client who (\<lambda>x. x\<lparr>cl_channel := f x\<rparr>) (upd_chan ch (\<lambda>x. x\<lparr>ch_members := g x\<rparr>) (w1\<lparr>mships := h\<rparr>)))"
  by (simp add: kept_def)

lemma kept_add_user: "kept w (add_user_to_channel ms ch who fl f w)"
proof -
  have "kept w (if 0 < joinfloodtime (cfg w) then join_flood ch who f w else w)" by (simp add: kept_join_flood)
  then show ?thesis unfolding add_user_to_channel_def Let_def by (rule kept_links)
qed

lemma kept_upd_id_list: "kept w w1 \<Longrightarrow> kept w (upd_chan ch (upd_id_list t g) w1)"
  by (cases t) (simp_all add: kept_def upd_id_list_def)

lemma status_line_kept: "status_line server ch l ns w = Some w' \<Longrightarrow> kept w w' \<and> mships w' = mships w \<and> chans w' = chans w \<and> clients w' = clients w"
  by (auto simp: status_line_def split: if_splits)

lemma remove_a_mode_kept: "remove_a_mode server ch msk flag ms ns w = Some w' \<Longrightarrow> kept w w'"
proof (induction server ch msk flag ms ns w rule: remove_a_mode.induct)
  case (1 server ch msk flag ns w)
  then show ?case using status_line_kept by (auto split: if_splits)
next
  case (2 server ch msk flag m ms ns w)
  then obtain x where x: "mships w m = Some x" by (auto split: option.splits)
  let ?w = "upd_ms m (\<lambda>x. x\<lparr>ms_flags := ms_flags x AND NOT msk\<rparr>) w"
  let ?ns = "ns @ [cl_name (clients w (ms_client x))]"
  consider "\<not> has (ms_flags x) msk" | "has (ms_flags x) msk" "length ?ns < MAXMODEPARAMS"
    | "has (ms_flags x) msk" "\<not> length ?ns < MAXMODEPARAMS" by blast
  then show ?case
  proof cases
    case 1 with 2 x show ?thesis by auto
  next
    case c: 2
    with "2.prems" x have "remove_a_mode server ch msk flag ms ?ns ?w = Some w'" by (simp add: Let_def)
    from "2.IH"(2) [OF x _ refl refl c(2) this] c(1) have "kept ?w w'" by simp
    moreover have "kept w ?w" by simp
    ultimately show ?thesis using kept_trans by blast
  next
    case c: 3
    with "2.prems" x obtain w2 where w2: "status_line server ch (CHR ''-'' # replicate (length ?ns) flag) ?ns ?w = Some w2"
      "remove_a_mode server ch msk flag ms [] w2 = Some w'" by (auto simp: Let_def split: bind_splits)
    from "2.IH"(3) [OF x _ refl refl c(2) w2] c(1) have "kept w2 w'" by simp
    moreover have "kept w ?w" by simp
    moreover have "kept ?w w2" using status_line_kept [OF w2(1)] by simp
    ultimately show ?thesis using kept_trans by blast
  qed
qed


lemma fold_bind_None: "fold (\<lambda>x ow. do { v \<leftarrow> ow; f x v }) xs None = None"
  by (induction xs) auto

text \<open>A property of worlds that every step of a chain of fallible steps keeps.\<close>

lemma fold_bind_kept:
  assumes "fold (\<lambda>x ow. do { v \<leftarrow> ow; f x v }) xs (Some w) = Some w'" "\<And>x v v'. x \<in> set xs \<Longrightarrow> f x v = Some v' \<Longrightarrow> R v v'"
    "\<And>v. R v v" "\<And>u v v'. R u v \<Longrightarrow> R v v' \<Longrightarrow> R u v'"
  shows "R w w'"
  using assms(1,2)
proof (induction xs arbitrary: w)
  case (Cons x xs)
  then obtain v where v: "f x w = Some v" by (cases "f x w") (auto simp: fold_bind_None)
  then have "R v w'" using Cons.prems by (intro Cons.IH) auto
  with Cons.prems(2) [OF _ v] assms(4) show ?case by simp
qed (simp add: assms(3))

lemma remove_our_modes_kept: "remove_our_modes net ch s w = Some w' \<Longrightarrow> kept w w'"
  unfolding remove_our_modes_def Let_def
  by (rule fold_bind_kept [where R = kept, unfolded split_def, rotated -1])
    (auto simp: split_def intro: remove_a_mode_kept kept_trans)

lemma remove_ban_list_kept: "remove_ban_list ch l t c cap w = Some w' \<Longrightarrow> kept w w' \<and> mships w' = mships w \<and> clients w' = clients w"
proof -
  assume "remove_ban_list ch l t c cap w = Some w'"
  then obtain ls where w': "w' = upd_chan ch (upd_id_list t (\<lambda>_. [])) (fold (\<lambda>l. send (To_servers ch cap CAP_TS6 l) \<circ> send (To_channel 0 ch l)) ls w)"
    by (auto simp: remove_ban_list_def Let_def split: if_splits)
  have "kept w (fold (\<lambda>l. send (To_servers ch cap CAP_TS6 l) \<circ> send (To_channel 0 ch l)) ls w)" by (rule kept_fold) simp
  moreover have "mships (fold (\<lambda>l. send (To_servers ch cap CAP_TS6 l) \<circ> send (To_channel 0 ch l)) ls w) = mships w \<and>
      clients (fold (\<lambda>l. send (To_servers ch cap CAP_TS6 l) \<circ> send (To_channel 0 ch l)) ls w) = clients w"
    by (induction ls arbitrary: w) auto
  ultimately show ?thesis unfolding w' by (simp add: kept_upd_id_list)
qed

text \<open>Nothing but the log has grown.\<close>

definition logged :: "world \<Rightarrow> world \<Rightarrow> bool" where
  "logged w w' \<longleftrightarrow> (\<exists>es. w' = w\<lparr>log := log w @ es\<rparr>)"

lemma logged_refl [simp]: "logged w w"
  unfolding logged_def by (rule exI [of _ "[]"]) simp

lemma logged_send [simp]: "logged w w1 \<Longrightarrow> logged w (send e w1)"
  unfolding logged_def send_def by auto

lemma logged_trans: "logged w w1 \<Longrightarrow> logged w1 w2 \<Longrightarrow> logged w w2"
  unfolding logged_def by auto

lemma loggedD:
  assumes "logged w w'"
  shows "kept w w'" "mships w' = mships w" "chans w' = chans w" "clients w' = clients w" "cfg w' = cfg w" "set (log w) \<subseteq> set (log w')"
    "client_names w' = client_names w" "id_names w' = id_names w" "history w' = history w" "me w' = me w"
  using assms by (auto simp: logged_def kept_def)

lemma logged_fold: "(\<And>x v. logged v (f x v)) \<Longrightarrow> logged w (fold f xs w)"
  by (induction xs arbitrary: w) (auto intro: logged_trans)

lemma status_line_logged: "status_line server ch l ns w = Some w' \<Longrightarrow> logged w w'"
  by (auto simp: status_line_def split: if_splits)

lemma relay_entry_logged: "relay_entry e who cap nocap en buf mb w = Some (buf', w') \<Longrightarrow> logged w w'"
  by (auto simp: relay_entry_def Let_def split: if_splits)

lemma introduce_logged:
  defines "i \<equiv> introduce_lazy_link_clients"
  shows "logged (sj_world r) (sj_world (i net e t r))" "sj_modebuf (i net e t r) = sj_modebuf r" "sj_mlen (i net e t r) = sj_mlen r"
    "sj_para (i net e t r) = sj_para r" "sj_nick (i net e t r) = sj_nick r" "sj_uid (i net e t r) = sj_uid r"
proof -
  let ?f = "\<lambda>s r. if s = se_link e \<or> \<not> lazy_leaf net s (se_chan e) \<or> (t, s) \<in> set (sj_known r) then r
        else r\<lparr>sj_world := send (To_one s ''NICK'' [cl_name (clients (sj_world r) t)]) (sj_world r), sj_known := (t, s) # sj_known r\<rparr>"
  have "logged (sj_world r) (sj_world (fold ?f xs r)) \<and> sj_modebuf (fold ?f xs r) = sj_modebuf r \<and>
      sj_mlen (fold ?f xs r) = sj_mlen r \<and> sj_para (fold ?f xs r) = sj_para r \<and> sj_nick (fold ?f xs r) = sj_nick r \<and>
      sj_uid (fold ?f xs r) = sj_uid r" for xs
  proof (induction xs arbitrary: r)
    case (Cons s xs)
    have "logged (sj_world r) (sj_world (?f s r))" by simp
    with Cons.IH [of "?f s r"] show ?case by (auto intro: logged_trans)
  qed simp
  from this [of "serv_list net"] show "logged (sj_world r) (sj_world (i net e t r))" "sj_modebuf (i net e t r) = sj_modebuf r"
    "sj_mlen (i net e t r) = sj_mlen r" "sj_para (i net e t r) = sj_para r" "sj_nick (i net e t r) = sj_nick r" "sj_uid (i net e t r) = sj_uid r"
    unfolding i_def introduce_lazy_link_clients_def by blast+
qed

lemma put_status_logged: "put_status e l name r = Some r' \<Longrightarrow> logged (sj_world r) (sj_world r') \<and> sj_nick r' = sj_nick r \<and> sj_uid r' = sj_uid r"
  by (auto simp: put_status_def Let_def split: if_splits bind_splits dest: status_line_logged)

lemma put_letters_logged:
  assumes "fold (\<lambda>(f, l, p) r. do { q \<leftarrow> r; if has fl f then put_status e l name q else Some q }) ls (Some r) = Some r'"
  shows "logged (sj_world r) (sj_world r') \<and> sj_nick r' = sj_nick r \<and> sj_uid r' = sj_uid r"
  using assms unfolding split_def
  by (rule fold_bind_kept [where R = "\<lambda>r r'. logged (sj_world r) (sj_world r') \<and> sj_nick r' = sj_nick r \<and> sj_uid r' = sj_uid r"])
    (auto split: if_splits dest: put_status_logged intro: logged_trans)


subsection \<open>Who joins\<close>

text \<open>The client a word of the list stands for, and the status it comes with.\<close>

definition wanted :: "network \<Rightarrow> cid \<Rightarrow> cid \<Rightarrow> world \<Rightarrow> string \<Rightarrow> cid option" where
  "wanted net link sender w word =
    (case fst (find_chasing link sender (snd (read_prefix (cfg w) word 0)) w) of
       None \<Rightarrow> None
     | Some t \<Rightarrow> if from_link net t = link \<and> IsClient (clients w t) then Some t else None)"

definition granted :: "bool \<Rightarrow> config \<Rightarrow> string \<Rightarrow> 32 word" where
  "granted keep_new c word =
    (let fl = fst (read_prefix c word 0) in
     if keep_new then fl else if has fl (CHFL_OWNER OR CHFL_PROTECTED OR CHFL_CHANOP OR CHFL_HALFOP) then CHFL_DEOPPED else 0)"

lemma find_chasing_logged: "logged w (snd (find_chasing l s u w))"
  by (auto simp: find_chasing_def split: option.splits)

lemma find_chasing_kept:
  assumes "kept w w'"
  shows "fst (find_chasing l s u w') = fst (find_chasing l s u w)"
proof -
  have k: "client_names w' = client_names w" "id_names w' = id_names w" "history w' = history w" "cfg w' = cfg w" using assms by (simp_all add: kept_def)
  have "lookup_client u w' = lookup_client u w" "lookup_id u w' = lookup_id u w"
    by (simp_all add: lookup_client_def lookup_id_def k kept_client [OF assms])
  then have "find_person l u w' = find_person l u w"
    using kept_client [OF assms] by (auto simp: find_person_def IsServer_def IsClient_def split: option.splits)
  then show ?thesis using k by (auto simp: find_chasing_def split: option.splits)
qed

lemma wanted_kept:
  assumes "kept w w'"
  shows "wanted net link sender w' word = wanted net link sender w word"
  using assms kept_client(3) [OF assms] by (auto simp: wanted_def find_chasing_kept [OF assms] kept_def IsClient_def split: option.splits)

lemma sjoin_nick_effect:
  assumes "sjoin_nick net e word r = Some r'"
  defines "w \<equiv> sj_world r" and "w' \<equiv> sj_world r'"
  shows "case wanted net (se_link e) (se_source e) w word of
      None \<Rightarrow> logged w w'
    | Some t \<Rightarrow> (\<exists>w3 w4. logged w w3 \<and> logged w4 w' \<and>
        w4 = (if find_channel_link t (se_chan e) w3 \<noteq> None then w3
              else add_user_to_channel (new_member net w3) (se_chan e) t (granted (se_keep_new e) (cfg w) word) (se_flood_ctrl e) w3))"
proof -
  obtain fl0 s where rp: "read_prefix (cfg w) word 0 = (fl0, s)" by fastforce
  obtain found w1 where fc: "find_chasing (se_link e) (se_source e) s w = (found, w1)" by fastforce
  have l1: "logged w w1" using find_chasing_logged [of w "se_link e" "se_source e" s] fc by simp
  note L = loggedD [OF l1]
  note def = assms(1) [unfolded sjoin_nick_def w_def [symmetric] rp fc Let_def prod.case]
  show ?thesis
  proof (cases "found = None \<or> (\<exists>t. found = Some t \<and> (from_link net t \<noteq> se_link e \<or> \<not> IsClient (clients w t)))")
    case True
    then have "wanted net (se_link e) (se_source e) w word = None" by (auto simp: wanted_def rp fc)
    moreover have "w' = w1" using def True L(4) unfolding w'_def by auto
    ultimately show ?thesis using l1 by simp
  next
    case False
    then obtain t where t: "found = Some t" "from_link net t = se_link e" "IsClient (clients w t)" by auto
    then have wt: "wanted net (se_link e) (se_source e) w word = Some t" by (simp add: wanted_def rp fc)
    let ?k = "cfg w1" and ?c = "clients w1 t" and ?src = "clients w1 (se_source e)"
    let ?fl = "if se_keep_new e then fl0
               else if has fl0 (CHFL_OWNER OR CHFL_PROTECTED OR CHFL_CHANOP OR CHFL_HALFOP) then CHFL_DEOPPED else 0"
    let ?pre = "if se_keep_new e then show_prefix ?k ?fl else []"
    have fl: "?fl = granted (se_keep_new e) (cfg w) word" by (simp add: granted_def rp)
    from def t L(4) obtain nb w2 ub w3 where
      n: "relay_entry e (cl_name ?src) 0 CAP_TS6 (?pre @ cl_name ?c) (sj_nick r) (sj_modebuf r) w1 = Some (nb, w2)" and
      u: "relay_entry e (ID ?src) CAP_TS6 0 (?pre @ ID ?c) (sj_uid r) (sj_modebuf r) w2 = Some (ub, w3)" and
      rest: "(let r1 = r\<lparr>sj_world := w3, sj_nick := nb, sj_uid := ub\<rparr>;
                r2 = (if hub ?k then introduce_lazy_link_clients net e t r1 else r1);
                w3 = sj_world r2;
                r3 = (if find_channel_link t (se_chan e) w3 \<noteq> None then r2
                  else r2\<lparr>sj_world :=
                    send (To_channel 0 (se_chan e) ('':'' @ nuh_text (cl_name ?c) (cl_username ?c) (cl_host ?c) @ '' JOIN :'' @ ch_name (chans w3 (se_chan e))))
                      (add_user_to_channel (new_member net w3) (se_chan e) t ?fl (se_flood_ctrl e) w3)\<rparr>) in
            fold (\<lambda>(f, l, p) r. do { q \<leftarrow> r; if has ?fl f then put_status e l (cl_name ?c) q else Some q }) (status_letters ?k) (Some r3)) = Some r'"
      by (auto simp: Let_def split: bind_splits)
    define r1 where "r1 = r\<lparr>sj_world := w3, sj_nick := nb, sj_uid := ub\<rparr>"
    define r2 where "r2 = (if hub ?k then introduce_lazy_link_clients net e t r1 else r1)"
    have "logged (sj_world r1) (sj_world r2)" using introduce_logged(1) by (simp add: r2_def)
    moreover have "sj_world r1 = w3" by (simp add: r1_def)
    ultimately have "logged w3 (sj_world r2)" by simp
    then have l3: "logged w (sj_world r2)"
      by (rule logged_trans [OF logged_trans [OF l1 logged_trans [OF relay_entry_logged [OF n] relay_entry_logged [OF u]]]])
    define w4 where "w4 = (if find_channel_link t (se_chan e) (sj_world r2) \<noteq> None then sj_world r2
              else add_user_to_channel (new_member net (sj_world r2)) (se_chan e) t ?fl (se_flood_ctrl e) (sj_world r2))"
    define r3 where "r3 = (if find_channel_link t (se_chan e) (sj_world r2) \<noteq> None then r2
        else r2\<lparr>sj_world :=
          send (To_channel 0 (se_chan e) ('':'' @ nuh_text (cl_name ?c) (cl_username ?c) (cl_host ?c) @ '' JOIN :'' @ ch_name (chans (sj_world r2) (se_chan e))))
            (add_user_to_channel (new_member net (sj_world r2)) (se_chan e) t ?fl (se_flood_ctrl e) (sj_world r2))\<rparr>)"
    have f3: "fold (\<lambda>(f, l, p) r. do { q \<leftarrow> r; if has ?fl f then put_status e l (cl_name ?c) q else Some q }) (status_letters ?k) (Some r3) = Some r'"
      using rest unfolding Let_def r1_def [symmetric] r2_def [symmetric] r3_def [symmetric] .
    have "logged w4 (sj_world r3)" by (simp add: r3_def w4_def)
    then have "logged w4 w'" using put_letters_logged [OF f3] logged_trans unfolding w'_def by blast
    with l3 w4_def wt show ?thesis unfolding fl by (auto intro!: exI [of _ "sj_world r2"])
  qed
qed


text \<open>The allocator gives out unused memberships, as long as there are finitely many used ones.\<close>

definition fresh_members :: "network \<Rightarrow> bool" where
  "fresh_members net \<longleftrightarrow> (\<forall>w. finite (dom (mships w)) \<longrightarrow> mships w (new_member net w) = None)"

definition linked :: "world \<Rightarrow> bool" where
  "linked w \<longleftrightarrow> links_ok w \<and> finite (dom (mships w))"

lemma linked_cong:
  assumes "mships w' = mships w" "\<And>ch. ch_members (chans w' ch) = ch_members (chans w ch)"
    "\<And>c. cl_channel (clients w' c) = cl_channel (clients w c)"
  shows "linked w' = linked w"
  using links_ok_cong [OF assms] assms(1) by (simp add: linked_def)

lemma linked_same: "same_links w w' \<Longrightarrow> linked w \<Longrightarrow> linked w'"
proof -
  assume a: "same_links w w'" "linked w"
  have "mships w' m = None \<longleftrightarrow> mships w m = None" for m
    using a(1) unfolding same_links_def by (metis option.map_disc_iff)
  then have "dom (mships w') = dom (mships w)" by (simp add: dom_def)
  then show ?thesis using a links_ok_same by (simp add: linked_def)
qed

text \<open>What the words of a list do to the memberships between two worlds.\<close>

definition joined :: "network \<Rightarrow> sjoin_env \<Rightarrow> string set \<Rightarrow> world \<Rightarrow> world \<Rightarrow> bool" where
  "joined net e words w w' \<longleftrightarrow> kept w w' \<and> linked w' \<and>
     (\<forall>c k. is_member w' c k \<longleftrightarrow> is_member w c k \<or>
        k = se_chan e \<and> (\<exists>s\<in>words. wanted net (se_link e) (se_source e) w s = Some c)) \<and>
     (\<forall>m x. mships w m = Some x \<longrightarrow> mships w' m = Some x) \<and>
     (\<forall>m y. mships w m = None \<and> mships w' m = Some y \<longrightarrow>
        ms_chptr y = se_chan e \<and> (\<exists>s\<in>words. ms_flags y = granted (se_keep_new e) (cfg w) s))"

lemma joined_trans:
  assumes "joined net e A w w1" "joined net e B w1 w2"
  shows "joined net e (A \<union> B) w w2"
proof -
  have k: "kept w w1" using assms(1) by (simp add: joined_def)
  have "cfg w1 = cfg w" using k by (simp add: kept_def)
  have new: "ms_chptr y = se_chan e \<and> (\<exists>s\<in>A \<union> B. ms_flags y = granted (se_keep_new e) (cfg w) s)"
    if "mships w m = None" "mships w2 m = Some y" for m y
  proof (cases "mships w1 m")
    case None with that(2) assms(2) \<open>cfg w1 = cfg w\<close> show ?thesis unfolding joined_def by fastforce
  next
    case (Some z)
    with that(2) assms(2) have "mships w1 m = Some y" unfolding joined_def by force
    with that(1) assms(1) show ?thesis unfolding joined_def by fastforce
  qed
  have mem: "is_member w2 c k \<longleftrightarrow> is_member w c k \<or> k = se_chan e \<and> (\<exists>s\<in>A \<union> B. wanted net (se_link e) (se_source e) w s = Some c)" for c k
    using assms unfolding joined_def wanted_kept [OF k] by blast
  have "kept w w2" "linked w2" "\<forall>m x. mships w m = Some x \<longrightarrow> mships w2 m = Some x"
    using assms kept_trans unfolding joined_def by auto
  then show ?thesis using mem new unfolding joined_def by auto
qed

lemma linked_logged: "logged w w' \<Longrightarrow> linked w' \<longleftrightarrow> linked w"
  using loggedD [of w w'] by (intro linked_cong) auto

lemma is_member_logged: "logged w w' \<Longrightarrow> is_member w' c k \<longleftrightarrow> is_member w c k"
  using loggedD [of w w'] by (simp add: is_member_def)

lemma sjoin_nick_joined:
  assumes "sjoin_nick net e word r = Some r'" "fresh_members net" "linked (sj_world r)"
  shows "joined net e {word} (sj_world r) (sj_world r')"
proof -
  let ?w = "sj_world r" and ?w' = "sj_world r'" and ?ch = "se_chan e"
  note E = sjoin_nick_effect [OF assms(1)]
  show ?thesis
  proof (cases "wanted net (se_link e) (se_source e) ?w word")
    case None
    with E have l: "logged ?w ?w'" by simp
    with None assms(3) show ?thesis
      using loggedD(1,2) [OF l] by (auto simp: joined_def linked_logged [OF l] is_member_logged [OF l])
  next
    case (Some t)
    then have client: "IsClient (clients ?w t)" by (auto simp: wanted_def split: option.splits if_splits)
    from Some E obtain w3 w4 where l3: "logged ?w w3" and l4: "logged w4 ?w'" and
      w4: "w4 = (if find_channel_link t ?ch w3 \<noteq> None then w3
             else add_user_to_channel (new_member net w3) ?ch t (granted (se_keep_new e) (cfg ?w) word) (se_flood_ctrl e) w3)"
      by auto
    have ok3: "linked w3" using linked_logged [OF l3] assms(3) by simp
    then have lk3: "links_ok w3" by (simp add: linked_def)
    have c3: "IsClient (clients w3 t)" using client loggedD(4) [OF l3] by simp
    note m3 = is_member_logged [OF l3] and m4 = is_member_logged [OF l4]
    show ?thesis
    proof (cases "is_member w3 t ?ch")
      case True
      then have "w4 = w3" using w4 find_channel_link_None [OF lk3 c3, of ?ch] by simp
      then have l: "logged ?w ?w'" using l3 l4 logged_trans by blast
      show ?thesis
        using loggedD(1,2) [OF l] assms(3) Some True m3 by (auto simp: joined_def linked_logged [OF l] is_member_logged [OF l])
    next
      case False
      then have w4: "w4 = add_user_to_channel (new_member net w3) ?ch t (granted (se_keep_new e) (cfg ?w) word) (se_flood_ctrl e) w3"
        using w4 find_channel_link_None [OF lk3 c3, of ?ch] by simp
      have f: "mships w3 (new_member net w3) = None" using assms(2) ok3 by (simp add: fresh_members_def linked_def)
      note J = add_user_to_channel_ok [OF lk3 f False, where flags = "granted (se_keep_new e) (cfg ?w) word" and flood_ctrl = "se_flood_ctrl e", folded w4]
      have "kept ?w w4" unfolding w4 by (rule kept_trans [OF loggedD(1) [OF l3] kept_add_user])
      then have "kept ?w ?w'" using loggedD(1) [OF l4] kept_trans by blast
      moreover have "mships ?w' = (mships ?w)(new_member net w3 \<mapsto> \<lparr>ms_chptr = ?ch, ms_client = t,
          ms_flags = granted (se_keep_new e) (cfg ?w) word, ms_lmsg = None, ms_nmsg = 0, ms_lsize = 0, ms_lmsg_time = 0\<rparr>)"
        using loggedD(2) [OF l4] loggedD(2) [OF l3] unfolding w4 by (simp add: add_user_to_channel_frame(1))
      moreover have "mships ?w (new_member net w3) = None" using f loggedD(2) [OF l3] by simp
      moreover have "linked w4" using J ok3 unfolding w4 by (simp add: linked_def add_user_to_channel_frame(1))
      ultimately show ?thesis
        using J Some m3 m4 linked_logged [OF l4] by (auto simp: joined_def)
    qed
  qed
qed

lemma sjoin_nicks_joined:
  assumes "sjoin_nicks net e ws r = Some r'" "fresh_members net" "linked (sj_world r)"
  shows "joined net e (set ws) (sj_world r) (sj_world r')"
  using assms(1,3)
proof (induction ws arbitrary: r)
  case Nil then show ?case by (auto simp: joined_def)
next
  case (Cons s ws)
  then obtain r1 where r1: "sjoin_nick net e s r = Some r1" "sjoin_nicks net e ws r1 = Some r'" by (auto split: bind_splits)
  note j = sjoin_nick_joined [OF r1(1) assms(2) Cons.prems(2)]
  then have "linked (sj_world r1)" by (simp add: joined_def)
  from joined_trans [OF j Cons.IH [OF r1(2) this]] show ?case by simp
qed


subsection \<open>Who loses\<close>

text \<open>Some members of a channel have lost some of their flags; nothing else has changed.\<close>

definition stripped :: "chid \<Rightarrow> world \<Rightarrow> world \<Rightarrow> bool" where
  "stripped ch w w' \<longleftrightarrow> kept w w' \<and> chans w' = chans w \<and> clients w' = clients w \<and>
     (\<forall>m. mships w m = None \<longrightarrow> mships w' m = None) \<and>
     (\<forall>m x. mships w m = Some x \<longrightarrow> (\<exists>y. mships w' m = Some y \<and> ms_chptr y = ms_chptr x \<and> ms_client y = ms_client x \<and>
        (\<forall>f. has (ms_flags y) f \<longrightarrow> has (ms_flags x) f) \<and> (m \<notin> set (ch_members (chans w ch)) \<longrightarrow> y = x)))"

lemma strippedD:
  assumes "stripped ch w w'" "mships w m = Some x"
  shows "\<exists>y. mships w' m = Some y \<and> ms_chptr y = ms_chptr x \<and> ms_client y = ms_client x \<and>
    (\<forall>f. has (ms_flags y) f \<longrightarrow> has (ms_flags x) f) \<and> (m \<notin> set (ch_members (chans w ch)) \<longrightarrow> y = x)"
  using assms unfolding stripped_def by blast

lemma stripped_refl: "stripped ch w w"
  by (simp add: stripped_def)

lemma stripped_trans:
  assumes "stripped ch w w1" "stripped ch w1 w2"
  shows "stripped ch w w2"
proof -
  have "\<exists>y. mships w2 m = Some y \<and> ms_chptr y = ms_chptr x \<and> ms_client y = ms_client x \<and>
    (\<forall>f. has (ms_flags y) f \<longrightarrow> has (ms_flags x) f) \<and> (m \<notin> set (ch_members (chans w ch)) \<longrightarrow> y = x)" if "mships w m = Some x" for m x
  proof -
    note x = that
    obtain y where y: "mships w1 m = Some y" "ms_chptr y = ms_chptr x" "ms_client y = ms_client x"
        "\<forall>f. has (ms_flags y) f \<longrightarrow> has (ms_flags x) f" "m \<notin> set (ch_members (chans w ch)) \<longrightarrow> y = x"
      using strippedD [OF assms(1) x] by blast
    have "chans w1 = chans w" using assms(1) by (simp add: stripped_def)
    with strippedD [OF assms(2) y(1)] y show ?thesis by auto
  qed
  then show ?thesis using assms kept_trans unfolding stripped_def by auto
qed

lemma stripped_logged: "logged w w' \<Longrightarrow> stripped ch w w'"
  using loggedD [of w w'] by (simp add: stripped_def)

lemma has_and_not: "has (x AND NOT msk) f \<Longrightarrow> has x f" "\<not> has (x AND NOT msk) msk"
  by (auto simp: has_def bit_eq_iff bit_simps)

lemma stripped_one:
  assumes "m \<in> set (ch_members (chans w ch))"
  shows "stripped ch w (upd_ms m (\<lambda>x. x\<lparr>ms_flags := ms_flags x AND NOT msk\<rparr>) w)"
  using assms has_and_not(1) by (auto simp: stripped_def)

lemma remove_a_mode_stripped:
  assumes "remove_a_mode server ch msk flag ms ns w = Some w'" "set ms \<subseteq> set (ch_members (chans w ch))"
  shows "stripped ch w w' \<and> (\<forall>m\<in>set ms. \<forall>y. mships w' m = Some y \<longrightarrow> \<not> has (ms_flags y) msk)"
  using assms
proof (induction server ch msk flag ms ns w rule: remove_a_mode.induct)
  case (1 server ch msk flag ns w)
  then have "logged w w'" using status_line_logged [of server ch "CHR ''-'' # replicate (length ns) flag" ns w w']
    by (cases "ns = []") auto
  then show ?case using stripped_logged by simp
next
  case (2 server ch msk flag m ms ns w)
  from "2.prems"(1) obtain x where x: "mships w m = Some x" by (cases "mships w m") auto
  let ?w = "upd_ms m (\<lambda>x. x\<lparr>ms_flags := ms_flags x AND NOT msk\<rparr>) w"
  let ?ns = "ns @ [cl_name (clients w (ms_client x))]"
  have s: "stripped ch w ?w" using "2.prems"(2) by (intro stripped_one) simp
  have cleared: "\<not> has (ms_flags y) msk" if "stripped ch v w'" "mships v m = Some z" "\<not> has (ms_flags z) msk" "mships w' m = Some y" for v z y
    using strippedD [OF that(1,2)] that(3,4) by auto
  consider "\<not> has (ms_flags x) msk" | "has (ms_flags x) msk" "length ?ns < MAXMODEPARAMS"
    | "has (ms_flags x) msk" "\<not> length ?ns < MAXMODEPARAMS" by blast
  then show ?case
  proof cases
    case c: 1
    with "2.prems"(1) x have "remove_a_mode server ch msk flag ms ns w = Some w'" by simp
    from "2.IH"(1) [OF x c this] "2.prems"(2) have
      "stripped ch w w'" "\<forall>m\<in>set ms. \<forall>y. mships w' m = Some y \<longrightarrow> \<not> has (ms_flags y) msk" by auto
    then show ?thesis using cleared [of w x] x c by auto
  next
    case c: 2
    with "2.prems" x have "remove_a_mode server ch msk flag ms ?ns ?w = Some w'" by (simp add: Let_def)
    from "2.IH"(2) [OF x _ refl refl c(2) this] c(1) "2.prems"(2)
    have "stripped ch ?w w'" "\<forall>m\<in>set ms. \<forall>y. mships w' m = Some y \<longrightarrow> \<not> has (ms_flags y) msk" by auto
    then show ?thesis using stripped_trans [OF s] cleared [of ?w] x has_and_not(2) by auto
  next
    case c: 3
    with "2.prems" x obtain w2 where w2: "status_line server ch (CHR ''-'' # replicate (length ?ns) flag) ?ns ?w = Some w2"
      "remove_a_mode server ch msk flag ms [] w2 = Some w'" by (auto simp: Let_def split: bind_splits)
    note l = status_line_logged [OF w2(1)]
    from "2.IH"(3) [OF x _ refl refl c(2) w2] c(1) "2.prems"(2) loggedD(3) [OF l]
    have i: "stripped ch w2 w'" "\<forall>m\<in>set ms. \<forall>y. mships w' m = Some y \<longrightarrow> \<not> has (ms_flags y) msk" by auto
    have s2: "stripped ch ?w w'" by (rule stripped_trans [OF stripped_logged [OF l] i(1)])
    then show ?thesis using stripped_trans [OF s] i(2) cleared [of ?w] x has_and_not(2) by auto
  qed
qed

lemma remove_our_modes_stripped:
  assumes "remove_our_modes net ch s w = Some w'"
  shows "stripped ch w w' \<and> (\<forall>(f, l, p)\<in>set (status_letters (cfg w)). \<forall>m\<in>set (ch_members (chans w ch)). \<forall>y.
    mships w' m = Some y \<longrightarrow> \<not> has (ms_flags y) f)"
proof -
  let ?srv = "if hidden_server net s then cl_name (clients w (me w)) else cl_name (clients w s)"
  have "fold (\<lambda>(f, l, p) ow. do { v \<leftarrow> ow; remove_a_mode ?srv ch f l (ch_members (chans v ch)) [] v }) ls (Some v) = Some w' \<Longrightarrow>
    stripped ch v w' \<and> (\<forall>(f, l, p)\<in>set ls. \<forall>m\<in>set (ch_members (chans v ch)). \<forall>y. mships w' m = Some y \<longrightarrow> \<not> has (ms_flags y) f)" for ls v
  proof (induction ls arbitrary: v)
    case Nil then show ?case by (simp add: stripped_refl)
  next
    case (Cons a ls)
    obtain f l p where a: "a = (f, l, p)" by (cases a)
    with Cons.prems obtain v1 where v1: "remove_a_mode ?srv ch f l (ch_members (chans v ch)) [] v = Some v1"
      "fold (\<lambda>(f, l, p) ow. do { v \<leftarrow> ow; remove_a_mode ?srv ch f l (ch_members (chans v ch)) [] v }) ls (Some v1) = Some w'"
      using fold_bind_None [of "\<lambda>(f, l, p) v. remove_a_mode ?srv ch f l (ch_members (chans v ch)) [] v" ls]
      by (cases "remove_a_mode ?srv ch f l (ch_members (chans v ch)) [] v") (auto simp: split_def)
    note s1 = remove_a_mode_stripped [OF v1(1) subset_refl] and s2 = Cons.IH [OF v1(2)]
    have c: "chans v1 = chans v" using s1 by (simp add: stripped_def)
    have "\<not> has (ms_flags y) f" if m: "m \<in> set (ch_members (chans v ch))" "mships w' m = Some y" for m y
    proof (cases "mships v1 m")
      case None then show ?thesis using s2 m(2) by (auto simp: stripped_def)
    next
      case (Some z) then show ?thesis using s1 s2 strippedD [of ch v1 w' m z] m by auto
    qed
    with s1 s2 c stripped_trans show ?case unfolding a by auto
  qed
  then show ?thesis using assms unfolding remove_our_modes_def Let_def by blast
qed


text \<open>The memberships stay where they are, and no member gains a flag.\<close>

definition faded :: "world \<Rightarrow> world \<Rightarrow> bool" where
  "faded w w' \<longleftrightarrow> kept w w' \<and> same_links w w' \<and>
     (\<forall>m x y f. mships w m = Some x \<longrightarrow> mships w' m = Some y \<longrightarrow> has (ms_flags y) f \<longrightarrow> has (ms_flags x) f)"

lemma same_links_Some: "same_links w w' \<Longrightarrow> mships w m = Some x \<Longrightarrow> \<exists>y. mships w' m = Some y \<and> ms_ends y = ms_ends x"
  unfolding same_links_def by (metis map_option_eq_Some option.simps(9))

lemma same_links_None: "same_links w w' \<Longrightarrow> mships w' m = None \<longleftrightarrow> mships w m = None"
  unfolding same_links_def by (metis option.map_disc_iff)

lemma same_links_member: "same_links w w' \<Longrightarrow> is_member w' c k \<longleftrightarrow> is_member w c k"
proof -
  assume "same_links w w'"
  then have "map_option ms_ends (mships w' m) = map_option ms_ends (mships w m)" for m by (simp add: same_links_def)
  from ends_iff [OF this, of _ "\<lambda>a b. a = k \<and> b = c"] show ?thesis unfolding is_member_def by blast
qed

lemma faded_refl: "faded w w"
  by (simp add: faded_def)

lemma faded_trans:
  assumes "faded w w1" "faded w1 w2"
  shows "faded w w2"
proof -
  have "has (ms_flags x) f" if "mships w m = Some x" "mships w2 m = Some y" "has (ms_flags y) f" for m x y f
  proof -
    have "\<exists>z. mships w1 m = Some z" using same_links_Some [of w w1 m x] assms(1) that(1) by (auto simp: faded_def)
    then show ?thesis using assms that unfolding faded_def by blast
  qed
  then show ?thesis using assms kept_trans same_links_trans unfolding faded_def by blast
qed

lemma faded_logged: "logged w w' \<Longrightarrow> faded w w'"
  using loggedD [of w w'] by (simp add: faded_def same_links_def)

lemma faded_stripped:
  assumes "stripped ch w w'"
  shows "faded w w'"
proof -
  have "map_option ms_ends (mships w' m) = map_option ms_ends (mships w m)" for m
  proof (cases "mships w m")
    case None then show ?thesis using assms by (simp add: stripped_def)
  next
    case (Some x) then show ?thesis using strippedD [OF assms Some] by (auto simp: ms_ends_def)
  qed
  moreover have "has (ms_flags x) f" if "mships w m = Some x" "mships w' m = Some y" "has (ms_flags y) f" for m x y f
    using strippedD [OF assms that(1)] that(2,3) by auto
  ultimately show ?thesis using assms by (auto simp: faded_def stripped_def same_links_def kept_def)
qed

lemma fold_upd_ms_flags:
  assumes "\<And>x f. has (ms_flags (g x)) f \<Longrightarrow> has (ms_flags x) f" "mships w i = Some x"
    "mships (fold (\<lambda>m. upd_ms m g) ms w) i = Some y" "has (ms_flags y) f"
  shows "has (ms_flags x) f"
  using assms(2,3)
proof (induction ms arbitrary: w x)
  case (Cons m ms)
  show ?case
  proof (cases "i = m")
    case True
    then have "has (ms_flags (g x)) f" using Cons.IH [of "upd_ms m g w" "g x"] Cons.prems by simp
    then show ?thesis by (rule assms(1))
  next
    case False then show ?thesis using Cons.IH [of "upd_ms m g w" x] Cons.prems by simp
  qed
qed (use assms(4) in simp)

lemma faded_clear: "faded w (clear_ban_cache ch w)"
proof -
  define g where "g x = (if cl_local (clients w (ms_client x)) then forget_ban x else x)" for x
  have "has (ms_flags (g x)) f \<Longrightarrow> has (ms_flags x) f" for x f
    using has_and_not(1) [of "ms_flags x" "CHFL_BAN_SILENCED OR CHFL_BAN_CHECKED" f] by (simp add: g_def forget_ban_def split: if_splits)
  note G = fold_upd_ms_flags [of g, OF this]
  have "clear_ban_cache ch w = fold (\<lambda>m. upd_ms m g) (ch_members (chans w ch)) w" unfolding clear_ban_cache_def g_def ..
  with G have "has (ms_flags x) f"
    if "mships w i = Some x" "mships (clear_ban_cache ch w) i = Some y" "has (ms_flags y) f" for i x y f
    using that by metis
  then show ?thesis using kept_clear_ban_cache same_links_clear unfolding faded_def by blast
qed

lemma faded_bans:
  assumes "remove_ban_list ch l t c cap w = Some w'"
  shows "faded w w'"
proof -
  note k = remove_ban_list_kept [OF assms]
  have "ch_members (chans w' x) = ch_members (chans w x)" for x
  proof -
    obtain ls where w': "w' = upd_chan ch (upd_id_list t (\<lambda>_. [])) (fold (\<lambda>l. send (To_servers ch cap CAP_TS6 l) \<circ> send (To_channel 0 ch l)) ls w)"
      using assms by (auto simp: remove_ban_list_def Let_def split: if_splits)
    have "logged w (fold (\<lambda>l. send (To_servers ch cap CAP_TS6 l) \<circ> send (To_channel 0 ch l)) ls w)" by (rule logged_fold) simp
    from loggedD(3) [OF this] show ?thesis unfolding w' by simp
  qed
  moreover have "cfg w' = cfg w" using k by (simp add: kept_def)
  ultimately show ?thesis using k by (simp add: faded_def same_links_def)
qed

text \<open>What the second half of the handler does on a channel that was there.\<close>

definition refused :: "world \<Rightarrow> bool" where
  "refused w \<longleftrightarrow> (\<exists>as. To_ops ''Long SJOIN from server'' as \<in> set (log w))"

lemma faded_masks: "drop_masks ch l w = Some w' \<Longrightarrow> faded w w'"
proof -
  assume a: "drop_masks ch l w = Some w'"
  then obtain w1 w2 w3 where w:
    "(if ch_banlist (chans w ch) \<noteq> [] then remove_ban_list ch l CHFL_BAN CHR ''b'' 0 w else Some w) = Some w1"
    "(if ch_exceptlist (chans w1 ch) \<noteq> [] then remove_ban_list ch l CHFL_EXCEPTION CHR ''e'' CAP_EX w1 else Some w1) = Some w2"
    "(if ch_invexlist (chans w2 ch) \<noteq> [] then remove_ban_list ch l CHFL_INVEX CHR ''I'' CAP_IE w2 else Some w2) = Some w3"
    and w': "w' = clear_ban_cache ch w3"
    unfolding drop_masks_def by (auto simp only: bind_eq_Some_conv option.inject)
  have step: "(if b then remove_ban_list ch l t c cap v else Some v) = Some v' \<Longrightarrow> faded v v'" for b t c cap v v'
    using faded_bans faded_refl by (auto split: if_splits)
  show ?thesis unfolding w' using step [OF w(1)] step [OF w(2)] step [OF w(3)] faded_clear faded_trans by blast
qed

lemma relay_sjoin_logged: "logged w (relay_sjoin net l nb ub w)"
  unfolding relay_sjoin_def by (rule logged_fold) simp

lemma sjoin_finish_result:
  assumes "sjoin_finish net e nicks False keep_our r = Some w'"
  shows "faded (sj_world r) w'" "keep_our \<Longrightarrow> logged (sj_world r) w'"
proof -
  let ?w = "sj_world r"
  obtain w1 where w1: "(if sj_para r = [] then Some ?w
        else status_line (cl_name (clients ?w (me ?w))) (se_chan e) (c_text ((sj_modebuf r)[sj_mlen r := NUL])) (sj_para r) ?w) = Some w1"
      and rest: "(if nicks = [] then Some w1 else
        let w2 = relay_sjoin net (se_link e) (sj_nick r) (sj_uid r) w1 in
        if cl_id (clients ?w (se_source e)) \<noteq> [] \<and> \<not> keep_our then drop_masks (se_chan e) (se_link e) w2 else Some w2) = Some w'"
    using assms unfolding sjoin_finish_def Let_def by (auto simp: bind_eq_Some_conv simp del: not_None_eq)
  have l1: "logged ?w w1" using w1 status_line_logged by (cases "sj_para r = []") auto
  have l2: "logged ?w (relay_sjoin net (se_link e) (sj_nick r) (sj_uid r) w1)" by (rule logged_trans [OF l1 relay_sjoin_logged])
  show "keep_our \<Longrightarrow> logged ?w w'" using rest l1 l2 by (auto simp: Let_def split: if_splits)
  show "faded ?w w'"
    using rest faded_logged [OF l1] faded_logged [OF l2] faded_masks faded_trans by (auto simp: Let_def split: if_splits)
qed

subsection \<open>How long the texts get\<close>

lemma length_dec_text: "n < 10 ^ k \<Longrightarrow> 0 < k \<Longrightarrow> length (dec_text n) \<le> k"
proof (induction n arbitrary: k rule: dec_text.induct)
  case (1 n)
  show ?case
  proof (cases "n < 10")
    case True with 1 show ?thesis by (simp add: dec_text.simps)
  next
    case False
    obtain j where k: "k = Suc j" using 1(3) by (cases k) auto
    with False 1(2) have "0 < j" by (cases j) auto
    moreover have "n div 10 < 10 ^ j" using 1(2) k by (simp add: less_mult_imp_div_less mult.commute)
    ultimately have "length (dec_text (n div 10)) \<le> j" using 1(1) False by blast
    then show ?thesis using False k by (simp add: dec_text.simps [of n])
  qed
qed

lemma length_int_text: "length (int_text (sint (x :: 32 word))) \<le> 11"
proof -
  have "- (2 ^ 31) \<le> sint x" "sint x < 2 ^ 31" using sint_greater_eq [of x] sint_less [of x] by simp_all
  then have "nat (sint x) < 10 ^ 10" "nat (- sint x) < 10 ^ 10" by simp_all
  then have "length (dec_text (nat (sint x))) \<le> 10" "length (dec_text (nat (- sint x))) \<le> 10"
    by (auto intro!: length_dec_text)
  then show ?thesis by (simp add: int_text_def)
qed

lemma length_ulong_text: "length (ulong_text i) \<le> 20"
proof -
  have "i mod 2 ^ 64 < 2 ^ 64" by simp
  then have "nat (i mod 2 ^ 64) < 10 ^ 20" by simp
  then show ?thesis unfolding ulong_text_def by (rule length_dec_text) simp
qed

text \<open>The sizes of the buffers a mode's texts live in.\<close>

definition mode_fits :: "mode \<Rightarrow> bool" where
  "mode_fits m \<longleftrightarrow> length (md_key m) < KEYLEN \<and> length (md_forward m) < 128"

lemma length_filter_letters: "length (map snd (filter p sjoin_flags)) \<le> 16"
  using length_filter_le [of p sjoin_flags] by (simp add: sjoin_flags_def)

lemma length_dropped:
  assumes "mode_fits old"
  shows "length (fst (dropped_modes m old)) \<le> 20"
    "length (snd (dropped_modes m old)) \<le> (if md_key old \<noteq> [] \<and> md_key m = [] then 24 else 0) + (if md_forward old \<noteq> [] \<and> md_forward m = [] then 128 else 0)"
  using assms length_filter_letters [of "\<lambda>(f, l). has (md_mode old) f \<and> \<not> has (md_mode m) f"]
  by (auto simp: dropped_modes_def mode_fits_def)

lemma length_gained:
  assumes "mode_fits m"
  shows "length (fst (gained_modes m old)) \<le> 20"
    "length (snd (gained_modes m old)) \<le> 36 + (if md_key m \<noteq> [] then 24 else 0) + (if md_forward m \<noteq> [] then 128 else 0)"
  using assms length_filter_letters [of "\<lambda>(f, l). has (md_mode m) f \<and> \<not> has (md_mode old) f"]
    length_int_text [of "md_limit m"] length_int_text [of "md_msgs m"] length_int_text [of "md_per m"]
  by (auto simp: gained_modes_def mode_fits_def Let_def)

lemma set_final_mode_total:
  assumes "mode_fits m" "mode_fits old"
  shows "\<exists>mb pb. set_final_mode m old = Some (mb, pb) \<and> length mb \<le> 42 \<and> length pb \<le> 188"
proof -
  obtain minus dropped where d: "dropped_modes m old = (minus, dropped)" by fastforce
  obtain plus gained where g: "gained_modes m old = (plus, gained)" by fastforce
  have l: "length minus \<le> 20" "length plus \<le> 20" using length_dropped(1) [OF assms(2), of m] length_gained(1) [OF assms(1), of old] d g by simp_all
  have "length (dropped @ gained) \<le> 188"
    using length_dropped(2) [OF assms(2), of m] length_gained(2) [OF assms(1), of old] d g by (simp split: if_splits)
  then show ?thesis using l by (simp add: set_final_mode_def d g)
qed

lemma merge_modes_fits: "mode_fits a \<Longrightarrow> mode_fits b \<Longrightarrow> mode_fits (merge_modes a b)"
  by (simp add: mode_fits_def merge_modes_def)

lemma sjoin_modes_fits:
  "sjoin_modes pv s (m, args) = Some (m', args') \<Longrightarrow> mode_fits m \<Longrightarrow> mode_fits m' \<and> (args' = args \<or> 4 + args' < length pv)"
proof (induction s arbitrary: m args)
  case (Cons c s)
  let ?p = "pv ! (4 + args)"
  let ?m = "\<lambda>x y. if x < 99 \<and> y < 99 \<and> 1 \<le> x \<and> 0 < y then m\<lparr>md_msgs := word_of_int x, md_per := word_of_int y\<rparr> else m"
  have f: "mode_fits (m\<lparr>md_forward := fit 128 t\<rparr>)" "mode_fits (m\<lparr>md_key := fit KEYLEN t\<rparr>)" "mode_fits (m\<lparr>md_limit := l\<rparr>)"
    "mode_fits (?m x y)" "mode_fits (m\<lparr>md_mode := l\<rparr>)" for t l x y
    using Cons(3) length_fit [of 128 t] length_fit [of KEYLEN t] by (simp_all add: mode_fits_def)
  have spend: "mode_fits m' \<and> (args' = args \<or> 4 + args' < length pv)"
    if "mode_fits n" "(if length pv < 5 + (args + 1) then None else sjoin_modes pv s (n, args + 1)) = Some (m', args')" for n
    using Cons.IH [of n "args + 1"] that by (auto split: if_splits)
  have stay: "mode_fits m' \<and> (args' = args \<or> 4 + args' < length pv)"
    if "mode_fits n" "sjoin_modes pv s (n, args) = Some (m', args')" for n
    using Cons.IH [of n args] that by simp
  consider "c = CHR ''F''" | "c = CHR ''f''" "CHR '':'' \<notin> set ?p" | "c = CHR ''f''" "CHR '':'' \<in> set ?p" | "c = CHR ''k''" | "c = CHR ''l''"
    | "c \<notin> {CHR ''F'', CHR ''f'', CHR ''k'', CHR ''l''}" by blast
  then show ?case
  proof cases
    case 1 then show ?thesis using Cons.prems(1) spend [OF f(1)] by (simp add: Let_def)
  next
    case 2 then show ?thesis using Cons.prems stay by (simp add: Let_def)
  next
    case 3 then show ?thesis using Cons.prems(1) spend [OF f(4)] by (simp add: Let_def)
  next
    case 4 then show ?thesis using Cons.prems(1) spend [OF f(2)] by (simp add: Let_def)
  next
    case 5 then show ?thesis using Cons.prems(1) spend [OF f(3)] by (simp add: Let_def)
  next
    case 6 then show ?thesis using Cons.prems(1) stay [OF f(5)] by (simp add: Let_def)
  qed
qed auto

lemma length_channel_modes:
  assumes "mode_fits (ch_mode (chans w ch))"
  shows "length (fst (channel_modes ch c w)) \<le> 42" "length (snd (channel_modes ch c w)) \<le> 188"
proof -
  have "length (map snd (filter (\<lambda>(f, l). has (md_mode (ch_mode (chans w ch))) f) mode_flags)) \<le> 37"
    using length_filter_le [of "\<lambda>(f, l). has (md_mode (ch_mode (chans w ch))) f" mode_flags] by (simp add: mode_flags_def)
  then show "length (fst (channel_modes ch c w)) \<le> 42" by (simp add: channel_modes_def Let_def)
  show "length (snd (channel_modes ch c w)) \<le> 188"
    using assms length_int_text [of "md_limit (ch_mode (chans w ch))"] length_int_text [of "md_msgs (ch_mode (chans w ch))"]
      length_int_text [of "md_per (ch_mode (chans w ch))"]
    by (simp add: channel_modes_def Let_def mode_fits_def)
qed

text \<open>The mode buffer, of which only the first bytes are ever written.\<close>

definition quiet :: "char list \<Rightarrow> bool" where
  "quiet buf \<longleftrightarrow> length buf = MODEBUFLEN \<and> (\<forall>i<MODEBUFLEN. 50 \<le> i \<longrightarrow> buf ! i = NUL)"

lemma quiet_upd: "quiet buf \<Longrightarrow> i < 50 \<Longrightarrow> quiet (buf[i := x])"
  by (auto simp: quiet_def nth_list_update)

lemma quiet_write: "quiet buf \<Longrightarrow> length s \<le> 42 \<Longrightarrow> quiet (write_text s buf)"
  by (auto simp: quiet_def write_text_def nth_append nth_Cons split: nat.splits)

lemma quiet_text: "quiet buf \<Longrightarrow> length (c_text buf) \<le> 50"
proof -
  assume q: "quiet buf"
  have "\<not> 50 < length (c_text buf)"
  proof
    assume l: "50 < length (c_text buf)"
    then have "c_text buf ! 50 \<in> set (c_text buf)" by simp
    then have "c_text buf ! 50 \<noteq> NUL" unfolding c_text_def by (rule set_takeWhileD [THEN conjunct2])
    moreover have "c_text buf ! 50 = buf ! 50" using l unfolding c_text_def by (rule takeWhile_nth)
    ultimately show False using q by (simp add: quiet_def)
  qed
  then show ?thesis by simp
qed

lemma header_length:
  "length who + length name \<le> 200 \<Longrightarrow> length mb \<le> 50 \<Longrightarrow> length pb \<le> 188 \<Longrightarrow> length (sjoin_header who ts name mb pb) \<le> 470"
  using length_ulong_text [of ts] by (simp add: sjoin_header_def)

definition source_fits :: "cid \<Rightarrow> chid \<Rightarrow> world \<Rightarrow> bool" where
  "source_fits s ch w \<longleftrightarrow> length (cl_name (clients w s)) + length (ch_name (chans w ch)) \<le> 200 \<and>
     length (cl_id (clients w s)) + length (ch_name (chans w ch)) \<le> 200"

text \<open>Names, modes and buffers that leave room for a nick behind the header.\<close>

definition roomy :: "network \<Rightarrow> cid \<Rightarrow> chid \<Rightarrow> world \<Rightarrow> bool" where
  "roomy net s ch w \<longleftrightarrow> source_fits s ch w \<and> NICKLEN (cfg w) \<le> 31 \<and> quiet (old_modebuf net) \<and> mode_fits (ch_mode (chans w ch))"

lemma sjoin_members_result:
  assumes "sjoin_members net e nicks False keep_our buf w = Some w'" "fresh_members net" "linked w"
  shows "\<exists>w1. (joined net e (set (space_words nicks)) w w1 \<or> logged w w1 \<and> refused w' \<and>
      \<not> (source_fits (se_source e) (se_chan e) w \<and> NICKLEN (cfg w) \<le> 31 \<and> quiet buf \<and> length (se_parabuf e) \<le> 188)) \<and> faded w1 w' \<and> (keep_our \<longrightarrow> logged w1 w')"
proof -
  let ?src = "clients w (se_source e)" and ?name = "ch_name (chans w (se_chan e))"
  let ?nb = "sjoin_header (cl_name ?src) (se_tosend e) ?name (c_text buf) (se_parabuf e)"
  let ?ub = "sjoin_header (ID ?src) (se_tosend e) ?name (c_text buf) (se_parabuf e)"
  let ?r = "\<lparr>sj_world = w, sj_modebuf = buf[0 := CHR ''+''], sj_mlen = 1, sj_para = [], sj_nick = ?nb, sj_uid = ?ub, sj_known = lazy_known net\<rparr>"
  note d = assms(1) [unfolded sjoin_members_def Let_def]
  show ?thesis
  proof (cases "IRCD_BUFSIZE - max (NICKLEN (cfg w)) IDLEN - 2 - 5 - 1 \<le> length ?ub")
    case True
    then have "w' = send (To_ops ''Long SJOIN from server'' [cl_name ?src, cl_name (clients w (se_link e))]) w"
      using d by (simp split: if_splits)
    then have "logged w w'" "refused w'" by (auto simp: refused_def)
    moreover have "\<not> (source_fits (se_source e) (se_chan e) w \<and> NICKLEN (cfg w) \<le> 31 \<and> quiet buf \<and> length (se_parabuf e) \<le> 188)"
    proof
      assume r: "source_fits (se_source e) (se_chan e) w \<and> NICKLEN (cfg w) \<le> 31 \<and> quiet buf \<and> length (se_parabuf e) \<le> 188"
      then have "length (ID ?src) + length ?name \<le> 200" by (simp add: source_fits_def ID_def)
      then have "length ?ub \<le> 470" using r by (intro header_length quiet_text) auto
      then show False using True r by linarith
    qed
    ultimately show ?thesis by (intro exI [of _ w']) (simp add: faded_refl)
  next
    case False
    with d obtain r where r: "sjoin_nicks net e (space_words nicks) ?r = Some r" "sjoin_finish net e nicks False keep_our r = Some w'"
      by (auto simp: bind_eq_Some_conv split: if_splits)
    have "joined net e (set (space_words nicks)) w (sj_world r)" using sjoin_nicks_joined [OF r(1) assms(2)] assms(3) by simp
    then show ?thesis using sjoin_finish_result [OF r(2)] by blast
  qed
qed

end
