(* ===== verification/Sjoin_Agree.thy ===== *)
theory Sjoin_Agree
  imports Sjoin
begin

section \<open>Agreement between servers\<close>

text \<open>
  What the SJOIN handler of theory \<open>Sjoin\<close> achieves on a channel the server knows: whose modes and statuses
  survive, who is a member afterwards, and that the order in which servers hear of each other's claims does not
  matter.
\<close>

subsection \<open>The handler on a channel that is there\<close>

lemma wanted_cong:
  assumes "clients w' = clients w" "client_names w' = client_names w" "id_names w' = id_names w" "history w' = history w" "cfg w' = cfg w"
  shows "wanted net l s w' = wanted net l s w"
proof (rule ext)
  fix word
  have "find_person l u w' = find_person l u w" for u
    unfolding find_person_def lookup_client_def lookup_id_def assms ..
  then have "fst (find_chasing l s u w') = fst (find_chasing l s u w)" for u
    unfolding find_chasing_def assms by (auto split: option.splits)
  then show "wanted net l s w' word = wanted net l s w word" unfolding wanted_def assms by simp
qed

text \<open>The claim a line makes: its time stamp, as it is read, and its modes.\<close>

definition sjoin_claim :: "network \<Rightarrow> cid \<Rightarrow> string list \<Rightarrow> world \<Rightarrow> (int \<times> mode \<times> nat) option" where
  "sjoin_claim net sender pv w =
    (if IsClient (clients w sender) \<or> length pv < 5 \<or> rd (pv ! 2) 0 \<noteq> CHR ''#'' \<or> \<not> check_channel_name (pv ! 2) False (cfg w) then None
     else map_option (\<lambda>(m, args). (if ignore_bogus_ts net \<and> atol (pv ! 1) < 800000000 then 800000000 else atol (pv ! 1), m, args))
       (sjoin_modes pv (pv ! 3) (no_mode, 0)))"

definition ts_modes :: "world \<Rightarrow> chid \<Rightarrow> int \<times> mode" where
  "ts_modes w ch = (ch_channelts (chans w ch), ch_mode (chans w ch))"

text \<open>What a line does to the members, with \<open>newts\<close> its time stamp.\<close>

definition sjoin_outcome :: "network \<Rightarrow> cid \<Rightarrow> cid \<Rightarrow> string \<Rightarrow> chid \<Rightarrow> int \<Rightarrow> world \<Rightarrow> world \<Rightarrow> bool" where
  "sjoin_outcome net l s nicks ch newts w w' \<longleftrightarrow> linked w' \<and>
     ((\<forall>c k. is_member w' c k \<longleftrightarrow> is_member w c k \<or> k = ch \<and> (\<exists>u\<in>set (space_words nicks). wanted net l s w u = Some c)) \<or>
      refused w' \<and> \<not> roomy net s ch w \<and> (\<forall>c k. is_member w' c k \<longleftrightarrow> is_member w c k)) \<and>
     (newts < ch_channelts (chans w ch) \<longrightarrow> newts \<noteq> 0 \<longrightarrow> ch_channelts (chans w ch) \<noteq> 0 \<longrightarrow>
        (\<forall>m\<in>set (ch_members (chans w ch)). \<forall>y. mships w' m = Some y \<longrightarrow>
           (\<forall>(f, a, p)\<in>set (status_letters (cfg w)). \<not> has (ms_flags y) f))) \<and>
     (ch_channelts (chans w ch) < newts \<longrightarrow> newts \<noteq> 0 \<longrightarrow> ch_channelts (chans w ch) \<noteq> 0 \<longrightarrow>
        (\<forall>m x. mships w m = Some x \<longrightarrow> mships w' m = Some x) \<and>
        (\<forall>m y. mships w m = None \<and> mships w' m = Some y \<longrightarrow> ms_chptr y = ch \<and> (\<forall>(f, a, p)\<in>set (status_letters (cfg w)). \<not> has (ms_flags y) f)))"

lemma deopped_no_status: "(f, a, p) \<in> set (status_letters k) \<Longrightarrow> \<not> has (granted False c word) f"
  by (auto simp: granted_def Let_def status_letters_def has_def split: if_splits)

lemma stripped_send: "stripped ch w w1 \<Longrightarrow> stripped ch w (send v w1)"
  using stripped_trans stripped_logged logged_send logged_refl by metis

text \<open>The state between the modes and the members.\<close>

definition with_ts_modes :: "chid \<Rightarrow> int \<times> mode \<Rightarrow> world \<Rightarrow> world" where
  "with_ts_modes ch tm = upd_chan ch (\<lambda>x. x\<lparr>ch_channelts := fst tm, ch_mode := snd tm\<rparr>)"

lemma sjoin_channel_result:
  assumes "sjoin_channel net l s pv m0 args False ch w = Some w'" "fresh_members net" "linked w"
    "newts = (if ignore_bogus_ts net \<and> atol (pv ! 1) < 800000000
      then (if ch_channelts (chans w ch) = 0 then 0 else 800000000) else atol (pv ! 1))"
    "mode_fits m0"
  shows "kept (with_ts_modes ch (settle (newts, m0) (ts_modes w ch)) w) w' \<and>
    sjoin_outcome net l s (pv ! (4 + args)) ch newts w w'"
proof -
  let ?old = "ch_mode (chans w ch)" and ?oldts = "ch_channelts (chans w ch)" and ?nicks = "pv ! (4 + args)"
  define w1 where "w1 = (if ignore_bogus_ts net \<and> atol (pv ! 1) < 800000000
    then send (To_ops ''Bogus TS'' [ulong_text (atol (pv ! 1)), ch_name (chans w ch), cl_name (clients w l)]) w else w)"
  obtain ts tosend keep_our keep_new where t: "sjoin_ts False newts ?oldts = (ts, tosend, keep_our, keep_new)"
    by (cases "sjoin_ts False newts ?oldts")
  define m where "m = (if \<not> keep_new then ?old else if keep_our then merge_modes m0 ?old else m0)"
  have settled: "settle (newts, m0) (ts_modes w ch) = (ts, m)" by (simp add: settle_def ts_modes_def t m_def)
  define w2 where "w2 = upd_chan ch (\<lambda>x. x\<lparr>ch_channelts := ts, ch_mode := m\<rparr>) w1"
  note d = assms(1) [unfolded sjoin_channel_def Let_def assms(4) [symmetric] t prod.case, folded w1_def m_def, folded w2_def]
  obtain mb pb w3 where fm: "set_final_mode m ?old = Some (mb, pb)" and w3: "(if \<not> keep_our then remove_our_modes net ch s w2 else Some w2) = Some w3" and
    rest: "(let w4 = (if mb \<noteq> [] then send (To_channel 0 ch ('':'' @ cl_name (clients w3 (me w3)) @ '' MODE '' @ ch_name (chans w3 ch) @ '' '' @ mb @ '' '' @ pb)) w3 else w3);
       (mb1, pb1) = (if rd (pv ! 3) 0 \<noteq> CHR ''0'' \<and> keep_new then channel_modes ch s w4 else (''0'', pb)) in
       sjoin_members net \<lparr>se_link = l, se_source = s, se_chan = ch, se_keep_new = keep_new, se_tosend = tosend,
           se_parabuf = pb1, se_flood_ctrl = length (space_words ?nicks) < 2\<rparr>
         ?nicks False keep_our (write_text mb1 (write_text mb (old_modebuf net))) w4) = Some w'"
    using d unfolding Let_def by (auto simp: bind_eq_Some_conv simp del: not_None_eq)
  define w4 where "w4 = (if mb \<noteq> [] then send (To_channel 0 ch ('':'' @ cl_name (clients w3 (me w3)) @ '' MODE '' @ ch_name (chans w3 ch) @ '' '' @ mb @ '' '' @ pb)) w3 else w3)"
  obtain mb1 pb1 where c: "(if rd (pv ! 3) 0 \<noteq> CHR ''0'' \<and> keep_new then channel_modes ch s w4 else (''0'', pb)) = (mb1, pb1)"
    by fastforce
  define e where "e = \<lparr>se_link = l, se_source = s, se_chan = ch, se_keep_new = keep_new, se_tosend = tosend,
           se_parabuf = pb1, se_flood_ctrl = length (space_words ?nicks) < 2\<rparr>"
  have m4: "sjoin_members net e ?nicks False keep_our (write_text mb1 (write_text mb (old_modebuf net))) w4 = Some w'"
    using rest unfolding Let_def w4_def [symmetric] c prod.case e_def .
  have l1: "logged w w1" by (simp add: w1_def)
  have l4: "logged w3 w4" by (simp add: w4_def)
  note L1 = loggedD [OF l1]
  have w2: "mships w2 = mships w" "clients w2 = clients w" "cfg w2 = cfg w" "client_names w2 = client_names w" "id_names w2 = id_names w" "history w2 = history w"
      "\<And>c. ch_members (chans w2 c) = ch_members (chans w c)"
    unfolding w2_def using L1 by simp_all
  have links2: "linked w2" using linked_cong [of w2 w] w2(1,2,7) assms(3) by simp
  have k2: "kept (with_ts_modes ch (ts, m) w) w2"
    using L1 by (auto simp: with_ts_modes_def w2_def kept_def)
  have s3: "stripped ch w2 w3" using w3 remove_our_modes_stripped stripped_refl by (cases keep_our) auto
  have s4: "stripped ch w2 w4" by (rule stripped_trans [OF s3 stripped_logged [OF l4]])
  have f4: "faded w2 w4" by (rule faded_stripped [OF s4])
  have links4: "linked w4" using f4 links2 linked_same unfolding faded_def by blast
  obtain w5 where w5': "joined net e (set (space_words ?nicks)) w4 w5 \<or> logged w4 w5 \<and> refused w' \<and>
      \<not> (source_fits (se_source e) (se_chan e) w4 \<and> NICKLEN (cfg w4) \<le> 31 \<and>
          quiet (write_text mb1 (write_text mb (old_modebuf net))) \<and> length (se_parabuf e) \<le> 188)"
      "faded w5 w'" "keep_our \<longrightarrow> logged w5 w'"
    using sjoin_members_result [OF m4 assms(2) links4] by blast
  have room4: "source_fits s ch w4 \<and> NICKLEN (cfg w4) \<le> 31 \<and> quiet (write_text mb1 (write_text mb (old_modebuf net))) \<and> length pb1 \<le> 188"
    if "roomy net s ch w"
  proof -
    have fits: "mode_fits ?old" "mode_fits m" using that assms(5) merge_modes_fits by (auto simp: roomy_def m_def)
    from set_final_mode_total [OF fits(2,1)] fm have b: "length mb \<le> 42" "length pb \<le> 188" by auto
    have k: "kept w2 w4" "ch_mode (chans w2 ch) = m" using f4 by (simp_all add: faded_def w2_def)
    then have m4: "mode_fits (ch_mode (chans w4 ch))" using fits(2) by (simp add: kept_def)
    have b1: "length mb1 \<le> 42" "length pb1 \<le> 188" using length_channel_modes [OF m4, of s] c b by (auto split: if_splits)
    have "source_fits s ch w4" "NICKLEN (cfg w4) \<le> 31"
      using that k(1) kept_client [OF k(1)] L1 by (auto simp: roomy_def source_fits_def kept_def w2_def)
    then show ?thesis using quiet_write [OF quiet_write b1(1)] that b(1) b1(2) by (simp add: roomy_def)
  qed
  have w5: "joined net e (set (space_words ?nicks)) w4 w5 \<or> logged w4 w5 \<and> refused w' \<and> \<not> roomy net s ch w"
      "faded w5 w'" "keep_our \<longrightarrow> logged w5 w'"
    using w5' room4 by (auto simp: e_def)
  have k5: "kept w4 w5" "linked w5"
    using w5(1) loggedD(1) linked_logged links4 by (auto simp: joined_def)
  have kept: "kept (with_ts_modes ch (ts, m) w) w'"
  proof -
    have "kept w2 w4" "kept w5 w'" using f4 w5(2) by (simp_all add: faded_def)
    then show ?thesis using kept_trans [OF k2] kept_trans k5(1) by metis
  qed
  have links: "linked w'" using linked_same k5(2) w5(2) unfolding faded_def by blast
  have wanted4: "wanted net l s w4 = wanted net l s w"
    using f4 w2(2-6) by (intro wanted_cong) (auto simp: faded_def kept_def same_links_def)
  have same: "is_member w4 c k \<longleftrightarrow> is_member w c k" "is_member w' c k \<longleftrightarrow> is_member w5 c k" for c k
  proof -
    have "same_links w2 w4" "same_links w5 w'" using f4 w5(2) by (simp_all add: faded_def)
    moreover have "is_member w2 c k \<longleftrightarrow> is_member w c k" by (simp add: is_member_def w2(1))
    ultimately show "is_member w4 c k \<longleftrightarrow> is_member w c k" "is_member w' c k \<longleftrightarrow> is_member w5 c k"
      using same_links_member by auto
  qed
  have members: "(\<forall>c k. is_member w' c k \<longleftrightarrow> is_member w c k \<or> k = ch \<and> (\<exists>u\<in>set (space_words ?nicks). wanted net l s w u = Some c)) \<or>
      refused w' \<and> \<not> roomy net s ch w \<and> (\<forall>c k. is_member w' c k \<longleftrightarrow> is_member w c k)"
    using w5(1)
  proof
    assume "joined net e (set (space_words ?nicks)) w4 w5"
    then show ?thesis unfolding joined_def same e_def by (simp add: wanted4)
  next
    assume "logged w4 w5 \<and> refused w' \<and> \<not> roomy net s ch w"
    then show ?thesis using is_member_logged [of w4 w5] same by simp
  qed
  have loses: "\<not> has (ms_flags y) f"
    if "newts < ?oldts" "newts \<noteq> 0" "?oldts \<noteq> 0" "i \<in> set (ch_members (chans w ch))" "mships w' i = Some y"
      "(f, a, p) \<in> set (status_letters (cfg w))" for i y f a p
  proof -
    note h = that
    have "\<not> keep_our" using t h(1-3) by (auto simp: sjoin_ts_def split: if_splits)
    then have c3: "\<forall>(f, a, p)\<in>set (status_letters (cfg w2)). \<forall>m\<in>set (ch_members (chans w2 ch)). \<forall>y. mships w3 m = Some y \<longrightarrow> \<not> has (ms_flags y) f"
      using w3 remove_our_modes_stripped by simp
    obtain x where x: "mships w i = Some x" using links_okD(3) [of w] assms(3) h(4) unfolding linked_def by blast
    obtain x4 where x4: "mships w4 i = Some x4" using strippedD [OF s4, of i x] x w2(1) by auto
    then have "\<not> has (ms_flags x4) f" using c3 h(4,6) w2(3,7) loggedD(2) [OF l4] by auto
    moreover have "mships w5 i = Some x4"
      using w5(1) x4 loggedD(2) by (auto simp: joined_def)
    ultimately show ?thesis using w5(2) h(5) unfolding faded_def by blast
  qed
  have wins: "(\<forall>m x. mships w m = Some x \<longrightarrow> mships w' m = Some x) \<and>
      (\<forall>m y. mships w m = None \<and> mships w' m = Some y \<longrightarrow> ms_chptr y = ch \<and> (\<forall>(f, a, p)\<in>set (status_letters (cfg w)). \<not> has (ms_flags y) f))"
    if "?oldts < newts" "newts \<noteq> 0" "?oldts \<noteq> 0"
  proof -
    have kk: "keep_our" "\<not> keep_new" using t that by (auto simp: sjoin_ts_def split: if_splits)
    then have "w3 = w2" using w3 by simp
    then have m4: "mships w4 = mships w" using loggedD(2) [OF l4] w2(1) by simp
    have m': "mships w' = mships w5" using w5(3) kk(1) loggedD(2) by simp
    from w5(1) show ?thesis
    proof
      assume j: "joined net e (set (space_words ?nicks)) w4 w5"
      then have "mships w m = None \<and> mships w' m = Some y \<Longrightarrow> ms_chptr y = ch \<and> (\<exists>u. ms_flags y = granted False (cfg w4) u)" for m y
        unfolding joined_def m4 m' using kk(2) by (fastforce simp: e_def)
      moreover have "\<forall>m x. mships w m = Some x \<longrightarrow> mships w' m = Some x" using j unfolding joined_def m4 m' by simp
      ultimately show ?thesis using deopped_no_status by fastforce
    qed (use m4 m' loggedD(2) in auto)
  qed
  show ?thesis
    unfolding settled sjoin_outcome_def using kept links members loses wins by blast
qed


lemma ms_sjoin_result:
  assumes "ms_sjoin net l s pv w = Some w'" "lookup_channel (pv ! 2) w = Some ch" "ch_channelts (chans w ch) \<noteq> 0"
    "fresh_members net" "linked w"
  shows "case sjoin_claim net s pv w of
      None \<Rightarrow> logged w w'
    | Some (newts, m0, args) \<Rightarrow> kept (with_ts_modes ch (settle (newts, m0) (ts_modes w ch)) w) w' \<and>
        sjoin_outcome net l s (pv ! (4 + args)) ch newts w w'"
proof (cases "sjoin_claim net s pv w")
  case None
  with assms(1) have "w' = w \<or> (\<exists>e. w' = send e w)"
    by (auto simp: ms_sjoin_def sjoin_claim_def split: if_splits option.splits)
  with None show ?thesis by auto
next
  case (Some c)
  then obtain m0 args where c: "\<not> IsClient (clients w s)" "\<not> length pv < 5" "rd (pv ! 2) 0 = CHR ''#''" "check_channel_name (pv ! 2) False (cfg w)"
      "sjoin_modes pv (pv ! 3) (no_mode, 0) = Some (m0, args)"
      "c = (if ignore_bogus_ts net \<and> atol (pv ! 1) < 800000000 then 800000000 else atol (pv ! 1), m0, args)"
    by (auto simp: sjoin_claim_def split: if_splits)
  then have "sjoin_channel net l s pv m0 args False ch w = Some w'"
    using assms(1,2) by (simp add: ms_sjoin_def)
  moreover have "mode_fits m0" using sjoin_modes_fits [OF c(5)] by (simp add: mode_fits_def no_mode_def)
  ultimately have "kept (with_ts_modes ch (settle (fst c, m0) (ts_modes w ch)) w) w' \<and> sjoin_outcome net l s (pv ! (4 + args)) ch (fst c) w w'"
    using assms(3) by (intro sjoin_channel_result [OF _ assms(4,5)]) (simp_all add: c(6))
  then show ?thesis
    unfolding Some option.case c(6) by simp
qed

text \<open>Joining claims: what matters is which ones were heard, not in what order or how often.\<close>

locale claims =
  fixes merge :: "'a \<Rightarrow> 'b \<Rightarrow> 'b" and ok :: "'a \<Rightarrow> bool" and good :: "'b \<Rightarrow> bool"
  assumes swap: "ok a \<Longrightarrow> ok b \<Longrightarrow> good c \<Longrightarrow> merge b (merge a c) = merge a (merge b c)"
    and keeps: "ok a \<Longrightarrow> good c \<Longrightarrow> good (merge a c)"
    and again: "ok a \<Longrightarrow> good c \<Longrightarrow> merge a (merge a c) = merge a c"
begin

lemma fold_good: "\<forall>x\<in>set xs. ok x \<Longrightarrow> good c \<Longrightarrow> good (fold merge xs c)"
  by (induction xs arbitrary: c) (auto intro: keeps)

lemma fold_swap: "\<forall>x\<in>set xs. ok x \<Longrightarrow> ok a \<Longrightarrow> good c \<Longrightarrow> fold merge xs (merge a c) = merge a (fold merge xs c)"
proof (induction xs arbitrary: c)
  case (Cons x xs)
  then have "fold merge (x # xs) (merge a c) = fold merge xs (merge a (merge x c))" using swap [of a x c] by simp
  with Cons show ?case by (simp add: keeps)
qed simp

lemma fold_heard:
  assumes "\<forall>x\<in>set xs. ok x" "good c" "a \<in> set xs"
  shows "merge a (fold merge xs c) = fold merge xs c"
  using assms
proof (induction xs arbitrary: c)
  case (Cons x xs)
  show ?case
  proof (cases "a = x")
    case True
    then show ?thesis using Cons.prems fold_swap [of xs x c] again fold_good by auto
  next
    case False with Cons show ?thesis by (simp add: keeps)
  qed
qed simp

lemma fold_all_heard:
  "\<forall>x\<in>set xs. ok x \<Longrightarrow> good c \<Longrightarrow> set ys \<subseteq> set xs \<Longrightarrow> fold merge ys (fold merge xs c) = fold merge xs c"
  by (induction ys) (auto simp: fold_heard)

lemma fold_commute:
  "\<forall>x\<in>set xs. ok x \<Longrightarrow> \<forall>y\<in>set ys. ok y \<Longrightarrow> good c \<Longrightarrow> fold merge ys (fold merge xs c) = fold merge xs (fold merge ys c)"
  by (induction ys arbitrary: c) (auto simp: fold_swap keeps simp flip: fold_swap)

lemma only_the_claims_matter:
  assumes "set xs = set ys" "\<forall>x\<in>set xs. ok x" "good c"
  shows "fold merge xs c = fold merge ys c"
proof -
  have "\<forall>y\<in>set ys. ok y" using assms(1,2) by simp
  then have "fold merge xs c = fold merge xs (fold merge ys c)"
    using fold_all_heard [of xs c ys] fold_commute [of xs ys c] assms by simp
  then show ?thesis using fold_all_heard [of ys c xs] assms by simp
qed

end

interpretation sjoin: claims settle "\<lambda>a. 0 < fst a" "\<lambda>c. 0 < fst c"
  by unfold_locales (use settle_swap settle_again in blast)+

text \<open>A sequence of lines: the link, the sender and the parameters of each.\<close>

type_synonym sjoin_line = "cid \<times> cid \<times> string list"

fun sjoin_lines :: "network \<Rightarrow> sjoin_line list \<Rightarrow> world \<Rightarrow> world option" where
  "sjoin_lines net [] w = Some w"
| "sjoin_lines net ((l, s, pv) # xs) w = do { w1 \<leftarrow> ms_sjoin net l s pv w; sjoin_lines net xs w1 }"

definition claim_of :: "network \<Rightarrow> world \<Rightarrow> sjoin_line \<Rightarrow> (int \<times> mode) option" where
  "claim_of net w x = (case x of (l, s, pv) \<Rightarrow> map_option (\<lambda>(t, m, args). (t, m)) (sjoin_claim net s pv w))"

text \<open>Nothing that lines are read by has changed.\<close>

definition steady :: "chid \<Rightarrow> world \<Rightarrow> world \<Rightarrow> bool" where
  "steady ch w w' \<longleftrightarrow> (\<exists>tm. kept (with_ts_modes ch tm w) w')"

lemma steadyD:
  assumes "steady ch w w'"
  shows "lookup_channel name w' = lookup_channel name w" "claim_of net w' x = claim_of net w x"
proof -
  obtain tm where k: "kept (with_ts_modes ch tm w) w'" using assms by (auto simp: steady_def)
  have "ch_name (chans (with_ts_modes ch tm w) c) = ch_name (chans w c)" for c by (simp add: with_ts_modes_def)
  then have "ch_name (chans w' c) = ch_name (chans w c)" for c using k by (simp add: kept_def)
  moreover have "channel_names w' = channel_names w" using k by (simp add: kept_def with_ts_modes_def)
  ultimately show "lookup_channel name w' = lookup_channel name w" by (simp add: lookup_channel_def)
  have "cfg w' = cfg w" "\<And>c. cl_status (clients w' c) = cl_status (clients w c)"
    using k kept_client(3) [OF k] by (simp_all add: kept_def with_ts_modes_def)
  then show "claim_of net w' x = claim_of net w x"
    by (auto simp: claim_of_def sjoin_claim_def IsClient_def split: prod.splits)
qed

lemma steady_trans: "steady ch w w1 \<Longrightarrow> steady ch w1 w2 \<Longrightarrow> steady ch w w2"
proof -
  assume "steady ch w w1" "steady ch w1 w2"
  then obtain a b where k: "kept (with_ts_modes ch a w) w1" "kept (with_ts_modes ch b w1) w2" by (auto simp: steady_def)
  have "kept (with_ts_modes ch b w) (with_ts_modes ch b w1)" using k(1) by (simp add: kept_def with_ts_modes_def)
  with k(2) have "kept (with_ts_modes ch b w) w2" using kept_trans by metis
  then show ?thesis unfolding steady_def by blast
qed

lemma steady_refl: "steady ch w w"
  unfolding steady_def by (rule exI [of _ "ts_modes w ch"]) (simp add: kept_def with_ts_modes_def ts_modes_def)


lemma kept_ts_modes: "kept (with_ts_modes ch tm w) w' \<Longrightarrow> ts_modes w' ch = tm"
  by (simp add: kept_def with_ts_modes_def ts_modes_def)

lemma steady_logged:
  assumes "logged w w'"
  shows "steady ch w w'" "ts_modes w' ch = ts_modes w ch"
proof -
  have "kept (with_ts_modes ch (ts_modes w ch) w) w'"
    using loggedD(1) [OF assms] by (simp add: kept_def with_ts_modes_def ts_modes_def)
  then show "steady ch w w'" unfolding steady_def by blast
  show "ts_modes w' ch = ts_modes w ch" using loggedD(3) [OF assms] by (simp add: ts_modes_def)
qed

lemma sjoin_lines_settle:
  assumes "sjoin_lines net xs w = Some w'" "fresh_members net" "linked w" "0 < ch_channelts (chans w ch)"
    "\<forall>(l, s, pv)\<in>set xs. lookup_channel (pv ! 2) w = Some ch" "\<forall>x\<in>set xs. \<forall>c. claim_of net w x = Some c \<longrightarrow> 0 < fst c"
  shows "steady ch w w' \<and> linked w' \<and> ts_modes w' ch = fold settle (List.map_filter (claim_of net w) xs) (ts_modes w ch)"
  using assms(1,3-6)
proof (induction xs arbitrary: w)
  case Nil then show ?case by (simp add: steady_refl)
next
  case (Cons x xs)
  obtain l s pv where x: "x = (l, s, pv)" by (cases x)
  with Cons.prems(1) obtain w1 where w1: "ms_sjoin net l s pv w = Some w1" "sjoin_lines net xs w1 = Some w'"
    by (auto simp: bind_eq_Some_conv)
  have ch: "lookup_channel (pv ! 2) w = Some ch" "ch_channelts (chans w ch) \<noteq> 0" using Cons.prems(3,4) x by auto
  have good: "0 < fst (ts_modes w ch)" using Cons.prems(3) by (simp add: ts_modes_def)
  note R = ms_sjoin_result [OF w1(1) ch assms(2) Cons.prems(2)]
  have step: "steady ch w w1 \<and> linked w1 \<and> 0 < fst (ts_modes w1 ch) \<and>
      ts_modes w1 ch = fold settle (List.map_filter (claim_of net w) [x]) (ts_modes w ch)"
  proof (cases "sjoin_claim net s pv w")
    case None
    with R have lg: "logged w w1" by simp
    have "claim_of net w x = None" using None by (simp add: claim_of_def x)
    then show ?thesis using steady_logged [OF lg] linked_logged [OF lg] Cons.prems(2) good by (simp add: List.map_filter_simps)
  next
    case (Some c)
    then obtain t m args where c: "sjoin_claim net s pv w = Some (t, m, args)" by (cases c) auto
    with R have k: "kept (with_ts_modes ch (settle (t, m) (ts_modes w ch)) w) w1" and o: "sjoin_outcome net l s (pv ! (4 + args)) ch t w w1"
      by simp_all
    have st: "steady ch w w1" using k unfolding steady_def by blast
    have "claim_of net w x = Some (t, m)" using c by (simp add: claim_of_def x)
    moreover from this have "0 < fst (settle (t, m) (ts_modes w ch))"
      using Cons.prems(5) good settle_swap(2) [of "(t, m)" "(t, m)" "ts_modes w ch"] by simp
    ultimately show ?thesis
      using kept_ts_modes [OF k] o st by (simp add: sjoin_outcome_def List.map_filter_simps)
  qed
  then have st: "steady ch w w1" by simp
  have eq: "claim_of net w1 = claim_of net w" using steadyD(2) [OF st] by blast
  have "steady ch w1 w' \<and> linked w' \<and> ts_modes w' ch = fold settle (List.map_filter (claim_of net w1) xs) (ts_modes w1 ch)"
    using Cons.prems(4,5) step steadyD(1) [OF st] unfolding eq by (intro Cons.IH [OF w1(2), unfolded eq]) (auto simp: ts_modes_def)
  then show ?case using step steady_trans st unfolding eq by (auto simp: List.map_filter_simps split: option.splits)
qed

lemma sjoin_lines_agree:
  assumes "sjoin_lines net xs w = Some w1" "sjoin_lines net ys w = Some w2" "set xs = set ys"
    "fresh_members net" "linked w" "0 < ch_channelts (chans w ch)"
    "\<forall>(l, s, pv)\<in>set xs. lookup_channel (pv ! 2) w = Some ch" "\<forall>x\<in>set xs. \<forall>c. claim_of net w x = Some c \<longrightarrow> 0 < fst c"
  shows "ts_modes w1 ch = ts_modes w2 ch"
proof -
  let ?f = "List.map_filter (claim_of net w)"
  have "set (?f xs) = set (?f ys)" using assms(3) by (auto simp: List.map_filter_def)
  moreover have "\<forall>c\<in>set (?f xs). 0 < fst c" using assms(8) by (auto simp: List.map_filter_def)
  moreover have "0 < fst (ts_modes w ch)" using assms(6) by (simp add: ts_modes_def)
  ultimately have "fold settle (?f xs) (ts_modes w ch) = fold settle (?f ys) (ts_modes w ch)"
    by (rule sjoin.only_the_claims_matter)
  moreover have "ts_modes w1 ch = fold settle (?f xs) (ts_modes w ch)"
    using sjoin_lines_settle [OF assms(1,4-8)] by simp
  moreover have "ts_modes w2 ch = fold settle (?f ys) (ts_modes w ch)"
    using sjoin_lines_settle [OF assms(2,4-6)] assms(3,7,8) by simp
  ultimately show ?thesis by simp
qed

end
