(* ===== verification/Sjoin_Total.thy ===== *)
theory Sjoin_Total
  imports Sjoin_Agree
begin

section \<open>SJOIN writes within its buffers\<close>

text \<open>
  The buffers of m_sjoin.c and of \<open>channel_modes\<close> suffice: under the sizes names, masks and modes have, every step of
  the handler in theory \<open>Sjoin\<close> succeeds, so the handler returns, and so does any sequence of lines.  Where the
  sizes are exceeded \<open>remove_ban_list\<close> does overrun.
\<close>

subsection \<open>The losing side always gets to its end\<close>

text \<open>A chain of fallible steps that all succeed where an invariant holds.\<close>

lemma fold_bind_total:
  assumes "P w" "\<And>x v. x \<in> set xs \<Longrightarrow> P v \<Longrightarrow> \<exists>v'. f x v = Some v' \<and> P v'"
  shows "\<exists>w'. fold (\<lambda>x ow. do { v \<leftarrow> ow; f x v }) xs (Some w) = Some w' \<and> P w'"
  using assms
proof (induction xs arbitrary: w)
  case (Cons x xs)
  then obtain v where "f x w = Some v" "P v" by (metis list.set_intros(1))
  with Cons show ?case by simp
qed simp

lemma name_list_length: "\<forall>n\<in>set ns. length n \<le> k \<Longrightarrow> length (name_list ns) \<le> length ns * (k + 1)"
  by (induction ns) (auto simp: name_list_def)

lemma status_line_total:
  assumes "length ns \<le> 4" "\<forall>n\<in>set ns. length n \<le> 30"
  shows "\<exists>w'. status_line server ch letters ns w = Some w'"
proof -
  have "length ns * 31 \<le> 4 * 31" using assms(1) by (rule mult_le_mono1)
  then have "length (name_list ns) < 200" using name_list_length [OF assms(2)] by simp
  then show ?thesis by (simp add: status_line_def)
qed

definition members_fit :: "chid \<Rightarrow> world \<Rightarrow> bool" where
  "members_fit ch w \<longleftrightarrow> (\<forall>m\<in>set (ch_members (chans w ch)). \<exists>x. mships w m = Some x \<and> length (cl_name (clients w (ms_client x))) \<le> 30)"

lemma remove_a_mode_total:
  assumes "\<forall>m\<in>set ms. \<exists>x. mships w m = Some x \<and> length (cl_name (clients w (ms_client x))) \<le> 30"
    "length ns < 4" "\<forall>n\<in>set ns. length n \<le> 30"
  shows "\<exists>w'. remove_a_mode server ch msk flag ms ns w = Some w'"
  using assms
proof (induction ms arbitrary: ns w)
  case Nil then show ?case using status_line_total [of ns server ch "CHR ''-'' # replicate (length ns) flag" w] by (cases "ns = []") auto
next
  case (Cons m ms)
  then obtain x where x: "mships w m = Some x" "length (cl_name (clients w (ms_client x))) \<le> 30" by auto
  let ?w = "upd_ms m (\<lambda>x. x\<lparr>ms_flags := ms_flags x AND NOT msk\<rparr>) w" and ?ns = "ns @ [cl_name (clients w (ms_client x))]"
  have keep: "\<forall>i\<in>set ms. \<exists>x. mships v i = Some x \<and> length (cl_name (clients v (ms_client x))) \<le> 30"
    if "mships v = mships ?w" "clients v = clients ?w" for v
    using Cons.prems(1) that by (auto split: if_splits)
  consider "\<not> has (ms_flags x) msk" | "has (ms_flags x) msk" "length ?ns < 4" | "has (ms_flags x) msk" "\<not> length ?ns < 4" by blast
  then show ?case
  proof cases
    case 1 then show ?thesis using Cons x by simp
  next
    case 2
    have "\<exists>w'. remove_a_mode server ch msk flag ms ?ns ?w = Some w'"
      using keep [OF refl refl] Cons.prems(3) 2 x(2) by (intro Cons.IH) auto
    then show ?thesis using 2 x by (simp add: Let_def)
  next
    case 3
    obtain v where v: "status_line server ch (CHR ''-'' # replicate (length ?ns) flag) ?ns ?w = Some v"
      using status_line_total [of ?ns server ch "CHR ''-'' # replicate (length ?ns) flag" ?w] Cons.prems(2,3) x(2) by auto
    have "\<exists>w'. remove_a_mode server ch msk flag ms [] v = Some w'"
      using keep [of v] status_line_kept [OF v] by (intro Cons.IH) auto
    then show ?thesis using 3 x v by (simp add: Let_def)
  qed
qed

lemma members_fit_stripped: "stripped ch w w' \<Longrightarrow> members_fit k w \<Longrightarrow> members_fit k w'"
  unfolding members_fit_def stripped_def by (metis (no_types, lifting))

lemma remove_our_modes_total:
  assumes "members_fit ch w"
  shows "\<exists>w'. remove_our_modes net ch s w = Some w'"
proof -
  let ?srv = "if hidden_server net s then cl_name (clients w (me w)) else cl_name (clients w s)"
  have "\<exists>w'. fold (\<lambda>x ow. do { v \<leftarrow> ow; (\<lambda>(f, l, p) v. remove_a_mode ?srv ch f l (ch_members (chans v ch)) [] v) x v }) (status_letters (cfg w)) (Some w)
      = Some w' \<and> members_fit ch w'"
  proof (rule fold_bind_total [where P = "members_fit ch", OF assms])
    fix x :: "32 word \<times> char \<times> char" and v assume m: "members_fit ch v"
    obtain f l p where x: "x = (f, l, p)" by (cases x)
    obtain v' where v': "remove_a_mode ?srv ch f l (ch_members (chans v ch)) [] v = Some v'"
      using remove_a_mode_total [of "ch_members (chans v ch)" v "[]" ?srv ch f l] m by (auto simp: members_fit_def)
    then show "\<exists>v'. (\<lambda>(f, l, p) v. remove_a_mode ?srv ch f l (ch_members (chans v ch)) [] v) x v = Some v' \<and> members_fit ch v'"
      using remove_a_mode_stripped [OF v' subset_refl] members_fit_stripped m by (auto simp: x)
  qed
  then show ?thesis by (auto simp: remove_our_modes_def Let_def split_def)
qed

text \<open>The header of a line that takes masks away, and what is behind it.\<close>

lemma ban_lines_total:
  assumes "length header \<le> 194" "\<forall>b\<in>set bs. bn_len b = length (bn_name b) + length (bn_username b) + length (bn_host b) \<and> bn_len b \<le> 110"
    "length letters = count" "count \<le> 4" "pb = [] \<longleftrightarrow> count = 0" "length pb + count + length header \<le> cur" "cur \<le> 510" "count = 0 \<longrightarrow> cur = length header" "bs \<noteq> [] \<or> pb \<noteq> []"
  shows "\<exists>ls. ban_lines header c bs letters pb cur count = Some ls"
  using assms(2-)
proof (induction bs arbitrary: letters pb cur count)
  case (Cons b bs)
  let ?n = "nuh_text (bn_name b) (bn_username b) (bn_host b) @ '' ''"
  have len: "length ?n = bn_len b + 3" "bn_len b \<le> 110" using Cons.prems(1) by (auto simp: nuh_text_def)
  have rest: "\<forall>b\<in>set bs. bn_len b = length (bn_name b) + length (bn_username b) + length (bn_host b) \<and> bn_len b \<le> 110"
    using Cons.prems(1) by (metis list.set_intros(2))
  show ?case
  proof (cases "MAXMODEPARAMS \<le> count \<or> IRCD_BUFSIZE - 2 < cur + 1 + (bn_len b + 4 - 1)")
    case True
    then have "pb \<noteq> []" using Cons.prems(2-) len assms(1) by auto
    moreover have "\<exists>ls. ban_lines header c bs [c] ?n (length header + (bn_len b + 4)) 1 = Some ls"
      using len assms(1) by (intro Cons.IH [OF rest]) auto
    ultimately show ?thesis using True len assms(1) by (auto simp: Let_def)
  next
    case False
    have "\<exists>ls. ban_lines header c bs (letters @ [c]) (pb @ ?n) (cur + (bn_len b + 4)) (count + 1) = Some ls"
      using len Cons.prems(2-) False by (intro Cons.IH [OF rest]) auto
    moreover have "length header + length (letters @ [c]) < 200" "length (pb @ ?n) < 512"
      using len Cons.prems(2-) False assms(1) by auto
    ultimately show ?thesis using False by (simp add: Let_def)
  qed
qed simp

definition mask_fits :: "ban \<Rightarrow> bool" where
  "mask_fits b \<longleftrightarrow> bn_len b = length (bn_name b) + length (bn_username b) + length (bn_host b) \<and> bn_len b \<le> 110"

definition masks_fit :: "chid \<Rightarrow> world \<Rightarrow> bool" where
  "masks_fit ch w \<longleftrightarrow> (\<forall>t. \<forall>b\<in>set (id_list t (chans w ch)). mask_fits b)"

definition link_fits :: "cid \<Rightarrow> chid \<Rightarrow> world \<Rightarrow> bool" where
  "link_fits l ch w \<longleftrightarrow> length (cl_name (clients w l)) + length (ch_name (chans w ch)) \<le> 185"

lemma remove_ban_list_total:
  assumes "masks_fit ch w" "link_fits l ch w" "id_list t (chans w ch) \<noteq> []"
  shows "\<exists>w'. remove_ban_list ch l t c cap w = Some w' \<and> masks_fit ch w' \<and> link_fits l ch w'"
proof -
  let ?h = "'':'' @ cl_name (clients w l) @ '' MODE '' @ ch_name (chans w ch) @ '' -''"
  let ?sent = "\<lambda>ls. fold (\<lambda>l. send (To_servers ch cap CAP_TS6 l) \<circ> send (To_channel 0 ch l)) ls w"
  have h: "length ?h \<le> 194" using assms(2) by (simp add: link_fits_def)
  have "\<forall>b\<in>set (id_list t (chans w ch)). bn_len b = length (bn_name b) + length (bn_username b) + length (bn_host b) \<and> bn_len b \<le> 110"
    using assms(1) unfolding masks_fit_def mask_fits_def by blast
  from ban_lines_total [OF h this, of "[]" 0 "[]" "length ?h"] h assms(3)
  obtain ls where "ban_lines ?h c (id_list t (chans w ch)) [] [] (length ?h) 0 = Some ls" by auto
  then have r: "remove_ban_list ch l t c cap w = Some (upd_chan ch (upd_id_list t (\<lambda>_. [])) (?sent ls))"
    using h by (simp add: remove_ban_list_def Let_def)
  have "logged w (?sent ls)" by (rule logged_fold) simp
  note s = loggedD [OF this]
  have n: "ch_name (upd_id_list t f c) = ch_name c" for f c by (cases t) (simp_all add: upd_id_list_def)
  have "masks_fit ch (upd_chan ch (upd_id_list t (\<lambda>_. [])) (?sent ls))"
    using assms(1) by (auto simp: masks_fit_def s)
  moreover have "link_fits l ch (upd_chan ch (upd_id_list t (\<lambda>_. [])) (?sent ls))"
    using assms(2) by (simp add: link_fits_def s n)
  ultimately show ?thesis using r by blast
qed

lemma drop_masks_total:
  assumes "masks_fit ch w" "link_fits l ch w"
  shows "\<exists>w'. drop_masks ch l w = Some w'"
proof -
  have step: "\<exists>w'. (if g \<noteq> [] then remove_ban_list ch l t c cap v else Some v) = Some w' \<and> masks_fit ch w' \<and> link_fits l ch w'"
    if "masks_fit ch v" "link_fits l ch v" "g = id_list t (chans v ch)" for g t c cap v
    using remove_ban_list_total [OF that(1,2), of t c cap] that by (cases "g = []") auto
  obtain w1 where w1: "(if ch_banlist (chans w ch) \<noteq> [] then remove_ban_list ch l CHFL_BAN CHR ''b'' 0 w else Some w) = Some w1"
      "masks_fit ch w1" "link_fits l ch w1"
    using step [OF assms, of "ch_banlist (chans w ch)" CHFL_BAN "CHR ''b''" 0] by (auto simp: id_list_def)
  obtain w2 where w2: "(if ch_exceptlist (chans w1 ch) \<noteq> [] then remove_ban_list ch l CHFL_EXCEPTION CHR ''e'' CAP_EX w1 else Some w1) = Some w2"
      "masks_fit ch w2" "link_fits l ch w2"
    using step [OF w1(2,3), of "ch_exceptlist (chans w1 ch)" CHFL_EXCEPTION "CHR ''e''" CAP_EX] by (auto simp: id_list_def)
  obtain w3 where w3: "(if ch_invexlist (chans w2 ch) \<noteq> [] then remove_ban_list ch l CHFL_INVEX CHR ''I'' CAP_IE w2 else Some w2) = Some w3"
    using step [OF w2(2,3), of "ch_invexlist (chans w2 ch)" CHFL_INVEX "CHR ''I''" CAP_IE] by (auto simp: id_list_def)
  show ?thesis unfolding drop_masks_def w1(1) w2(1) w3 bind.bind_lunit by blast
qed


subsection \<open>The loop over the nicks always gets to its end\<close>

lemma relay_entry_total:
  assumes "length who + length (ch_name (chans w (se_chan e))) \<le> 200" "quiet mb" "length (se_parabuf e) \<le> 188" "length entry \<le> 40"
    "length buf \<le> 511"
  shows "\<exists>buf' w'. relay_entry e who cap nocap entry buf mb w = Some (buf', w') \<and> length buf' \<le> 511"
  using header_length [OF assms(1) quiet_text [OF assms(2)] assms(3), of "se_tosend e"] assms(4,5)
  by (auto simp: relay_entry_def Let_def)

definition bufs_ok :: "sjoin_run \<Rightarrow> bool" where
  "bufs_ok r \<longleftrightarrow> quiet (sj_modebuf r) \<and> sj_mlen r = 1 + length (sj_para r) \<and> length (sj_para r) < 4 \<and>
     (\<forall>n\<in>set (sj_para r). length n \<le> 30) \<and> length (sj_nick r) \<le> 511 \<and> length (sj_uid r) \<le> 511"

lemma put_status_total:
  assumes "bufs_ok r" "length name \<le> 30"
  shows "\<exists>r'. put_status e l name r = Some r' \<and> bufs_ok r'"
proof -
  let ?mb = "(sj_modebuf r)[sj_mlen r := l]" and ?para = "sj_para r @ [name]"
  let ?mb1 = "?mb[sj_mlen r + 1 := NUL]"
  have q: "quiet ?mb" "quiet ?mb1" "quiet (?mb1[0 := CHR ''+''])" "sj_mlen r \<le> 4"
    using assms(1) by (auto simp: bufs_ok_def intro!: quiet_upd)
  have p: "length ?para \<le> 4" "\<forall>n\<in>set ?para. length n \<le> 30" using assms by (auto simp: bufs_ok_def)
  obtain w where w: "status_line (cl_name (clients (sj_world r) (me (sj_world r)))) (se_chan e) (c_text ?mb1) ?para (sj_world r) = Some w"
    using status_line_total [OF p] by blast
  show ?thesis
  proof (cases "length ?para < MAXMODEPARAMS")
    case True then show ?thesis using q p assms(1) by (auto simp: put_status_def Let_def bufs_ok_def)
  next
    case False then show ?thesis using q p assms(1) w by (auto simp: put_status_def Let_def bufs_ok_def)
  qed
qed

definition clients_fit :: "world \<Rightarrow> bool" where
  "clients_fit w \<longleftrightarrow> NICKLEN (cfg w) \<le> 31 \<and>
     (\<forall>c. IsClient (clients w c) \<longrightarrow> length (cl_name (clients w c)) < NICKLEN (cfg w) \<and> length (cl_id (clients w c)) \<le> IDLEN)"

lemma fits_kept:
  assumes "kept w w'"
  shows "clients_fit w' \<longleftrightarrow> clients_fit w" "source_fits s ch w' \<longleftrightarrow> source_fits s ch w" "link_fits l ch w' \<longleftrightarrow> link_fits l ch w"
  using assms kept_client [OF assms] by (auto simp: clients_fit_def source_fits_def link_fits_def kept_def IsClient_def)

lemma put_letters_total:
  assumes "bufs_ok r" "length name \<le> 30"
  shows "\<exists>r'. fold (\<lambda>(f, l, p) r. do { q \<leftarrow> r; if has fl f then put_status e l name q else Some q }) ls (Some r) = Some r' \<and> bufs_ok r'"
proof -
  have "\<exists>r'. fold (\<lambda>x r. do { q \<leftarrow> r; (\<lambda>(f, l, p) q. if has fl f then put_status e l name q else Some q) x q }) ls (Some r) = Some r' \<and> bufs_ok r'"
    by (rule fold_bind_total [where P = bufs_ok, OF assms(1)]) (auto simp: put_status_total assms(2))
  then show ?thesis by (simp add: split_def)
qed

lemma show_prefix_length: "length (show_prefix k fl) \<le> 5"
proof -
  have "length (filter (\<lambda>(f, l, p). has fl f) (status_letters k)) \<le> length (status_letters k)" by (rule length_filter_le)
  also have "\<dots> \<le> 5" by (simp add: status_letters_def)
  finally show ?thesis by (simp add: show_prefix_def)
qed

lemma sjoin_nick_kept: "sjoin_nick net e word r = Some r' \<Longrightarrow> kept (sj_world r) (sj_world r')"
proof -
  assume a: "sjoin_nick net e word r = Some r'"
  from sjoin_nick_effect [OF a] show ?thesis
  proof (cases "wanted net (se_link e) (se_source e) (sj_world r) word")
    case None
    then show ?thesis using sjoin_nick_effect [OF a] loggedD(1) by simp
  next
    case (Some t)
    then obtain w3 w4 where w: "logged (sj_world r) w3" "logged w4 (sj_world r')"
      "w4 = (if find_channel_link t (se_chan e) w3 \<noteq> None then w3
             else add_user_to_channel (new_member net w3) (se_chan e) t (granted (se_keep_new e) (cfg (sj_world r)) word) (se_flood_ctrl e) w3)"
      using sjoin_nick_effect [OF a] by auto
    have "kept w3 w4" unfolding w(3) using kept_add_user by simp
    then show ?thesis using loggedD(1) [OF w(1)] loggedD(1) [OF w(2)] kept_trans by blast
  qed
qed

text \<open>What the loop needs of its surroundings.\<close>

definition room :: "sjoin_env \<Rightarrow> world \<Rightarrow> bool" where
  "room e w \<longleftrightarrow> clients_fit w \<and> source_fits (se_source e) (se_chan e) w \<and> length (se_parabuf e) \<le> 188"

lemma room_kept: "kept w w' \<Longrightarrow> room e w' \<longleftrightarrow> room e w"
  using fits_kept [of w w'] by (simp add: room_def)

lemma ID_fits: "length (cl_name c) \<le> n \<Longrightarrow> length (cl_id c) \<le> m \<Longrightarrow> length (ID c) \<le> max n m"
  by (auto simp: ID_def)

lemma bufs_ok_introduce: "bufs_ok (introduce_lazy_link_clients net e t r) = bufs_ok r"
  by (simp add: bufs_ok_def introduce_logged)

lemma relay_both_total:
  assumes "room e w" "bufs_ok r" "IsClient c" "c = clients w t" "length pre \<le> 5"
  shows "\<exists>nb w1 ub w2. relay_entry e (cl_name (clients w (se_source e))) 0 CAP_TS6 (pre @ cl_name c) (sj_nick r) (sj_modebuf r) w = Some (nb, w1) \<and>
    relay_entry e (ID (clients w (se_source e))) CAP_TS6 0 (pre @ ID c) (sj_uid r) (sj_modebuf r) w1 = Some (ub, w2) \<and>
    length nb \<le> 511 \<and> length ub \<le> 511"
proof -
  let ?s = "clients w (se_source e)" and ?ch = "se_chan e"
  have c: "length (cl_name c) \<le> 30" "length (cl_id c) \<le> 12"
    using assms(1,3,4) by (auto simp: room_def clients_fit_def dest!: spec [of _ t])
  have q: "quiet (sj_modebuf r)" "length (se_parabuf e) \<le> 188" "length (sj_nick r) \<le> 511" "length (sj_uid r) \<le> 511"
    using assms(1,2) by (simp_all add: bufs_ok_def room_def)
  have "length (cl_name ?s) + length (ch_name (chans w ?ch)) \<le> 200" using assms(1) by (simp add: room_def source_fits_def)
  from relay_entry_total [OF this q(1,2), of "pre @ cl_name c" "sj_nick r" 0 CAP_TS6] c assms(5) q
  obtain nb w1 where n: "relay_entry e (cl_name ?s) 0 CAP_TS6 (pre @ cl_name c) (sj_nick r) (sj_modebuf r) w = Some (nb, w1)" "length nb \<le> 511"
    by auto
  have "chans w1 = chans w" using loggedD(3) [OF relay_entry_logged [OF n(1)]] .
  then have "length (ID ?s) + length (ch_name (chans w1 ?ch)) \<le> 200" using assms(1) by (simp add: room_def source_fits_def ID_def)
  from relay_entry_total [OF this q(1,2), of "pre @ ID c" "sj_uid r" CAP_TS6 0] ID_fits [OF c] assms(5) q n
  show ?thesis by auto
qed

lemma sjoin_nick_total:
  assumes "room e (sj_world r)" "bufs_ok r"
  shows "\<exists>r'. sjoin_nick net e word r = Some r' \<and> bufs_ok r'"
proof -
  let ?w = "sj_world r"
  obtain fl0 s where rp: "read_prefix (cfg ?w) word 0 = (fl0, s)" by fastforce
  obtain found w where fc: "find_chasing (se_link e) (se_source e) s ?w = (found, w)" by fastforce
  have "logged ?w w" using find_chasing_logged [of ?w "se_link e" "se_source e" s] fc by simp
  then have room: "room e w" using assms(1) room_kept loggedD(1) by blast
  have here: "bufs_ok (r\<lparr>sj_world := w\<rparr>)" using assms(2) by (simp add: bufs_ok_def)
  show ?thesis
  proof (cases "found = None \<or> (\<exists>t. found = Some t \<and> (from_link net t \<noteq> se_link e \<or> \<not> IsClient (clients w t)))")
    case True
    then show ?thesis using here by (auto simp: sjoin_nick_def rp fc)
  next
    case False
    then obtain t where t: "found = Some t" "from_link net t = se_link e" "IsClient (clients w t)" by auto
    let ?c = "clients w t" and ?src = "clients w (se_source e)" and ?k = "cfg w"
    define fl where "fl = (if se_keep_new e then fl0
               else if has fl0 (CHFL_OWNER OR CHFL_PROTECTED OR CHFL_CHANOP OR CHFL_HALFOP) then CHFL_DEOPPED else 0)"
    define pre where "pre = (if se_keep_new e then show_prefix ?k fl else [])"
    have "length pre \<le> 5" using show_prefix_length by (simp add: pre_def)
    from relay_both_total [OF room assms(2) t(3) refl this] obtain nb w1 ub w2 where
      n: "relay_entry e (cl_name ?src) 0 CAP_TS6 (pre @ cl_name ?c) (sj_nick r) (sj_modebuf r) w = Some (nb, w1)" and
      u: "relay_entry e (ID ?src) CAP_TS6 0 (pre @ ID ?c) (sj_uid r) (sj_modebuf r) w1 = Some (ub, w2)" and
      l: "length nb \<le> 511" "length ub \<le> 511" by blast
    define r1 where "r1 = r\<lparr>sj_world := w2, sj_nick := nb, sj_uid := ub\<rparr>"
    define r2 where "r2 = (if hub ?k then introduce_lazy_link_clients net e t r1 else r1)"
    define r3 where "r3 = (if find_channel_link t (se_chan e) (sj_world r2) \<noteq> None then r2
        else r2\<lparr>sj_world :=
          send (To_channel 0 (se_chan e) ('':'' @ nuh_text (cl_name ?c) (cl_username ?c) (cl_host ?c) @ '' JOIN :'' @ ch_name (chans (sj_world r2) (se_chan e))))
            (add_user_to_channel (new_member net (sj_world r2)) (se_chan e) t fl (se_flood_ctrl e) (sj_world r2))\<rparr>)"
    have "bufs_ok r1" using assms(2) l by (simp add: r1_def bufs_ok_def)
    then have "bufs_ok r2" by (simp add: r2_def bufs_ok_introduce)
    then have "bufs_ok r3" by (simp add: r3_def bufs_ok_def)
    moreover have "length (cl_name ?c) \<le> 30" using room t(3) by (auto simp: room_def clients_fit_def dest!: spec [of _ t])
    ultimately obtain r' where r': "fold (\<lambda>(f, l, p) r. do { q \<leftarrow> r; if has fl f then put_status e l (cl_name ?c) q else Some q }) (status_letters ?k) (Some r3) = Some r'"
      "bufs_ok r'" using put_letters_total by blast
    have "sjoin_nick net e word r = Some r'"
      unfolding sjoin_nick_def rp fc Let_def prod.case fl_def [symmetric] pre_def [symmetric] t(1) option.case
      using t(2,3) n u r'(1) unfolding r3_def r2_def r1_def by (simp add: Let_def split del: if_split)
    with r'(2) show ?thesis by blast
  qed
qed

lemma sjoin_nicks_total:
  "room e (sj_world r) \<Longrightarrow> bufs_ok r \<Longrightarrow> \<exists>r'. sjoin_nicks net e ws r = Some r' \<and> bufs_ok r' \<and> kept (sj_world r) (sj_world r')"
proof (induction ws arbitrary: r)
  case (Cons s ws)
  then obtain r1 where r1: "sjoin_nick net e s r = Some r1" "bufs_ok r1" using sjoin_nick_total by blast
  note k = sjoin_nick_kept [OF r1(1)]
  from Cons.IH [OF _ r1(2)] Cons.prems(1) room_kept [OF k] r1(1) kept_trans [OF k] show ?case by auto
qed simp

subsection \<open>The masks only get fewer\<close>

definition thinned :: "world \<Rightarrow> world \<Rightarrow> bool" where
  "thinned w w' \<longleftrightarrow> (\<forall>c t. set (id_list t (chans w' c)) \<subseteq> set (id_list t (chans w c)))"

lemma thinned_refl [simp]: "thinned w w"
  by (simp add: thinned_def)

lemma thinned_trans: "thinned w w1 \<Longrightarrow> thinned w1 w2 \<Longrightarrow> thinned w w2"
  unfolding thinned_def by blast

lemma thinned_masks: "thinned w w' \<Longrightarrow> masks_fit ch w \<Longrightarrow> masks_fit ch w'"
  unfolding thinned_def masks_fit_def by blast

lemma thinned_chans: "chans w' = chans w \<Longrightarrow> thinned w w'"
  by (simp add: thinned_def)

lemma thinned_logged: "logged w w' \<Longrightarrow> thinned w w'"
  using loggedD(3) thinned_chans by blast

lemma thinned_upd_chan: "(\<And>t x. set (id_list t (f x)) \<subseteq> set (id_list t x)) \<Longrightarrow> thinned w (upd_chan ch f w)"
  by (simp add: thinned_def)

lemma id_list_members [simp]: "id_list t (x\<lparr>ch_members := ms\<rparr>) = id_list t x"
  by (cases t) (simp_all add: id_list_def)

lemma thinned_add_user: "thinned w (add_user_to_channel m ch who fl f w)"
proof -
  have "id_list t (chans (join_flood ch who f w) c) = id_list t (chans w c)" for t c
    by (cases t) (simp_all add: join_flood_def Let_def id_list_def)
  then show ?thesis by (simp add: thinned_def add_user_to_channel_def Let_def)
qed

lemma thinned_nick: "sjoin_nick net e word r = Some r' \<Longrightarrow> thinned (sj_world r) (sj_world r')"
proof -
  assume a: "sjoin_nick net e word r = Some r'"
  show ?thesis
  proof (cases "wanted net (se_link e) (se_source e) (sj_world r) word")
    case None
    then show ?thesis using sjoin_nick_effect [OF a] thinned_logged by simp
  next
    case (Some t)
    then obtain w3 w4 where w: "logged (sj_world r) w3" "logged w4 (sj_world r')"
      "w4 = (if find_channel_link t (se_chan e) w3 \<noteq> None then w3
             else add_user_to_channel (new_member net w3) (se_chan e) t (granted (se_keep_new e) (cfg (sj_world r)) word) (se_flood_ctrl e) w3)"
      using sjoin_nick_effect [OF a] by auto
    have "thinned w3 w4" unfolding w(3) using thinned_add_user by simp
    then show ?thesis using thinned_logged [OF w(1)] thinned_logged [OF w(2)] thinned_trans by blast
  qed
qed

lemma thinned_nicks: "sjoin_nicks net e ws r = Some r' \<Longrightarrow> thinned (sj_world r) (sj_world r')"
proof (induction ws arbitrary: r)
  case (Cons s ws)
  then obtain r1 where r1: "sjoin_nick net e s r = Some r1" "sjoin_nicks net e ws r1 = Some r'" by (auto split: bind_splits)
  show ?case by (rule thinned_trans [OF thinned_nick [OF r1(1)] Cons.IH [OF r1(2)]])
qed simp

lemma thinned_clear: "thinned w (clear_ban_cache ch w)"
  by (rule thinned_chans) (simp add: clear_ban_cache_frame)

lemma thinned_bans: "remove_ban_list ch l t c cap w = Some w' \<Longrightarrow> thinned w w'"
proof -
  assume "remove_ban_list ch l t c cap w = Some w'"
  then obtain ls where w': "w' = upd_chan ch (upd_id_list t (\<lambda>_. [])) (fold (\<lambda>l. send (To_servers ch cap CAP_TS6 l) \<circ> send (To_channel 0 ch l)) ls w)"
    by (auto simp: remove_ban_list_def Let_def split: if_splits)
  have "logged w (fold (\<lambda>l. send (To_servers ch cap CAP_TS6 l) \<circ> send (To_channel 0 ch l)) ls w)" by (rule logged_fold) simp
  then show ?thesis unfolding w' using thinned_trans [OF thinned_logged thinned_upd_chan] by auto
qed

lemma thinned_drop: "drop_masks ch l w = Some w' \<Longrightarrow> thinned w w'"
proof -
  assume a: "drop_masks ch l w = Some w'"
  then obtain w1 w2 w3 where w:
    "(if ch_banlist (chans w ch) \<noteq> [] then remove_ban_list ch l CHFL_BAN CHR ''b'' 0 w else Some w) = Some w1"
    "(if ch_exceptlist (chans w1 ch) \<noteq> [] then remove_ban_list ch l CHFL_EXCEPTION CHR ''e'' CAP_EX w1 else Some w1) = Some w2"
    "(if ch_invexlist (chans w2 ch) \<noteq> [] then remove_ban_list ch l CHFL_INVEX CHR ''I'' CAP_IE w2 else Some w2) = Some w3"
    and w': "w' = clear_ban_cache ch w3"
    unfolding drop_masks_def by (auto simp only: bind_eq_Some_conv option.inject)
  have step: "(if b then remove_ban_list ch l t c cap v else Some v) = Some v' \<Longrightarrow> thinned v v'" for b t c cap v v'
    using thinned_bans by (auto split: if_splits)
  show ?thesis unfolding w' using step [OF w(1)] step [OF w(2)] step [OF w(3)] thinned_clear thinned_trans by blast
qed

subsection \<open>The handler always gets to its end\<close>

definition channel_fits :: "chid \<Rightarrow> world \<Rightarrow> bool" where
  "channel_fits ch w \<longleftrightarrow> masks_fit ch w \<and> (\<forall>c. is_member w c ch \<longrightarrow> length (cl_name (clients w c)) \<le> 30) \<and> mode_fits (ch_mode (chans w ch))"

lemma members_fitI: "links_ok w \<Longrightarrow> \<forall>c. is_member w c ch \<longrightarrow> length (cl_name (clients w c)) \<le> 30 \<Longrightarrow> members_fit ch w"
  unfolding members_fit_def is_member_def by (metis links_okD(3))

lemma sjoin_finish_total:
  assumes "bufs_ok r" "masks_fit (se_chan e) (sj_world r)" "link_fits (se_link e) (se_chan e) (sj_world r)"
  shows "\<exists>w'. sjoin_finish net e nicks isnew keep_our r = Some w' \<and> (\<not> isnew \<longrightarrow> thinned (sj_world r) w')"
proof -
  let ?w = "sj_world r" and ?ch = "se_chan e"
  let ?line = "if sj_para r = [] then Some ?w else status_line (cl_name (clients ?w (me ?w))) ?ch (c_text ((sj_modebuf r)[sj_mlen r := NUL])) (sj_para r) ?w"
  have "\<exists>w1. ?line = Some w1"
    using assms(1) status_line_total [of "sj_para r"] by (auto simp: bufs_ok_def)
  then obtain w1 where w1: "?line = Some w1" by blast
  then have l1: "logged ?w w1" using status_line_logged by (auto split: if_splits)
  let ?w2 = "relay_sjoin net (se_link e) (sj_nick r) (sj_uid r) w1"
  have l2: "logged ?w ?w2" by (rule logged_trans [OF l1 relay_sjoin_logged])
  have "masks_fit ?ch ?w2" "link_fits (se_link e) ?ch ?w2"
    using thinned_masks [OF thinned_logged [OF l2] assms(2)] fits_kept(3) [OF loggedD(1) [OF l2]] assms(3) by simp_all
  then obtain w3 where w3: "drop_masks ?ch (se_link e) ?w2 = Some w3" using drop_masks_total by blast
  have t: "thinned ?w w1" "thinned ?w ?w2" "thinned ?w w3"
    using thinned_logged [OF l1] thinned_logged [OF l2] thinned_trans thinned_drop [OF w3] by blast+
  show ?thesis
    unfolding sjoin_finish_def Let_def w1 bind.bind_lunit using t w3
    by (cases "ch_members (chans w1 ?ch) = [] \<and> isnew"; cases "nicks = []"; cases "cl_id (clients ?w (se_source e)) \<noteq> [] \<and> \<not> keep_our")
      (auto simp del: not_None_eq)
qed

lemma sjoin_members_total:
  assumes "room e w" "masks_fit (se_chan e) w" "link_fits (se_link e) (se_chan e) w" "quiet buf"
  shows "\<exists>w'. sjoin_members net e nicks isnew keep_our buf w = Some w' \<and> (\<not> isnew \<longrightarrow> thinned w w')"
proof -
  let ?src = "clients w (se_source e)" and ?name = "ch_name (chans w (se_chan e))"
  let ?nb = "sjoin_header (cl_name ?src) (se_tosend e) ?name (c_text buf) (se_parabuf e)"
  let ?ub = "sjoin_header (ID ?src) (se_tosend e) ?name (c_text buf) (se_parabuf e)"
  let ?r = "\<lparr>sj_world = w, sj_modebuf = buf[0 := CHR ''+''], sj_mlen = 1, sj_para = [], sj_nick = ?nb, sj_uid = ?ub, sj_known = lazy_known net\<rparr>"
  have h: "length ?nb \<le> 470" "length ?ub \<le> 470"
    using assms(1) quiet_text [OF assms(4)] by (auto intro!: header_length simp: room_def source_fits_def ID_def)
  show ?thesis
  proof (cases "IRCD_BUFSIZE - max (NICKLEN (cfg w)) IDLEN - 2 - 5 - 1 \<le> length ?ub")
    case True then show ?thesis using h by (auto simp: sjoin_members_def Let_def intro: thinned_logged)
  next
    case False
    have "bufs_ok ?r" using h quiet_upd [OF assms(4)] by (simp add: bufs_ok_def)
    then obtain r where r: "sjoin_nicks net e (space_words nicks) ?r = Some r" "bufs_ok r" "kept w (sj_world r)"
      using sjoin_nicks_total [of e ?r net "space_words nicks"] assms(1) by auto
    have t: "thinned w (sj_world r)" using thinned_nicks [OF r(1)] by simp
    obtain w' where "sjoin_finish net e nicks isnew keep_our r = Some w'" "\<not> isnew \<longrightarrow> thinned (sj_world r) w'"
      using sjoin_finish_total [OF r(2) thinned_masks [OF t assms(2)]] fits_kept(3) [OF r(3)] assms(3) by blast
    then show ?thesis using False h r(1) t thinned_trans by (auto simp: sjoin_members_def Let_def)
  qed
qed

lemma sjoin_channel_total:
  assumes "clients_fit w" "source_fits s ch w" "link_fits l ch w" "masks_fit ch w" "members_fit ch w" "mode_fits (ch_mode (chans w ch))"
    "mode_fits m0" "quiet (old_modebuf net)"
  shows "\<exists>w'. sjoin_channel net l s pv m0 args isnew ch w = Some w' \<and> (\<not> isnew \<longrightarrow> thinned w w')"
proof -
  let ?old = "ch_mode (chans w ch)" and ?oldts = "ch_channelts (chans w ch)" and ?nicks = "pv ! (4 + args)"
  define newts where "newts = (if ignore_bogus_ts net \<and> atol (pv ! 1) < 800000000 then (if ?oldts = 0 then 0 else 800000000) else atol (pv ! 1))"
  define w1 where "w1 = (if ignore_bogus_ts net \<and> atol (pv ! 1) < 800000000
    then send (To_ops ''Bogus TS'' [ulong_text (atol (pv ! 1)), ch_name (chans w ch), cl_name (clients w l)]) w else w)"
  obtain ts tosend keep_our keep_new where t: "sjoin_ts isnew newts ?oldts = (ts, tosend, keep_our, keep_new)"
    by (cases "sjoin_ts isnew newts ?oldts")
  define m where "m = (if \<not> keep_new then ?old else if keep_our then merge_modes m0 ?old else m0)"
  have m: "mode_fits m" "mode_fits ?old" using assms(6,7) merge_modes_fits by (auto simp: m_def)
  obtain mb pb where f: "set_final_mode m ?old = Some (mb, pb)" "length mb \<le> 42" "length pb \<le> 188" using set_final_mode_total [OF m] by blast
  define w2 where "w2 = upd_chan ch (\<lambda>x. x\<lparr>ch_channelts := ts, ch_mode := m\<rparr>) w1"
  have l1: "logged w w1" by (simp add: w1_def)
  note L1 = loggedD [OF l1]
  have "id_list ty (x\<lparr>ch_channelts := ts, ch_mode := m\<rparr>) = id_list ty x" for ty x by (cases ty) (simp_all add: id_list_def)
  then have t2: "thinned w w2" unfolding w2_def using thinned_trans [OF thinned_logged [OF l1] thinned_upd_chan] by simp
  have fit2: "clients_fit w2" "source_fits s ch w2" "link_fits l ch w2" "ch_mode (chans w2 ch) = m"
    using assms(1-3) by (simp_all add: w2_def L1 clients_fit_def source_fits_def link_fits_def)
  have "members_fit ch w2" using assms(5) by (simp add: members_fit_def w2_def L1)
  then obtain w3 where w3: "(if \<not> keep_our then remove_our_modes net ch s w2 else Some w2) = Some w3"
    using remove_our_modes_total [of ch w2 net s] by (cases keep_our) auto
  have s3: "stripped ch w2 w3" using w3 remove_our_modes_stripped stripped_refl by (cases keep_our) auto
  define w4 where "w4 = (if mb \<noteq> [] then send (To_channel 0 ch ('':'' @ cl_name (clients w3 (me w3)) @ '' MODE '' @ ch_name (chans w3 ch) @ '' '' @ mb @ '' '' @ pb)) w3 else w3)"
  have l4: "logged w3 w4" by (simp add: w4_def)
  have k4: "kept w2 w4" "thinned w w4"
    using s3 loggedD(1) [OF l4] kept_trans thinned_trans [OF t2 thinned_trans [OF thinned_chans thinned_logged [OF l4]]] by (auto simp: stripped_def)
  obtain mb1 pb1 where c: "(if rd (pv ! 3) 0 \<noteq> CHR ''0'' \<and> keep_new then channel_modes ch s w4 else (''0'', pb)) = (mb1, pb1)"
    by fastforce
  have "mode_fits (ch_mode (chans w4 ch))" using k4(1) fit2(4) m(1) by (simp add: kept_def)
  from length_channel_modes [OF this, of s] c f(3) have len: "length mb1 \<le> 42" "length pb1 \<le> 188" by (auto split: if_splits)
  define e where "e = \<lparr>se_link = l, se_source = s, se_chan = ch, se_keep_new = keep_new, se_tosend = tosend,
           se_parabuf = pb1, se_flood_ctrl = length (space_words ?nicks) < 2\<rparr>"
  have "room e w4" using fits_kept(1,2) [OF k4(1)] fit2 len by (simp add: room_def e_def)
  moreover have "masks_fit ch w4" using thinned_masks [OF k4(2)] assms(4) by simp
  moreover have "link_fits l ch w4" using fits_kept(3) [OF k4(1)] fit2(3) by simp
  ultimately obtain w' where w': "sjoin_members net e ?nicks isnew keep_our (write_text mb1 (write_text mb (old_modebuf net))) w4 = Some w'"
    "\<not> isnew \<longrightarrow> thinned w4 w'"
    using sjoin_members_total [of e w4 "write_text mb1 (write_text mb (old_modebuf net))" net ?nicks isnew keep_our]
      quiet_write [OF quiet_write [OF assms(8) f(2)] len(1)] by (auto simp: e_def)
  have "sjoin_channel net l s pv m0 args isnew ch w = Some w'"
    unfolding sjoin_channel_def Let_def newts_def [symmetric] t prod.case w1_def [symmetric] m_def [symmetric] f(1) bind.bind_lunit
      w2_def [symmetric] w3 w4_def [symmetric] c e_def [symmetric] by (rule w'(1))
  then show ?thesis using w'(2) k4(2) thinned_trans by blast
qed


lemma lookup_channel_name:
  assumes "lookup_channel name w = Some ch" "cstr name" "cstr (ch_name (chans w ch))"
  shows "length (ch_name (chans w ch)) = length name"
proof -
  have "irccmp name (ch_name (chans w ch)) = 0" using assms(1) by (auto simp: lookup_channel_def find_Some_iff)
  then show ?thesis using irccmp_iff [OF assms(2,3)] fold_case_length by metis
qed

lemma ms_sjoin_total:
  assumes "clients_fit w" "quiet (old_modebuf net)" "linked w" "cstr (pv ! 2)"
    "length (cl_name (clients w s)) + length (pv ! 2) \<le> 200" "length (cl_id (clients w s)) + length (pv ! 2) \<le> 200"
    "length (cl_name (clients w l)) + length (pv ! 2) \<le> 185"
    "\<forall>ch. lookup_channel (pv ! 2) w = Some ch \<longrightarrow> channel_fits ch w \<and> cstr (ch_name (chans w ch))"
  shows "\<exists>w'. ms_sjoin net l s pv w = Some w' \<and> (lookup_channel (pv ! 2) w \<noteq> None \<longrightarrow> thinned w w')"
proof (cases "sjoin_claim net s pv w")
  case None
  then have "\<exists>w'. ms_sjoin net l s pv w = Some w' \<and> logged w w'" by (auto simp: ms_sjoin_def sjoin_claim_def split: if_splits option.splits)
  then show ?thesis using thinned_logged by blast
next
  case (Some c)
  then obtain m0 args where c: "\<not> IsClient (clients w s)" "\<not> length pv < 5" "rd (pv ! 2) 0 = CHR ''#''" "check_channel_name (pv ! 2) False (cfg w)"
      "sjoin_modes pv (pv ! 3) (no_mode, 0) = Some (m0, args)"
    by (auto simp: sjoin_claim_def split: if_splits)
  have nm: "mode_fits no_mode" by (simp add: mode_fits_def no_mode_def)
  then have m0: "mode_fits m0" using sjoin_modes_fits [OF c(5)] by blast
  show ?thesis
  proof (cases "lookup_channel (pv ! 2) w")
    case (Some ch)
    with assms(8) have f: "channel_fits ch w" "cstr (ch_name (chans w ch))" by auto
    have "length (ch_name (chans w ch)) = length (pv ! 2)" by (rule lookup_channel_name [OF Some assms(4) f(2)])
    then have "source_fits s ch w" "link_fits l ch w" using assms(5-7) by (simp_all add: source_fits_def link_fits_def)
    moreover have "members_fit ch w" using members_fitI [of w ch] assms(3) f(1) unfolding channel_fits_def linked_def by blast
    ultimately show ?thesis
      using sjoin_channel_total [OF assms(1) _ _ _ _ _ m0 assms(2), of s ch l pv args False] f(1) c Some
      by (simp add: ms_sjoin_def channel_fits_def)
  next
    case None
    let ?ch = "new_channel net w"
    let ?w = "make_channel ?ch (pv ! 2) w"
    have n: "length (ch_name (chans ?w ?ch)) \<le> length (pv ! 2)" by (simp add: make_channel_def fit_def)
    have "clients_fit ?w" using assms(1) by (simp add: clients_fit_def make_channel_def)
    moreover have "source_fits s ?ch ?w" "link_fits l ?ch ?w"
      using n assms(5-7) by (simp_all add: source_fits_def link_fits_def make_channel_def)
    moreover have "masks_fit ?ch ?w" "members_fit ?ch ?w" "mode_fits (ch_mode (chans ?w ?ch))"
      using nm by (simp_all add: masks_fit_def members_fit_def make_channel_def id_list_def split: id_type.splits)
    ultimately show ?thesis
      using sjoin_channel_total [OF _ _ _ _ _ _ m0 assms(2), of ?w s ?ch l pv args True] c None
      by (auto simp: ms_sjoin_def Let_def)
  qed
qed

subsection \<open>And so does a sequence of lines\<close>

definition line_fits :: "world \<Rightarrow> sjoin_line \<Rightarrow> bool" where
  "line_fits w x = (case x of (l, s, pv) \<Rightarrow> cstr (pv ! 2) \<and> length (cl_name (clients w s)) + length (pv ! 2) \<le> 200 \<and>
     length (cl_id (clients w s)) + length (pv ! 2) \<le> 200 \<and> length (cl_name (clients w l)) + length (pv ! 2) \<le> 185)"

text \<open>A server on which lines for a channel can be heard.\<close>

definition ready :: "network \<Rightarrow> chid \<Rightarrow> world \<Rightarrow> bool" where
  "ready net ch w \<longleftrightarrow> clients_fit w \<and> quiet (old_modebuf net) \<and> linked w \<and> fresh_members net \<and> channel_fits ch w \<and>
     cstr (ch_name (chans w ch)) \<and> 0 < ch_channelts (chans w ch)"

lemma line_fits_steady:
  assumes "steady ch w w'"
  shows "line_fits w' x = line_fits w x"
proof -
  obtain tm where k: "kept (with_ts_modes ch tm w) w'" using assms by (auto simp: steady_def)
  show ?thesis using kept_client(1,2) [OF k] by (simp add: line_fits_def with_ts_modes_def)
qed

lemma mode_fits_settle: "mode_fits (snd a) \<Longrightarrow> mode_fits (snd b) \<Longrightarrow> mode_fits (snd (settle a b))"
  by (simp add: settle_def merge_modes_fits split: prod.splits)

lemma claim_mode_fits: "sjoin_claim net s pv w = Some (t, m, args) \<Longrightarrow> mode_fits m"
  using sjoin_modes_fits [of pv "pv ! 3" no_mode 0] by (auto simp: sjoin_claim_def mode_fits_def no_mode_def split: if_splits)

lemma ready_step:
  assumes "ready net ch w" "lookup_channel (pv ! 2) w = Some ch" "line_fits w (l, s, pv)"
    "\<forall>c. claim_of net w (l, s, pv) = Some c \<longrightarrow> 0 < fst c"
  shows "\<exists>w1. ms_sjoin net l s pv w = Some w1 \<and> ready net ch w1 \<and> steady ch w w1"
proof -
  note r = assms(1) [unfolded ready_def]
  obtain w1 where w1: "ms_sjoin net l s pv w = Some w1" "thinned w w1"
    using ms_sjoin_total [of w net pv s l] r assms(2,3) by (auto simp: line_fits_def)
  have "ch_channelts (chans w ch) \<noteq> 0" using r by simp
  from ms_sjoin_result [OF w1(1) assms(2) this] r
  have res: "case sjoin_claim net s pv w of
      None \<Rightarrow> logged w w1
    | Some (newts, m0, args) \<Rightarrow> kept (with_ts_modes ch (settle (newts, m0) (ts_modes w ch)) w) w1 \<and>
        sjoin_outcome net l s (pv ! (4 + args)) ch newts w w1" by simp
  have "ready net ch w1 \<and> steady ch w w1"
  proof (cases "sjoin_claim net s pv w")
    case None
    with res have lg: "logged w w1" by simp
    note L = loggedD [OF lg]
    have "channel_fits ch w1" using r thinned_masks [OF w1(2)] by (auto simp: channel_fits_def L is_member_def)
    then show ?thesis using r L steady_logged [OF lg] linked_logged [OF lg] fits_kept(1) [OF L(1)] by (simp add: ready_def)
  next
    case (Some c)
    then obtain t m args where c: "sjoin_claim net s pv w = Some (t, m, args)" by (cases c) auto
    let ?tm = "settle (t, m) (ts_modes w ch)"
    from res c have k: "kept (with_ts_modes ch ?tm w) w1" and o: "sjoin_outcome net l s (pv ! (4 + args)) ch t w w1" by simp_all
    have st: "steady ch w w1" using k unfolding steady_def by blast
    note C = kept_client [OF k]
    have cl: "clients (with_ts_modes ch ?tm w) = clients w" "cfg (with_ts_modes ch ?tm w) = cfg w" by (simp_all add: with_ts_modes_def)
    have fit: "clients_fit w1" using fits_kept(1) [OF k] r by (simp add: clients_fit_def cl)
    have links: "linked w1" using o by (simp add: sjoin_outcome_def)
    have member: "is_member w1 c ch \<Longrightarrow> is_member w c ch \<or> IsClient (clients w c)" for c
      using o by (auto simp: sjoin_outcome_def wanted_def split: option.splits if_splits)
    have short: "length (cl_name (clients w c)) \<le> 30" if "is_member w c ch \<or> IsClient (clients w c)" for c
      using that r by (auto simp: clients_fit_def channel_fits_def dest!: spec [of _ c])
    have "\<forall>c. is_member w1 c ch \<longrightarrow> length (cl_name (clients w1 c)) \<le> 30"
      using short [OF member] C(1) unfolding cl by simp
    moreover have "ch_mode (chans w1 ch) = snd ?tm" "ch_channelts (chans w1 ch) = fst ?tm" "ch_name (chans w1 ch) = ch_name (chans w ch)"
      using k by (simp_all add: kept_def with_ts_modes_def)
    moreover have "mode_fits (snd ?tm)"
      using claim_mode_fits [OF c] r by (intro mode_fits_settle) (simp_all add: ts_modes_def channel_fits_def)
    moreover have "0 < fst ?tm"
      using settle_swap(2) [of "(t, m)" "(t, m)" "ts_modes w ch"] assms(4) c r by (simp add: claim_of_def ts_modes_def)
    ultimately show ?thesis using r fit links st thinned_masks [OF w1(2)] by (simp add: ready_def channel_fits_def)
  qed
  with w1(1) show ?thesis by blast
qed

lemma sjoin_lines_total:
  assumes "ready net ch w" "\<forall>x\<in>set xs. line_fits w x \<and> (\<forall>c. claim_of net w x = Some c \<longrightarrow> 0 < fst c)"
    "\<forall>(l, s, pv)\<in>set xs. lookup_channel (pv ! 2) w = Some ch"
  shows "\<exists>w'. sjoin_lines net xs w = Some w'"
  using assms
proof (induction xs arbitrary: w)
  case (Cons x xs)
  obtain l s pv where x: "x = (l, s, pv)" by (cases x)
  obtain w1 where w1: "ms_sjoin net l s pv w = Some w1" "ready net ch w1" "steady ch w w1"
    using ready_step [OF Cons.prems(1), of pv l s] Cons.prems(2,3) x by auto
  have "\<exists>w'. sjoin_lines net xs w1 = Some w'"
    using Cons.prems(2,3) by (intro Cons.IH [OF w1(2)]) (auto simp: line_fits_steady [OF w1(3)] steadyD [OF w1(3)])
  then show ?case using w1(1) x by auto
qed simp


subsection \<open>What SJOIN promises\<close>

lemma ready_result:
  assumes "ready net ch w" "lookup_channel (pv ! 2) w = Some ch" "line_fits w (l, s, pv)" "sjoin_claim net s pv w = Some (newts, m, args)"
  shows "\<exists>w'. ms_sjoin net l s pv w = Some w' \<and> kept (with_ts_modes ch (settle (newts, m) (ts_modes w ch)) w) w' \<and>
    sjoin_outcome net l s (pv ! (4 + args)) ch newts w w' \<and> roomy net s ch w"
proof -
  note r = assms(1) [unfolded ready_def]
  obtain w' where w': "ms_sjoin net l s pv w = Some w'"
    using ms_sjoin_total [of w net pv s l] r assms(2,3) by (auto simp: line_fits_def)
  have "length (ch_name (chans w ch)) = length (pv ! 2)"
    using r assms(3) by (intro lookup_channel_name [OF assms(2)]) (simp_all add: line_fits_def)
  then have "roomy net s ch w"
    using r assms(3) by (simp add: roomy_def line_fits_def source_fits_def channel_fits_def clients_fit_def)
  then show ?thesis using ms_sjoin_result [OF w' assms(2)] r w' assms(4) by auto
qed

lemma settle_cases:
  assumes "settle (t, m) (u, n) = (v, k)" "0 < t" "0 < u"
  shows "v = min t u" "k = (if t < u then m else if u < t then n else merge_modes m n)"
  using assms by (auto simp: settle_alt split: if_splits)




text \<open>
  C22: The handler of SJOIN writes within its buffers and returns.  For any line at all: the sender's and the
  channel's name together have at most 200 characters, the link's and the channel's at most 185 (beyond that
  the list removal overruns), clients have names of the usual length, and the channel, if there is one, has
  masks, members and modes of the usual sizes.
\<close>

theorem sjoin_returns:
  assumes "clients_fit w" "quiet (old_modebuf net)" "linked w" "line_fits w (l, s, pv)"
    "\<forall>ch. lookup_channel (pv ! 2) w = Some ch \<longrightarrow> channel_fits ch w \<and> cstr (ch_name (chans w ch))"
  shows "ms_sjoin net l s pv w \<noteq> None"
  using ms_sjoin_total [of w net pv s l] assms by (auto simp: line_fits_def)

text \<open>Beyond these sizes the removal of the masks overruns \<open>lmodebuf\<close>: channel names may have 200 characters.\<close>

lemma remove_ban_list_overruns:
  "191 \<le> length (cl_name (clients w l)) + length (ch_name (chans w ch)) \<Longrightarrow> remove_ban_list ch l t c cap w = None"
  by (simp add: remove_ban_list_def Let_def)

text \<open>A server behind whose link a client has taken the channel of \<open>duel\<close> over.\<close>

definition linked_duel :: world where
  "linked_duel = duel\<lparr>clients := (clients duel)
      (8 := a_client\<lparr>cl_name := ''hub.example'', cl_id := ''1AA'', cl_status := STAT_SERVER\<rparr>, 9 := a_client\<lparr>cl_name := ''carol''\<rparr>),
     client_names := [2, 9], channel_names := [1]\<rparr>"

definition a_network :: network where
  "a_network = \<lparr>from_link = (\<lambda>c. if c = 9 then 8 else c), serv_list = [8], hidden_server = (\<lambda>_. False), ignore_bogus_ts = False,
     new_member = (\<lambda>w. Suc (Max (insert 0 (dom (mships w))))), new_channel = (\<lambda>w. 2), lazy_leaf = (\<lambda>_ _. False), lazy_known = [],
     old_modebuf = replicate 200 NUL\<rparr>"

lemma a_network_fresh: "fresh_members a_network"
proof -
  have "mships w (Suc (Max (insert 0 (dom (mships w))))) = None" if "finite (dom (mships w))" for w :: world
  proof (rule ccontr)
    assume "mships w (Suc (Max (insert 0 (dom (mships w))))) \<noteq> None"
    then have "Suc (Max (insert 0 (dom (mships w)))) \<in> insert 0 (dom (mships w))" by auto
    then have "Suc (Max (insert 0 (dom (mships w)))) \<le> Max (insert 0 (dom (mships w)))" using that by (intro Max_ge) auto
    then show False by simp
  qed
  then show ?thesis by (simp add: fresh_members_def a_network_def)
qed

lemma linked_duel_ready: "ready a_network 1 linked_duel"
proof -
  have "links_ok linked_duel"
    unfolding links_ok_def linked_duel_def duel_def by (auto simp: a_channel_def a_client_def split: if_splits)
  moreover have "finite (dom (mships linked_duel))" by (simp add: linked_duel_def duel_def)
  moreover have "clients_fit linked_duel"
    by (auto simp: clients_fit_def linked_duel_def duel_def a_client_def a_world_def a_config_def)
  moreover have "channel_fits 1 linked_duel"
    by (auto simp: channel_fits_def masks_fit_def mode_fits_def linked_duel_def duel_def a_channel_def a_mode_def id_list_def a_client_def
      split: id_type.splits)
  moreover have "quiet (old_modebuf a_network)" by (simp add: quiet_def a_network_def)
  ultimately show ?thesis
    using a_network_fresh by (simp add: ready_def linked_def) (simp add: linked_duel_def duel_def a_channel_def)
qed

abbreviation hub_line :: "string \<Rightarrow> string \<Rightarrow> string \<Rightarrow> sjoin_line" where
  "hub_line ts ms nicks \<equiv> (8, 8, [''1AA'', ts, ''#isabelle'', ms, nicks])"

lemma hub_lines:
  "line_fits linked_duel (hub_line ts ms nicks)" "lookup_channel ''#isabelle'' linked_duel = Some 1"
proof -
  have "irccmp ''#isabelle'' ''#isabelle'' = 0" by (rule irccmp_refl) simp
  then show "lookup_channel ''#isabelle'' linked_duel = Some 1"
    by (simp add: lookup_channel_def linked_duel_def duel_def a_channel_def)
qed (simp add: line_fits_def linked_duel_def a_client_def)

lemma isabelle_name: "check_channel_name ''#isabelle'' False a_config"
  by (simp add: check_channel_name_def rd_def IsChanPrefix_iff IsChanChar_iff)

lemma hub_claims:
  "sjoin_claim a_network 8 [''1AA'', ''900'', ''#isabelle'', ''+nt'', ''@carol''] linked_duel =
    Some (900, no_mode\<lparr>md_mode := MODE_NOPRIVMSGS OR MODE_TOPICLIMIT\<rparr>, 0)"
  "sjoin_claim a_network 8 [''1AA'', ''950'', ''#isabelle'', ''+i'', ''carol''] linked_duel =
    Some (950, no_mode\<lparr>md_mode := MODE_INVITEONLY\<rparr>, 0)"
proof -
  have c: "\<not> IsClient (clients linked_duel 8)" "cfg linked_duel = a_config" "\<not> ignore_bogus_ts a_network"
    by (simp_all add: linked_duel_def duel_def a_client_def a_world_def IsClient_def a_network_def)
  have t: "atol ''900'' = 900" "atol ''950'' = 950" by code_simp+
  have f: "sjoin_flag CHR ''+'' = 0" "sjoin_flag CHR ''n'' = MODE_NOPRIVMSGS" "sjoin_flag CHR ''t'' = MODE_TOPICLIMIT"
    "sjoin_flag CHR ''i'' = MODE_INVITEONLY" by (simp_all add: sjoin_flag_def sjoin_letters_def)
  show "sjoin_claim a_network 8 [''1AA'', ''900'', ''#isabelle'', ''+nt'', ''@carol''] linked_duel =
    Some (900, no_mode\<lparr>md_mode := MODE_NOPRIVMSGS OR MODE_TOPICLIMIT\<rparr>, 0)"
    using c t f isabelle_name by (simp add: sjoin_claim_def Let_def rd_def no_mode_def)
  show "sjoin_claim a_network 8 [''1AA'', ''950'', ''#isabelle'', ''+i'', ''carol''] linked_duel =
    Some (950, no_mode\<lparr>md_mode := MODE_INVITEONLY\<rparr>, 0)"
    using c t f isabelle_name by (simp add: sjoin_claim_def Let_def rd_def no_mode_def)
qed

lemma linked_duel_here: "ch_channelts (chans linked_duel 1) = 1000" "ch_members (chans linked_duel 1) = [20, 10]" "mships linked_duel 10 \<noteq> None"
  by (simp_all add: linked_duel_def duel_def a_channel_def)




theorem sjoin_returns_witness:
  "ms_sjoin a_network 8 8 [''1AA'', ''900'', ''#isabelle'', ''+nt'', ''@carol @bob nobody''] linked_duel \<noteq> None"
  using sjoin_returns [of linked_duel a_network 8 8 "[''1AA'', ''900'', ''#isabelle'', ''+nt'', ''@carol @bob nobody'']"]
    linked_duel_ready hub_lines by (simp add: ready_def)

end
