(* ===== verification/Whowas.thy ===== *)
theory Whowas
  imports Hash_Tables Channel_Mode
begin

section \<open>The history of nicknames\<close>

text \<open>
  src/whowas.c: the ring of the last \<^verbatim>\<open>NICKNAMEHISTORYLENGTH\<close> uses of a nickname.  Each slot hangs in two doubly
  linked lists at once, the chain of its hash value and the list of the client that still has it; the pointers are
  fields of the slot, a slot is named by its index in \<^verbatim>\<open>WHOWAS\<close>.
\<close>

subsection \<open>The structures\<close>

record whowas =
  hashv :: int
  logoff :: int
  ww_name :: string
  ww_username :: string
  ww_hostname :: string
  ww_realhost :: string
  ww_realname :: string
  ww_servername :: string
  online :: "cid option"
  ww_next :: "nat option"
  ww_prev :: "nat option"
  cnext :: "nat option"
  cprev :: "nat option"

text \<open>\<open>cl_whowas\<close> is the field of \<^verbatim>\<open>struct Client\<close>; \<open>hist_len\<close> is \<^verbatim>\<open>NICKNAMEHISTORYLENGTH\<close>, settled when the server is built.\<close>

record histories =
  WHOWAS :: "nat \<Rightarrow> whowas"
  WHOWASHASH :: "nat \<Rightarrow> nat option"
  whowas_next :: nat
  cl_whowas :: "cid \<Rightarrow> nat option"
  hist_len :: nat
  hist_key :: "32 word"

definition upd_who :: "nat \<Rightarrow> (whowas \<Rightarrow> whowas) \<Rightarrow> histories \<Rightarrow> histories" where
  "upd_who i f H = H\<lparr>WHOWAS := (WHOWAS H)(i := f (WHOWAS H i))\<rparr>"

subsection \<open>The two kinds of lists\<close>

definition add_whowas_to_clist :: "cid \<Rightarrow> nat \<Rightarrow> histories \<Rightarrow> histories" where
  "add_whowas_to_clist c i H =
    (let H1 = upd_who i (\<lambda>x. x\<lparr>cprev := None, cnext := cl_whowas H c\<rparr>) H;
         H2 = (case cl_whowas H c of None \<Rightarrow> H1 | Some n \<Rightarrow> upd_who n (\<lambda>x. x\<lparr>cprev := Some i\<rparr>) H1) in
     H2\<lparr>cl_whowas := (cl_whowas H2)(c := Some i)\<rparr>)"

definition del_whowas_from_clist :: "cid \<Rightarrow> nat \<Rightarrow> histories \<Rightarrow> histories" where
  "del_whowas_from_clist c i H =
    (let H1 = (case cprev (WHOWAS H i) of
                 Some p \<Rightarrow> upd_who p (\<lambda>x. x\<lparr>cnext := cnext (WHOWAS H i)\<rparr>) H
               | None \<Rightarrow> H\<lparr>cl_whowas := (cl_whowas H)(c := cnext (WHOWAS H i))\<rparr>) in
     case cnext (WHOWAS H1 i) of
       Some n \<Rightarrow> upd_who n (\<lambda>x. x\<lparr>cprev := cprev (WHOWAS H1 i)\<rparr>) H1
     | None \<Rightarrow> H1)"

definition add_whowas_to_list :: "nat \<Rightarrow> nat \<Rightarrow> histories \<Rightarrow> histories" where
  "add_whowas_to_list b i H =
    (let H1 = upd_who i (\<lambda>x. x\<lparr>ww_prev := None, ww_next := WHOWASHASH H b\<rparr>) H;
         H2 = (case WHOWASHASH H b of None \<Rightarrow> H1 | Some n \<Rightarrow> upd_who n (\<lambda>x. x\<lparr>ww_prev := Some i\<rparr>) H1) in
     H2\<lparr>WHOWASHASH := (WHOWASHASH H2)(b := Some i)\<rparr>)"

definition del_whowas_from_list :: "nat \<Rightarrow> nat \<Rightarrow> histories \<Rightarrow> histories" where
  "del_whowas_from_list b i H =
    (let H1 = (case ww_prev (WHOWAS H i) of
                 Some p \<Rightarrow> upd_who p (\<lambda>x. x\<lparr>ww_next := ww_next (WHOWAS H i)\<rparr>) H
               | None \<Rightarrow> H\<lparr>WHOWASHASH := (WHOWASHASH H)(b := ww_next (WHOWAS H i))\<rparr>) in
     case ww_next (WHOWAS H1 i) of
       Some n \<Rightarrow> upd_who n (\<lambda>x. x\<lparr>ww_prev := ww_prev (WHOWAS H1 i)\<rparr>) H1
     | None \<Rightarrow> H1)"

subsection \<open>The operations\<close>

definition empty_whowas :: whowas where
  "empty_whowas = \<lparr>hashv = -1, logoff = 0, ww_name = [], ww_username = [], ww_hostname = [], ww_realhost = [], ww_realname = [],
     ww_servername = [], online = None, ww_next = None, ww_prev = None, cnext = None, cprev = None\<rparr>"

definition init_whowas :: "histories \<Rightarrow> histories" where
  "init_whowas H = H\<lparr>WHOWAS := (\<lambda>i. if i < hist_len H then empty_whowas else WHOWAS H i),
     WHOWASHASH := (\<lambda>b. if b < HASHSIZE then None else WHOWASHASH H b)\<rparr>"

text \<open>What \<open>add_history\<close> writes into the slot, the pointers apart; \<open>info\<close> is the real name of a client.\<close>

definition fill_whowas :: "world \<Rightarrow> (cid \<Rightarrow> string) \<Rightarrow> cid \<Rightarrow> bool \<Rightarrow> 32 word \<Rightarrow> whowas \<Rightarrow> whowas" where
  "fill_whowas w info c on key x =
    (let p = clients w c in
     x\<lparr>hashv := int (strhash key (cl_name p)), logoff := CurrentTime w, ww_name := take (NICKLEN (cfg w) - 1) (cl_name p),
       ww_username := cl_username p, ww_hostname := cl_host p, ww_realhost := (if cl_oper p then cl_host p else cl_realhost p),
       ww_realname := info c, ww_servername := take HOSTLEN (cl_name (clients w (cl_servptr p))),
       online := (if on then Some c else None)\<rparr>)"

definition add_history :: "world \<Rightarrow> (cid \<Rightarrow> string) \<Rightarrow> cid \<Rightarrow> bool \<Rightarrow> histories \<Rightarrow> histories" where
  "add_history w info c on H =
    (let i = whowas_next H; who = WHOWAS H i;
         H1 = (if hashv who \<noteq> -1 then
                 (let G = (case online who of Some d \<Rightarrow> del_whowas_from_clist d i H | None \<Rightarrow> H) in
                  del_whowas_from_list (nat (hashv (WHOWAS G i))) i G)
               else H);
         H2 = upd_who i (fill_whowas w info c on (hist_key H1)) H1;
         H3 = (if on then add_whowas_to_clist c i H2 else H2);
         H4 = add_whowas_to_list (nat (hashv (WHOWAS H3 i))) i H3;
         k = whowas_next H4 + 1 in
     H4\<lparr>whowas_next := (if k = hist_len H4 then 0 else k)\<rparr>)"

partial_function (option) off_loop :: "cid \<Rightarrow> nat option \<Rightarrow> histories \<Rightarrow> histories option" where
  "off_loop c t H =
    (case t of None \<Rightarrow> Some H
     | Some i \<Rightarrow> off_loop c (cnext (WHOWAS H i)) (del_whowas_from_clist c i (upd_who i (\<lambda>x. x\<lparr>online := None\<rparr>) H)))"

definition off_history :: "cid \<Rightarrow> histories \<Rightarrow> histories option" where
  "off_history c H = off_loop c (cl_whowas H c) H"

partial_function (option) get_loop :: "string \<Rightarrow> int \<Rightarrow> nat option \<Rightarrow> histories \<Rightarrow> cid option option" where
  "get_loop nick since t H =
    (case t of None \<Rightarrow> Some None
     | Some i \<Rightarrow>
         (if irccmp nick (ww_name (WHOWAS H i)) \<noteq> 0 \<or> logoff (WHOWAS H i) < since then get_loop nick since (ww_next (WHOWAS H i)) H
          else Some (online (WHOWAS H i))))"

definition get_history :: "world \<Rightarrow> string \<Rightarrow> int \<Rightarrow> histories \<Rightarrow> cid option option" where
  "get_history w nick timelimit H = get_loop nick (CurrentTime w - timelimit) (WHOWASHASH H (strhash (hist_key H) nick)) H"

text \<open>The number of slots in use; the memory is \<^verbatim>\<open>sizeof(struct Whowas)\<close> times it.\<close>

definition count_whowas_memory :: "histories \<Rightarrow> nat" where
  "count_whowas_memory H = length (filter (\<lambda>i. hashv (WHOWAS H i) \<noteq> -1) [0..<hist_len H])"

subsection \<open>Doubly linked chains\<close>

definition first_of :: "nat list \<Rightarrow> nat option" where
  "first_of xs = (case xs of [] \<Rightarrow> None | x # _ \<Rightarrow> Some x)"

lemma first_of_simps [simp]: "first_of [] = None" "first_of (x # xs) = Some x"
  by (simp_all add: first_of_def)

lemma first_of_None [simp]: "first_of xs = None \<longleftrightarrow> xs = []"
  by (cases xs) auto

fun chained :: "(nat \<Rightarrow> nat option) \<Rightarrow> (nat \<Rightarrow> nat option) \<Rightarrow> nat option \<Rightarrow> nat list \<Rightarrow> bool" where
  "chained nx pv p [] = True"
| "chained nx pv p (x # xs) = (pv x = p \<and> nx x = first_of xs \<and> chained nx pv (Some x) xs)"

lemma chained_cong: "(\<And>x. x \<in> set xs \<Longrightarrow> nx' x = nx x \<and> pv' x = pv x) \<Longrightarrow> chained nx' pv' p xs = chained nx pv p xs"
  by (induction xs arbitrary: p) auto

lemma chained_append:
  "chained nx pv p (as @ i # bs) \<longleftrightarrow>
     pv i = (if as = [] then p else Some (last as)) \<and> nx i = first_of bs \<and> chained nx pv (Some i) bs \<and>
     chained (nx(last as := None)) pv p as \<and> (as \<noteq> [] \<longrightarrow> nx (last as) = Some i)"
  if "distinct (as @ i # bs)"
  using that
proof (induction as arbitrary: p)
  case (Cons a as)
  show ?case
  proof (cases as)
    case Nil then show ?thesis using Cons.prems by auto
  next
    case (Cons b cs)
    then have ne: "as \<noteq> []" by simp
    have "a \<noteq> last as" using Cons.prems ne last_in_set by fastforce
    then show ?thesis using Cons.IH [of "Some a"] Cons.prems ne by (auto simp: Cons)
  qed
qed auto

text \<open>A family of lists that share no element.\<close>

definition family :: "(nat \<Rightarrow> nat option) \<Rightarrow> (nat \<Rightarrow> nat option) \<Rightarrow> ('b \<Rightarrow> nat option) \<Rightarrow> ('b \<Rightarrow> nat list) \<Rightarrow> bool" where
  "family nx pv h f \<longleftrightarrow> (\<forall>b. h b = first_of (f b) \<and> distinct (f b) \<and> chained nx pv None (f b)) \<and>
     (\<forall>b c. b \<noteq> c \<longrightarrow> set (f b) \<inter> set (f c) = {})"

lemma familyD:
  assumes "family nx pv h f"
  shows "h b = first_of (f b)" "distinct (f b)" "chained nx pv None (f b)" "b \<noteq> c \<Longrightarrow> x \<in> set (f b) \<Longrightarrow> x \<notin> set (f c)"
  using assms unfolding family_def by blast+

lemma family_add:
  assumes "family nx pv h f" "\<And>c. i \<notin> set (f c)"
  shows "family (nx(i := h b)) (case h b of None \<Rightarrow> pv(i := None) | Some n \<Rightarrow> pv(i := None, n := Some i)) (h(b := Some i)) (f(b := i # f b))"
proof -
  note F = familyD [OF assms(1)]
  let ?pv = "case h b of None \<Rightarrow> pv(i := None) | Some n \<Rightarrow> pv(i := None, n := Some i)"
  have pv: "?pv x = pv x" if "x \<noteq> i" "x \<notin> set (f b)" for x
    using that F(1) [of b] by (cases "f b") auto
  have b: "chained (nx(i := h b)) ?pv None (i # f b)"
  proof (cases "f b")
    case Nil then show ?thesis using F(1) [of b] by simp
  next
    case (Cons y ys)
    have "chained (nx(i := h b)) ?pv (Some y) ys = chained nx pv (Some y) ys"
      using F(1,2) [of b] assms(2) [of b] Cons by (intro chained_cong) auto
    then show ?thesis using F(1,3) [of b] assms(2) [of b] Cons by auto
  qed
  have others: "chained (nx(i := h b)) ?pv None (f c)" if "c \<noteq> b" for c
  proof -
    have "chained (nx(i := h b)) ?pv None (f c) = chained nx pv None (f c)"
      using pv F(4) [OF that] assms(2) [of c] by (intro chained_cong) auto
    then show ?thesis using F(3) by simp
  qed
  show ?thesis
    unfolding family_def using F(1,2,4) assms(2) b others by auto
qed

text \<open>Taking \<open>i\<close> out writes the \<open>next\<close> of the one before, the \<open>prev\<close> of the one behind.\<close>

lemma family_del:
  assumes "family nx pv h f" "i \<in> set (f b)"
    "nx' = (case pv i of None \<Rightarrow> nx | Some p \<Rightarrow> nx(p := nx i))" "h' = (case pv i of None \<Rightarrow> h(b := nx i) | Some p \<Rightarrow> h)"
    "pv' = (case nx' i of None \<Rightarrow> pv | Some n \<Rightarrow> pv(n := pv i))"
  shows "family nx' pv' h' (f(b := remove1 i (f b)))"
proof -
  note F = familyD [OF assms(1)]
  obtain as bs where f: "f b = as @ i # bs" using assms(2) by (meson split_list)
  have d: "distinct (as @ i # bs)" using F(2) [of b] f by simp
  note C = F(3) [of b, unfolded f chained_append [OF d]]
  have r: "remove1 i (f b) = as @ bs" using d by (simp add: f remove1_append)
  have pvi: "pv i = (if as = [] then None else Some (last as))" and nxi: "nx i = first_of bs" using C by auto
  have ni: "nx' i = nx i" using assms(3) pvi d by (cases "as = []") auto
  have nx': "nx' = (if as = [] then nx else nx(last as := first_of bs))" using assms(3) pvi nxi by simp
  have pv': "pv' = (case bs of [] \<Rightarrow> pv | n # _ \<Rightarrow> pv(n := pv i))"
    using assms(5) ni nxi by (cases bs) auto
  have la: "as \<noteq> [] \<Longrightarrow> last as \<in> set as" by simp
  have lb: "as \<noteq> [] \<Longrightarrow> last as \<notin> set bs"
    using d by (metis disjoint_iff distinct_append last_in_set list.set_intros(2))
  have behind: "chained nx' pv' (pv i) bs"
  proof (cases bs)
    case (Cons n ns)
    have "chained nx' pv' (Some n) ns = chained nx pv (Some n) ns"
      using d lb Cons by (intro chained_cong) (auto simp: nx' pv')
    then show ?thesis using C d lb Cons by (auto simp: nx' pv')
  qed simp
  have whole: "chained nx' pv' None (as @ bs)"
  proof (cases as rule: rev_cases)
    case Nil then show ?thesis using behind pvi by simp
  next
    case (snoc as' a)
    have d': "distinct (as' @ a # bs)" using d snoc by simp
    have "chained (nx(a := None)) pv None (as' @ [a])" using C snoc by simp
    then have A: "pv a = (if as' = [] then None else Some (last as'))" "chained (nx(a := None, last as' := None)) pv None as'"
      "as' \<noteq> [] \<longrightarrow> nx (last as') = Some a"
      using chained_append [of as' a "[]" "nx(a := None)" pv None] d' by (auto split: if_splits)
    have ch: "chained (nx'(last as' := None)) pv' None as' = chained (nx(a := None, last as' := None)) pv None as'"
      using d' snoc by (intro chained_cong) (cases bs; auto simp: nx' pv')
    have "pv' a = pv a" using d' by (cases bs) (auto simp: pv')
    moreover have "as' \<noteq> [] \<Longrightarrow> last as' \<noteq> a" using d' last_in_set by fastforce
    ultimately have "chained nx' pv' None (as' @ a # bs)"
      using A ch behind pvi snoc unfolding chained_append [OF d'] by (simp add: nx')
    then show ?thesis using snoc by simp
  qed
  have others: "chained nx' pv' None (f c)" if "c \<noteq> b" for c
  proof -
    have "chained nx' pv' None (f c) = chained nx pv None (f c)"
    proof (rule chained_cong)
      fix x assume "x \<in> set (f c)"
      then have "x \<notin> set (f b)" using F(4) [OF that] by blast
      then have "x \<notin> set bs" "as \<noteq> [] \<Longrightarrow> x \<noteq> last as" using f by auto
      then show "nx' x = nx x \<and> pv' x = pv x" by (cases "as = []"; cases bs) (simp_all add: nx' pv')
    qed
    then show ?thesis using F(3) by simp
  qed
  have hb: "h' b = first_of (as @ bs)" using assms(4) pvi nxi F(1) [of b] f by (cases as) auto
  have ho: "c \<noteq> b \<Longrightarrow> h' c = h c" for c using assms(4) pvi by (cases "as = []") auto
  let ?g = "f(b := as @ bs)"
  have sub: "set (?g c) \<subseteq> set (f c)" for c using f by auto
  have "set (?g c) \<inter> set (?g e) = {}" if "c \<noteq> e" for c e using F(4) [OF that] sub by blast
  moreover have "h' c = first_of (?g c) \<and> distinct (?g c) \<and> chained nx' pv' None (?g c)" for c
    using whole others [of c] hb ho [of c] d F(1,2) [of c] by (cases "c = b") auto
  ultimately show ?thesis unfolding family_def r by blast
qed

text \<open>
  The two kinds of lists are the same code over different fields: what the additions and deletions write, in terms
  of the field that leads on, the one that leads back and the heads.
\<close>

locale intrusive =
  fixes nx pv :: "'s \<Rightarrow> nat \<Rightarrow> nat option" and heads :: "'s \<Rightarrow> 'b \<Rightarrow> nat option" and valid :: "'b \<Rightarrow> bool"
    and ins del :: "'b \<Rightarrow> nat \<Rightarrow> 's \<Rightarrow> 's"
  assumes ins_nx: "valid b \<Longrightarrow> nx (ins b i s) = (nx s)(i := heads s b)"
    and ins_pv: "valid b \<Longrightarrow> pv (ins b i s) = (case heads s b of None \<Rightarrow> (pv s)(i := None) | Some n \<Rightarrow> (pv s)(i := None, n := Some i))"
    and ins_heads: "valid b \<Longrightarrow> heads (ins b i s) = (heads s)(b := Some i)"
    and del_nx: "valid b \<Longrightarrow> nx (del b i s) = (case pv s i of None \<Rightarrow> nx s | Some p \<Rightarrow> (nx s)(p := nx s i))"
    and del_pv: "valid b \<Longrightarrow> pv (del b i s) = (case nx (del b i s) i of None \<Rightarrow> pv s | Some n \<Rightarrow> (pv s)(n := pv s i))"
    and del_heads: "valid b \<Longrightarrow> heads (del b i s) = (case pv s i of None \<Rightarrow> (heads s)(b := nx s i) | Some p \<Rightarrow> heads s)"
begin

lemma ins_family:
  "valid b \<Longrightarrow> family (nx s) (pv s) (heads s) f \<Longrightarrow> (\<And>c. i \<notin> set (f c)) \<Longrightarrow>
    family (nx (ins b i s)) (pv (ins b i s)) (heads (ins b i s)) (f(b := i # f b))"
  unfolding ins_nx ins_pv ins_heads by (rule family_add)

lemma del_family:
  "valid b \<Longrightarrow> family (nx s) (pv s) (heads s) f \<Longrightarrow> i \<in> set (f b) \<Longrightarrow>
    family (nx (del b i s)) (pv (del b i s)) (heads (del b i s)) (f(b := remove1 i (f b)))"
  by (rule family_del) (simp_all add: del_nx del_pv del_heads)

end

definition hash_heads :: "histories \<Rightarrow> nat \<Rightarrow> nat option" where
  "hash_heads H b = (if b < HASHSIZE then WHOWASHASH H b else None)"

interpretation clist: intrusive "\<lambda>H i. cnext (WHOWAS H i)" "\<lambda>H i. cprev (WHOWAS H i)" cl_whowas "\<lambda>_. True"
    add_whowas_to_clist del_whowas_from_clist
  by unfold_locales
    (auto simp: add_whowas_to_clist_def del_whowas_from_clist_def upd_who_def Let_def fun_eq_iff split: option.splits)

interpretation hlist: intrusive "\<lambda>H i. ww_next (WHOWAS H i)" "\<lambda>H i. ww_prev (WHOWAS H i)" hash_heads "\<lambda>b. b < HASHSIZE"
    add_whowas_to_list del_whowas_from_list
  by unfold_locales
    (auto simp: add_whowas_to_list_def del_whowas_from_list_def upd_who_def hash_heads_def Let_def fun_eq_iff split: option.splits)

text \<open>A slot without its pointers.\<close>

definition core :: "whowas \<Rightarrow> whowas" where
  "core x = x\<lparr>ww_next := None, ww_prev := None, cnext := None, cprev := None\<rparr>"

lemma core_fields:
  "core x = core y \<Longrightarrow> hashv x = hashv y" "core x = core y \<Longrightarrow> online x = online y" "core x = core y \<Longrightarrow> ww_name x = ww_name y"
  "core x = core y \<Longrightarrow> logoff x = logoff y"
  by (cases x; cases y; simp add: core_def)+

lemma list_frames:
  "core (WHOWAS (add_whowas_to_clist c i H) j) = core (WHOWAS H j)" "core (WHOWAS (del_whowas_from_clist c i H) j) = core (WHOWAS H j)"
  "core (WHOWAS (add_whowas_to_list b i H) j) = core (WHOWAS H j)" "core (WHOWAS (del_whowas_from_list b i H) j) = core (WHOWAS H j)"
  "whowas_next (add_whowas_to_clist c i H) = whowas_next H" "whowas_next (del_whowas_from_clist c i H) = whowas_next H"
  "whowas_next (add_whowas_to_list b i H) = whowas_next H" "whowas_next (del_whowas_from_list b i H) = whowas_next H"
  "hist_len (add_whowas_to_clist c i H) = hist_len H" "hist_len (del_whowas_from_clist c i H) = hist_len H"
  "hist_len (add_whowas_to_list b i H) = hist_len H" "hist_len (del_whowas_from_list b i H) = hist_len H"
  "hist_key (add_whowas_to_clist c i H) = hist_key H" "hist_key (del_whowas_from_clist c i H) = hist_key H"
  "hist_key (add_whowas_to_list b i H) = hist_key H" "hist_key (del_whowas_from_list b i H) = hist_key H"
  by (auto simp: core_def add_whowas_to_clist_def del_whowas_from_clist_def add_whowas_to_list_def del_whowas_from_list_def
    upd_who_def Let_def split: option.splits)

text \<open>Each kind of operation leaves the other kind of list alone.\<close>

lemma list_others:
  "(\<lambda>j. ww_next (WHOWAS (add_whowas_to_clist c i H) j)) = (\<lambda>j. ww_next (WHOWAS H j))"
  "(\<lambda>j. ww_prev (WHOWAS (add_whowas_to_clist c i H) j)) = (\<lambda>j. ww_prev (WHOWAS H j))"
  "hash_heads (add_whowas_to_clist c i H) = hash_heads H"
  "(\<lambda>j. ww_next (WHOWAS (del_whowas_from_clist c i H) j)) = (\<lambda>j. ww_next (WHOWAS H j))"
  "(\<lambda>j. ww_prev (WHOWAS (del_whowas_from_clist c i H) j)) = (\<lambda>j. ww_prev (WHOWAS H j))"
  "hash_heads (del_whowas_from_clist c i H) = hash_heads H"
  "(\<lambda>j. cnext (WHOWAS (add_whowas_to_list b i H) j)) = (\<lambda>j. cnext (WHOWAS H j))"
  "(\<lambda>j. cprev (WHOWAS (add_whowas_to_list b i H) j)) = (\<lambda>j. cprev (WHOWAS H j))"
  "cl_whowas (add_whowas_to_list b i H) = cl_whowas H"
  "(\<lambda>j. cnext (WHOWAS (del_whowas_from_list b i H) j)) = (\<lambda>j. cnext (WHOWAS H j))"
  "(\<lambda>j. cprev (WHOWAS (del_whowas_from_list b i H) j)) = (\<lambda>j. cprev (WHOWAS H j))"
  "cl_whowas (del_whowas_from_list b i H) = cl_whowas H"
  by (auto simp: add_whowas_to_clist_def del_whowas_from_clist_def add_whowas_to_list_def del_whowas_from_list_def
    hash_heads_def upd_who_def Let_def fun_eq_iff split: option.splits)

subsection \<open>The ring as a list\<close>

text \<open>The slots in use, the latest first.\<close>

definition slots :: "histories \<Rightarrow> nat list" where
  "slots H = (let n = whowas_next H in
     rev [0..<n] @ (if hashv (WHOWAS H n) \<noteq> -1 then rev [n..<hist_len H] else []))"

definition hash_family :: "nat list \<Rightarrow> histories \<Rightarrow> bool" where
  "hash_family L H \<longleftrightarrow> family (\<lambda>i. ww_next (WHOWAS H i)) (\<lambda>i. ww_prev (WHOWAS H i)) (hash_heads H)
     (\<lambda>b. filter (\<lambda>i. hashv (WHOWAS H i) = int b) L)"

definition client_family :: "nat list \<Rightarrow> histories \<Rightarrow> bool" where
  "client_family L H \<longleftrightarrow> family (\<lambda>i. cnext (WHOWAS H i)) (\<lambda>i. cprev (WHOWAS H i)) (cl_whowas H)
     (\<lambda>c. filter (\<lambda>i. online (WHOWAS H i) = Some c) L)"

definition hist_ok :: "histories \<Rightarrow> bool" where
  "hist_ok H \<longleftrightarrow> whowas_next H < hist_len H \<and> (\<forall>i<hist_len H. hashv (WHOWAS H i) \<noteq> -1 \<longleftrightarrow> i \<in> set (slots H)) \<and>
     (\<forall>i\<in>set (slots H). hashv (WHOWAS H i) = int (strhash (hist_key H) (ww_name (WHOWAS H i))) \<and> cstr (ww_name (WHOWAS H i))) \<and>
     hash_family (slots H) H \<and> client_family (slots H) H"

text \<open>The history: its entries, the latest first.\<close>

definition history_of :: "histories \<Rightarrow> whowas list" where
  "history_of H = map (\<lambda>i. core (WHOWAS H i)) (slots H)"

definition new_entry :: "world \<Rightarrow> (cid \<Rightarrow> string) \<Rightarrow> cid \<Rightarrow> bool \<Rightarrow> 32 word \<Rightarrow> whowas" where
  "new_entry w info c on key = core (fill_whowas w info c on key empty_whowas)"

lemma family_cong:
  "nx = nx' \<Longrightarrow> pv = pv' \<Longrightarrow> h = h' \<Longrightarrow> f = f' \<Longrightarrow> family nx pv h f = family nx' pv' h' f'"
  by simp

lemma filter_core:
  assumes "\<And>j. j \<in> set L \<Longrightarrow> core (WHOWAS H' j) = core (WHOWAS H j)"
  shows "filter (\<lambda>i. hashv (WHOWAS H' i) = v) L = filter (\<lambda>i. hashv (WHOWAS H i) = v) L"
    "filter (\<lambda>i. online (WHOWAS H' i) = u) L = filter (\<lambda>i. online (WHOWAS H i) = u) L"
  using core_fields(1,2) [OF assms] by (auto intro!: filter_cong)

lemma hash_family_clist:
  "hash_family L (add_whowas_to_clist c i H) = hash_family L H" "hash_family L (del_whowas_from_clist c i H) = hash_family L H"
  unfolding hash_family_def list_others by (simp_all add: filter_core(1) [OF list_frames(1)] filter_core(1) [OF list_frames(2)])

lemma client_family_list:
  "client_family L (add_whowas_to_list b i H) = client_family L H" "client_family L (del_whowas_from_list b i H) = client_family L H"
  unfolding client_family_def list_others by (simp_all add: filter_core(2) [OF list_frames(3)] filter_core(2) [OF list_frames(4)])

lemma ins_hash_family:
  assumes "hash_family L H" "i \<notin> set L" "hashv (WHOWAS H i) = int b" "b < HASHSIZE"
  shows "hash_family (i # L) (add_whowas_to_list b i H)"
proof -
  have "i \<notin> set (filter (\<lambda>i. hashv (WHOWAS H i) = int c) L)" for c using assms(2) by simp
  note F = hlist.ins_family [OF assms(4) assms(1) [unfolded hash_family_def], of i, OF this]
  have "(\<lambda>b. filter (\<lambda>i. hashv (WHOWAS H i) = int b) L)(b := i # filter (\<lambda>i. hashv (WHOWAS H i) = int b) L) =
      (\<lambda>c. filter (\<lambda>j. hashv (WHOWAS (add_whowas_to_list b i H) j) = int c) (i # L))"
    using assms(3) by (auto simp: fun_eq_iff filter_core(1) [OF list_frames(3)] core_fields(1) [OF list_frames(3)])
  with F show ?thesis unfolding hash_family_def by simp
qed

lemma ins_client_family:
  assumes "client_family L H" "i \<notin> set L" "online (WHOWAS H i) = Some c"
  shows "client_family (i # L) (add_whowas_to_clist c i H)"
proof -
  have "i \<notin> set (filter (\<lambda>i. online (WHOWAS H i) = Some d) L)" for d using assms(2) by simp
  note F = clist.ins_family [OF TrueI assms(1) [unfolded client_family_def], of i, OF this]
  have "(\<lambda>c. filter (\<lambda>i. online (WHOWAS H i) = Some c) L)(c := i # filter (\<lambda>i. online (WHOWAS H i) = Some c) L) =
      (\<lambda>d. filter (\<lambda>j. online (WHOWAS (add_whowas_to_clist c i H) j) = Some d) (i # L))"
    using assms(3) by (auto simp: fun_eq_iff filter_core(2) [OF list_frames(1)] core_fields(2) [OF list_frames(1)])
  with F [of c] show ?thesis unfolding client_family_def by simp
qed

lemma remove_filter: "i \<in> set L \<Longrightarrow> distinct L \<Longrightarrow> remove1 i (filter P L) = filter P (remove1 i L)"
  by (induction L) (auto simp: filter_id_conv remove1_idem)

lemma del_hash_family:
  assumes "hash_family L H" "i \<in> set L" "distinct L" "hashv (WHOWAS H i) = int b" "b < HASHSIZE"
  shows "hash_family (remove1 i L) (del_whowas_from_list b i H)"
proof -
  have "i \<in> set (filter (\<lambda>i. hashv (WHOWAS H i) = int b) L)" using assms(2,4) by simp
  note F = hlist.del_family [OF assms(5) assms(1) [unfolded hash_family_def], of i, OF this]
  have "(\<lambda>b. filter (\<lambda>i. hashv (WHOWAS H i) = int b) L)(b := remove1 i (filter (\<lambda>i. hashv (WHOWAS H i) = int b) L)) =
      (\<lambda>c. filter (\<lambda>j. hashv (WHOWAS (del_whowas_from_list b i H) j) = int c) (remove1 i L))"
  proof (rule ext)
    fix c
    have "c \<noteq> b \<Longrightarrow> remove1 i (filter (\<lambda>i. hashv (WHOWAS H i) = int c) L) = filter (\<lambda>i. hashv (WHOWAS H i) = int c) L"
      using assms(4) by (intro remove1_idem) auto
    then show "((\<lambda>b. filter (\<lambda>i. hashv (WHOWAS H i) = int b) L)(b := remove1 i (filter (\<lambda>i. hashv (WHOWAS H i) = int b) L))) c =
      filter (\<lambda>j. hashv (WHOWAS (del_whowas_from_list b i H) j) = int c) (remove1 i L)"
      using remove_filter [OF assms(2,3)] by (auto simp: filter_core(1) [OF list_frames(4)])
  qed
  with F show ?thesis unfolding hash_family_def by simp
qed

lemma del_client_family:
  assumes "client_family L H" "i \<in> set L" "distinct L" "online (WHOWAS H i) = Some c"
  shows "client_family (remove1 i L) (del_whowas_from_clist c i H)"
proof -
  have "i \<in> set (filter (\<lambda>i. online (WHOWAS H i) = Some c) L)" using assms(2,4) by simp
  note F = clist.del_family [OF TrueI assms(1) [unfolded client_family_def], of i, OF this]
  have "(\<lambda>c. filter (\<lambda>i. online (WHOWAS H i) = Some c) L)(c := remove1 i (filter (\<lambda>i. online (WHOWAS H i) = Some c) L)) =
      (\<lambda>d. filter (\<lambda>j. online (WHOWAS (del_whowas_from_clist c i H) j) = Some d) (remove1 i L))"
  proof (rule ext)
    fix d
    have "d \<noteq> c \<Longrightarrow> remove1 i (filter (\<lambda>i. online (WHOWAS H i) = Some d) L) = filter (\<lambda>i. online (WHOWAS H i) = Some d) L"
      using assms(4) by (intro remove1_idem) auto
    then show "((\<lambda>c. filter (\<lambda>i. online (WHOWAS H i) = Some c) L)(c := remove1 i (filter (\<lambda>i. online (WHOWAS H i) = Some c) L))) d =
      filter (\<lambda>j. online (WHOWAS (del_whowas_from_clist c i H) j) = Some d) (remove1 i L)"
      using remove_filter [OF assms(2,3)] by (auto simp: filter_core(2) [OF list_frames(2)])
  qed
  with F show ?thesis unfolding client_family_def by simp
qed

subsection \<open>The operations on the list\<close>

lemma distinct_slots: "whowas_next H < hist_len H \<Longrightarrow> distinct (slots H)"
  by (auto simp: slots_def Let_def)

text \<open>The slot that is used next: free, or the oldest one.\<close>

lemma slots_next:
  assumes "whowas_next H < hist_len H"
  defines "n \<equiv> whowas_next H"
  defines "L \<equiv> rev [0..<n] @ (if hashv (WHOWAS H n) \<noteq> -1 then rev [Suc n..<hist_len H] else [])"
  shows "slots H = (if hashv (WHOWAS H n) \<noteq> -1 then L @ [n] else L)" "distinct L" "n \<notin> set L"
    "length L < hist_len H" "hashv (WHOWAS H n) \<noteq> -1 \<longrightarrow> length (slots H) = hist_len H"
proof -
  have "[n..<hist_len H] = n # [Suc n..<hist_len H]" using assms(1) unfolding n_def by (rule upt_conv_Cons)
  then show "slots H = (if hashv (WHOWAS H n) \<noteq> -1 then L @ [n] else L)"
    by (simp add: slots_def L_def n_def Let_def)
qed (use assms(1) in \<open>auto simp: L_def n_def slots_def Let_def\<close>)

lemma slots_length: "whowas_next H < hist_len H \<Longrightarrow> length (slots H) \<le> hist_len H"
  by (auto simp: slots_def Let_def)

lemma hist_len_not_free: "hashv x = int b \<Longrightarrow> hashv x \<noteq> -1"
  by simp

text \<open>Writing a slot that hangs in no list.\<close>

lemma upd_who_family:
  assumes "i \<notin> set L" "\<And>x. ww_next (f x) = ww_next x \<and> ww_prev (f x) = ww_prev x \<and> cnext (f x) = cnext x \<and> cprev (f x) = cprev x"
  shows "hash_family L (upd_who i f H) = hash_family L H" "client_family L (upd_who i f H) = client_family L H"
proof -
  have p: "(\<lambda>j. ww_next (WHOWAS (upd_who i f H) j)) = (\<lambda>j. ww_next (WHOWAS H j))" "(\<lambda>j. ww_prev (WHOWAS (upd_who i f H) j)) = (\<lambda>j. ww_prev (WHOWAS H j))"
    "(\<lambda>j. cnext (WHOWAS (upd_who i f H) j)) = (\<lambda>j. cnext (WHOWAS H j))" "(\<lambda>j. cprev (WHOWAS (upd_who i f H) j)) = (\<lambda>j. cprev (WHOWAS H j))"
    "hash_heads (upd_who i f H) = hash_heads H" "cl_whowas (upd_who i f H) = cl_whowas H"
    using assms(2) by (auto simp: upd_who_def hash_heads_def fun_eq_iff)
  have c: "j \<in> set L \<Longrightarrow> core (WHOWAS (upd_who i f H) j) = core (WHOWAS H j)" for j using assms(1) by (auto simp: upd_who_def)
  show "hash_family L (upd_who i f H) = hash_family L H" "client_family L (upd_who i f H) = client_family L H"
    unfolding hash_family_def client_family_def p by (simp_all add: filter_core(1) [OF c] filter_core(2) [OF c])
qed

lemma fill_frame:
  "ww_next (fill_whowas w info c on key x) = ww_next x \<and> ww_prev (fill_whowas w info c on key x) = ww_prev x \<and>
    cnext (fill_whowas w info c on key x) = cnext x \<and> cprev (fill_whowas w info c on key x) = cprev x"
  "core (fill_whowas w info c on key x) = new_entry w info c on key"
  "hashv (fill_whowas w info c on key x) = int (strhash key (cl_name (clients w c)))"
  "online (fill_whowas w info c on key x) = (if on then Some c else None)"
  "ww_name (fill_whowas w info c on key x) = take (NICKLEN (cfg w) - 1) (cl_name (clients w c))"
  by (simp_all add: fill_whowas_def Let_def new_entry_def core_def empty_whowas_def)

lemma upd_who_frame [simp]:
  "WHOWAS (upd_who i f H) = (WHOWAS H)(i := f (WHOWAS H i))" "WHOWASHASH (upd_who i f H) = WHOWASHASH H" "cl_whowas (upd_who i f H) = cl_whowas H"
  "whowas_next (upd_who i f H) = whowas_next H" "hist_len (upd_who i f H) = hist_len H" "hist_key (upd_who i f H) = hist_key H"
  by (simp_all add: upd_who_def)

text \<open>The slot is taken out of its lists first.\<close>

lemma free_slot:
  assumes "hist_ok H"
  defines "i \<equiv> whowas_next H"
  defines "G \<equiv> (case online (WHOWAS H i) of Some d \<Rightarrow> del_whowas_from_clist d i H | None \<Rightarrow> H)"
  defines "H1 \<equiv> (if hashv (WHOWAS H i) \<noteq> -1 then del_whowas_from_list (nat (hashv (WHOWAS G i))) i G else H)"
  defines "L \<equiv> rev [0..<i] @ (if hashv (WHOWAS H i) \<noteq> -1 then rev [Suc i..<hist_len H] else [])"
  shows "hash_family L H1" "client_family L H1" "core (WHOWAS H1 j) = core (WHOWAS H j)"
    "whowas_next H1 = whowas_next H" "hist_len H1 = hist_len H" "hist_key H1 = hist_key H"
proof -
  have i: "i < hist_len H" using assms(1) by (simp add: hist_ok_def i_def)
  note S = slots_next [OF i [unfolded i_def], folded i_def, folded L_def]
  have fam: "hash_family (slots H) H" "client_family (slots H) H" using assms(1) by (simp_all add: hist_ok_def)
  have G: "core (WHOWAS G j) = core (WHOWAS H j)" "whowas_next G = whowas_next H" "hist_len G = hist_len H" "hist_key G = hist_key H"
      "hash_family X G = hash_family X H" for j X
    by (simp_all add: G_def list_frames hash_family_clist split: option.split)
  show "core (WHOWAS H1 j) = core (WHOWAS H j)" "whowas_next H1 = whowas_next H" "hist_len H1 = hist_len H" "hist_key H1 = hist_key H"
    by (simp_all add: H1_def list_frames G)
  have "hash_family L H1 \<and> client_family L H1"
  proof (cases "hashv (WHOWAS H i) \<noteq> -1")
    case False then show ?thesis using fam S(1) by (simp add: H1_def)
  next
    case True
    then have sl: "slots H = L @ [i]" using S(1) by simp
    then have mem: "i \<in> set (slots H)" "distinct (slots H)" "remove1 i (slots H) = L" using S(2,3) by (simp_all add: remove1_append)
    define b where "b = strhash (hist_key H) (ww_name (WHOWAS H i))"
    have b: "hashv (WHOWAS H i) = int b" "b < HASHSIZE" using assms(1) mem(1) by (simp_all add: hist_ok_def b_def strhash_less)
    have gb: "hashv (WHOWAS G i) = int b" using core_fields(1) [OF G(1)] b(1) by simp
    then have H1: "H1 = del_whowas_from_list b i G" using True by (simp add: H1_def)
    have "hash_family L H1"
      using del_hash_family [of "slots H" G i b] G(5) fam(1) mem gb b(2) unfolding H1 by simp
    moreover have "client_family L G"
    proof (cases "online (WHOWAS H i)")
      case None
      have "client_family (slots H) H = client_family L H"
        unfolding client_family_def sl using None by simp
      then show ?thesis using fam(2) None by (simp add: G_def)
    next
      case (Some d)
      then show ?thesis using del_client_family [OF fam(2) mem(1,2) Some] mem(3) by (simp add: G_def)
    qed
    then have "client_family L H1" by (simp add: H1 client_family_list)
    ultimately show ?thesis by simp
  qed
  then show "hash_family L H1" "client_family L H1" by simp_all
qed

lemma length_slots_next: "whowas_next H < hist_len H \<Longrightarrow> hashv (WHOWAS H (whowas_next H)) \<noteq> -1 \<Longrightarrow> length (slots H) = hist_len H"
  by (simp add: slots_def Let_def)

lemma add_history_refines:
  assumes "hist_ok H" "cstr (cl_name (clients w c))" "length (cl_name (clients w c)) < NICKLEN (cfg w)"
  shows "hist_ok (add_history w info c on H) \<and>
    history_of (add_history w info c on H) = take (hist_len H) (new_entry w info c on (hist_key H) # history_of H) \<and>
    hist_len (add_history w info c on H) = hist_len H \<and> hist_key (add_history w info c on H) = hist_key H"
proof -
  define i where "i = whowas_next H"
  define N where "N = hist_len H"
  have i: "i < N" using assms(1) by (simp add: hist_ok_def i_def N_def)
  define G where "G = (case online (WHOWAS H i) of Some d \<Rightarrow> del_whowas_from_clist d i H | None \<Rightarrow> H)"
  define H1 where "H1 = (if hashv (WHOWAS H i) \<noteq> -1 then del_whowas_from_list (nat (hashv (WHOWAS G i))) i G else H)"
  define L where "L = rev [0..<i] @ (if hashv (WHOWAS H i) \<noteq> -1 then rev [Suc i..<N] else [])"
  note F1 = free_slot [OF assms(1), folded i_def, folded G_def, folded H1_def N_def, folded L_def]
  note S = slots_next [OF i [unfolded i_def N_def], folded i_def N_def, folded L_def]
  define H2 where "H2 = upd_who i (fill_whowas w info c on (hist_key H1)) H1"
  let ?e = "new_entry w info c on (hist_key H)"
  define b where "b = strhash (hist_key H) (cl_name (clients w c))"
  have bl: "b < HASHSIZE" by (simp add: b_def strhash_less)
  have F2: "hash_family L H2" "client_family L H2" using F1(1,2) upd_who_family [OF S(3) fill_frame(1)] by (simp_all add: H2_def)
  have W2: "core (WHOWAS H2 i) = ?e" "hashv (WHOWAS H2 i) = int b" "online (WHOWAS H2 i) = (if on then Some c else None)"
      "j \<noteq> i \<Longrightarrow> core (WHOWAS H2 j) = core (WHOWAS H j)" for j
    using F1(3) F1(6) by (simp_all add: H2_def fill_frame b_def)
  define H3 where "H3 = (if on then add_whowas_to_clist c i H2 else H2)"
  have F3: "hash_family L H3" "client_family (i # L) H3"
  proof -
    have "client_family (i # L) H2 = client_family L H2" if "\<not> on" using W2(3) that by (simp add: client_family_def)
    then show "client_family (i # L) H3" using ins_client_family [OF F2(2) S(3), of c] W2(3) F2(2) by (simp add: H3_def)
  qed (simp add: H3_def hash_family_clist F2)
  have C3: "core (WHOWAS H3 j) = core (WHOWAS H2 j)" for j by (simp add: H3_def list_frames)
  have h3: "hashv (WHOWAS H3 i) = int b" using core_fields(1) [OF C3] W2(2) by simp
  define H4 where "H4 = add_whowas_to_list b i H3"
  have F4: "hash_family (i # L) H4" "client_family (i # L) H4"
    using ins_hash_family [OF F3(1) S(3) h3 bl] F3(2) by (simp_all add: H4_def client_family_list)
  have C4: "core (WHOWAS H4 i) = ?e" "j \<noteq> i \<Longrightarrow> core (WHOWAS H4 j) = core (WHOWAS H j)" for j
    using C3 W2(1,4) by (simp_all add: H4_def list_frames)
  have N4: "whowas_next H4 = i" "hist_len H4 = N" "hist_key H4 = hist_key H"
    using F1(4-6) by (simp_all add: H4_def H3_def H2_def list_frames i_def N_def)
  define k where "k = (if i + 1 = N then 0 else i + 1)"
  define R where "R = H4\<lparr>whowas_next := k\<rparr>"
  have add: "add_history w info c on H = R"
    unfolding add_history_def Let_def i_def [symmetric] G_def [symmetric] H1_def [symmetric] H2_def [symmetric] H3_def [symmetric]
      h3 nat_int H4_def [symmetric] N4(1,2) R_def k_def ..
  have used: "hashv (WHOWAS H j) \<noteq> -1 \<longleftrightarrow> j \<in> set (slots H)" if "j < N" for j
    using assms(1) that by (simp add: hist_ok_def N_def)
  have hv: "hashv (WHOWAS H4 j) = (if j = i then int b else hashv (WHOWAS H j))" for j
    using core_fields(1) [OF C4(2)] h3 core_fields(1) [OF list_frames(3), of b i H3] by (simp add: H4_def)
  have slR: "slots R = i # L"
  proof (cases "i + 1 = N")
    case True
    have z: "hashv (WHOWAS H4 0) \<noteq> -1"
    proof (cases "i = 0")
      case False
      then have "0 \<in> set (slots H)" by (auto simp: slots_def i_def [symmetric] Let_def)
      then show ?thesis using used [of 0] i False by (simp add: hv)
    qed (simp add: hv)
    have "rev [0..<N] = i # rev [0..<i]" using True by auto
    then show ?thesis using True z N4 by (simp add: slots_def R_def k_def L_def)
  next
    case False
    then have sk: "Suc i < N" using i by simp
    have "hashv (WHOWAS H (Suc i)) \<noteq> -1 \<longleftrightarrow> hashv (WHOWAS H i) \<noteq> -1"
      using used [OF sk] S(1) sk by (auto simp: L_def)
    then have "(hashv (WHOWAS H4 (Suc i)) \<noteq> -1) = (hashv (WHOWAS H i) \<noteq> -1)" by (simp add: hv)
    then show ?thesis using False sk N4 by (simp add: slots_def R_def k_def L_def Let_def)
  qed
  have hist: "history_of R = take N (?e # history_of H)"
  proof -
    have "j \<in> set L \<Longrightarrow> core (WHOWAS R j) = core (WHOWAS H j)" for j
      using C4(2) [of j] S(3) by (cases "j = i") (simp_all add: R_def)
    then have "map (\<lambda>j. core (WHOWAS R j)) L = map (\<lambda>j. core (WHOWAS H j)) L" by simp
    then have "history_of R = ?e # map (\<lambda>j. core (WHOWAS H j)) L" using C4(1) by (simp add: history_of_def slR) (simp add: R_def)
    moreover have "take N (?e # history_of H) = ?e # map (\<lambda>j. core (WHOWAS H j)) L"
    proof (cases "hashv (WHOWAS H i) \<noteq> -1")
      case True
      then have "length L = N - 1" using S(1,5) by simp
      then show ?thesis using S(1) True i by (cases N) (auto simp: history_of_def)
    next
      case False
      then show ?thesis using S(1,4) by (cases N) (auto simp: history_of_def)
    qed
    ultimately show ?thesis by simp
  qed
  have nm: "ww_name (WHOWAS H4 i) = cl_name (clients w c)"
    using core_fields(3) [OF C4(1) [unfolded new_entry_def]] assms(3) by (simp add: fill_frame)
  have L: "set L \<subseteq> set (slots H)" "\<And>j. j \<in> set (slots H) \<longleftrightarrow> j \<in> set L \<or> (j = i \<and> hashv (WHOWAS H i) \<noteq> -1)"
    using S(1) by (auto split: if_splits)
  have nm': "j \<noteq> i \<Longrightarrow> ww_name (WHOWAS H4 j) = ww_name (WHOWAS H j)" for j using core_fields(3) [OF C4(2)] by simp
  have "hist_ok R"
    unfolding hist_ok_def slR
  proof (intro conjI allI impI ballI)
    show "whowas_next R < hist_len R" using i N4 by (auto simp: R_def k_def)
  next
    fix j assume "j < hist_len R"
    then have j: "j < N" using N4 by (simp add: R_def)
    show "hashv (WHOWAS R j) \<noteq> -1 \<longleftrightarrow> j \<in> set (i # L)" using used [OF j] L(2) [of j] by (auto simp: R_def hv)
  next
    fix j assume j: "j \<in> set (i # L)"
    have old: "hashv (WHOWAS H j) = int (strhash (hist_key H) (ww_name (WHOWAS H j))) \<and> cstr (ww_name (WHOWAS H j))" if "j \<noteq> i"
      using assms(1) j that L(1) unfolding hist_ok_def by auto
    show "hashv (WHOWAS R j) = int (strhash (hist_key R) (ww_name (WHOWAS R j)))"
      using old nm nm' by (cases "j = i") (simp_all add: R_def hv b_def N4(3))
    show "cstr (ww_name (WHOWAS R j))" using old nm nm' assms(2) by (cases "j = i") (simp_all add: R_def)
  next
    have "hash_heads R = hash_heads H4" by (rule ext) (simp add: hash_heads_def R_def)
    then show "hash_family (i # L) R" using F4(1) by (simp add: R_def hash_family_def)
    show "client_family (i # L) R" using F4(2) by (simp add: R_def client_family_def)
  qed
  then show ?thesis using hist add N4 by (simp add: R_def N_def)
qed

text \<open>The list of a client is emptied, and none of its slots points to it any more.\<close>

definition forget :: "cid \<Rightarrow> whowas \<Rightarrow> whowas" where
  "forget c x = (if online x = Some c then x\<lparr>online := None\<rparr> else x)"

lemma core_forget: "core x = core y \<Longrightarrow> core (forget c x) = core (forget c y)"
  by (cases x; cases y; simp add: core_def forget_def)

lemma off_loop_empties:
  assumes "client_family L H" "hash_family L H" "distinct L" "filter (\<lambda>i. online (WHOWAS H i) = Some c) L = xs"
  shows "\<exists>H'. off_loop c (first_of xs) H = Some H' \<and> client_family L H' \<and> hash_family L H' \<and>
    (\<forall>j. core (WHOWAS H' j) = core (if j \<in> set xs then forget c (WHOWAS H j) else WHOWAS H j)) \<and>
    whowas_next H' = whowas_next H \<and> hist_len H' = hist_len H \<and> hist_key H' = hist_key H"
  using assms(1,2,4)
proof (induction xs arbitrary: H)
  case Nil then show ?case by (simp add: off_loop.simps)
next
  case (Cons i xs)
  note F = familyD [OF Cons.prems(1) [unfolded client_family_def]]
  have i: "i \<in> set L" "online (WHOWAS H i) = Some c"
  proof -
    have "i \<in> set (filter (\<lambda>i. online (WHOWAS H i) = Some c) L)" using Cons.prems(3) by simp
    then show "i \<in> set L" "online (WHOWAS H i) = Some c" by simp_all
  qed
  have nx: "cnext (WHOWAS H i) = first_of xs" using F(3) [of c] Cons.prems(3) by simp
  let ?G = "upd_who i (\<lambda>x. x\<lparr>online := None\<rparr>) H"
  let ?H = "del_whowas_from_clist c i ?G"
  have core: "core (WHOWAS ?H j) = core (if j = i then forget c (WHOWAS H i) else WHOWAS H j)" for j
    using i(2) by (simp add: list_frames forget_def)
  have on: "online (WHOWAS ?H j) = (if j = i then None else online (WHOWAS H j))" for j
    using core_fields(2) [OF core, of j] i(2) by (simp add: forget_def)
  have hv: "hashv (WHOWAS ?H j) = hashv (WHOWAS H j)" for j
    using core_fields(1) [OF core, of j] by (simp add: forget_def split: if_splits)
  have rest: "filter (\<lambda>j. online (WHOWAS ?H j) = Some c) L = xs"
  proof -
    have "filter (\<lambda>j. online (WHOWAS ?H j) = Some c) L = remove1 i (filter (\<lambda>j. online (WHOWAS H j) = Some c) L)"
      unfolding remove_filter [OF i(1) assms(3)] on using assms(3) by (auto simp: distinct_remove1_removeAll removeAll_filter_not_eq intro!: filter_cong)
    then show ?thesis using Cons.prems(3) by simp
  qed
  have cf: "client_family L ?H"
  proof -
    have "family (\<lambda>j. cnext (WHOWAS ?G j)) (\<lambda>j. cprev (WHOWAS ?G j)) (cl_whowas ?G) (\<lambda>d. filter (\<lambda>j. online (WHOWAS H j) = Some d) L)"
    proof -
      have "(\<lambda>j. cnext (WHOWAS ?G j)) = (\<lambda>j. cnext (WHOWAS H j))" "(\<lambda>j. cprev (WHOWAS ?G j)) = (\<lambda>j. cprev (WHOWAS H j))" by auto
      then show ?thesis using Cons.prems(1) by (simp add: client_family_def)
    qed
    moreover have "i \<in> set (filter (\<lambda>j. online (WHOWAS H j) = Some c) L)" using i by simp
    ultimately have "family (\<lambda>j. cnext (WHOWAS ?H j)) (\<lambda>j. cprev (WHOWAS ?H j)) (cl_whowas ?H)
        ((\<lambda>d. filter (\<lambda>j. online (WHOWAS H j) = Some d) L)(c := remove1 i (filter (\<lambda>j. online (WHOWAS H j) = Some c) L)))"
      by (rule clist.del_family [OF TrueI])
    moreover have "(\<lambda>d. filter (\<lambda>j. online (WHOWAS H j) = Some d) L)(c := remove1 i (filter (\<lambda>j. online (WHOWAS H j) = Some c) L)) =
        (\<lambda>d. filter (\<lambda>j. online (WHOWAS ?H j) = Some d) L)"
    proof (rule ext)
      fix d
      have "d \<noteq> c \<Longrightarrow> filter (\<lambda>j. online (WHOWAS ?H j) = Some d) L = filter (\<lambda>j. online (WHOWAS H j) = Some d) L"
        using i(2) by (intro filter_cong) (auto simp: on)
      then show "((\<lambda>d. filter (\<lambda>j. online (WHOWAS H j) = Some d) L)(c := remove1 i (filter (\<lambda>j. online (WHOWAS H j) = Some c) L))) d =
          filter (\<lambda>j. online (WHOWAS ?H j) = Some d) L"
        using rest Cons.prems(3) by simp
    qed
    ultimately show ?thesis unfolding client_family_def by simp
  qed
  have hf: "hash_family L ?H"
  proof -
    have p: "(\<lambda>j. ww_next (WHOWAS ?H j)) = (\<lambda>j. ww_next (WHOWAS H j))" "(\<lambda>j. ww_prev (WHOWAS ?H j)) = (\<lambda>j. ww_prev (WHOWAS H j))"
      "hash_heads ?H = hash_heads H"
      unfolding list_others by (auto simp: hash_heads_def fun_eq_iff)
    show ?thesis using Cons.prems(2) unfolding hash_family_def p hv .
  qed
  obtain H' where H': "off_loop c (first_of xs) ?H = Some H'" "client_family L H'" "hash_family L H'"
      "\<forall>j. core (WHOWAS H' j) = core (if j \<in> set xs then forget c (WHOWAS ?H j) else WHOWAS ?H j)"
      "whowas_next H' = whowas_next ?H" "hist_len H' = hist_len ?H" "hist_key H' = hist_key ?H"
    using Cons.IH [OF cf hf rest] by blast
  have ni: "i \<notin> set xs" using F(2) [of c] Cons.prems(3) by simp
  have "core (WHOWAS H' j) = core (if j \<in> set (i # xs) then forget c (WHOWAS H j) else WHOWAS H j)" for j
    using H'(4) core [of j] core_forget [OF core, of c j] ni by (cases "j \<in> set xs") auto
  moreover have "off_loop c (first_of (i # xs)) H = Some H'" using H'(1) nx by (simp add: off_loop.simps)
  ultimately show ?case using H'(2,3,5-7) by (simp add: list_frames)
qed

lemma hist_ok_slots:
  assumes "hist_ok H" "whowas_next H' = whowas_next H" "hist_len H' = hist_len H" "\<And>j. hashv (WHOWAS H' j) = hashv (WHOWAS H j)"
  shows "slots H' = slots H"
  using assms by (simp add: slots_def Let_def)

lemma off_history_refines:
  assumes "hist_ok H"
  shows "\<exists>H'. off_history c H = Some H' \<and> hist_ok H' \<and> history_of H' = map (\<lambda>x. core (forget c x)) (history_of H) \<and>
    hist_len H' = hist_len H \<and> hist_key H' = hist_key H"
proof -
  let ?L = "slots H" and ?xs = "filter (\<lambda>i. online (WHOWAS H i) = Some c) (slots H)"
  have n: "whowas_next H < hist_len H" and fam: "hash_family ?L H" "client_family ?L H" using assms by (simp_all add: hist_ok_def)
  have "cl_whowas H c = first_of ?xs" using familyD(1) [OF fam(2) [unfolded client_family_def], of c] by simp
  then obtain H' where H': "off_history c H = Some H'" "client_family ?L H'" "hash_family ?L H'"
      "\<forall>j. core (WHOWAS H' j) = core (if j \<in> set ?xs then forget c (WHOWAS H j) else WHOWAS H j)"
      "whowas_next H' = whowas_next H" "hist_len H' = hist_len H" "hist_key H' = hist_key H"
    using off_loop_empties [OF fam(2,1) distinct_slots [OF n] refl] by (auto simp: off_history_def)
  have hv: "hashv (WHOWAS H' j) = hashv (WHOWAS H j)" "ww_name (WHOWAS H' j) = ww_name (WHOWAS H j)" for j
    using core_fields(1,3) [OF H'(4) [rule_format, of j]] by (auto simp: forget_def split: if_splits)
  have sl: "slots H' = ?L" using hist_ok_slots [OF assms H'(5,6) hv(1)] .
  have "core (WHOWAS H' j) = core (forget c (core (WHOWAS H j)))" if "j \<in> set ?L" for j
    using H'(4) that by (simp add: forget_def core_def)
  then have "history_of H' = map (\<lambda>x. core (forget c x)) (history_of H)" by (simp add: history_of_def sl)
  moreover have "hist_ok H'" using assms H'(2,3,5-7) unfolding hist_ok_def sl hv by simp
  ultimately show ?thesis using H'(1,6,7) by blast
qed

lemma get_loop_finds:
  "chained (\<lambda>i. ww_next (WHOWAS H i)) pv p xs \<Longrightarrow>
    get_loop nick since (first_of xs) H =
      Some (case find (\<lambda>i. irccmp nick (ww_name (WHOWAS H i)) = 0 \<and> since \<le> logoff (WHOWAS H i)) xs of
        None \<Rightarrow> None | Some i \<Rightarrow> online (WHOWAS H i))"
  by (induction xs arbitrary: p) (auto simp: get_loop.simps)

lemma find_filter: "(\<And>x. x \<in> set xs \<Longrightarrow> P x \<Longrightarrow> Q x) \<Longrightarrow> find P (filter Q xs) = find P xs"
  by (induction xs) auto

lemma find_map_core:
  "find P (map f xs) = map_option f (find (\<lambda>x. P (f x)) xs)"
  by (induction xs) auto

definition last_use :: "string \<Rightarrow> int \<Rightarrow> whowas list \<Rightarrow> cid option" where
  "last_use nick since es = (case find (\<lambda>x. irccmp nick (ww_name x) = 0 \<and> since \<le> logoff x) es of None \<Rightarrow> None | Some x \<Rightarrow> online x)"

lemma get_history_refines:
  assumes "hist_ok H" "cstr nick"
  shows "get_history w nick limit H = Some (last_use nick (CurrentTime w - limit) (history_of H))"
proof -
  let ?b = "strhash (hist_key H) nick" and ?P = "\<lambda>x. irccmp nick (ww_name x) = 0 \<and> CurrentTime w - limit \<le> logoff x"
  let ?xs = "filter (\<lambda>i. hashv (WHOWAS H i) = int ?b) (slots H)"
  have fam: "hash_family (slots H) H" using assms(1) by (simp add: hist_ok_def)
  note F = familyD [OF fam [unfolded hash_family_def], of ?b]
  have "WHOWASHASH H ?b = first_of ?xs" using F(1) by (simp add: hash_heads_def strhash_less)
  then have g: "get_history w nick limit H = Some (case find (\<lambda>i. ?P (WHOWAS H i)) ?xs of None \<Rightarrow> None | Some i \<Rightarrow> online (WHOWAS H i))"
    using get_loop_finds [OF F(3)] by (simp add: get_history_def)
  have "find (\<lambda>i. ?P (WHOWAS H i)) ?xs = find (\<lambda>i. ?P (WHOWAS H i)) (slots H)"
    using assms(1) strhash_irccmp [OF assms(2)] by (intro find_filter) (auto simp: hist_ok_def)
  moreover have "last_use nick (CurrentTime w - limit) (history_of H) =
      (case find (\<lambda>i. ?P (WHOWAS H i)) (slots H) of None \<Rightarrow> None | Some i \<Rightarrow> online (WHOWAS H i))"
    by (simp add: last_use_def history_of_def find_map_core core_def split: option.split)
  ultimately show ?thesis using g by simp
qed

lemma slots_less: "whowas_next H < hist_len H \<Longrightarrow> j \<in> set (slots H) \<Longrightarrow> j < hist_len H"
  by (auto simp: slots_def Let_def split: if_splits)

lemma count_whowas_refines:
  assumes "hist_ok H"
  shows "count_whowas_memory H = length (history_of H)"
proof -
  have n: "whowas_next H < hist_len H" and u: "\<And>i. i < hist_len H \<Longrightarrow> hashv (WHOWAS H i) \<noteq> -1 \<longleftrightarrow> i \<in> set (slots H)"
    using assms unfolding hist_ok_def by blast+
  let ?xs = "filter (\<lambda>i. hashv (WHOWAS H i) \<noteq> -1) [0..<hist_len H]"
  have "set ?xs = set (slots H)" using u slots_less [OF n] by auto
  moreover have "distinct ?xs" by simp
  ultimately have "length ?xs = length (slots H)" using distinct_card [OF distinct_slots [OF n]] distinct_card [of ?xs] by simp
  then show ?thesis by (simp add: count_whowas_memory_def history_of_def)
qed


text \<open>The uses of names that follow.\<close>

definition later_uses :: "(world \<times> cid \<times> bool) list \<Rightarrow> (cid \<Rightarrow> string) \<Rightarrow> histories \<Rightarrow> histories" where
  "later_uses us info = fold (\<lambda>(w, c, on). add_history w info c on) us"

lemma later_uses_keep:
  assumes "hist_ok H" "\<forall>x\<in>set (history_of H). online x \<noteq> Some c"
    "\<forall>(w, d, on)\<in>set us. d \<noteq> c \<and> cstr (cl_name (clients w d)) \<and> length (cl_name (clients w d)) < NICKLEN (cfg w)"
  shows "hist_ok (later_uses us info H) \<and> (\<forall>x\<in>set (history_of (later_uses us info H)). online x \<noteq> Some c)"
  using assms
proof (induction us arbitrary: H)
  case (Cons u us)
  obtain w d on where u: "u = (w, d, on)" by (cases u)
  let ?H = "add_history w info d on H"
  have ok: "hist_ok ?H" "history_of ?H = take (hist_len H) (new_entry w info d on (hist_key H) # history_of H)"
    using add_history_refines [OF Cons.prems(1)] Cons.prems(3) u by auto
  have "online (new_entry w info d on k) \<noteq> Some c" for k
    using Cons.prems(3) u by (simp add: new_entry_def core_def fill_frame)
  then have "\<forall>x\<in>set (history_of ?H). online x \<noteq> Some c"
    using Cons.prems(2) unfolding ok(2) by (metis in_set_takeD set_ConsD)
  then show ?case using Cons.IH [OF ok(1)] Cons.prems(3) u by (simp add: later_uses_def)
qed (simp add: later_uses_def)

lemma last_use_online: "last_use nick since es = Some c \<Longrightarrow> \<exists>x\<in>set es. online x = Some c"
  unfolding last_use_def by (auto split: option.splits simp: find_Some_iff)

text \<open>
  C20: The history keeps no pointer to a client that is gone.  After \<open>off_history\<close>, which \<open>exit_client\<close> calls before it frees a
  client, no slot refers to the client, and whatever names other clients use afterwards, \<open>get_history\<close>
  does not return it.
\<close>

theorem history_forgets:
  assumes "hist_ok H" "cstr nick"
    "\<forall>(w, d, on)\<in>set us. d \<noteq> c \<and> cstr (cl_name (clients w d)) \<and> length (cl_name (clients w d)) < NICKLEN (cfg w)"
  shows "\<exists>H'. off_history c H = Some H' \<and> (\<forall>i\<in>set (slots H'). online (WHOWAS H' i) \<noteq> Some c) \<and>
    get_history v nick limit (later_uses us info H') \<noteq> None \<and> get_history v nick limit (later_uses us info H') \<noteq> Some (Some c)"
proof -
  obtain H' where H': "off_history c H = Some H'" "hist_ok H'" "history_of H' = map (\<lambda>x. core (forget c x)) (history_of H)"
    using off_history_refines [OF assms(1)] by blast
  have gone: "\<forall>x\<in>set (history_of H'). online x \<noteq> Some c" unfolding H'(3) by (auto simp: core_def forget_def)
  then have "\<forall>i\<in>set (slots H'). online (WHOWAS H' i) \<noteq> Some c" by (simp add: history_of_def core_def)
  moreover note later_uses_keep [OF H'(2) gone assms(3), of info]
  ultimately show ?thesis
    using H'(1) get_history_refines [OF _ assms(2), of "later_uses us info H'" v limit] last_use_online by fastforce
qed

lemma init_hist_ok:
  assumes "0 < hist_len H" "whowas_next H = 0" "cl_whowas H = (\<lambda>_. None)"
  shows "hist_ok (init_whowas H)" "history_of (init_whowas H) = []"
proof -
  have s: "slots (init_whowas H) = []" using assms by (simp add: slots_def init_whowas_def empty_whowas_def)
  have h: "hash_heads (init_whowas H) = (\<lambda>_. None)" by (auto simp: hash_heads_def init_whowas_def)
  show "hist_ok (init_whowas H)"
    unfolding hist_ok_def s hash_family_def client_family_def h using assms by (auto simp: family_def init_whowas_def empty_whowas_def)
  show "history_of (init_whowas H) = []" by (simp add: history_of_def s)
qed

definition a_history :: histories where
  "a_history = init_whowas \<lparr>WHOWAS = (\<lambda>_. empty_whowas), WHOWASHASH = (\<lambda>_. None), whowas_next = 0, cl_whowas = (\<lambda>_. None),
     hist_len = 3, hist_key = 7\<rparr>"

lemma a_history_ok: "hist_ok a_history" "history_of a_history = []" "hist_len a_history = 3" "hist_key a_history = 7"
  unfolding a_history_def by (rule init_hist_ok; simp)+ (simp_all add: init_whowas_def)

lemma alice_ok: "cstr (cl_name a_client) \<and> length (cl_name a_client) < NICKLEN a_config"
  by (simp add: a_client_def a_config_def)

lemma alice_case: "irccmp ''Alice'' ''alice'' = 0"
  by (simp add: irccmp_iff fold_case_def char_eq_nat_iff of_char_ToUpper of_char_ToLower del: of_char_eq_iff)


theorem history_forgets_witness:
  "\<exists>H'. off_history 1 (add_history a_world (\<lambda>_. ''A. Liddell'') 1 True a_history) = Some H' \<and>
    get_history a_world ''alice'' 100 (later_uses [(a_world, 2, True), (a_world, 3, False)] (\<lambda>_. []) H') \<noteq> Some (Some 1)"
  using history_forgets [of "add_history a_world (\<lambda>_. ''A. Liddell'') 1 True a_history" "''alice''" "[(a_world, 2, True), (a_world, 3, False)]" 1 a_world 100 "\<lambda>_. []"]
    add_history_refines [OF a_history_ok(1), of a_world 1] alice_ok by auto

section \<open>The WHOWAS command\<close>

text \<open>
  modules/m_whowas.c.  \<open>hunt_server\<close>, which may pass the request on to another server, is a parameter: whether it answered
  \<^verbatim>\<open>HUNTED_ISME\<close>.  So are the time formatting and the configuration items.
\<close>

record whowas_conf =
  wc_hide_servers :: bool
  wc_network_name :: string
  wc_pace_wait :: int
  wc_myctime :: "int \<Rightarrow> string"

definition whowas_reply :: "whowas_conf \<Rightarrow> cid \<Rightarrow> whowas \<Rightarrow> world \<Rightarrow> world" where
  "whowas_reply k s x w =
    (let oper = cl_oper (clients w s) in
     send (To_one s ''RPL_WHOISSERVER'' [ww_name x,
         if wc_hide_servers k \<and> \<not> oper then wc_network_name k else ww_servername x, wc_myctime k (logoff x)])
       (send (To_one s ''RPL_WHOWASUSER'' [ww_name x, ww_username x, if oper then ww_realhost x else ww_hostname x, ww_realname x]) w))"

partial_function (option) whowas_loop :: "whowas_conf \<Rightarrow> cid \<Rightarrow> string \<Rightarrow> int \<Rightarrow> int \<Rightarrow> nat option \<Rightarrow> histories \<Rightarrow> world \<Rightarrow> (int \<times> world) option" where
  "whowas_loop k s nick mx cur t H w =
    (case t of None \<Rightarrow> Some (cur, w)
     | Some i \<Rightarrow>
         (let x = WHOWAS H i; hit = (irccmp nick (ww_name x) = 0);
              cur1 = (if hit then cur + 1 else cur); w1 = (if hit then whowas_reply k s x w else w) in
          if 0 < mx \<and> mx \<le> cur1 then Some (cur1, w1) else whowas_loop k s nick mx cur1 (ww_next x) H w1))"

definition whowas_do :: "whowas_conf \<Rightarrow> bool \<Rightarrow> cid \<Rightarrow> string list \<Rightarrow> histories \<Rightarrow> world \<Rightarrow> world option" where
  "whowas_do k isme s pv H w =
    (let mx = (if 2 < length pv
               then (let m = atoi (pv ! 2) in if \<not> cl_local (clients w s) \<and> 20 < m then 20 else m) else -1);
         commas = takeWhile (\<lambda>c. c = CHR '','') (pv ! 1); nick = until CHR '','' (dropWhile (\<lambda>c. c = CHR '','') (pv ! 1)) in
     if 3 < length pv \<and> \<not> isme then Some w
     else if nick = [] then Some w
     else do {
       (cur, w1) \<leftarrow> whowas_loop k s nick mx 0 (WHOWASHASH H (strhash (hist_key H) nick)) H w;
       let w2 = (if cur = 0 then send (To_one s ''ERR_WASNOSUCHNICK'' [nick]) w1 else w1);
       Some (send (To_one s ''RPL_ENDOFWHOWAS'' [commas @ nick]) w2) })"

definition mo_whowas :: "whowas_conf \<Rightarrow> bool \<Rightarrow> cid \<Rightarrow> string list \<Rightarrow> histories \<Rightarrow> world \<Rightarrow> world option" where
  "mo_whowas k isme s pv H w =
    (if length pv < 2 \<or> pv ! 1 = [] then Some (send (To_one s ''ERR_NONICKNAMEGIVEN'' []) w) else whowas_do k isme s pv H w)"

text \<open>\<open>last_used\<close> is the static variable of the handler.\<close>

definition m_whowas :: "whowas_conf \<Rightarrow> bool \<Rightarrow> cid \<Rightarrow> string list \<Rightarrow> histories \<Rightarrow> int \<times> world \<Rightarrow> (int \<times> world) option" where
  "m_whowas k isme s pv H st =
    (let (last_used, w) = st in
     if length pv < 2 \<or> pv ! 1 = [] then Some (last_used, send (To_one s ''ERR_NONICKNAMEGIVEN'' []) w)
     else if CurrentTime w < last_used + wc_pace_wait k then Some (last_used, send (To_one s ''RPL_LOAD2HI'' []) w)
     else map_option (\<lambda>w1. (CurrentTime w, w1)) (whowas_do k isme s pv H w))"

text \<open>The answer the entries of a history make.\<close>

definition whowas_answer :: "whowas_conf \<Rightarrow> cid \<Rightarrow> string \<Rightarrow> int \<Rightarrow> whowas list \<Rightarrow> world \<Rightarrow> world" where
  "whowas_answer k s nick mx es w =
    (let hits = filter (\<lambda>x. irccmp nick (ww_name x) = 0) es in
     fold (whowas_reply k s) (if 0 < mx then take (nat mx) hits else hits) w)"

lemma whowas_reply_frame [simp]: "clients (whowas_reply k s x w) = clients w"
  by (simp add: whowas_reply_def Let_def)

lemma whowas_reply_core: "whowas_reply k s (core x) = whowas_reply k s x"
  by (rule ext) (simp add: whowas_reply_def core_def cong del: if_weak_cong)

lemma whowas_loop_answers:
  assumes "chained (\<lambda>i. ww_next (WHOWAS H i)) pv p xs" "0 \<le> cur" "0 < mx \<longrightarrow> cur < mx"
  shows "\<exists>n. whowas_loop k s nick mx cur (first_of xs) H w =
      Some (n, fold (whowas_reply k s)
        (let hits = filter (\<lambda>x. irccmp nick (ww_name x) = 0) (map (WHOWAS H) xs) in if 0 < mx then take (nat (mx - cur)) hits else hits) w) \<and>
    cur \<le> n \<and> (n = cur \<longleftrightarrow> \<not> (\<exists>i\<in>set xs. irccmp nick (ww_name (WHOWAS H i)) = 0))"
  using assms
proof (induction xs arbitrary: p cur w)
  case Nil then show ?case by (simp add: whowas_loop.simps)
next
  case (Cons i xs)
  let ?x = "WHOWAS H i"
  show ?case
  proof (cases "irccmp nick (ww_name ?x) = 0")
    case False
    with Cons.IH [of "Some i" cur w] Cons.prems show ?thesis by (auto simp: whowas_loop.simps [of k s nick mx cur "Some i"] Let_def)
  next
    case True
    show ?thesis
    proof (cases "0 < mx \<and> mx \<le> cur + 1")
      case stop: True
      then have "mx - cur = 1" using Cons.prems(3) by linarith
      then have "nat (mx - cur) = 1" by simp
      then show ?thesis using True stop by (simp add: whowas_loop.simps [of k s nick mx cur "Some i"] Let_def)
    next
      case go: False
      obtain n where n: "whowas_loop k s nick mx (cur + 1) (first_of xs) H (whowas_reply k s ?x w) =
          Some (n, fold (whowas_reply k s) (let hits = filter (\<lambda>x. irccmp nick (ww_name x) = 0) (map (WHOWAS H) xs) in
            if 0 < mx then take (nat (mx - (cur + 1))) hits else hits) (whowas_reply k s ?x w))" "cur + 1 \<le> n"
        using Cons.IH [of "Some i" "cur + 1" "whowas_reply k s ?x w"] Cons.prems go by auto
      have "0 < mx \<Longrightarrow> nat (mx - cur) = Suc (nat (mx - (cur + 1)))" using Cons.prems(3) by linarith
      then show ?thesis using n True go Cons.prems(1) by (simp add: whowas_loop.simps [of k s nick mx cur "Some i"] Let_def)
    qed
  qed
qed

lemma filter_name_core: "map core (filter (\<lambda>x. P (ww_name x)) xs) = filter (\<lambda>x. P (ww_name x)) (map core xs)"
  by (induction xs) (simp_all add: core_def)

lemma fold_reply_core: "fold (whowas_reply k s) (map core xs) w = fold (whowas_reply k s) xs w"
  by (induction xs arbitrary: w) (simp_all add: whowas_reply_core)

lemma whowas_do_answers:
  assumes "hist_ok H" "cstr (pv ! 1)" "length pv \<le> 3 \<or> isme" "until CHR '','' (dropWhile (\<lambda>c. c = CHR '','') (pv ! 1)) = nick" "nick \<noteq> []"
    "mx = (if 2 < length pv then (let m = atoi (pv ! 2) in if \<not> cl_local (clients w s) \<and> 20 < m then 20 else m) else -1)"
  shows "\<exists>w' shown. whowas_do k isme s pv H w = Some w' \<and> w' = send (To_one s ''RPL_ENDOFWHOWAS'' [shown])
    (if \<exists>x\<in>set (history_of H). irccmp nick (ww_name x) = 0 then whowas_answer k s nick mx (history_of H) w
     else send (To_one s ''ERR_WASNOSUCHNICK'' [nick]) w)"
proof -
  let ?b = "strhash (hist_key H) nick" and ?L = "slots H" and ?P = "\<lambda>x. irccmp nick (ww_name x) = 0"
  let ?xs = "filter (\<lambda>i. hashv (WHOWAS H i) = int ?b) ?L"
  have "set nick \<subseteq> set (pv ! 1)" using set_until assms(4) set_dropWhileD by fastforce
  then have cn: "cstr nick" using assms(2) by (auto simp: cstr_def)
  have fam: "hash_family ?L H" using assms(1) by (simp add: hist_ok_def)
  note F = familyD [OF fam [unfolded hash_family_def], of ?b]
  have hd: "WHOWASHASH H ?b = first_of ?xs" using F(1) by (simp add: hash_heads_def strhash_less)
  have same: "filter ?P (map (WHOWAS H) ?xs) = filter ?P (map (WHOWAS H) ?L)"
  proof -
    have "filter (\<lambda>i. ?P (WHOWAS H i)) ?xs = filter (\<lambda>i. ?P (WHOWAS H i)) ?L"
      unfolding filter_filter using assms(1) strhash_irccmp [OF cn] by (intro filter_cong) (auto simp: hist_ok_def)
    then show ?thesis by (simp add: filter_map o_def)
  qed
  have hits: "map core (filter ?P (map (WHOWAS H) ?L)) = filter ?P (history_of H)"
    using filter_name_core [of "\<lambda>n. irccmp nick n = 0" "map (WHOWAS H) ?L"] by (simp add: history_of_def o_def)
  let ?cut = "\<lambda>hs :: whowas list. if 0 < mx then take (nat mx) hs else hs"
  obtain n where n: "whowas_loop k s nick mx 0 (first_of ?xs) H w = Some (n, fold (whowas_reply k s) (?cut (filter ?P (map (WHOWAS H) ?L))) w)"
      "n = 0 \<longleftrightarrow> \<not> (\<exists>i\<in>set ?xs. irccmp nick (ww_name (WHOWAS H i)) = 0)"
    using whowas_loop_answers [OF F(3) order_refl imp_refl, where mx = mx and k = k and s = s and nick = nick and w = w, unfolded Let_def same diff_0_right] by blast
  have "fold (whowas_reply k s) (?cut (filter ?P (map (WHOWAS H) ?L))) w = fold (whowas_reply k s) (map core (?cut (filter ?P (map (WHOWAS H) ?L)))) w"
    by (simp only: fold_reply_core)
  also have "map core (?cut (filter ?P (map (WHOWAS H) ?L))) = ?cut (filter ?P (history_of H))"
    using hits by (simp add: take_map [symmetric])
  finally have ans: "fold (whowas_reply k s) (?cut (filter ?P (map (WHOWAS H) ?L))) w = whowas_answer k s nick mx (history_of H) w"
    by (simp add: whowas_answer_def)
  have "(\<exists>i\<in>set ?xs. irccmp nick (ww_name (WHOWAS H i)) = 0) \<longleftrightarrow> filter ?P (map (WHOWAS H) ?xs) \<noteq> []"
    by (auto simp: filter_empty_conv)
  also have "\<dots> \<longleftrightarrow> filter ?P (history_of H) \<noteq> []" unfolding same using hits by (metis map_is_Nil_conv)
  also have "\<dots> \<longleftrightarrow> (\<exists>x\<in>set (history_of H). ?P x)" by (simp add: filter_empty_conv)
  finally have ex: "n = 0 \<longleftrightarrow> \<not> (\<exists>x\<in>set (history_of H). ?P x)" using n(2) by simp
  have none: "\<not> (\<exists>x\<in>set (history_of H). ?P x) \<Longrightarrow> whowas_answer k s nick mx (history_of H) w = w"
    by (simp add: whowas_answer_def filter_empty_conv [THEN iffD2])
  have here: "\<not> (3 < length pv \<and> \<not> isme)" using assms(3) by auto
  let ?ans = "whowas_answer k s nick mx (history_of H) w"
  have d: "whowas_do k isme s pv H w = Some (send (To_one s ''RPL_ENDOFWHOWAS'' [takeWhile (\<lambda>c. c = CHR '','') (pv ! 1) @ nick])
      (if n = 0 then send (To_one s ''ERR_WASNOSUCHNICK'' [nick]) ?ans else ?ans))"
    unfolding whowas_do_def Let_def assms(4) assms(6) [unfolded Let_def, symmetric] hd n(1) ans if_not_P [OF here] if_not_P [OF assms(5)]
    by simp
  show ?thesis
  proof (cases "n = 0")
    case True
    with ex have nx: "\<not> (\<exists>x\<in>set (history_of H). ?P x)" by blast
    show ?thesis unfolding d if_P [OF True] none [OF nx] if_not_P [OF nx] by blast
  next
    case False
    with ex have nx: "\<exists>x\<in>set (history_of H). ?P x" by blast
    show ?thesis unfolding d if_not_P [OF False] if_P [OF nx] by blast
  qed
qed

text \<open>
  C39: WHOWAS tells an operator or a user the last uses of a nickname, the latest first, as many as were asked for, and a
  user who is no operator the same whatever the real hosts in the history are.
\<close>

theorem whowas_shows:
  assumes "hist_ok H" "length pv = 3" "cstr (pv ! 1)" "until CHR '','' (dropWhile (\<lambda>c. c = CHR '','') (pv ! 1)) = nick" "nick \<noteq> []"
    "0 < atoi (pv ! 2)" "atoi (pv ! 2) \<le> 20" "x \<in> set (history_of H)" "irccmp nick (ww_name x) = 0"
  shows "\<exists>shown. whowas_do k isme s pv H w = Some (send (To_one s ''RPL_ENDOFWHOWAS'' [shown])
      (fold (whowas_reply k s) (take (nat (atoi (pv ! 2))) (filter (\<lambda>x. irccmp nick (ww_name x) = 0) (history_of H))) w)) \<and>
    (\<not> cl_oper (clients w s) \<longrightarrow> whowas_reply k s (y\<lparr>ww_realhost := h\<rparr>) w = whowas_reply k s y w)"
proof -
  have ex: "\<exists>x\<in>set (history_of H). irccmp nick (ww_name x) = 0" using assms(8,9) by blast
  obtain w' shown where "whowas_do k isme s pv H w = Some w'" "w' = send (To_one s ''RPL_ENDOFWHOWAS'' [shown])
      (whowas_answer k s nick (atoi (pv ! 2)) (history_of H) w)"
    using whowas_do_answers [OF assms(1,3) _ assms(4,5), where isme = isme and k = k and s = s and w = w and mx = "atoi (pv ! 2)"] assms(2,6,7) ex
    by (auto simp: Let_def)
  then show ?thesis using assms(6) by (auto simp: whowas_answer_def whowas_reply_def Let_def)
qed

theorem whowas_shows_witness:
  "\<exists>shown w'. whowas_do \<lparr>wc_hide_servers = False, wc_network_name = [], wc_pace_wait = 10, wc_myctime = int_text\<rparr> True 1
      [''alice'', ''Alice'', ''1''] (add_history a_world (\<lambda>_. ''A. Liddell'') 1 True a_history) a_world = Some w' \<and>
    log w' = [To_one 1 ''RPL_WHOWASUSER'' [''alice'', ''al'', ''home.example'', ''A. Liddell''],
      To_one 1 ''RPL_WHOISSERVER'' [''alice'', ''alice'', int_text 5000], To_one 1 ''RPL_ENDOFWHOWAS'' [shown]]"
proof -
  let ?H = "add_history a_world (\<lambda>_. ''A. Liddell'') 1 True a_history" and ?e = "new_entry a_world (\<lambda>_. ''A. Liddell'') 1 True 7"
  let ?k = "\<lparr>wc_hide_servers = False, wc_network_name = [], wc_pace_wait = 10, wc_myctime = int_text\<rparr>"
  have H: "hist_ok ?H" "history_of ?H = [?e]"
    using add_history_refines [OF a_history_ok(1), of a_world 1] alice_ok by (simp_all add: a_history_ok)
  note i = alice_case
  have t: "atoi ''1'' = 1" by code_simp
  have e: "ww_name ?e = ''alice''" "logoff ?e = 5000" "ww_username ?e = ''al''" "ww_hostname ?e = ''home.example''" "ww_realhost ?e = ''home.example''"
      "ww_realname ?e = ''A. Liddell''" "ww_servername ?e = ''alice''"
    by (simp_all add: new_entry_def core_def fill_whowas_def Let_def a_config_def) (simp_all add: a_client_def)
  have "log a_world = []" by (simp add: a_world_def)
  then show ?thesis
    using whowas_shows [OF H(1), of "[''alice'', ''Alice'', ''1'']" "''Alice''" ?e, where isme = True and k = ?k and s = 1 and w = a_world and y = ?e and h = "[]"] i t e
    by (auto simp: H(2) until_def whowas_reply_def Let_def simp del: One_nat_def)
qed

end
