(* ===== verification/Client_Exit.thy ===== *)
theory Client_Exit
  imports Whowas
begin

section \<open>The exit of clients\<close>

text \<open>
  src/client.c: what \<^verbatim>\<open>exit_client\<close> takes apart when a user leaves, a link breaks or a server splits from the network
  with everything behind it, with \<^verbatim>\<open>remove_lazylink_flags\<close> (src/s_serv.c), \<^verbatim>\<open>check_splitmode\<close> (src/channel.c) and the lists of
  accepted clients.  The state is the world of the channels with the rest of \<^verbatim>\<open>struct Client\<close> and the lists of clients.
\<close>

subsection \<open>The rest of the state\<close>

abbreviation CAP_QS :: "32 word" where "CAP_QS \<equiv> 0x2"
abbreviation CAP_LL :: "32 word" where "CAP_LL \<equiv> 0x10"

text \<open>\<^verbatim>\<open>struct Server\<close>; \<open>sv_link_name\<close> is what \<^verbatim>\<open>my_name_for_link\<close> says of its \<^verbatim>\<open>sconf\<close>, if it has one.\<close>

record server =
  sv_servers :: "cid list"
  sv_users :: "cid list"
  sv_dep_servers :: int
  sv_dep_users :: int
  sv_link_name :: "string option"

text \<open>
  The fields of \<^verbatim>\<open>struct Client\<close> and its \<^verbatim>\<open>localClient\<close> that the channels do not look at.  \<open>pr_from\<close> is \<^verbatim>\<open>None\<close> for the null
  pointer; the flags are booleans; \<open>pr_listing\<close> says that there is a \<^verbatim>\<open>list_task\<close>.
\<close>

record peer =
  pr_from :: "cid option"
  pr_serv :: "server option"
  pr_killed :: bool
  pr_closing :: bool
  pr_dead :: bool
  pr_iphash :: bool
  pr_userhost :: bool
  pr_flooddone :: bool
  pr_zombie :: bool
  pr_listing :: bool
  pr_ipspoof :: bool
  pr_allow_list :: "cid list"
  pr_on_allow_list :: "cid list"
  pr_caps :: "32 word"
  pr_serverMask :: "64 word"
  pr_lazy :: "64 word"
  pr_info :: string
  pr_tsinfo :: int
  pr_umodes :: "32 word"
  pr_hopcount :: int
  pr_servicestamp :: "32 word"
  pr_registration :: "32 word"
  pr_llname :: string
  pr_last_nick_change :: int
  pr_nick_changes :: int

record net =
  wd :: world
  peers :: "cid \<Rightarrow> peer"
  hist :: histories
  uhosts :: hash_state
  unknown_list :: "cid list"
  local_client_list :: "cid list"
  oper_list :: "cid list"
  serv_list :: "cid list"
  global_serv_list :: "cid list"
  global_client_list :: "cid list"
  dead_list :: "cid list"
  uplink :: "cid option"
  chcap_combos :: "chcap list"
  freeMask :: "64 word"
  lazyLinkChannelExists :: "chid \<Rightarrow> 64 word"
  Count_total :: int
  Count_oper :: int
  Count_invisi :: int
  Count_local :: int
  Count_myserver :: int
  splitchecking :: bool
  splitmode :: bool
  split_servers :: int
  split_users :: int
  no_join_on_split :: bool
  no_create_on_split :: bool
  hide_servers :: bool
  hide_spoof_ips :: bool

definition upd_peer :: "cid \<Rightarrow> (peer \<Rightarrow> peer) \<Rightarrow> net \<Rightarrow> net" where
  "upd_peer c f n = n\<lparr>peers := (peers n)(c := f (peers n c))\<rparr>"

definition in_world :: "(world \<Rightarrow> world) \<Rightarrow> net \<Rightarrow> net" where
  "in_world f n = n\<lparr>wd := f (wd n)\<rparr>"

definition notify :: "event \<Rightarrow> net \<Rightarrow> net" where
  "notify e = in_world (send e)"

text \<open>A write through \<^verbatim>\<open>serv\<close>, which must not be null.\<close>

definition upd_serv :: "cid \<Rightarrow> (server \<Rightarrow> server) \<Rightarrow> net \<Rightarrow> net option" where
  "upd_serv s f n =
    (case pr_serv (peers n s) of None \<Rightarrow> None | Some v \<Rightarrow> Some (upd_peer s (\<lambda>p. p\<lparr>pr_serv := Some (f v)\<rparr>) n))"

fun each :: "('a \<Rightarrow> 's \<Rightarrow> 's option) \<Rightarrow> 'a list \<Rightarrow> 's \<Rightarrow> 's option" where
  "each f [] s = Some s"
| "each f (x # xs) s = (case f x s of None \<Rightarrow> None | Some s' \<Rightarrow> each f xs s')"

definition cl :: "net \<Rightarrow> cid \<Rightarrow> client" where
  "cl n c = clients (wd n) c"

definition IsCapable :: "net \<Rightarrow> cid \<Rightarrow> 32 word \<Rightarrow> bool" where
  "IsCapable n c cap \<longleftrightarrow> has (pr_caps (peers n c)) cap"

definition ID_or_name :: "net \<Rightarrow> cid \<Rightarrow> cid \<Rightarrow> string" where
  "ID_or_name n x c = (if IsCapable n c CAP_TS6 \<and> cl_id (cl n x) \<noteq> [] then cl_id (cl n x) else cl_name (cl n x))"

subsection \<open>Lists of accepted clients\<close>

definition accept_message :: "cid \<Rightarrow> cid \<Rightarrow> net \<Rightarrow> bool" where
  "accept_message source target n \<longleftrightarrow> source \<in> set (pr_allow_list (peers n target))"

definition accept_found :: "cid \<Rightarrow> cid \<Rightarrow> cid \<Rightarrow> net \<Rightarrow> net" where
  "accept_found source target entry n =
    (if entry = source
     then upd_peer source (\<lambda>p. p\<lparr>pr_on_allow_list := filter (\<lambda>x. x \<noteq> target) (pr_on_allow_list p)\<rparr>)
            (upd_peer target (\<lambda>p. p\<lparr>pr_allow_list := remove1 entry (pr_allow_list p)\<rparr>) n)
     else n)"

definition del_from_accept :: "cid \<Rightarrow> cid \<Rightarrow> net \<Rightarrow> net" where
  "del_from_accept source target n = fold (accept_found source target) (pr_allow_list (peers n target)) n"

definition del_all_their_accepts :: "cid \<Rightarrow> net \<Rightarrow> net" where
  "del_all_their_accepts c n = fold (\<lambda>t. del_from_accept c t) (pr_on_allow_list (peers n c)) n"

definition del_all_accepts :: "cid \<Rightarrow> net \<Rightarrow> net" where
  "del_all_accepts c n = del_all_their_accepts c (fold (\<lambda>s. del_from_accept s c) (pr_allow_list (peers n c)) n)"

subsection \<open>Counters, lazy links and the split mode\<close>

definition check_splitmode :: "net \<Rightarrow> net" where
  "check_splitmode n =
    (if splitchecking n \<and> (no_join_on_split n \<or> no_create_on_split n)
     then (let server = int (length (global_serv_list n)) in
           if \<not> splitmode n \<and> (server < split_servers n \<or> Count_total n < split_users n)
           then notify (Calls ''eventAddIsh check_splitmode'' (me (wd n)))
                  (notify (To_ops ''Network split, activating splitmode'' []) (n\<lparr>splitmode := True\<rparr>))
           else if splitmode n \<and> split_servers n < server \<and> split_users n < Count_total n
           then notify (Calls ''eventDelete check_splitmode'' (me (wd n)))
                  (notify (To_ops ''Network rejoined, deactivating splitmode'' []) (n\<lparr>splitmode := False\<rparr>))
           else n)
     else n)"

definition update_client_exit_stats :: "cid \<Rightarrow> net \<Rightarrow> net" where
  "update_client_exit_stats c n =
    (let n1 = (if IsServer (cl n c)
               then notify (To_ops ''Server %s split from %s'' [cl_name (cl n c), cl_name (cl n (cl_servptr (cl n c)))]) n
               else if IsClient (cl n c)
               then n\<lparr>Count_total := Count_total n - 1,
                      Count_oper := (if cl_oper (cl n c) then Count_oper n - 1 else Count_oper n),
                      Count_invisi := (if cl_invisible (cl n c) then Count_invisi n - 1 else Count_invisi n)\<rparr>
               else n) in
     if splitchecking n1 \<and> \<not> splitmode n1 then check_splitmode n1 else n1)"

definition remove_lazylink_flags :: "64 word \<Rightarrow> net \<Rightarrow> net" where
  "remove_lazylink_flags msk n =
    (if msk = 0 then n
     else let lz = (\<lambda>ch. if ch \<in> set (lazylink_channels (wd n)) then lazyLinkChannelExists n ch AND NOT msk
                          else lazyLinkChannelExists n ch) in
          n\<lparr>freeMask := freeMask n OR msk, lazyLinkChannelExists := lz,
            wd := (wd n)\<lparr>lazylink_channels := filter (\<lambda>ch. lz ch \<noteq> 0) (lazylink_channels (wd n))\<rparr>,
            peers := (\<lambda>c. if c \<in> set (global_client_list n)
                          then (peers n c)\<lparr>pr_lazy := pr_lazy (peers n c) AND NOT msk\<rparr> else peers n c)\<rparr>)"

subsection \<open>Taking one client off every list\<close>

definition leave :: "mid \<Rightarrow> net \<Rightarrow> net option" where
  "leave m n = map_option (\<lambda>w. n\<lparr>wd := w\<rparr>) (remove_user_from_channel m (wd n))"

definition exit_server :: "cid \<Rightarrow> net \<Rightarrow> net option" where
  "exit_server c n = do {
     n1 \<leftarrow> upd_serv (cl_servptr (cl n c)) (\<lambda>v. v\<lparr>sv_servers := remove1 c (sv_servers v)\<rparr>) n;
     let n2 = n1\<lparr>global_serv_list := remove1 c (global_serv_list n1)\<rparr>;
     if cl_local (cl n c) then Some n2
     else case pr_from (peers n2 c) of
            None \<Rightarrow> None
          | Some f \<Rightarrow> upd_serv f (\<lambda>v. v\<lparr>sv_dep_servers := sv_dep_servers v - 1\<rparr>) n2 }"

definition exit_user :: "cid \<Rightarrow> string \<Rightarrow> net \<Rightarrow> net option" where
  "exit_user c quitmsg n = do {
     let s = cl_servptr (cl n c);
     n1 \<leftarrow> (case pr_serv (peers n s) of
              None \<Rightarrow> Some n
            | Some _ \<Rightarrow> upd_serv s (\<lambda>v. v\<lparr>sv_users := remove1 c (sv_users v)\<rparr>) n);
     let n2 = notify (To_common c False ('':'' @ nuh_text (cl_name (cl n c)) (cl_username (cl n c)) (cl_host (cl n c)) @ '' QUIT :'' @ quitmsg)) n1;
     n3 \<leftarrow> each leave (cl_channel (cl n2 c)) n2;
     let n4 = del_all_accepts c n3;
     let n5 = n4\<lparr>hist := add_history (wd n4) (\<lambda>x. pr_info (peers n4 x)) c False (hist n4)\<rparr>;
     h \<leftarrow> off_history c (hist n5);
     let n6 = n5\<lparr>hist := h\<rparr>;
     if \<not> cl_local (cl n c)
     then (case pr_from (peers n6 c) of
             None \<Rightarrow> None
           | Some f \<Rightarrow> upd_serv f (\<lambda>v. v\<lparr>sv_dep_users := sv_dep_users v - 1\<rparr>) n6)
     else Some (in_world (fold (\<lambda>ch. del_invite ch c) (cl_invited (cl n6 c))) n6) }"

text \<open>Off the hash tables, off the list of all clients, and onto the list of those to be freed.\<close>

definition unlist :: "cid \<Rightarrow> net \<Rightarrow> net option" where
  "unlist c n = do {
     let n1 = (if cl_id (cl n c) \<noteq> [] then in_world (\<lambda>w. w\<lparr>id_names := remove1 c (id_names w)\<rparr>) n else n);
     let n2 = (if cl_name (cl n c) \<noteq> [] then in_world (\<lambda>w. w\<lparr>client_names := remove1 c (client_names w)\<rparr>) n1 else n1);
     n3 \<leftarrow> (if pr_userhost (peers n c)
            then map_option (\<lambda>u. n2\<lparr>uhosts := u\<rparr>)
                   (delete_user_host (cl_username (cl n c)) (cl_realhost (cl n c)) (\<not> cl_local (cl n c)) (uhosts n2))
            else Some n2);
     let n4 = (if c \<in> set (global_client_list n3) \<and> c \<noteq> last (global_client_list n3)
               then n3\<lparr>global_client_list := remove1 c (global_client_list n3)\<rparr> else n3);
     let n5 = upd_peer c (\<lambda>p. p\<lparr>pr_dead := True\<rparr>) (update_client_exit_stats c n4);
     Some (n5\<lparr>dead_list := c # dead_list n5\<rparr>) }"

definition exit_one_client :: "string \<Rightarrow> cid \<Rightarrow> net \<Rightarrow> net option" where
  "exit_one_client quitmsg c n = do {
     n1 \<leftarrow> (if IsServer (cl n c) then exit_server c n
            else if IsClient (cl n c) then exit_user c quitmsg n
            else Some n);
     unlist c n1 }"

subsection \<open>A server and what depends on it\<close>

text \<open>
  \<open>k\<close> bounds the depth of the tree of servers.  The loops walk the lists as they are when they start: each turn takes only the
  entry it is at off its list.
\<close>

fun recurse_send_quits :: "nat \<Rightarrow> cid \<Rightarrow> cid option \<Rightarrow> cid \<Rightarrow> string \<Rightarrow> string \<Rightarrow> string \<Rightarrow> cid \<Rightarrow> net \<Rightarrow> net option" where
  "recurse_send_quits 0 orig fr t comment splitstr myname s n = None"
| "recurse_send_quits (Suc k) orig fr t comment splitstr myname s n = do {
     hidden \<leftarrow> match myname (cl_name (cl n s));
     v \<leftarrow> pr_serv (peers n s);
     let n1 = (if hidden \<or> \<not> IsCapable n t CAP_QS
               then fold (\<lambda>u n. notify (To_one t '':%s QUIT :%s'' [cl_name (cl n u), splitstr]) n) (sv_users v) n else n);
     n2 \<leftarrow> each (recurse_send_quits k orig fr t comment splitstr myname) (sv_servers v) n1;
     Some (if \<not> hidden \<and> (s = orig \<and> Some t \<noteq> fr \<or> \<not> IsCapable n2 t CAP_QS)
           then notify (To_one t ''SQUIT %s :%s'' [ID_or_name n2 s t, comment]) n2 else n2) }"

fun recurse_remove_clients :: "nat \<Rightarrow> string \<Rightarrow> cid \<Rightarrow> net \<Rightarrow> net option" where
  "recurse_remove_clients 0 quitmsg s n = None"
| "recurse_remove_clients (Suc k) quitmsg s n = do {
     v \<leftarrow> pr_serv (peers n s);
     n1 \<leftarrow> each (exit_one_client quitmsg) (sv_users v) n;
     v1 \<leftarrow> pr_serv (peers n1 s);
     each (\<lambda>t n. do { n' \<leftarrow> recurse_remove_clients k quitmsg t n; exit_one_client quitmsg t n' }) (sv_servers v1) n1 }"

definition link_name :: "net \<Rightarrow> cid \<Rightarrow> string" where
  "link_name n t = take HOSTLEN
    (case pr_serv (peers n t) of
       Some v \<Rightarrow> (case sv_link_name v of Some x \<Rightarrow> x | None \<Rightarrow> cl_name (cl n (me (wd n))))
     | None \<Rightarrow> cl_name (cl n (me (wd n))))"

definition remove_dependents :: "nat \<Rightarrow> cid \<Rightarrow> cid option \<Rightarrow> string \<Rightarrow> string \<Rightarrow> net \<Rightarrow> net option" where
  "remove_dependents k s fr comment splitstr n = do {
     n1 \<leftarrow> each (\<lambda>t n. recurse_send_quits k s fr t comment splitstr (link_name n t) s n) (serv_list n) n;
     recurse_remove_clients k splitstr s n1 }"

subsection \<open>exit_client\<close>

text \<open>The local part of an exit: the list of unregistered connections or of local users, then \<^verbatim>\<open>serv_list\<close>, the counters of a link, and the connection.\<close>

definition shown_ip :: "net \<Rightarrow> cid \<Rightarrow> string" where
  "shown_ip n c = (if hide_spoof_ips n \<and> pr_ipspoof (peers n c) then ''255.255.255.255'' else cl_sockhost (cl n c))"

definition leave_local_lists :: "cid \<Rightarrow> string \<Rightarrow> net \<Rightarrow> net" where
  "leave_local_lists c comment n =
    (if cl_status (cl n c) \<in> {STAT_CONNECTING, STAT_HANDSHAKE, STAT_ME, STAT_UNKNOWN}
     then n\<lparr>unknown_list := remove1 c (unknown_list n)\<rparr>
     else if IsClient (cl n c)
     then (let n1 = n\<lparr>Count_local := Count_local n - 1,
                     oper_list := (if cl_oper (cl n c) then remove1 c (oper_list n) else oper_list n),
                     local_client_list := remove1 c (local_client_list n)\<rparr>;
               n2 = (if pr_listing (peers n1 c)
                     then upd_peer c (\<lambda>p. p\<lparr>pr_listing := False\<rparr>) (notify (Calls ''free_list_task'' c) n1) else n1) in
           notify (To_ops ''CLIEXIT: %s %s %s %s 0 %s'' [cl_name (cl n c), cl_username (cl n c), cl_realhost (cl n c), shown_ip n c, comment])
             (notify (To_ops ''Client exiting: %s (%s@%s) [%s] [%s]'' [cl_name (cl n c), cl_username (cl n c), cl_realhost (cl n c), comment, shown_ip n c]) n2))
     else n)"

definition leave_serv_list :: "cid \<Rightarrow> net \<Rightarrow> net option" where
  "leave_serv_list c n =
    (if cl_status (cl n c) \<in> {STAT_SERVER, STAT_CONNECTING, STAT_HANDSHAKE} \<and> c \<in> set (serv_list n)
     then map_option (\<lambda>ks. n\<lparr>serv_list := remove1 c (serv_list n), chcap_combos := ks\<rparr>)
            (unset_chcap_usage_counts (pr_caps (peers n c)) (chcap_combos n))
     else Some n)"

definition drop_link :: "cid \<Rightarrow> net \<Rightarrow> net" where
  "drop_link c n =
    (if IsServer (cl n c)
     then (let n1 = n\<lparr>Count_myserver := Count_myserver n - 1\<rparr> in
           if hub (cfg (wd n)) then remove_lazylink_flags (pr_serverMask (peers n1 c)) n1 else n1\<lparr>uplink := None\<rparr>)
     else n)"

definition close_local :: "cid \<Rightarrow> cid \<Rightarrow> string \<Rightarrow> net \<Rightarrow> net" where
  "close_local c fr comment n =
    (let n1 = notify (Calls ''log_user_exit'' c) n;
         n2 = (if pr_dead (peers n1 c) then n1
               else notify (To_one c ''ERROR :Closing Link: %s (%s)'' [cl_host (cl n1 c), comment])
                      (if IsServer (cl n1 c)
                       then notify (To_one c '':%s SQUIT %s :%s'' [ID_or_name n1 fr c, cl_name (cl n1 (me (wd n1))), comment]) n1 else n1)) in
     upd_peer c (\<lambda>p. p\<lparr>pr_from := None\<rparr>) (notify (Calls ''close_connection'' c) n2))"

definition exit_local :: "cid \<Rightarrow> cid \<Rightarrow> string \<Rightarrow> net \<Rightarrow> net option" where
  "exit_local c fr comment n = do {
     let n1 = upd_peer c (\<lambda>p. p\<lparr>pr_closing := True\<rparr>) n;
     let n2 = (if pr_iphash (peers n1 c) then notify (Calls ''remove_one_ip'' c) n1 else n1);
     n3 \<leftarrow> leave_serv_list c (leave_local_lists c comment (notify (Calls ''delete_auth'' c) n2));
     Some (close_local c fr comment (drop_link c n3)) }"

definition exit_client :: "nat \<Rightarrow> cid \<Rightarrow> cid \<Rightarrow> string \<Rightarrow> net \<Rightarrow> net option" where
  "exit_client k c fr comment n =
    (if cl_local (cl n c) \<and> pr_closing (peers n c) then Some n
     else do {
       n1 \<leftarrow> (if cl_local (cl n c) then exit_local c fr comment n else Some n);
       n2 \<leftarrow> (if IsServer (cl n1 c)
              then (let splitstr = (if hide_servers n1 then ''*.net *.split''
                                    else take (2 * HOSTLEN + 1) (cl_name (cl n1 (cl_servptr (cl n1 c))) @ '' '' @ cl_name (cl n1 c))) in
                    do { m \<leftarrow> remove_dependents k c (pr_from (peers n1 fr)) comment splitstr n1;
                         Some (if cl_servptr (cl m c) = me (wd m) then notify (Calls ''ilog'' c) (notify (To_ops ''%s was connected for %d seconds'' [cl_name (cl m c)]) m) else m) })
              else Some (if IsClient (cl n1 c) \<and> \<not> pr_killed (peers n1 c)
                then notify (To_network (pr_from (peers n1 fr)) c 0 CAP_TS6 ('':'' @ cl_name (cl n1 c) @ '' QUIT :'' @ comment))
                      (notify (To_network (pr_from (peers n1 fr)) c CAP_TS6 0
                        ('':'' @ (if cl_id (cl n1 c) \<noteq> [] then cl_id (cl n1 c) else cl_name (cl n1 c)) @ '' QUIT :'' @ comment)) n1)
                else n1));
       exit_one_client comment c n2 })"

definition free_exited_clients :: "net \<Rightarrow> net" where
  "free_exited_clients n = fold (\<lambda>c n. notify (Calls ''free_client'' c) (n\<lparr>dead_list := remove1 c (dead_list n)\<rparr>)) (dead_list n) n"

subsection \<open>Leaving every channel\<close>

definition plain :: "client \<Rightarrow> client" where
  "plain x = x\<lparr>cl_channel := [], cl_invited := []\<rparr>"

text \<open>What leaving and losing invitations keep of a world.\<close>

definition fewer :: "world \<Rightarrow> world \<Rightarrow> bool" where
  "fewer w w' \<longleftrightarrow> client_names w' = client_names w \<and> id_names w' = id_names w \<and> me w' = me w \<and> cfg w' = cfg w \<and>
     CurrentTime w' = CurrentTime w \<and>
     (\<forall>x. plain (clients w' x) = plain (clients w x) \<and> set (cl_invited (clients w' x)) \<subseteq> set (cl_invited (clients w x)))"

lemma fewer_refl [simp]: "fewer w w" by (simp add: fewer_def)

lemma fewer_trans: "fewer w v \<Longrightarrow> fewer v u \<Longrightarrow> fewer w u"
  unfolding fewer_def by (metis subset_trans)

lemma fewer_del_invite: "fewer w (del_invite ch c w)"
  using set_remove1_subset by (fastforce simp: fewer_def del_invite_def plain_def)

lemma fewer_fold_invite: "fewer w (fold (del_invite ch) cs w)"
  by (induction cs arbitrary: w) (auto intro: fewer_trans fewer_del_invite)

lemma invites_ok_fold: "invites_ok w \<Longrightarrow> invites_ok (fold (del_invite ch) cs w)"
  by (induction cs arbitrary: w) (auto intro: invites_ok_del)

lemma free_fewer:
  "fewer w (free_channel_list t ch w)" "fewer w (free_topic ch w)"
  by (cases t; simp add: fewer_def free_channel_list_def upd_id_list_def free_topic_def)+

lemma free_invites:
  "invites_ok (free_channel_list t ch w) = invites_ok w" "invites_ok (free_topic ch w) = invites_ok w"
  by (simp_all add: invites_ok_def)

lemma fewer_cong:
  "fewer w v \<Longrightarrow> clients v' = clients v \<Longrightarrow> client_names v' = client_names v \<Longrightarrow> id_names v' = id_names v \<Longrightarrow> me v' = me v \<Longrightarrow>
    cfg v' = cfg v \<Longrightarrow> CurrentTime v' = CurrentTime v \<Longrightarrow> fewer w v'"
  by (simp add: fewer_def)

lemma destroy_fewer: "fewer w (destroy_channel ch w)"
  unfolding destroy_channel_def Let_def
  by (rule fewer_cong [OF fewer_trans [OF fewer_fold_invite fewer_trans [OF free_fewer(1) fewer_trans [OF free_fewer(1)
    fewer_trans [OF free_fewer(1) free_fewer(2)]]]]]) simp_all

lemma invites_cong: "clients v = clients w \<Longrightarrow> chans v = chans w \<Longrightarrow> invites_ok w \<Longrightarrow> invites_ok v"
  by (simp add: invites_ok_def)

lemma destroy_invites: "invites_ok w \<Longrightarrow> invites_ok (destroy_channel ch w)"
  unfolding destroy_channel_def Let_def
  by (rule invites_cong [of _ "free_topic ch (free_channel_list CHFL_INVEX ch (free_channel_list CHFL_EXCEPTION ch
    (free_channel_list CHFL_BAN ch (fold (del_invite ch) (ch_invites (chans w ch)) w))))"]) (simp_all add: free_invites invites_ok_fold)

lemma remove_user_fewer:
  assumes "mships w m = Some x" "remove_user_from_channel m w = Some w'" "invites_ok w"
  shows "fewer w w'" "invites_ok w'"
proof -
  define w3 where "w3 = (let w1 = upd_chan (ms_chptr x) (\<lambda>x. x\<lparr>ch_members := remove1 m (ch_members x)\<rparr>) w;
      w2 = upd_client (ms_client x) (\<lambda>x. x\<lparr>cl_channel := remove1 m (cl_channel x)\<rparr>) w1 in w2\<lparr>mships := (mships w2)(m := None)\<rparr>)"
  have w': "w' = (if ch_members (chans w3 (ms_chptr x)) = [] then destroy_channel (ms_chptr x) w3 else w3)"
    using assms(1,2) unfolding w3_def remove_user_from_channel_def Let_def by simp
  have f: "fewer w w3" by (simp add: w3_def Let_def fewer_def plain_def)
  have i: "invites_ok w3" using assms(3) by (simp add: w3_def Let_def invites_ok_def)
  show "fewer w w'" "invites_ok w'"
    unfolding w' using f i fewer_trans [OF f destroy_fewer] destroy_invites by auto
qed

text \<open>All the memberships of a client at once.\<close>

lemma each_leave:
  assumes "links_ok (wd n)" "invites_ok (wd n)" "cl_channel (clients (wd n) c) = ms"
  shows "\<exists>w'. each leave ms n = Some (n\<lparr>wd := w'\<rparr>) \<and> fewer (wd n) w' \<and> links_ok w' \<and> invites_ok w' \<and>
    cl_channel (clients w' c) = [] \<and>
    (\<forall>m. mships w' m = (case mships (wd n) m of Some x \<Rightarrow> if ms_client x = c then None else Some x | None \<Rightarrow> None))"
  using assms
proof (induction ms arbitrary: n)
  case Nil
  then have "mships (wd n) m = Some x \<Longrightarrow> ms_client x \<noteq> c" for m x
    using links_okD(4) [OF Nil.prems(1), of m c] by auto
  then have "mships (wd n) m = (case mships (wd n) m of Some x \<Rightarrow> if ms_client x = c then None else Some x | None \<Rightarrow> None)" for m
    by (cases "mships (wd n) m") auto
  with Nil show ?case by (intro exI [of _ "wd n"]) simp
next
  case (Cons m ms)
  note L = links_okD [OF Cons.prems(1)]
  obtain x where x: "mships (wd n) m = Some x" "ms_client x = c" using L(4) [of m c] Cons.prems(3) by auto
  obtain w1 where w1: "remove_user_from_channel m (wd n) = Some w1" "links_ok w1"
    using remove_user_ok [OF Cons.prems(1) x(1)] by blast
  note F = remove_user_frame [OF x(1) w1(1)] and f = remove_user_fewer [OF x(1) w1(1) Cons.prems(2)]
  have "cl_channel (clients w1 c) = ms" using F(3) [of c] x(2) Cons.prems(3) by simp
  then obtain w' where w': "each leave ms (n\<lparr>wd := w1\<rparr>) = Some (n\<lparr>wd := w'\<rparr>)" "fewer w1 w'" "links_ok w'" "invites_ok w'"
      "cl_channel (clients w' c) = []"
      "\<forall>m. mships w' m = (case mships w1 m of Some x \<Rightarrow> if ms_client x = c then None else Some x | None \<Rightarrow> None)"
    using Cons.IH [of "n\<lparr>wd := w1\<rparr>"] w1(2) f(2) by auto
  have "mships w' i = (case mships (wd n) i of Some x \<Rightarrow> if ms_client x = c then None else Some x | None \<Rightarrow> None)" for i
    using w'(6) F(1) x by (cases "i = m") auto
  moreover have "each leave (m # ms) n = Some (n\<lparr>wd := w'\<rparr>)" using w'(1) w1(1) by (simp add: leave_def)
  ultimately show ?case using w'(2-5) fewer_trans [OF f(1)] by blast
qed

text \<open>All its invitations.\<close>

lemma drop_invites:
  assumes "invites_ok w" "cl_invited (clients w c) = chs"
  shows "fewer w (fold (\<lambda>ch. del_invite ch c) chs w) \<and> invites_ok (fold (\<lambda>ch. del_invite ch c) chs w) \<and>
    cl_invited (clients (fold (\<lambda>ch. del_invite ch c) chs w) c) = [] \<and>
    mships (fold (\<lambda>ch. del_invite ch c) chs w) = mships w \<and> cl_channel (clients (fold (\<lambda>ch. del_invite ch c) chs w) c) = cl_channel (clients w c) \<and>
    (links_ok w \<longrightarrow> links_ok (fold (\<lambda>ch. del_invite ch c) chs w))"
  using assms
proof (induction chs arbitrary: w)
  case (Cons ch chs)
  let ?w = "del_invite ch c w"
  have ok: "invites_ok ?w" "cl_invited (clients ?w c) = chs" using Cons.prems by (simp_all add: invites_ok_del del_invite_lists)
  have "links_ok w \<Longrightarrow> links_ok ?w" by (simp add: links_ok_def)
  then show ?case using Cons.IH [OF ok] fewer_trans [OF fewer_del_invite] by auto
qed auto

subsection \<open>Leaving every list of accepted clients\<close>

definition accepts_ok :: "net \<Rightarrow> bool" where
  "accepts_ok n \<longleftrightarrow> (\<forall>a b. distinct (pr_allow_list (peers n a)) \<and> distinct (pr_on_allow_list (peers n a)) \<and>
     (a \<in> set (pr_allow_list (peers n b)) \<longleftrightarrow> b \<in> set (pr_on_allow_list (peers n a))))"

lemma accepts_okD:
  assumes "accepts_ok n"
  shows "distinct (pr_allow_list (peers n a))" "distinct (pr_on_allow_list (peers n a))"
    "a \<in> set (pr_allow_list (peers n b)) \<longleftrightarrow> b \<in> set (pr_on_allow_list (peers n a))"
  using assms by (simp_all add: accepts_ok_def)

definition unaccepted :: "peer \<Rightarrow> peer" where
  "unaccepted p = p\<lparr>pr_allow_list := [], pr_on_allow_list := []\<rparr>"

definition less_accepts :: "net \<Rightarrow> net \<Rightarrow> bool" where
  "less_accepts n n' \<longleftrightarrow> n\<lparr>peers := peers n'\<rparr> = n' \<and> (\<forall>x. unaccepted (peers n' x) = unaccepted (peers n x) \<and>
     set (pr_allow_list (peers n' x)) \<subseteq> set (pr_allow_list (peers n x)) \<and>
     set (pr_on_allow_list (peers n' x)) \<subseteq> set (pr_on_allow_list (peers n x)))"

lemma less_accepts_refl [simp]: "less_accepts n n" by (simp add: less_accepts_def)

lemma less_accepts_trans:
  assumes "less_accepts n m" "less_accepts m l" shows "less_accepts n l"
proof -
  have "n\<lparr>peers := peers m\<rparr> = m" "m\<lparr>peers := peers l\<rparr> = l" using assms by (simp_all add: less_accepts_def)
  then have "n\<lparr>peers := peers l\<rparr> = l" by (metis net.update_convs(2) net.surjective)
  then show ?thesis using assms unfolding less_accepts_def by (metis subset_trans)
qed

lemma accept_found_others: "s \<notin> set es \<Longrightarrow> fold (accept_found s t) es n = n"
  by (induction es) (auto simp: accept_found_def)

lemma del_from_accept_correct:
  assumes "accepts_ok n"
  shows "accepts_ok (del_from_accept s t n)" "less_accepts n (del_from_accept s t n)"
    "pr_allow_list (peers (del_from_accept s t n) x) =
      (if x = t then remove1 s (pr_allow_list (peers n x)) else pr_allow_list (peers n x))"
    "pr_on_allow_list (peers (del_from_accept s t n) x) =
      (if x = s then remove1 t (pr_on_allow_list (peers n x)) else pr_on_allow_list (peers n x))"
proof -
  note A = accepts_okD [OF assms]
  let ?n = "n\<lparr>peers := (\<lambda>x. (peers n x)\<lparr>pr_allow_list := (if x = t then remove1 s (pr_allow_list (peers n x)) else pr_allow_list (peers n x)),
    pr_on_allow_list := (if x = s then remove1 t (pr_on_allow_list (peers n x)) else pr_on_allow_list (peers n x))\<rparr>)\<rparr>"
  have eq: "del_from_accept s t n = ?n"
  proof (cases "s \<in> set (pr_allow_list (peers n t))")
    case True
    then obtain as bs where f: "pr_allow_list (peers n t) = as @ s # bs" "s \<notin> set as" by (meson split_list_first)
    have "s \<notin> set bs" using A(1) [of t] f by auto
    then have "del_from_accept s t n = accept_found s t s n"
      unfolding del_from_accept_def f(1) by (simp add: accept_found_others f(2))
    also have "\<dots> = ?n"
    proof -
      have "filter (\<lambda>x. x \<noteq> t) (pr_on_allow_list (peers n s)) = remove1 t (pr_on_allow_list (peers n s))"
        using A(2) [of s] by (auto simp: distinct_remove1_removeAll removeAll_filter_not_eq intro!: filter_cong)
      then have "peers (accept_found s t s n) x = peers ?n x" for x
        by (cases "x = s"; cases "x = t"; simp add: accept_found_def upd_peer_def)
      then have "peers (accept_found s t s n) = peers ?n" by blast
      then show ?thesis by (simp add: accept_found_def upd_peer_def)
    qed
    finally show ?thesis .
  next
    case False
    then have "t \<notin> set (pr_on_allow_list (peers n s))" using A(3) by blast
    with False have "peers n x = peers ?n x" for x by (cases "x = s"; cases "x = t"; simp add: remove1_idem)
    then have "peers n = peers ?n" by blast
    then have "n = ?n" by simp
    with False show ?thesis by (simp add: del_from_accept_def accept_found_others)
  qed
  show "less_accepts n (del_from_accept s t n)"
    unfolding eq using set_remove1_subset by (fastforce simp: less_accepts_def unaccepted_def)
  show "accepts_ok (del_from_accept s t n)"
    unfolding eq accepts_ok_def using A by auto
  show "pr_allow_list (peers (del_from_accept s t n) x) =
      (if x = t then remove1 s (pr_allow_list (peers n x)) else pr_allow_list (peers n x))"
    "pr_on_allow_list (peers (del_from_accept s t n) x) =
      (if x = s then remove1 t (pr_on_allow_list (peers n x)) else pr_on_allow_list (peers n x))"
    unfolding eq by simp_all
qed

text \<open>One side and then the other of what a client accepts and who accepts it.\<close>

lemma drop_accepts:
  "accepts_ok n \<Longrightarrow> pr_allow_list (peers n c) = ss \<Longrightarrow>
    accepts_ok (fold (\<lambda>s. del_from_accept s c) ss n) \<and> less_accepts n (fold (\<lambda>s. del_from_accept s c) ss n) \<and>
    pr_allow_list (peers (fold (\<lambda>s. del_from_accept s c) ss n) c) = []"
proof (induction ss arbitrary: n)
  case (Cons s ss)
  note D = del_from_accept_correct [OF Cons.prems(1), of s c]
  have "pr_allow_list (peers (del_from_accept s c n) c) = ss" using D(3) [of c] Cons.prems(2) by simp
  with Cons.IH [OF D(1) this] less_accepts_trans [OF D(2)] show ?case by simp
qed simp

lemma drop_on_accepts:
  "accepts_ok n \<Longrightarrow> pr_on_allow_list (peers n c) = ts \<Longrightarrow>
    accepts_ok (fold (\<lambda>t. del_from_accept c t) ts n) \<and> less_accepts n (fold (\<lambda>t. del_from_accept c t) ts n) \<and>
    pr_on_allow_list (peers (fold (\<lambda>t. del_from_accept c t) ts n) c) = []"
proof (induction ts arbitrary: n)
  case (Cons t ts)
  note D = del_from_accept_correct [OF Cons.prems(1), of c t]
  have "pr_on_allow_list (peers (del_from_accept c t n) c) = ts" using D(4) [of c] Cons.prems(2) by simp
  with Cons.IH [OF D(1) this] less_accepts_trans [OF D(2)] show ?case by simp
qed simp

lemma del_all_their_accepts_correct:
  assumes "accepts_ok n"
  shows "accepts_ok (del_all_their_accepts c n)" "less_accepts n (del_all_their_accepts c n)"
    "pr_on_allow_list (peers (del_all_their_accepts c n) c) = []" "c \<notin> set (pr_allow_list (peers (del_all_their_accepts c n) x))"
proof -
  note D = drop_on_accepts [OF assms refl, of c]
  show 1: "accepts_ok (del_all_their_accepts c n)" "less_accepts n (del_all_their_accepts c n)"
      "pr_on_allow_list (peers (del_all_their_accepts c n) c) = []"
    using D by (simp_all add: del_all_their_accepts_def)
  show "c \<notin> set (pr_allow_list (peers (del_all_their_accepts c n) x))" using accepts_okD(3) [OF 1(1), of c x] 1(3) by simp
qed

lemma del_all_accepts_correct:
  assumes "accepts_ok n"
  shows "accepts_ok (del_all_accepts c n)" "less_accepts n (del_all_accepts c n)"
    "pr_allow_list (peers (del_all_accepts c n) c) = []" "pr_on_allow_list (peers (del_all_accepts c n) c) = []"
    "c \<notin> set (pr_allow_list (peers (del_all_accepts c n) x))" "c \<notin> set (pr_on_allow_list (peers (del_all_accepts c n) x))"
proof -
  let ?m = "fold (\<lambda>s. del_from_accept s c) (pr_allow_list (peers n c)) n"
  have m: "accepts_ok ?m" "less_accepts n ?m" "pr_allow_list (peers ?m c) = []" using drop_accepts [OF assms refl] by auto
  note D = del_all_their_accepts_correct [OF m(1), of c]
  show 1: "accepts_ok (del_all_accepts c n)" "less_accepts n (del_all_accepts c n)" "pr_on_allow_list (peers (del_all_accepts c n) c) = []"
      "c \<notin> set (pr_allow_list (peers (del_all_accepts c n) x))"
    using D less_accepts_trans [OF m(2)] by (simp_all add: del_all_accepts_def)
  show 2: "pr_allow_list (peers (del_all_accepts c n) c) = []" using D(2) [unfolded less_accepts_def, THEN conjunct2, rule_format, of c] m(3) by (simp add: del_all_accepts_def)
  show "c \<notin> set (pr_on_allow_list (peers (del_all_accepts c n) x))" using accepts_okD(3) [OF 1(1), of x c] 2 by simp
qed

subsection \<open>The hosts of users\<close>

definition hosts_ok :: "hash_state \<Rightarrow> bool" where
  "hosts_ok u \<longleftrightarrow> (\<exists>A. userhost_table u A \<and> unique_names (\<lambda>x. uh_host (userhosts u x)) A)"

lemma delete_user_host_ok:
  assumes "hosts_ok u" "cstr host"
  shows "\<exists>u'. delete_user_host user host g u = Some u' \<and> hosts_ok u'"
proof -
  obtain A where A: "userhost_table u A" "unique_names (\<lambda>x. uh_host (userhosts u x)) A" using assms(1) by (auto simp: hosts_ok_def)
  obtain r u1 where l: "hash_find_userhost host u = Some (r, u1)" "userhost_table u1 A"
      "(\<lambda>x. uh_host (userhosts u1 x)) = (\<lambda>x. uh_host (userhosts u x))"
    using hosts.look_holds [OF A(1) assms(2)] by blast
  have ok1: "hosts_ok u1" using l(2,3) A(2) by (auto simp: hosts_ok_def)
  show ?thesis
  proof (cases r)
    case None then show ?thesis using l(1) ok1 by (simp add: delete_user_host_def)
  next
    case (Some x)
    have "hosts_ok (set_userhost x (userhosts u1 x\<lparr>uh_list := ns\<rparr>) u1) \<and>
        (\<exists>u'. hash_del_userhost x (set_userhost x (userhosts u1 x\<lparr>uh_list := ns\<rparr>) u1) = Some u' \<and> hosts_ok u')" for ns
    proof -
      let ?s = "set_userhost x (userhosts u1 x\<lparr>uh_list := ns\<rparr>) u1"
      have s: "userhost_table ?s A" "(\<lambda>x. uh_host (userhosts ?s x)) = (\<lambda>x. uh_host (userhosts u x))"
        using set_userhost_same_host [of "userhosts u1 x\<lparr>uh_list := ns\<rparr>" u1 x] l(2,3) by simp_all
      obtain u' where "hash_del_userhost x ?s = Some u'" "userhost_table u' (A - {x})"
          "(\<lambda>x. uh_host (userhosts u' x)) = (\<lambda>x. uh_host (userhosts ?s x))"
        using hosts.del_holds [OF s(1)] by blast
      moreover have "unique_names (\<lambda>x. uh_host (userhosts u x)) (A - {x})" using A(2) by (auto simp: unique_names_def)
      ultimately show ?thesis using s A(2) unfolding hosts_ok_def by metis
    qed
    then show ?thesis using l(1) Some ok1 by (auto simp: delete_user_host_def Let_def split: option.split)
  qed
qed

end
