(* ===== verification/Exit_Net.thy ===== *)
theory Exit_Net
  imports Client_Exit
begin

section \<open>The lists of clients and the tree of servers\<close>

text \<open>
  The invariant of all the lists a client hangs in, and proofs that \<open>exit_one_client\<close> and
  \<open>recurse_remove_clients\<close> of theory \<open>Client_Exit\<close> keep it and take exactly the clients meant off the network.
\<close>

subsection \<open>The invariant of the lists of clients\<close>

definition known :: "net \<Rightarrow> cid set" where
  "known n = set (global_client_list n) \<union> set (unknown_list n)"

definition person :: "net \<Rightarrow> cid set" where
  "person n = {c \<in> known n. IsClient (cl n c)}"

definition hubs :: "net \<Rightarrow> cid set" where
  "hubs n = {s \<in> known n. IsServer (cl n s) \<or> s = me (wd n)}"

definition hub_ok :: "net \<Rightarrow> cid \<Rightarrow> bool" where
  "hub_ok n s \<longleftrightarrow> (\<exists>v. pr_serv (peers n s) = Some v \<and> distinct (sv_users v) \<and> distinct (sv_servers v) \<and>
     set (sv_users v) = {c \<in> person n. cl_servptr (cl n c) = s} \<and>
     set (sv_servers v) = {t \<in> known n. IsServer (cl n t) \<and> cl_servptr (cl n t) = s})"

text \<open>The servers form a tree of depth at most \<open>k\<close> whose root is \<^verbatim>\<open>me\<close>; the lists of every server hold what hangs on it.\<close>

definition tree_ok :: "nat \<Rightarrow> net \<Rightarrow> bool" where
  "tree_ok k n \<longleftrightarrow> (\<forall>s\<in>hubs n. hub_ok n s) \<and>
     (\<forall>c\<in>known n. IsClient (cl n c) \<or> IsServer (cl n c) \<longrightarrow> cl_servptr (cl n c) \<in> hubs n \<and>
        (cl_local (cl n c) \<or> (\<exists>f v. pr_from (peers n c) = Some f \<and> pr_serv (peers n f) = Some v))) \<and>
     (\<exists>d. \<forall>s\<in>hubs n. d s < k \<and> (IsServer (cl n s) \<longrightarrow> d s < d (cl_servptr (cl n s))))"

text \<open>\<open>E\<close> holds the clients whose exit has begun.\<close>

definition lists_ok :: "cid set \<Rightarrow> net \<Rightarrow> bool" where
  "lists_ok E n \<longleftrightarrow> global_client_list n \<noteq> [] \<and> last (global_client_list n) = me (wd n) \<and> cl_status (cl n (me (wd n))) = STAT_ME \<and>
     distinct (global_client_list n) \<and> distinct (unknown_list n) \<and> distinct (local_client_list n) \<and> distinct (oper_list n) \<and>
     distinct (serv_list n) \<and> distinct (global_serv_list n) \<and> distinct (client_names (wd n)) \<and> distinct (id_names (wd n)) \<and>
     distinct (dead_list n) \<and> set (global_client_list n) \<inter> set (unknown_list n) = {} \<and> set (dead_list n) \<inter> (known n \<union> E) = {} \<and>
     (\<forall>c\<in>set (global_client_list n). c = me (wd n) \<or> IsClient (cl n c) \<or> IsServer (cl n c)) \<and>
     (\<forall>c\<in>known n. cl_local (cl n c) \<and> (IsClient (cl n c) \<or> IsServer (cl n c)) \<longrightarrow> cl_servptr (cl n c) = me (wd n)) \<and>
     (\<forall>c\<in>set (unknown_list n). cl_local (cl n c) \<and> cl_status (cl n c) \<in> {STAT_CONNECTING, STAT_HANDSHAKE, STAT_UNKNOWN}) \<and>
     set (local_client_list n) \<subseteq> {c \<in> person n. cl_local (cl n c)} \<and>
     set (oper_list n) \<subseteq> {c \<in> person n. cl_local (cl n c) \<and> cl_oper (cl n c)} \<and>
     set (serv_list n) \<subseteq> {c \<in> known n. cl_local (cl n c) \<and> cl_status (cl n c) \<in> {STAT_SERVER, STAT_CONNECTING, STAT_HANDSHAKE}} \<and>
     set (global_serv_list n) \<subseteq> hubs n \<and>
     set (client_names (wd n)) \<subseteq> {c \<in> known n \<union> E. cl_name (cl n c) \<noteq> []} \<and>
     set (id_names (wd n)) \<subseteq> {c \<in> known n \<union> E. cl_id (cl n c) \<noteq> []} \<and>
     (\<forall>c\<in>known n. pr_closing (peers n c) \<longrightarrow> c \<in> E)"

text \<open>What refers to a client: memberships, invitations, accepted clients and the history.\<close>

definition refs_ok :: "net \<Rightarrow> bool" where
  "refs_ok n \<longleftrightarrow> links_ok (wd n) \<and> invites_ok (wd n) \<and> accepts_ok n \<and> hist_ok (hist n) \<and>
     (\<forall>m x. mships (wd n) m = Some x \<longrightarrow> ms_client x \<in> person n) \<and>
     (\<forall>c. cl_invited (cl n c) \<noteq> [] \<longrightarrow> c \<in> person n \<and> cl_local (cl n c)) \<and>
     (\<forall>c. pr_allow_list (peers n c) \<noteq> [] \<or> pr_on_allow_list (peers n c) \<noteq> [] \<longrightarrow> c \<in> person n) \<and>
     (\<forall>x\<in>set (history_of (hist n)). \<forall>c. online x = Some c \<longrightarrow> c \<in> person n)"

definition names_ok :: "cid set \<Rightarrow> net \<Rightarrow> bool" where
  "names_ok E n \<longleftrightarrow> hosts_ok (uhosts n) \<and> (\<forall>c\<in>known n \<union> E. cstr (cl_name (cl n c)) \<and> cstr (cl_realhost (cl n c))) \<and>
     (\<forall>c\<in>person n. length (cl_name (cl n c)) < NICKLEN (cfg (wd n))) \<and>
     (\<forall>s v x. pr_serv (peers n s) = Some v \<longrightarrow> sv_link_name v = Some x \<longrightarrow> cstr x)"

text \<open>Each link is counted in the first combination of capabilities that fits it.\<close>

definition first_combo :: "32 word \<Rightarrow> chcap list \<Rightarrow> nat" where
  "first_combo caps ks = length (takeWhile (\<lambda>k. \<not> caps_fit caps k) ks)"

definition combos_ok :: "net \<Rightarrow> bool" where
  "combos_ok n \<longleftrightarrow> (\<forall>s\<in>set (serv_list n). first_combo (pr_caps (peers n s)) (chcap_combos n) < length (chcap_combos n)) \<and>
     (\<forall>i<length (chcap_combos n). cc_count (chcap_combos n ! i) =
        length (filter (\<lambda>s. first_combo (pr_caps (peers n s)) (chcap_combos n) = i) (serv_list n)))"

definition net_ok :: "nat \<Rightarrow> cid set \<Rightarrow> net \<Rightarrow> bool" where
  "net_ok k E n \<longleftrightarrow> tree_ok k n \<and> lists_ok E n \<and> refs_ok n \<and> names_ok E n \<and> combos_ok n"

text \<open>Nothing leads to a client any more, but the list of those to be freed.\<close>

definition forgotten :: "net \<Rightarrow> cid \<Rightarrow> bool" where
  "forgotten n c \<longleftrightarrow> c \<notin> set (global_client_list n) \<union> set (unknown_list n) \<union> set (local_client_list n) \<union> set (oper_list n) \<union>
       set (serv_list n) \<union> set (global_serv_list n) \<union> set (client_names (wd n)) \<union> set (id_names (wd n)) \<and>
     (\<forall>s\<in>hubs n. \<forall>v. pr_serv (peers n s) = Some v \<longrightarrow> c \<notin> set (sv_users v) \<union> set (sv_servers v)) \<and>
     (\<forall>m x. mships (wd n) m = Some x \<longrightarrow> ms_client x \<noteq> c) \<and> (\<forall>ch. c \<notin> set (ch_invites (chans (wd n) ch))) \<and>
     (\<forall>x. c \<notin> set (pr_allow_list (peers n x)) \<union> set (pr_on_allow_list (peers n x))) \<and>
     (\<forall>x\<in>set (history_of (hist n)). online x \<noteq> Some c)"

lemma unknown_forgotten:
  assumes "net_ok k {} n" "c \<notin> known n"
  shows "forgotten n c"
proof -
  have L: "lists_ok {} n" and R: "refs_ok n" and T: "tree_ok k n" using assms(1) by (simp_all add: net_ok_def)
  have p: "c \<notin> person n" "c \<notin> hubs n" using assms(2) by (auto simp: person_def hubs_def)
  have 1: "c \<notin> set (sv_users v) \<union> set (sv_servers v)" if "s \<in> hubs n" "pr_serv (peers n s) = Some v" for s v
  proof -
    have "hub_ok n s" using T that(1) by (simp add: tree_ok_def)
    then show ?thesis using that(2) p(1) assms(2) by (auto simp: hub_ok_def)
  qed
  have e: "cl_invited (cl n c) = []" "pr_allow_list (peers n c) = []" "pr_on_allow_list (peers n c) = []"
    using R p(1) by (auto simp: refs_ok_def)
  have 2: "c \<notin> set (ch_invites (chans (wd n) ch))" for ch
    using invites_okD(3) [of "wd n" c ch] R e(1) by (auto simp: refs_ok_def cl_def)
  have 3: "c \<notin> set (pr_allow_list (peers n x)) \<union> set (pr_on_allow_list (peers n x))" for x
    using accepts_okD(3) [of n c x] accepts_okD(3) [of n x c] R e(2,3) by (auto simp: refs_ok_def)
  show ?thesis
    unfolding forgotten_def using 1 2 3 L R p assms(2) by (auto simp: lists_ok_def refs_ok_def known_def)
qed

subsection \<open>What changes nothing the invariant looks at\<close>

definition same :: "net \<Rightarrow> net \<Rightarrow> bool" where
  "same n n' \<longleftrightarrow> clients (wd n') = clients (wd n) \<and> chans (wd n') = chans (wd n) \<and> mships (wd n') = mships (wd n) \<and>
     client_names (wd n') = client_names (wd n) \<and> id_names (wd n') = id_names (wd n) \<and> me (wd n') = me (wd n) \<and>
     cfg (wd n') = cfg (wd n) \<and> CurrentTime (wd n') = CurrentTime (wd n) \<and> peers n' = peers n \<and> hist n' = hist n \<and>
     uhosts n' = uhosts n \<and> unknown_list n' = unknown_list n \<and> local_client_list n' = local_client_list n \<and>
     oper_list n' = oper_list n \<and> serv_list n' = serv_list n \<and> global_serv_list n' = global_serv_list n \<and>
     global_client_list n' = global_client_list n \<and> dead_list n' = dead_list n \<and> chcap_combos n' = chcap_combos n \<and>
     hide_servers n' = hide_servers n"

lemma same_refl [simp]: "same n n" by (simp add: same_def)

lemma same_trans: "same n m \<Longrightarrow> same m l \<Longrightarrow> same n l" by (simp add: same_def)

lemma same_notify [simp]: "same n (notify e n)" by (simp add: same_def notify_def in_world_def)

lemma same_check_splitmode [simp]: "same n (check_splitmode n)"
  by (simp add: same_def check_splitmode_def Let_def notify_def in_world_def)

lemma same_stats: "same n (update_client_exit_stats c n)"
proof -
  have "same n (n\<lparr>Count_total := a, Count_oper := b, Count_invisi := d\<rparr>)" for a b d by (simp add: same_def)
  then show ?thesis
    using same_trans [OF _ same_check_splitmode] by (auto simp: update_client_exit_stats_def Let_def)
qed

lemma same_fields:
  assumes "same n n'"
  shows "cl n' = cl n" "known n' = known n" "person n' = person n" "hubs n' = hubs n"
  using assms by (auto simp: same_def cl_def known_def person_def hubs_def fun_eq_iff)

lemma same_net_ok:
  assumes "same n n'"
  shows "net_ok k E n' = net_ok k E n"
proof -
  have s: "links_ok (wd n') = links_ok (wd n)" "invites_ok (wd n') = invites_ok (wd n)" "accepts_ok n' = accepts_ok n"
    using assms by (simp_all add: same_def links_ok_def invites_ok_def accepts_ok_def)
  show ?thesis
    unfolding net_ok_def tree_ok_def hub_ok_def lists_ok_def refs_ok_def names_ok_def combos_ok_def same_fields [OF assms] s
    using assms by (simp add: same_def)
qed

lemma upd_peer_frame [simp]:
  "wd (upd_peer c f n) = wd n" "hist (upd_peer c f n) = hist n" "uhosts (upd_peer c f n) = uhosts n"
  "unknown_list (upd_peer c f n) = unknown_list n" "local_client_list (upd_peer c f n) = local_client_list n"
  "oper_list (upd_peer c f n) = oper_list n" "serv_list (upd_peer c f n) = serv_list n"
  "global_serv_list (upd_peer c f n) = global_serv_list n" "global_client_list (upd_peer c f n) = global_client_list n"
  "dead_list (upd_peer c f n) = dead_list n" "chcap_combos (upd_peer c f n) = chcap_combos n" "hide_servers (upd_peer c f n) = hide_servers n"
  "peers (upd_peer c f n) = (peers n)(c := f (peers n c))" "cl (upd_peer c f n) = cl n"
  by (simp_all add: upd_peer_def cl_def fun_eq_iff)

subsection \<open>One client less\<close>

text \<open>A peer without the lists an exit takes entries from.\<close>

definition bare :: "peer \<Rightarrow> peer" where
  "bare p = (unaccepted p)\<lparr>pr_serv := None, pr_dead := False\<rparr>"

text \<open>The lists of a server after the clients \<open>C\<close> have left them.\<close>

definition without :: "cid set \<Rightarrow> server option \<Rightarrow> server option \<Rightarrow> bool" where
  "without C a b \<longleftrightarrow> (case a of None \<Rightarrow> b = None
     | Some v \<Rightarrow> \<exists>v'. b = Some v' \<and> sv_users v' = filter (\<lambda>x. x \<notin> C) (sv_users v) \<and>
         sv_servers v' = filter (\<lambda>x. x \<notin> C) (sv_servers v) \<and> sv_link_name v' = sv_link_name v)"

text \<open>
  \<open>gone C n n'\<close>: the clients \<open>C\<close> have been taken off, nothing else has changed.  Whether something leads to one of them is
  for the invariant to say.
\<close>

definition gone :: "cid set \<Rightarrow> net \<Rightarrow> net \<Rightarrow> bool" where
  "gone C n n' \<longleftrightarrow>
     (\<forall>x. plain (cl n' x) = plain (cl n x) \<and> set (cl_invited (cl n' x)) \<subseteq> set (cl_invited (cl n x)) \<and>
       bare (peers n' x) = bare (peers n x) \<and> (pr_dead (peers n' x) \<longleftrightarrow> pr_dead (peers n x) \<or> x \<in> C)) \<and>
     (\<forall>s\<in>hubs n - C. without C (pr_serv (peers n s)) (pr_serv (peers n' s))) \<and>
     (\<forall>s. map_option sv_link_name (pr_serv (peers n' s)) = map_option sv_link_name (pr_serv (peers n s))) \<and>
     (\<forall>m. mships (wd n') m = (case mships (wd n) m of Some x \<Rightarrow> if ms_client x \<in> C then None else Some x | None \<Rightarrow> None)) \<and>
     me (wd n') = me (wd n) \<and> cfg (wd n') = cfg (wd n) \<and> CurrentTime (wd n') = CurrentTime (wd n) \<and>
     global_client_list n' = filter (\<lambda>x. x \<notin> C) (global_client_list n) \<and> set (dead_list n') = set (dead_list n) \<union> C \<and>
     unknown_list n' = unknown_list n \<and> local_client_list n' = local_client_list n \<and> oper_list n' = oper_list n \<and>
     serv_list n' = serv_list n \<and> chcap_combos n' = chcap_combos n \<and> hide_servers n' = hide_servers n"

lemma without_trans: "without C a b \<Longrightarrow> without D b c \<Longrightarrow> without (C \<union> D) a c"
  by (cases a) (auto simp: without_def intro!: filter_cong)

lemma without_none: "without {} a a" by (cases a) (auto simp: without_def)

lemma gone_fields:
  assumes "gone C n n'"
  shows "plain (cl n' x) = plain (cl n x)" "cl_status (cl n' x) = cl_status (cl n x)" "cl_name (cl n' x) = cl_name (cl n x)"
    "cl_id (cl n' x) = cl_id (cl n x)" "cl_servptr (cl n' x) = cl_servptr (cl n x)" "cl_local (cl n' x) = cl_local (cl n x)"
    "cl_realhost (cl n' x) = cl_realhost (cl n x)" "cl_oper (cl n' x) = cl_oper (cl n x)"
    "pr_from (peers n' x) = pr_from (peers n x)" "pr_caps (peers n' x) = pr_caps (peers n x)"
    "pr_closing (peers n' x) = pr_closing (peers n x)"
proof -
  have p: "plain (cl n' x) = plain (cl n x)" "bare (peers n' x) = bare (peers n x)" using assms by (simp_all add: gone_def)
  show "plain (cl n' x) = plain (cl n x)" by (rule p)
  show "cl_status (cl n' x) = cl_status (cl n x)" "cl_name (cl n' x) = cl_name (cl n x)"
    "cl_id (cl n' x) = cl_id (cl n x)" "cl_servptr (cl n' x) = cl_servptr (cl n x)" "cl_local (cl n' x) = cl_local (cl n x)"
    "cl_realhost (cl n' x) = cl_realhost (cl n x)" "cl_oper (cl n' x) = cl_oper (cl n x)"
    using arg_cong [OF p(1), of cl_status] arg_cong [OF p(1), of cl_name] arg_cong [OF p(1), of cl_id] arg_cong [OF p(1), of cl_servptr]
      arg_cong [OF p(1), of cl_local] arg_cong [OF p(1), of cl_realhost] arg_cong [OF p(1), of cl_oper] by (simp_all add: plain_def)
  show "pr_from (peers n' x) = pr_from (peers n x)" "pr_caps (peers n' x) = pr_caps (peers n x)"
    "pr_closing (peers n' x) = pr_closing (peers n x)"
    using arg_cong [OF p(2), of pr_from] arg_cong [OF p(2), of pr_caps] arg_cong [OF p(2), of pr_closing]
    by (simp_all add: bare_def unaccepted_def)
qed

lemma gone_known:
  assumes "gone C n n'" "C \<inter> set (unknown_list n) = {}"
  shows "known n' = known n - C" "person n' = person n - C" "me (wd n) \<notin> C \<Longrightarrow> hubs n' = hubs n - C"
proof -
  show k: "known n' = known n - C" using assms by (auto simp: known_def gone_def)
  show "person n' = person n - C" by (auto simp: person_def k IsClient_def gone_fields [OF assms(1)])
  have "me (wd n') = me (wd n)" using assms(1) by (simp add: gone_def)
  then show "me (wd n) \<notin> C \<Longrightarrow> hubs n' = hubs n - C" by (auto simp: hubs_def k IsServer_def gone_fields [OF assms(1)])
qed

lemma same_gone: "same n n' \<Longrightarrow> gone {} n n'"
  by (auto simp: same_def gone_def without_none cl_def split: option.split)

lemma gone_trans:
  assumes "gone C n m" "gone D m l" "C \<inter> set (unknown_list n) = {}"
  shows "gone (C \<union> D) n l"
proof -
  have h: "s \<in> hubs m - D" if "s \<in> hubs n - (C \<union> D)" for s
  proof -
    have "s \<in> known m" using that gone_known(1) [OF assms(1,3)] by (auto simp: hubs_def)
    moreover have "me (wd m) = me (wd n)" using assms(1) by (simp add: gone_def)
    ultimately show ?thesis using that by (auto simp: hubs_def IsServer_def gone_fields [OF assms(1)])
  qed
  have "without (C \<union> D) (pr_serv (peers n s)) (pr_serv (peers l s))" if "s \<in> hubs n - (C \<union> D)" for s
  proof -
    have "s \<in> hubs n - C" using that by blast
    then have "without C (pr_serv (peers n s)) (pr_serv (peers m s))" using assms(1) by (simp add: gone_def)
    moreover have "without D (pr_serv (peers m s)) (pr_serv (peers l s))" using assms(2) h [OF that] by (simp add: gone_def)
    ultimately show ?thesis by (rule without_trans)
  qed
  moreover have "mships (wd l) i = (case mships (wd n) i of Some x \<Rightarrow> if ms_client x \<in> C \<union> D then None else Some x | None \<Rightarrow> None)" for i
    using assms(1,2) by (cases "mships (wd n) i") (auto simp: gone_def)
  ultimately show ?thesis
    using assms(1,2) unfolding gone_def by (simp add: filter_filter Un_assoc) (metis (no_types, lifting) subset_trans)
qed

text \<open>A client off everything but the tables of names and the list of all clients.\<close>

definition off :: "cid \<Rightarrow> net \<Rightarrow> net \<Rightarrow> bool" where
  "off c n n' \<longleftrightarrow>
     (\<forall>x. plain (cl n' x) = plain (cl n x) \<and> set (cl_invited (cl n' x)) \<subseteq> set (cl_invited (cl n x)) \<and>
       bare (peers n' x) = bare (peers n x) \<and> pr_dead (peers n' x) = pr_dead (peers n x) \<and>
       set (pr_allow_list (peers n' x)) \<subseteq> set (pr_allow_list (peers n x)) \<and>
       set (pr_on_allow_list (peers n' x)) \<subseteq> set (pr_on_allow_list (peers n x))) \<and>
     (\<forall>s\<in>hubs n - {c}. without {c} (pr_serv (peers n s)) (pr_serv (peers n' s))) \<and>
     (\<forall>s. map_option sv_link_name (pr_serv (peers n' s)) = map_option sv_link_name (pr_serv (peers n s))) \<and>
     (\<forall>m. mships (wd n') m = (case mships (wd n) m of Some x \<Rightarrow> if ms_client x = c then None else Some x | None \<Rightarrow> None)) \<and>
     me (wd n') = me (wd n) \<and> cfg (wd n') = cfg (wd n) \<and> CurrentTime (wd n') = CurrentTime (wd n) \<and>
     client_names (wd n') = client_names (wd n) \<and> id_names (wd n') = id_names (wd n) \<and> uhosts n' = uhosts n \<and>
     global_client_list n' = global_client_list n \<and> dead_list n' = dead_list n \<and>
     unknown_list n' = unknown_list n \<and> local_client_list n' = local_client_list n \<and> oper_list n' = oper_list n \<and>
     serv_list n' = serv_list n \<and> chcap_combos n' = chcap_combos n \<and> hide_servers n' = hide_servers n \<and>
     global_serv_list n' = remove1 c (global_serv_list n) \<and>
     links_ok (wd n') \<and> invites_ok (wd n') \<and> accepts_ok n' \<and> hist_ok (hist n') \<and>
     cl_invited (cl n' c) = [] \<and> pr_allow_list (peers n' c) = [] \<and> pr_on_allow_list (peers n' c) = [] \<and>
     (\<forall>x\<in>set (history_of (hist n')). \<forall>d. online x = Some d \<longrightarrow> d \<in> person n \<and> d \<noteq> c)"

lemma without_others:
  assumes "c \<notin> set (sv_users v)" "c \<notin> set (sv_servers v)"
  shows "without {c} (Some v) (Some v)"
proof -
  have "filter (\<lambda>x. x \<notin> {c}) (sv_users v) = sv_users v" "filter (\<lambda>x. x \<notin> {c}) (sv_servers v) = sv_servers v"
    using assms by (auto intro: filter_True)
  then show ?thesis by (simp add: without_def)
qed

lemma no_refs:
  assumes "net_ok k E n" "c \<notin> person n"
  shows "mships (wd n) m = (case mships (wd n) m of Some x \<Rightarrow> if ms_client x = c then None else Some x | None \<Rightarrow> None)"
    "cl_invited (cl n c) = []" "pr_allow_list (peers n c) = []" "pr_on_allow_list (peers n c) = []"
    "\<forall>x\<in>set (history_of (hist n)). \<forall>d. online x = Some d \<longrightarrow> d \<in> person n \<and> d \<noteq> c"
    "links_ok (wd n)" "invites_ok (wd n)" "accepts_ok n" "hist_ok (hist n)"
proof -
  have R: "refs_ok n" using assms(1) by (simp add: net_ok_def)
  show "mships (wd n) m = (case mships (wd n) m of Some x \<Rightarrow> if ms_client x = c then None else Some x | None \<Rightarrow> None)"
    using R assms(2) by (cases "mships (wd n) m") (auto simp: refs_ok_def)
  show "cl_invited (cl n c) = []" "pr_allow_list (peers n c) = []" "pr_on_allow_list (peers n c) = []"
    "\<forall>x\<in>set (history_of (hist n)). \<forall>d. online x = Some d \<longrightarrow> d \<in> person n \<and> d \<noteq> c"
    "links_ok (wd n)" "invites_ok (wd n)" "accepts_ok n" "hist_ok (hist n)"
    using R assms(2) by (auto simp: refs_ok_def)
qed

text \<open>The lists of a server lose a client where it hangs, and only there.\<close>

lemma hub_lists:
  assumes "tree_ok k n" "s \<in> hubs n"
  obtains v where "pr_serv (peers n s) = Some v"
    "filter (\<lambda>x. x \<notin> {c}) (sv_users v) = (if c \<in> person n \<and> cl_servptr (cl n c) = s then remove1 c (sv_users v) else sv_users v)"
    "filter (\<lambda>x. x \<notin> {c}) (sv_servers v) =
      (if c \<in> known n \<and> IsServer (cl n c) \<and> cl_servptr (cl n c) = s then remove1 c (sv_servers v) else sv_servers v)"
proof -
  have "hub_ok n s" using assms by (simp add: tree_ok_def)
  then obtain v where v: "pr_serv (peers n s) = Some v" "distinct (sv_users v)" "distinct (sv_servers v)"
    "set (sv_users v) = {c \<in> person n. cl_servptr (cl n c) = s}"
    "set (sv_servers v) = {t \<in> known n. IsServer (cl n t) \<and> cl_servptr (cl n t) = s}" by (auto simp: hub_ok_def)
  have r: "filter (\<lambda>x. x \<notin> {c}) xs = (if c \<in> set xs then remove1 c xs else xs)" if "distinct xs" for xs
  proof (cases "c \<in> set xs")
    case True
    then show ?thesis using that by (auto simp: distinct_remove1_removeAll removeAll_filter_not_eq intro!: filter_cong)
  next
    case False
    then show ?thesis by (auto intro!: filter_True)
  qed
  show thesis
  proof (rule that [OF v(1)])
    show "filter (\<lambda>x. x \<notin> {c}) (sv_users v) = (if c \<in> person n \<and> cl_servptr (cl n c) = s then remove1 c (sv_users v) else sv_users v)"
      unfolding r [OF v(2)] v(4) by simp
    show "filter (\<lambda>x. x \<notin> {c}) (sv_servers v) =
      (if c \<in> known n \<and> IsServer (cl n c) \<and> cl_servptr (cl n c) = s then remove1 c (sv_servers v) else sv_servers v)"
      unfolding r [OF v(3)] v(5) by simp
  qed
qed

lemma nobody_off:
  assumes "net_ok k E n" "c \<notin> known n"
  shows "off c n n"
proof -
  have L: "lists_ok E n" and T: "tree_ok k n" using assms(1) by (simp_all add: net_ok_def)
  have c: "c \<notin> person n" "c \<notin> hubs n" "c \<notin> set (global_serv_list n)" using L assms(2) by (auto simp: person_def hubs_def lists_ok_def)
  have w: "without {c} (pr_serv (peers n s)) (pr_serv (peers n s))" if s: "s \<in> hubs n" for s
    by (rule hub_lists [OF T s, of c]) (use c(1) assms(2) in \<open>simp add: without_def\<close>)
  show ?thesis unfolding off_def using no_refs [OF assms(1) c(1)] w c(3) by (simp add: remove1_idem)
qed

lemma upd_serv_eq: "pr_serv (peers n s) = Some v \<Longrightarrow> upd_serv s f n = Some (upd_peer s (\<lambda>p. p\<lparr>pr_serv := Some (f v)\<rparr>) n)"
  by (simp add: upd_serv_def)

lemma bare_serv [simp]: "bare (p\<lparr>pr_serv := x\<rparr>) = bare p" by (simp add: bare_def unaccepted_def)

lemma off_serv:
  assumes "net_ok k E n" "c \<notin> person n" "n' = n\<lparr>peers := p', global_serv_list := remove1 c (global_serv_list n)\<rparr>"
    "\<And>x. (p' x)\<lparr>pr_serv := None\<rparr> = (peers n x)\<lparr>pr_serv := None\<rparr>"
    "\<And>s. s \<in> hubs n - {c} \<Longrightarrow> without {c} (pr_serv (peers n s)) (pr_serv (p' s))"
    "\<And>s. map_option sv_link_name (pr_serv (p' s)) = map_option sv_link_name (pr_serv (peers n s))"
  shows "off c n n'"
proof -
  note R = no_refs [OF assms(1,2)]
  have f: "bare (p' x) = bare (peers n x)" "pr_dead (p' x) = pr_dead (peers n x)"
    "pr_allow_list (p' x) = pr_allow_list (peers n x)" "pr_on_allow_list (p' x) = pr_on_allow_list (peers n x)" for x
    using arg_cong [OF assms(4) [of x], of bare] arg_cong [OF assms(4) [of x], of pr_dead]
      arg_cong [OF assms(4) [of x], of pr_allow_list] arg_cong [OF assms(4) [of x], of pr_on_allow_list] by simp_all
  have cl: "cl n' = cl n" unfolding assms(3) by (simp add: cl_def fun_eq_iff)
  have acc: "accepts_ok n'" using R(8) f by (simp add: accepts_ok_def assms(3))
  have m: "mships (wd n') m = (case mships (wd n) m of Some x \<Rightarrow> if ms_client x = c then None else Some x | None \<Rightarrow> None)" for m
    using R(1) [of m] by (simp add: assms(3))
  show ?thesis
    unfolding off_def cl
    by (intro conjI allI ballI; (rule m)?)
      (simp_all add: assms(3) f assms(5,6) R(2-9) acc [unfolded assms(3)])
qed

lemma exit_server_off:
  assumes "net_ok k E n" "c \<in> known n" "IsServer (cl n c)"
  shows "\<exists>n'. exit_server c n = Some n' \<and> off c n n'"
proof -
  have L: "lists_ok E n" and T: "tree_ok k n" using assms(1) by (simp_all add: net_ok_def)
  let ?s = "cl_servptr (cl n c)"
  have p: "c \<notin> person n" using assms(3) by (auto simp: person_def IsClient_def IsServer_def)
  have s: "?s \<in> hubs n" and f: "cl_local (cl n c) \<or> (\<exists>f v. pr_from (peers n c) = Some f \<and> pr_serv (peers n f) = Some v)"
    using T assms(2,3) by (auto simp: tree_ok_def)
  obtain v where v: "pr_serv (peers n ?s) = Some v"
    "filter (\<lambda>x. x \<notin> {c}) (sv_users v) = sv_users v" "filter (\<lambda>x. x \<notin> {c}) (sv_servers v) = remove1 c (sv_servers v)"
    by (rule hub_lists [OF T s, of c]) (use p assms(2,3) in simp)
  let ?n1 = "upd_peer ?s (\<lambda>p. p\<lparr>pr_serv := Some (v\<lparr>sv_servers := remove1 c (sv_servers v)\<rparr>)\<rparr>) n"
  let ?n2 = "?n1\<lparr>global_serv_list := remove1 c (global_serv_list n)\<rparr>"
  have w: "without {c} (pr_serv (peers n h)) (pr_serv (peers ?n2 h))" if h: "h \<in> hubs n" for h
  proof (cases "h = ?s")
    case True then show ?thesis using v by (simp add: without_def)
  next
    case False
    show ?thesis by (rule hub_lists [OF T h, of c]) (use False p in \<open>simp add: without_def\<close>)
  qed
  show ?thesis
  proof (cases "cl_local (cl n c)")
    case True
    have "off c n ?n2"
      by (rule off_serv [OF assms(1) p, of _ "peers ?n2"]) (use w v(1) in \<open>simp_all add: upd_peer_def\<close>)
    then show ?thesis using True upd_serv_eq [OF v(1)] by (simp add: exit_server_def)
  next
    case False
    then obtain f u where f: "pr_from (peers n c) = Some f" "pr_serv (peers n f) = Some u" using f by blast
    obtain u2 where u2: "pr_serv (peers ?n2 f) = Some u2" using f(2) by (cases "f = ?s") auto
    let ?n3 = "upd_peer f (\<lambda>p. p\<lparr>pr_serv := Some (u2\<lparr>sv_dep_servers := sv_dep_servers u2 - 1\<rparr>)\<rparr>) ?n2"
    have w3: "without {c} (pr_serv (peers n h)) (pr_serv (peers ?n3 h))" if h: "h \<in> hubs n" for h
      using w [OF h] u2 by (cases "h = f") (auto simp: without_def split: option.splits)
    have "map_option sv_link_name (pr_serv (peers ?n2 h)) = map_option sv_link_name (pr_serv (peers n h))" for h
      using v(1) by simp
    then have l3: "map_option sv_link_name (pr_serv (peers ?n3 h)) = map_option sv_link_name (pr_serv (peers n h))" for h
      using u2 by (cases "h = f") (simp_all, metis option.map(2))
    have "off c n ?n3"
      by (rule off_serv [OF assms(1) p, of _ "peers ?n3"]) (use w3 l3 in \<open>simp_all add: upd_peer_def\<close>)
    moreover have "pr_from (peers ?n2 c) = Some f" using f(1) by simp
    ultimately show ?thesis using False upd_serv_eq [OF v(1)] upd_serv_eq [OF u2] by (simp add: exit_server_def)
  qed
qed

lemma off_user:
  assumes "net_ok k E n" "c \<in> person n" "n' = n\<lparr>wd := w', peers := p', hist := h\<rparr>"
    "fewer (wd n) w'" "links_ok w'" "invites_ok w'" "cl_invited (clients w' c) = []"
    "\<And>m. mships w' m = (case mships (wd n) m of Some x \<Rightarrow> if ms_client x = c then None else Some x | None \<Rightarrow> None)"
    "accepts_ok n'" "pr_allow_list (p' c) = []" "pr_on_allow_list (p' c) = []"
    "\<And>x. bare (p' x) = bare (peers n x) \<and> pr_dead (p' x) = pr_dead (peers n x) \<and>
       set (pr_allow_list (p' x)) \<subseteq> set (pr_allow_list (peers n x)) \<and> set (pr_on_allow_list (p' x)) \<subseteq> set (pr_on_allow_list (peers n x))"
    "\<And>s. s \<in> hubs n - {c} \<Longrightarrow> without {c} (pr_serv (peers n s)) (pr_serv (p' s))"
    "\<And>s. map_option sv_link_name (pr_serv (p' s)) = map_option sv_link_name (pr_serv (peers n s))"
    "hist_ok h" "\<forall>x\<in>set (history_of h). \<forall>d. online x = Some d \<longrightarrow> d \<in> person n \<and> d \<noteq> c"
  shows "off c n n'"
proof -
  have "lists_ok E n" using assms(1) by (simp add: net_ok_def)
  moreover have "c \<notin> hubs n" using assms(2) calculation by (auto simp: person_def hubs_def IsClient_def IsServer_def lists_ok_def)
  ultimately have g: "remove1 c (global_serv_list n) = global_serv_list n" by (auto simp: lists_ok_def intro: remove1_idem)
  have f: "plain (cl n' x) = plain (cl n x)" "set (cl_invited (cl n' x)) \<subseteq> set (cl_invited (cl n x))" for x
    using assms(4) by (simp_all add: assms(3) cl_def fewer_def)
  have w: "me w' = me (wd n)" "cfg w' = cfg (wd n)" "CurrentTime w' = CurrentTime (wd n)" "client_names w' = client_names (wd n)"
    "id_names w' = id_names (wd n)" using assms(4) by (simp_all add: fewer_def)
  have acc: "accepts_ok (n\<lparr>wd := w', peers := p', hist := h\<rparr>)" using assms(9) by (simp add: assms(3))
  have inv: "cl_invited (cl n' c) = []" using assms(7) by (simp add: cl_def assms(3))
  have ms: "mships (wd n') m = (case mships (wd n) m of Some x \<Rightarrow> if ms_client x = c then None else Some x | None \<Rightarrow> None)" for m
    using assms(8) [of m] by (simp add: assms(3))
  show ?thesis
    unfolding off_def
    by (intro conjI allI ballI; (rule ms f inv)?) (simp_all add: assms(3) w g acc assms(5,6,10-16))
qed

lemma same_accepts:
  "(\<And>x. pr_allow_list (peers m x) = pr_allow_list (peers n x) \<and> pr_on_allow_list (peers m x) = pr_on_allow_list (peers n x)) \<Longrightarrow>
    accepts_ok m = accepts_ok n"
  by (simp add: accepts_ok_def)

lemma hist_exit:
  assumes "hist_ok H" "cstr (cl_name (clients w c))" "length (cl_name (clients w c)) < NICKLEN (cfg w)"
    "\<forall>x\<in>set (history_of H). \<forall>d. online x = Some d \<longrightarrow> d \<in> P"
  shows "\<exists>h. off_history c (add_history w info c False H) = Some h \<and> hist_ok h \<and>
    (\<forall>x\<in>set (history_of h). \<forall>d. online x = Some d \<longrightarrow> d \<in> P \<and> d \<noteq> c)"
proof -
  note A = add_history_refines [OF assms(1-3), of info False]
  obtain h where h: "off_history c (add_history w info c False H) = Some h" "hist_ok h"
    "history_of h = map (\<lambda>x. core (forget c x)) (history_of (add_history w info c False H))"
    using off_history_refines [of "add_history w info c False H" c] A by blast
  have "online (new_entry w info c False (hist_key H)) = None" by (simp add: new_entry_def core_def fill_frame)
  then have "\<forall>x\<in>set (history_of (add_history w info c False H)). \<forall>d. online x = Some d \<longrightarrow> d \<in> P"
    using A assms(4) by (metis in_set_takeD option.distinct(1) set_ConsD)
  then have "\<forall>x\<in>set (history_of h). \<forall>d. online x = Some d \<longrightarrow> d \<in> P \<and> d \<noteq> c"
    unfolding h(3) by (auto simp: core_def forget_def split: if_splits)
  with h(1,2) show ?thesis by blast
qed

lemma exit_user_off:
  assumes ok: "net_ok k E n" and c: "c \<in> person n"
  shows "\<exists>n'. exit_user c q n = Some n' \<and> off c n n'"
proof -
  have L: "lists_ok E n" and T: "tree_ok k n" and R: "refs_ok n" and N: "names_ok E n" using ok by (simp_all add: net_ok_def)
  let ?s = "cl_servptr (cl n c)"
  have k: "c \<in> known n" "IsClient (cl n c)" "\<not> IsServer (cl n c)" using c by (auto simp: person_def IsClient_def IsServer_def)
  have s: "?s \<in> hubs n" and up: "cl_local (cl n c) \<or> (\<exists>f v. pr_from (peers n c) = Some f \<and> pr_serv (peers n f) = Some v)"
    using T k by (auto simp: tree_ok_def)
  obtain v where v: "pr_serv (peers n ?s) = Some v"
    "filter (\<lambda>x. x \<notin> {c}) (sv_users v) = remove1 c (sv_users v)" "filter (\<lambda>x. x \<notin> {c}) (sv_servers v) = sv_servers v"
    by (rule hub_lists [OF T s, of c]) (use c k in simp)
  define p1 where "p1 = peers (upd_peer ?s (\<lambda>p. p\<lparr>pr_serv := Some (v\<lparr>sv_users := remove1 c (sv_users v)\<rparr>)\<rparr>) n)"
  define e where "e = To_common c False ('':'' @ nuh_text (cl_name (cl n c)) (cl_username (cl n c)) (cl_host (cl n c)) @ '' QUIT :'' @ q)"
  define n2 where "n2 = n\<lparr>wd := send e (wd n), peers := p1\<rparr>"
  have n1: "notify e (upd_peer ?s (\<lambda>p. p\<lparr>pr_serv := Some (v\<lparr>sv_users := remove1 c (sv_users v)\<rparr>)\<rparr>) n) = n2"
    by (simp add: n2_def p1_def notify_def in_world_def upd_peer_def)
  have w2: "links_ok (wd n2)" "invites_ok (wd n2)" "fewer (wd n) (wd n2)" "clients (wd n2) = clients (wd n)" "mships (wd n2) = mships (wd n)"
    using R by (simp_all add: n2_def refs_ok_def links_ok_def invites_ok_def fewer_def)
  obtain w' where w': "each leave (cl_channel (cl n2 c)) n2 = Some (n2\<lparr>wd := w'\<rparr>)" "fewer (wd n2) w'" "links_ok w'" "invites_ok w'"
    "\<forall>m. mships w' m = (case mships (wd n2) m of Some x \<Rightarrow> if ms_client x = c then None else Some x | None \<Rightarrow> None)"
    using each_leave [OF w2(1,2) refl, of c] by (auto simp: cl_def)
  define n3 where "n3 = n2\<lparr>wd := w'\<rparr>"
  have fw: "fewer (wd n) w'" using fewer_trans [OF w2(3) w'(2)] .
  have b1: "bare (p1 x) = bare (peers n x)" "pr_dead (p1 x) = pr_dead (peers n x)" "pr_allow_list (p1 x) = pr_allow_list (peers n x)"
    "pr_on_allow_list (p1 x) = pr_on_allow_list (peers n x)" "pr_from (p1 x) = pr_from (peers n x)" for x by (simp_all add: p1_def)
  have a3: "accepts_ok n3" using R same_accepts [of n3 n] b1 by (simp add: refs_ok_def n3_def n2_def)
  note D = del_all_accepts_correct [OF a3, of c]
  let ?n4 = "del_all_accepts c n3"
  define p4 where "p4 = peers ?n4"
  have n4: "?n4 = n\<lparr>wd := w', peers := p4\<rparr>" using D(2) by (simp add: less_accepts_def p4_def n3_def n2_def)
  have u4: "unaccepted (p4 x) = unaccepted (p1 x)" "set (pr_allow_list (p4 x)) \<subseteq> set (pr_allow_list (peers n x))"
    "set (pr_on_allow_list (p4 x)) \<subseteq> set (pr_on_allow_list (peers n x))" for x
    using D(2) b1(3,4) by (simp_all add: less_accepts_def p4_def n3_def n2_def)
  have s4: "pr_serv (p4 x) = pr_serv (p1 x)" "pr_from (p4 x) = pr_from (p1 x)" "bare (p4 x) = bare (peers n x)" "pr_dead (p4 x) = pr_dead (peers n x)" for x
    using arg_cong [OF u4(1) [of x], of pr_serv] arg_cong [OF u4(1) [of x], of pr_from] arg_cong [OF u4(1) [of x], of pr_dead] b1(1,2) [of x] u4(1) [of x]
    by (simp_all add: unaccepted_def bare_def)
  define info where "info = (\<lambda>x. pr_info (p4 x))"
  have pc: "plain (clients w' c) = plain (cl n c)" "cfg w' = cfg (wd n)" using fw by (simp_all add: fewer_def cl_def)
  have nm: "cl_name (clients w' c) = cl_name (cl n c)" using arg_cong [OF pc(1), of cl_name] by (simp add: plain_def)
  have "cstr (cl_name (cl n c)) \<and> length (cl_name (cl n c)) < NICKLEN (cfg (wd n))" using N c k(1) by (simp add: names_ok_def)
  then obtain h where h: "off_history c (add_history w' info c False (hist n)) = Some h" "hist_ok h"
    "\<forall>x\<in>set (history_of h). \<forall>d. online x = Some d \<longrightarrow> d \<in> person n \<and> d \<noteq> c"
    using hist_exit [of "hist n" w' c "person n" info] R by (auto simp: nm pc(2) refs_ok_def)
  define n6 where "n6 = n\<lparr>wd := w', peers := p4, hist := h\<rparr>"
  have eu: "exit_user c q n = (if \<not> cl_local (cl n c)
     then (case pr_from (peers n6 c) of None \<Rightarrow> None | Some f \<Rightarrow> upd_serv f (\<lambda>v. v\<lparr>sv_dep_users := sv_dep_users v - 1\<rparr>) n6)
     else Some (in_world (fold (\<lambda>ch. del_invite ch c) (cl_invited (cl n6 c))) n6))"
    unfolding exit_user_def Let_def v(1) option.case upd_serv_eq [OF v(1)] Option.bind.simps e_def [symmetric] n1 w'(1)
      n3_def [symmetric] n4
    using h(1) by (simp add: info_def n6_def cong: option.case_cong)
  have m: "mships w' m = (case mships (wd n) m of Some x \<Rightarrow> if ms_client x = c then None else Some x | None \<Rightarrow> None)" for m
    using w'(5) w2(5) by simp
  have wo: "without {c} (pr_serv (peers n t)) (pr_serv (p1 t))" if t: "t \<in> hubs n" for t
  proof (cases "t = ?s")
    case True then show ?thesis using v by (simp add: without_def p1_def)
  next
    case False
    show ?thesis by (rule hub_lists [OF T t, of c]) (use False k in \<open>simp add: without_def p1_def\<close>)
  qed
  have ln: "map_option sv_link_name (pr_serv (p1 t)) = map_option sv_link_name (pr_serv (peers n t))" for t using v(1) by (simp add: p1_def)
  have pa: "pr_allow_list (p4 c) = []" "pr_on_allow_list (p4 c) = []" using D(3,4) by (simp_all add: p4_def)
  have a4: "accepts_ok n6" using D(1) same_accepts [of n6 ?n4] by (simp add: n6_def p4_def)
  show ?thesis
  proof (cases "cl_local (cl n c)")
    case True
    let ?w = "fold (\<lambda>ch. del_invite ch c) (cl_invited (cl n6 c)) w'"
    have I: "fewer w' ?w \<and> invites_ok ?w \<and> cl_invited (clients ?w c) = [] \<and> mships ?w = mships w' \<and> links_ok ?w"
      using drop_invites [OF w'(4), of c "cl_invited (cl n6 c)"] w'(3) by (simp add: cl_def n6_def)
    have "off c n (n\<lparr>wd := ?w, peers := p4, hist := h\<rparr>)"
    proof (rule off_user [OF ok c refl])
      show "fewer (wd n) ?w" using fewer_trans [OF fw] I by blast
      show "accepts_ok (n\<lparr>wd := ?w, peers := p4, hist := h\<rparr>)" by (rule iffD2 [OF same_accepts a4]) (simp add: n6_def)
      show "pr_allow_list (p4 c) = []" "pr_on_allow_list (p4 c) = []" by (rule pa)+
      show "links_ok ?w" "invites_ok ?w" "cl_invited (clients ?w c) = []" using I by blast+
      fix i show "mships ?w i = (case mships (wd n) i of Some x \<Rightarrow> if ms_client x = c then None else Some x | None \<Rightarrow> None)"
        using I m [of i] by metis
    next
      fix x show "bare (p4 x) = bare (peers n x) \<and> pr_dead (p4 x) = pr_dead (peers n x) \<and> set (pr_allow_list (p4 x)) \<subseteq> set (pr_allow_list (peers n x)) \<and>
          set (pr_on_allow_list (p4 x)) \<subseteq> set (pr_on_allow_list (peers n x))" using s4(3,4) u4(2,3) by blast
    next
      fix t show "map_option sv_link_name (pr_serv (p4 t)) = map_option sv_link_name (pr_serv (peers n t))" using ln s4(1) by metis
    next
      fix t assume "t \<in> hubs n - {c}"
      then show "without {c} (pr_serv (peers n t)) (pr_serv (p4 t))" using wo s4(1) by (metis DiffD1)
    qed (use h in blast)+
    moreover have "in_world (fold (\<lambda>ch. del_invite ch c) (cl_invited (cl n6 c))) n6 = n\<lparr>wd := ?w, peers := p4, hist := h\<rparr>"
      by (simp add: in_world_def n6_def)
    ultimately show ?thesis using True eu by simp
  next
    case False
    then obtain f u where f: "pr_from (peers n c) = Some f" "pr_serv (peers n f) = Some u" using up by blast
    have "pr_from (peers n6 c) = Some f" using f(1) s4(2) b1(5) by (simp add: n6_def)
    moreover obtain u4 where u4': "pr_serv (peers n6 f) = Some u4"
      using ln [of f] f(2) s4(1) [of f] by (auto simp: n6_def)
    define p7 where "p7 = p4(f := (p4 f)\<lparr>pr_serv := Some (u4\<lparr>sv_dep_users := sv_dep_users u4 - 1\<rparr>)\<rparr>)"
    let ?n7 = "n\<lparr>wd := w', peers := p7, hist := h\<rparr>"
    have "exit_user c q n = Some ?n7"
      using calculation False eu upd_serv_eq [OF u4'] by (simp add: upd_peer_def n6_def p7_def)
    moreover have "off c n ?n7"
    proof (rule off_user [OF ok c refl fw w'(3,4)])
      have "cl_invited (cl n c) = []" using R False by (auto simp: refs_ok_def)
      moreover have "set (cl_invited (clients w' c)) \<subseteq> set (cl_invited (cl n c))" using fw by (simp add: fewer_def cl_def)
      ultimately show "cl_invited (clients w' c) = []" by simp
      show "accepts_ok ?n7" by (rule iffD2 [OF same_accepts a4]) (simp add: n6_def p7_def)
      show "pr_allow_list (p7 c) = []" "pr_on_allow_list (p7 c) = []" using pa by (cases "c = f"; simp add: p7_def)+
      fix x show "bare (p7 x) = bare (peers n x) \<and> pr_dead (p7 x) = pr_dead (peers n x) \<and> set (pr_allow_list (p7 x)) \<subseteq> set (pr_allow_list (peers n x)) \<and>
          set (pr_on_allow_list (p7 x)) \<subseteq> set (pr_on_allow_list (peers n x))"
        using s4(3,4) [of x] s4(3,4) [of f] u4(2,3) [of x] u4(2,3) [of f] by (simp add: p7_def)
    next
      fix t show "map_option sv_link_name (pr_serv (p7 t)) = map_option sv_link_name (pr_serv (peers n t))"
        using ln [of t] s4(1) [of t] u4' by (cases "t = f") (auto simp: p7_def n6_def)
    next
      fix t assume "t \<in> hubs n - {c}"
      then show "without {c} (pr_serv (peers n t)) (pr_serv (p7 t))"
        using wo [of t] s4(1) [of t] u4' by (cases "t = f") (auto simp: p7_def n6_def without_def split: option.splits)
    next
      show "\<And>i. mships w' i = (case mships (wd n) i of Some x \<Rightarrow> if ms_client x = c then None else Some x | None \<Rightarrow> None)" by (rule m)
    qed (use h in blast)+
    ultimately show ?thesis by blast
  qed
qed

lemma in_world_frame [simp]:
  "wd (in_world f n) = f (wd n)" "peers (in_world f n) = peers n" "hist (in_world f n) = hist n" "uhosts (in_world f n) = uhosts n"
  "unknown_list (in_world f n) = unknown_list n" "local_client_list (in_world f n) = local_client_list n"
  "oper_list (in_world f n) = oper_list n" "serv_list (in_world f n) = serv_list n" "global_serv_list (in_world f n) = global_serv_list n"
  "global_client_list (in_world f n) = global_client_list n" "dead_list (in_world f n) = dead_list n"
  "chcap_combos (in_world f n) = chcap_combos n" "hide_servers (in_world f n) = hide_servers n"
  by (simp_all add: in_world_def)

lemma unlist_result:
  assumes "c \<in> set (client_names (wd n)) \<Longrightarrow> cl_name (cl n c) \<noteq> []" "c \<in> set (id_names (wd n)) \<Longrightarrow> cl_id (cl n c) \<noteq> []"
    "c \<noteq> last (global_client_list n)" "hosts_ok (uhosts n)" "cstr (cl_realhost (cl n c))"
  shows "\<exists>n'. unlist c n = Some n' \<and> hosts_ok (uhosts n') \<and> clients (wd n') = clients (wd n) \<and> chans (wd n') = chans (wd n) \<and>
    mships (wd n') = mships (wd n) \<and> me (wd n') = me (wd n) \<and> cfg (wd n') = cfg (wd n) \<and> CurrentTime (wd n') = CurrentTime (wd n) \<and>
    client_names (wd n') = remove1 c (client_names (wd n)) \<and> id_names (wd n') = remove1 c (id_names (wd n)) \<and>
    peers n' = (peers n)(c := (peers n c)\<lparr>pr_dead := True\<rparr>) \<and> hist n' = hist n \<and> unknown_list n' = unknown_list n \<and>
    local_client_list n' = local_client_list n \<and> oper_list n' = oper_list n \<and> serv_list n' = serv_list n \<and>
    global_serv_list n' = global_serv_list n \<and> chcap_combos n' = chcap_combos n \<and> hide_servers n' = hide_servers n \<and>
    global_client_list n' = remove1 c (global_client_list n) \<and> dead_list n' = c # dead_list n"
proof -
  define n1 where "n1 = (if cl_id (cl n c) \<noteq> [] then in_world (\<lambda>w. w\<lparr>id_names := remove1 c (id_names w)\<rparr>) n else n)"
  define n2 where "n2 = (if cl_name (cl n c) \<noteq> [] then in_world (\<lambda>w. w\<lparr>client_names := remove1 c (client_names w)\<rparr>) n1 else n1)"
  have w2: "wd n2 = (wd n)\<lparr>id_names := remove1 c (id_names (wd n)), client_names := remove1 c (client_names (wd n))\<rparr>"
  proof -
    have "cl_name (cl n c) = [] \<Longrightarrow> remove1 c (client_names (wd n)) = client_names (wd n)" using assms(1) by (blast intro: remove1_idem)
    moreover have "cl_id (cl n c) = [] \<Longrightarrow> remove1 c (id_names (wd n)) = id_names (wd n)" using assms(2) by (blast intro: remove1_idem)
    ultimately show ?thesis by (cases "wd n") (auto simp: n2_def n1_def)
  qed
  have f2: "peers n2 = peers n" "hist n2 = hist n" "uhosts n2 = uhosts n" "unknown_list n2 = unknown_list n"
    "local_client_list n2 = local_client_list n" "oper_list n2 = oper_list n" "serv_list n2 = serv_list n"
    "global_serv_list n2 = global_serv_list n" "global_client_list n2 = global_client_list n" "dead_list n2 = dead_list n"
    "chcap_combos n2 = chcap_combos n" "hide_servers n2 = hide_servers n"
    by (simp_all add: n2_def n1_def)
  obtain u where u: "hosts_ok u" "(if pr_userhost (peers n c)
      then map_option (\<lambda>u. n2\<lparr>uhosts := u\<rparr>) (delete_user_host (cl_username (cl n c)) (cl_realhost (cl n c)) (\<not> cl_local (cl n c)) (uhosts n2))
      else Some n2) = Some (n2\<lparr>uhosts := u\<rparr>)"
  proof (cases "pr_userhost (peers n c)")
    case True
    then show ?thesis using delete_user_host_ok [OF assms(4,5)] that f2(3) by auto
  next
    case False
    then show ?thesis using that [of "uhosts n2"] assms(4) f2(3) by simp
  qed
  define n4 where "n4 = n2\<lparr>uhosts := u, global_client_list := remove1 c (global_client_list n)\<rparr>"
  have n4: "(if c \<in> set (global_client_list (n2\<lparr>uhosts := u\<rparr>)) \<and> c \<noteq> last (global_client_list (n2\<lparr>uhosts := u\<rparr>))
      then n2\<lparr>uhosts := u\<rparr>\<lparr>global_client_list := remove1 c (global_client_list (n2\<lparr>uhosts := u\<rparr>))\<rparr> else n2\<lparr>uhosts := u\<rparr>) = n4"
    using assms(3) f2(9) by (auto simp: n4_def remove1_idem)
  have "unlist c n = (let n5 = upd_peer c (\<lambda>p. p\<lparr>pr_dead := True\<rparr>) (update_client_exit_stats c n4) in Some (n5\<lparr>dead_list := c # dead_list n5\<rparr>))"
    unfolding unlist_def Let_def n1_def [symmetric] n2_def [symmetric] u(2) Option.bind.simps n4 ..
  moreover have "same n4 (update_client_exit_stats c n4)" by (rule same_stats)
  ultimately show ?thesis using u(1) by (simp add: Let_def same_def n4_def w2 f2)
qed

lemma bare_dead [simp]: "bare (p\<lparr>pr_dead := b\<rparr>) = bare p" by (simp add: bare_def unaccepted_def)

lemma remove1_not: "distinct xs \<Longrightarrow> remove1 c xs = filter (\<lambda>x. x \<notin> {c}) xs"
  by (auto simp: distinct_remove1_removeAll removeAll_filter_not_eq intro!: filter_cong)

lemma exit_one_gone:
  assumes ok: "net_ok k E n" and c: "c \<in> known n \<union> E" "c \<noteq> me (wd n)" and o: "off c n m"
  shows "\<exists>n'. unlist c m = Some n' \<and> gone {c} n n' \<and> hosts_ok (uhosts n') \<and> links_ok (wd n') \<and> invites_ok (wd n') \<and> accepts_ok n' \<and>
    hist_ok (hist n') \<and> client_names (wd n') = remove1 c (client_names (wd n)) \<and> id_names (wd n') = remove1 c (id_names (wd n)) \<and>
    global_serv_list n' = remove1 c (global_serv_list n) \<and> dead_list n' = c # dead_list n \<and>
    (\<forall>x. set (pr_allow_list (peers n' x)) \<subseteq> set (pr_allow_list (peers n x)) \<and>
       set (pr_on_allow_list (peers n' x)) \<subseteq> set (pr_on_allow_list (peers n x))) \<and>
    cl_invited (cl n' c) = [] \<and> pr_allow_list (peers n' c) = [] \<and> pr_on_allow_list (peers n' c) = [] \<and>
    (\<forall>x\<in>set (history_of (hist n')). \<forall>d. online x = Some d \<longrightarrow> d \<in> person n \<and> d \<noteq> c)"
proof -
  have L: "lists_ok E n" and N: "names_ok E n" using ok by (simp_all add: net_ok_def)
  have p: "plain (cl m c) = plain (cl n c)" using o by (simp add: off_def)
  have q: "cl_name (cl m c) = cl_name (cl n c)" "cl_id (cl m c) = cl_id (cl n c)" "cl_realhost (cl m c) = cl_realhost (cl n c)"
    using arg_cong [OF p, of cl_name] arg_cong [OF p, of cl_id] arg_cong [OF p, of cl_realhost] by (simp_all add: plain_def)
  have g: "client_names (wd m) = client_names (wd n)" "id_names (wd m) = id_names (wd n)" "uhosts m = uhosts n"
    "global_client_list m = global_client_list n" using o by (simp_all add: off_def)
  have "\<exists>n'. unlist c m = Some n' \<and> hosts_ok (uhosts n') \<and> clients (wd n') = clients (wd m) \<and> chans (wd n') = chans (wd m) \<and>
    mships (wd n') = mships (wd m) \<and> me (wd n') = me (wd m) \<and> cfg (wd n') = cfg (wd m) \<and> CurrentTime (wd n') = CurrentTime (wd m) \<and>
    client_names (wd n') = remove1 c (client_names (wd m)) \<and> id_names (wd n') = remove1 c (id_names (wd m)) \<and>
    peers n' = (peers m)(c := (peers m c)\<lparr>pr_dead := True\<rparr>) \<and> hist n' = hist m \<and> unknown_list n' = unknown_list m \<and>
    local_client_list n' = local_client_list m \<and> oper_list n' = oper_list m \<and> serv_list n' = serv_list m \<and>
    global_serv_list n' = global_serv_list m \<and> chcap_combos n' = chcap_combos m \<and> hide_servers n' = hide_servers m \<and>
    global_client_list n' = remove1 c (global_client_list m) \<and> dead_list n' = c # dead_list m"
  proof (rule unlist_result)
    show "cl_name (cl m c) \<noteq> []" if "c \<in> set (client_names (wd m))" using that L unfolding g q lists_ok_def by blast
    show "cl_id (cl m c) \<noteq> []" if "c \<in> set (id_names (wd m))" using that L unfolding g q lists_ok_def by blast
    show "c \<noteq> last (global_client_list m)" using c(2) L unfolding g lists_ok_def by simp
    show "hosts_ok (uhosts m)" using N unfolding g names_ok_def by simp
    show "cstr (cl_realhost (cl m c))" using N c(1) unfolding q names_ok_def by blast
  qed
  then obtain n' where n': "unlist c m = Some n'" "hosts_ok (uhosts n')" "clients (wd n') = clients (wd m)" "chans (wd n') = chans (wd m)"
    "mships (wd n') = mships (wd m)" "me (wd n') = me (wd m)" "cfg (wd n') = cfg (wd m)" "CurrentTime (wd n') = CurrentTime (wd m)"
    "client_names (wd n') = remove1 c (client_names (wd m))" "id_names (wd n') = remove1 c (id_names (wd m))"
    "peers n' = (peers m)(c := (peers m c)\<lparr>pr_dead := True\<rparr>)" "hist n' = hist m" "unknown_list n' = unknown_list m"
    "local_client_list n' = local_client_list m" "oper_list n' = oper_list m" "serv_list n' = serv_list m"
    "global_serv_list n' = global_serv_list m" "chcap_combos n' = chcap_combos m" "hide_servers n' = hide_servers m"
    "global_client_list n' = remove1 c (global_client_list m)" "dead_list n' = c # dead_list m" by blast
  have cl: "cl n' = cl m" by (simp add: cl_def fun_eq_iff n'(3))
  have gl: "remove1 c (global_client_list n) = filter (\<lambda>x. x \<notin> {c}) (global_client_list n)" using L by (intro remove1_not) (simp add: lists_ok_def)
  have dead: "pr_dead (peers n' x) \<longleftrightarrow> pr_dead (peers n x) \<or> x = c" for x using o by (simp add: n'(11) off_def)
  have pe: "bare (peers n' x) = bare (peers n x)" "pr_serv (peers n' x) = pr_serv (peers m x)" "pr_allow_list (peers n' x) = pr_allow_list (peers m x)"
    "pr_on_allow_list (peers n' x) = pr_on_allow_list (peers m x)" for x using o by (simp_all add: n'(11) off_def)
  have lk: "links_ok (wd n')" "invites_ok (wd n')" "accepts_ok n'"
    using o same_accepts [of n' m] pe(3,4) by (simp_all add: off_def links_ok_def invites_ok_def n'(3-5))
  have ga: "gone {c} n n'"
    unfolding gone_def cl pe(2) by (intro conjI allI ballI) (use o pe(1) dead in \<open>simp_all add: off_def n' gl cong: option.case_cong\<close>)
  show ?thesis
    by (rule exI [of _ n'], intro conjI allI ballI impI)
      (use o ga lk n'(1,2) in \<open>simp_all add: off_def pe(3,4) cl n'(9,10,12,17,21) del: insert_iff\<close>)
qed

lemma last_kept: "xs \<noteq> [] \<Longrightarrow> P (last xs) \<Longrightarrow> filter P xs \<noteq> [] \<and> last (filter P xs) = last xs"
  by (cases xs rule: rev_cases) auto

lemma gone_tree:
  assumes g: "gone C n n'" and T: "tree_ok k n" and u: "C \<inter> set (unknown_list n) = {}" and m: "me (wd n) \<notin> C"
    and dep: "\<forall>x\<in>known n - C. IsClient (cl n x) \<or> IsServer (cl n x) \<longrightarrow> cl_servptr (cl n x) \<notin> C"
  shows "tree_ok k n'"
proof -
  note K = gone_known [OF g u] and F = gone_fields [OF g]
  have st: "IsServer (cl n' x) = IsServer (cl n x)" "IsClient (cl n' x) = IsClient (cl n x)" for x by (simp_all add: IsServer_def IsClient_def F)
  have h: "hubs n' = hubs n - C" by (rule K(3) [OF m])
  have "hub_ok n' s" if s: "s \<in> hubs n - C" for s
  proof -
    obtain v where v: "pr_serv (peers n s) = Some v" "distinct (sv_users v)" "distinct (sv_servers v)"
      "set (sv_users v) = {c \<in> person n. cl_servptr (cl n c) = s}"
      "set (sv_servers v) = {t \<in> known n. IsServer (cl n t) \<and> cl_servptr (cl n t) = s}" using T s by (auto simp: tree_ok_def hub_ok_def)
    have "without C (pr_serv (peers n s)) (pr_serv (peers n' s))" using g s by (simp add: gone_def)
    then obtain v' where "pr_serv (peers n' s) = Some v'" "sv_users v' = filter (\<lambda>x. x \<notin> C) (sv_users v)"
      "sv_servers v' = filter (\<lambda>x. x \<notin> C) (sv_servers v)" using v(1) by (auto simp: without_def)
    then show ?thesis using v unfolding hub_ok_def K(1,2) F(5) st by auto
  qed
  moreover have "cl_servptr (cl n' x) \<in> hubs n' \<and> (cl_local (cl n' x) \<or> (\<exists>f v. pr_from (peers n' x) = Some f \<and> pr_serv (peers n' f) = Some v))"
    if x: "x \<in> known n'" "IsClient (cl n' x) \<or> IsServer (cl n' x)" for x
  proof -
    have x': "x \<in> known n - C" "IsClient (cl n x) \<or> IsServer (cl n x)" using x K(1) st by auto
    then have t: "cl_servptr (cl n x) \<in> hubs n" "cl_local (cl n x) \<or> (\<exists>f v. pr_from (peers n x) = Some f \<and> pr_serv (peers n f) = Some v)"
      using T by (auto simp: tree_ok_def)
    have "\<exists>v'. pr_serv (peers n' f) = Some v'" if "pr_serv (peers n f) = Some v" for f v
    proof -
      have "map_option sv_link_name (pr_serv (peers n' f)) = map_option sv_link_name (pr_serv (peers n f))" using g by (simp add: gone_def)
      then show ?thesis using that by (cases "pr_serv (peers n' f)") auto
    qed
    then show ?thesis using t dep x' unfolding F h by blast
  qed
  moreover obtain d where "\<forall>s\<in>hubs n. d s < k \<and> (IsServer (cl n s) \<longrightarrow> d s < d (cl_servptr (cl n s)))" using T by (auto simp: tree_ok_def)
  then have "\<forall>s\<in>hubs n'. d s < k \<and> (IsServer (cl n' s) \<longrightarrow> d s < d (cl_servptr (cl n' s)))" unfolding h F st by blast
  ultimately show ?thesis unfolding tree_ok_def h by blast
qed

definition unlisted :: "net \<Rightarrow> cid \<Rightarrow> bool" where
  "unlisted n c \<longleftrightarrow> c \<notin> set (unknown_list n) \<union> set (local_client_list n) \<union> set (oper_list n) \<union> set (serv_list n)"

definition leaf :: "net \<Rightarrow> cid \<Rightarrow> bool" where
  "leaf n c \<longleftrightarrow> (\<forall>x\<in>known n. IsClient (cl n x) \<or> IsServer (cl n x) \<longrightarrow> cl_servptr (cl n x) \<noteq> c)"

lemma exit_one_client_ok:
  assumes ok: "net_ok k E n" and c: "c \<in> known n \<union> E" "c \<noteq> me (wd n)" "unlisted n c" "leaf n c"
    "c \<notin> known n \<Longrightarrow> \<not> IsClient (cl n c) \<and> \<not> IsServer (cl n c)"
  shows "\<exists>n'. exit_one_client q c n = Some n' \<and> gone {c} n n' \<and> net_ok k (E - {c}) n'"
proof -
  have L: "lists_ok E n" and T: "tree_ok k n" and R: "refs_ok n" and N: "names_ok E n" and B: "combos_ok n" using ok by (simp_all add: net_ok_def)
  have stat: "c \<in> known n \<Longrightarrow> IsClient (cl n c) \<or> IsServer (cl n c)" using c(2,3) L by (auto simp: lists_ok_def unlisted_def known_def)
  have un: "{c} \<inter> set (unknown_list n) = {}" using c(3) by (auto simp: unlisted_def)
  have "\<exists>m. (if IsServer (cl n c) then exit_server c n else if IsClient (cl n c) then exit_user c q n else Some n) = Some m \<and> off c n m"
  proof (cases "c \<in> known n")
    case False then show ?thesis using c(5) nobody_off [OF ok] by auto
  next
    case True
    show ?thesis
    proof (cases "IsServer (cl n c)")
      case True then show ?thesis using exit_server_off [OF ok \<open>c \<in> known n\<close>] by auto
    next
      case False
      then have "c \<in> person n" using stat True by (auto simp: person_def)
      then show ?thesis using exit_user_off [OF ok] False by (auto simp: person_def)
    qed
  qed
  then obtain m where m: "(if IsServer (cl n c) then exit_server c n else if IsClient (cl n c) then exit_user c q n else Some n) = Some m"
    "off c n m" by blast
  obtain n' where n': "unlist c m = Some n'" "gone {c} n n'" "hosts_ok (uhosts n')" "links_ok (wd n')" "invites_ok (wd n')" "accepts_ok n'"
    "hist_ok (hist n')" "client_names (wd n') = remove1 c (client_names (wd n))" "id_names (wd n') = remove1 c (id_names (wd n))"
    "global_serv_list n' = remove1 c (global_serv_list n)" "dead_list n' = c # dead_list n"
    "\<forall>x. set (pr_allow_list (peers n' x)) \<subseteq> set (pr_allow_list (peers n x)) \<and>
       set (pr_on_allow_list (peers n' x)) \<subseteq> set (pr_on_allow_list (peers n x))"
    "cl_invited (cl n' c) = []" "pr_allow_list (peers n' c) = []" "pr_on_allow_list (peers n' c) = []"
    "\<forall>x\<in>set (history_of (hist n')). \<forall>d. online x = Some d \<longrightarrow> d \<in> person n \<and> d \<noteq> c"
    using exit_one_gone [OF ok c(1,2) m(2)] by blast
  note K = gone_known [OF n'(2) un] and F = gone_fields [OF n'(2)]
  have h: "hubs n' = hubs n - {c}" using K(3) c(2) by auto
  have st: "IsServer (cl n' x) = IsServer (cl n x)" "IsClient (cl n' x) = IsClient (cl n x)" for x by (simp_all add: IsServer_def IsClient_def F)
  have me: "me (wd n') = me (wd n)" "cfg (wd n') = cfg (wd n)" using n'(2) by (simp_all add: gone_def)
  have g: "global_client_list n' = filter (\<lambda>x. x \<notin> {c}) (global_client_list n)" "unknown_list n' = unknown_list n"
    "local_client_list n' = local_client_list n" "oper_list n' = oper_list n" "serv_list n' = serv_list n" "chcap_combos n' = chcap_combos n"
    using n'(2) by (simp_all add: gone_def)
  have "tree_ok k n'"
    by (rule gone_tree [OF n'(2) T un]) (use c(2,4) in \<open>auto simp: leaf_def\<close>)
  moreover have "lists_ok (E - {c}) n'"
  proof -
    have "filter (\<lambda>x. x \<notin> {c}) (global_client_list n) \<noteq> [] \<and> last (filter (\<lambda>x. x \<notin> {c}) (global_client_list n)) = last (global_client_list n)"
      using L c(2) by (intro last_kept) (auto simp: lists_ok_def)
    then show ?thesis
      using L c(1,3) unfolding lists_ok_def K h st F me g n'(8-11)
      by (auto simp: unlisted_def)
  qed
  moreover have "refs_ok n'"
  proof -
    have ms: "ms_client x \<in> person n'" if "mships (wd n') i = Some x" for i x
      using that n'(2) R by (auto simp: gone_def refs_ok_def K split: option.splits if_splits)
    have inv: "x \<in> person n' \<and> cl_local (cl n' x)" if "cl_invited (cl n' x) \<noteq> []" for x
    proof -
      have "set (cl_invited (cl n' x)) \<subseteq> set (cl_invited (cl n x))" using n'(2) by (simp add: gone_def)
      then have "cl_invited (cl n x) \<noteq> []" using that by auto
      then show ?thesis using that n'(13) R by (auto simp: refs_ok_def K F)
    qed
    have acc: "x \<in> person n'" if "pr_allow_list (peers n' x) \<noteq> [] \<or> pr_on_allow_list (peers n' x) \<noteq> []" for x
    proof -
      have "pr_allow_list (peers n x) \<noteq> [] \<or> pr_on_allow_list (peers n x) \<noteq> []" using that n'(12) by (metis list.set(1) set_empty subset_empty)
      then show ?thesis using that n'(14,15) R by (auto simp: refs_ok_def K)
    qed
    show ?thesis unfolding refs_ok_def using n'(4-7,16) ms inv acc K(2) by blast
  qed
  moreover have "names_ok (E - {c}) n'"
  proof -
    have "cstr x" if x: "pr_serv (peers n' s) = Some v" "sv_link_name v = Some x" for s v x
    proof -
      have "map_option sv_link_name (pr_serv (peers n' s)) = map_option sv_link_name (pr_serv (peers n s))" using n'(2) by (simp add: gone_def)
      then obtain u where "pr_serv (peers n s) = Some u" "sv_link_name u = Some x" using x by (cases "pr_serv (peers n s)") auto
      then show ?thesis using N by (auto simp: names_ok_def)
    qed
    then show ?thesis unfolding names_ok_def K F me using n'(3) N by (auto simp: names_ok_def)
  qed
  moreover have "combos_ok n'" using B unfolding combos_ok_def g F .
  ultimately have "net_ok k (E - {c}) n'" by (simp add: net_ok_def)
  moreover have "exit_one_client q c n = Some n'" using m(1) n'(1) by (simp add: exit_one_client_def)
  ultimately show ?thesis using n'(2) by blast
qed

subsection \<open>A server with everything behind it\<close>

inductive behind :: "net \<Rightarrow> cid \<Rightarrow> cid \<Rightarrow> bool" for n s where
  direct: "x \<in> known n \<Longrightarrow> IsClient (cl n x) \<or> IsServer (cl n x) \<Longrightarrow> cl_servptr (cl n x) = s \<Longrightarrow> behind n s x"
| further: "behind n s t \<Longrightarrow> x \<in> known n \<Longrightarrow> IsClient (cl n x) \<or> IsServer (cl n x) \<Longrightarrow> cl_servptr (cl n x) = t \<Longrightarrow> behind n s x"

definition below :: "net \<Rightarrow> cid set \<Rightarrow> cid set" where
  "below n S = {x. \<exists>s\<in>S. behind n s x}"

definition closed :: "net \<Rightarrow> cid set \<Rightarrow> bool" where
  "closed n C \<longleftrightarrow> (\<forall>x\<in>known n. (IsClient (cl n x) \<or> IsServer (cl n x)) \<and> cl_servptr (cl n x) \<in> C \<longrightarrow> x \<in> C)"

definition ranked :: "(cid \<Rightarrow> nat) \<Rightarrow> net \<Rightarrow> bool" where
  "ranked d n \<longleftrightarrow> (\<forall>s\<in>hubs n. IsServer (cl n s) \<longrightarrow> d s < d (cl_servptr (cl n s)))"

lemma behind_known: "behind n s x \<Longrightarrow> x \<in> known n \<and> (IsClient (cl n x) \<or> IsServer (cl n x))"
  by (induction rule: behind.induct) auto

lemma behind_last: "behind n s x \<Longrightarrow> cl_servptr (cl n x) = s \<or> behind n s (cl_servptr (cl n x))"
  by (induction rule: behind.induct) auto

lemma below_closed: "closed n (S \<union> below n S)"
  by (auto simp: closed_def below_def intro: behind.intros)

lemma me_status: "net_ok k E n \<Longrightarrow> \<not> IsClient (cl n (me (wd n))) \<and> \<not> IsServer (cl n (me (wd n)))"
  by (auto simp: net_ok_def lists_ok_def IsClient_def IsServer_def)

lemma up_hub: "net_ok k E n \<Longrightarrow> x \<in> known n \<Longrightarrow> IsClient (cl n x) \<or> IsServer (cl n x) \<Longrightarrow> cl_servptr (cl n x) \<in> hubs n"
  unfolding net_ok_def tree_ok_def by blast

lemma behind_rank:
  assumes "behind n s x" "net_ok k E n" "ranked d n" "IsServer (cl n x)"
  shows "d x < d s"
  using assms(1,4)
proof (induction rule: behind.induct)
  case (direct x) then show ?case using assms(3) by (auto simp: ranked_def hubs_def)
next
  case (further t x)
  have "t \<in> hubs n" using up_hub [OF assms(2)] further.hyps(2-4) by auto
  moreover have "x \<in> hubs n" using further by (simp add: hubs_def)
  moreover have "t \<noteq> me (wd n)" using behind_known [OF further.hyps(1)] me_status [OF assms(2)] by auto
  ultimately show ?case using further assms(3) by (auto simp: ranked_def hubs_def)
qed

text \<open>What is taken off with everything below it leaves the rest of the tree as it was.\<close>

lemma behind_gone:
  assumes "gone C n m" "C \<inter> set (unknown_list n) = {}" "closed n C"
  shows "C \<union> below m S = C \<union> below n S"
proof -
  note K = gone_known [OF assms(1,2)] and F = gone_fields [OF assms(1)]
  have st: "IsServer (cl m x) = IsServer (cl n x)" "IsClient (cl m x) = IsClient (cl n x)" for x by (simp_all add: IsServer_def IsClient_def F)
  have "behind n s x" if "behind m s x" for s x
    using that by (induction rule: behind.induct) (auto simp: K(1) F(5) st intro: behind.intros)
  moreover have "x \<in> C \<or> behind m s x" if "behind n s x" for s x
    using that
  proof (induction rule: behind.induct)
    case (direct x) then show ?case by (auto simp: K(1) F(5) st intro: behind.intros)
  next
    case (further t x)
    then show ?case using assms(3) by (cases "x \<in> C") (auto simp: K(1) F(5) st closed_def intro: behind.further [of m s t x])
  qed
  ultimately show ?thesis unfolding below_def by blast
qed

lemma gone_ranked: "gone C n m \<Longrightarrow> C \<inter> set (unknown_list n) = {} \<Longrightarrow> me (wd n) \<notin> C \<Longrightarrow> ranked d n \<Longrightarrow> ranked d m"
  by (auto simp: ranked_def gone_known(3) gone_fields IsServer_def)

text \<open>Whatever hangs on another server is remote.\<close>

lemma remote_unlisted:
  assumes "net_ok k E n" "x \<in> known n" "IsClient (cl n x) \<or> IsServer (cl n x)" "cl_servptr (cl n x) \<noteq> me (wd n)"
  shows "unlisted n x" "\<not> cl_local (cl n x)" "x \<noteq> me (wd n)"
proof -
  have L: "lists_ok E n" using assms(1) by (simp add: net_ok_def)
  show l: "\<not> cl_local (cl n x)" using L assms(2-4) by (auto simp: lists_ok_def)
  show "unlisted n x" using L l by (auto simp: lists_ok_def unlisted_def)
  show "x \<noteq> me (wd n)" using me_status [OF assms(1)] assms(3) by blast
qed

lemma behind_remote:
  assumes "net_ok k E n" "behind n s x" "s \<noteq> me (wd n)"
  shows "unlisted n x" "x \<noteq> me (wd n)" "cl_servptr (cl n x) \<noteq> me (wd n)"
proof -
  have "cl_servptr (cl n x) \<noteq> me (wd n)"
    using behind_last [OF assms(2)] behind_known [of n s "cl_servptr (cl n x)"] me_status [OF assms(1)] assms(3) by metis
  then show "cl_servptr (cl n x) \<noteq> me (wd n)" "unlisted n x" "x \<noteq> me (wd n)"
    using remote_unlisted [OF assms(1)] behind_known [OF assms(2)] by blast+
qed

lemma exit_users:
  assumes "net_ok k E n" "distinct us" "set us \<subseteq> {x \<in> person n. cl_servptr (cl n x) = s}" "s \<noteq> me (wd n)" "set us \<inter> E = {}"
  shows "\<exists>n'. each (exit_one_client q) us n = Some n' \<and> gone (set us) n n' \<and> net_ok k E n'"
  using assms
proof (induction us arbitrary: n)
  case Nil then show ?case using same_gone [OF same_refl] by auto
next
  case (Cons u us)
  have u: "u \<in> known n" "IsClient (cl n u)" "cl_servptr (cl n u) = s" using Cons.prems(3) by (auto simp: person_def)
  note r = remote_unlisted [OF Cons.prems(1) u(1)]
  have U: "unlisted n u" "u \<noteq> me (wd n)" using r u Cons.prems(4) by auto
  have "leaf n u"
    using up_hub [OF Cons.prems(1)] U(2) u(2) by (fastforce simp: leaf_def hubs_def IsClient_def IsServer_def)
  then obtain m where m: "exit_one_client q u n = Some m" "gone {u} n m" "net_ok k (E - {u}) m"
    using exit_one_client_ok [OF Cons.prems(1), of u q] u U by auto
  have e: "E - {u} = E" using Cons.prems(5) by auto
  have un: "{u} \<inter> set (unknown_list n) = {}" using U(1) by (auto simp: unlisted_def)
  have "set us \<subseteq> {x \<in> person m. cl_servptr (cl m x) = s}"
    using Cons.prems(2,3) by (auto simp: gone_known(2) [OF m(2) un] gone_fields(5) [OF m(2)])
  moreover have "s \<noteq> me (wd m)" using m(2) Cons.prems(4) by (simp add: gone_def)
  ultimately obtain n' where n': "each (exit_one_client q) us m = Some n'" "gone (set us) m n'" "net_ok k E n'"
    using Cons.IH [of m] m(3) e Cons.prems(2,5) by auto
  have "gone ({u} \<union> set us) n n'" by (rule gone_trans [OF m(2) n'(2) un])
  then show ?case using m(1) n' by auto
qed

text \<open>The children of a server and what is behind them is what is behind the server.\<close>

lemma below_split:
  assumes "net_ok k E n"
  shows "below n {s} = {x \<in> person n. cl_servptr (cl n x) = s} \<union>
    ({t \<in> known n. IsServer (cl n t) \<and> cl_servptr (cl n t) = s} \<union> below n {t \<in> known n. IsServer (cl n t) \<and> cl_servptr (cl n t) = s})"
    (is "?l = ?u \<union> (?t \<union> below n ?t)")
proof
  have "x \<in> ?u \<union> (?t \<union> below n ?t)" if "behind n s x" for x
    using that
  proof (induction rule: behind.induct)
    case (direct x) then show ?case by (auto simp: person_def)
  next
    case (further t x)
    have "t \<in> hubs n" using up_hub [OF assms] further.hyps(2-4) by auto
    moreover have "t \<noteq> me (wd n)" using behind_known [OF further.hyps(1)] me_status [OF assms] by auto
    ultimately have "t \<notin> ?u" by (auto simp: hubs_def person_def IsClient_def IsServer_def)
    then have "t \<in> ?t \<union> below n ?t" using further.IH by blast
    then have "x \<in> ?t \<union> below n ?t"
      using below_closed [of n ?t] further.hyps(2-4) unfolding closed_def by blast
    then show ?case by blast
  qed
  then show "?l \<subseteq> ?u \<union> (?t \<union> below n ?t)" by (auto simp: below_def)
  have "behind n s x" if "behind n t x" "t \<in> ?t" for t x
    using that by (induction rule: behind.induct) (auto intro: behind.intros)
  then show "?u \<union> (?t \<union> below n ?t) \<subseteq> ?l" by (auto simp: below_def person_def intro: behind.direct)
qed

lemma below_remote:
  assumes "net_ok k E n" "s \<noteq> me (wd n)"
  shows "below n {s} \<inter> set (unknown_list n) = {}" "me (wd n) \<notin> below n {s}"
  using behind_remote [OF assms(1) _ assms(2)] by (auto simp: below_def unlisted_def)

abbreviation exit_subtree :: "nat \<Rightarrow> string \<Rightarrow> cid \<Rightarrow> net \<Rightarrow> net option" where
  "exit_subtree k q t n \<equiv> Option.bind (recurse_remove_clients k q t n) (exit_one_client q t)"

lemma exit_subtrees:
  assumes IH: "\<And>n s. net_ok k E n \<Longrightarrow> ranked d n \<Longrightarrow> s \<in> hubs n \<Longrightarrow> s \<noteq> me (wd n) \<Longrightarrow> d s < j \<Longrightarrow> below n {s} \<inter> E = {} \<Longrightarrow>
      \<exists>n'. recurse_remove_clients j q s n = Some n' \<and> gone (below n {s}) n n' \<and> net_ok k E n'"
    and "net_ok k E n" "ranked d n" "distinct ts" "set ts \<subseteq> {t \<in> known n. IsServer (cl n t) \<and> cl_servptr (cl n t) = s}"
    "s \<noteq> me (wd n)" "(set ts \<union> below n (set ts)) \<inter> E = {}" "d s \<le> j"
  shows "\<exists>n'. each (exit_subtree j q) ts n = Some n' \<and> gone (set ts \<union> below n (set ts)) n n' \<and> net_ok k E n'"
  using assms(2-8)
proof (induction ts arbitrary: n)
  case Nil then show ?case using same_gone [OF same_refl] by (auto simp: below_def)
next
  case (Cons t ts)
  note ok = Cons.prems(1)
  have t: "t \<in> known n" "IsServer (cl n t)" "cl_servptr (cl n t) = s" using Cons.prems(4) by auto
  then have th: "t \<in> hubs n" by (simp add: hubs_def)
  have U: "unlisted n t" "t \<noteq> me (wd n)" using remote_unlisted [OF ok t(1)] t Cons.prems(5) by auto
  have dt: "d t < d s" using Cons.prems(2) th t by (auto simp: ranked_def)
  have e: "below n {t} \<inter> E = {}" "t \<notin> E" using Cons.prems(6) by (auto simp: below_def)
  have "d t < j" using dt Cons.prems(7) by simp
  then obtain m1 where m1: "recurse_remove_clients j q t n = Some m1" "gone (below n {t}) n m1" "net_ok k E m1"
    using IH [OF ok Cons.prems(2) th U(2) _ e(1)] by blast
  note B = below_remote [OF ok U(2)]
  note K1 = gone_known [OF m1(2) B(1)] and F1 = gone_fields [OF m1(2)]
  have nb: "t \<notin> below n {t}" using behind_rank [OF _ ok Cons.prems(2) t(2), of t] by (auto simp: below_def)
  have m1': "me (wd m1) = me (wd n)" "unlisted m1 t = unlisted n t" using m1(2) by (simp_all add: gone_def unlisted_def)
  have "leaf m1 t"
    unfolding leaf_def by (auto simp: K1(1) F1 IsClient_def IsServer_def below_def intro: behind.direct)
  moreover have tk: "t \<in> known m1" using t(1) nb K1(1) by simp
  ultimately obtain m2 where m2: "exit_one_client q t m1 = Some m2" "gone {t} m1 m2" "net_ok k (E - {t}) m2"
    using exit_one_client_ok [OF m1(3), of t q] U m1' by auto
  have ee: "E - {t} = E" using e(2) by auto
  let ?C = "{t} \<union> below n {t}"
  have C: "gone ?C n m2" using gone_trans [OF m1(2) m2(2) B(1)] by (simp add: Un_commute)
  have un: "?C \<inter> set (unknown_list n) = {}" using B(1) U(1) by (auto simp: unlisted_def)
  note K = gone_known [OF C un] and F = gone_fields [OF C]
  have kept: "t' \<notin> ?C" if "t' \<in> set ts" for t'
  proof -
    have t': "t' \<noteq> t" "IsServer (cl n t')" "cl_servptr (cl n t') = s" using that Cons.prems(3,4) by auto
    have "\<not> behind n t t'"
    proof
      assume "behind n t t'"
      then have "s = t \<or> behind n t s" using behind_last t'(3) by metis
      moreover have "IsServer (cl n s)" using up_hub [OF ok t(1)] t Cons.prems(5) by (auto simp: hubs_def)
      ultimately show False using behind_rank [OF _ ok Cons.prems(2), of t s] dt by auto
    qed
    with t'(1) show ?thesis by (auto simp: below_def)
  qed
  have sub: "set ts \<subseteq> {t \<in> known m2. IsServer (cl m2 t) \<and> cl_servptr (cl m2 t) = s}"
    using Cons.prems(4) kept by (auto simp: K(1) F IsServer_def)
  have b: "?C \<union> below m2 (set ts) = ?C \<union> below n (set ts)" by (rule behind_gone [OF C un below_closed])
  have bs: "below n (set (t # ts)) = below n {t} \<union> below n (set ts)" by (auto simp: below_def)
  have me2: "me (wd m2) = me (wd n)" using C by (simp add: gone_def)
  have "ranked d m2" using gone_ranked [OF C un _ Cons.prems(2)] B(2) U(2) by auto
  moreover have "(set ts \<union> below m2 (set ts)) \<inter> E = {}" using b e Cons.prems(6) unfolding bs by auto
  ultimately obtain n' where n': "each (exit_subtree j q) ts m2 = Some n'" "gone (set ts \<union> below m2 (set ts)) m2 n'" "net_ok k E n'"
    using Cons.IH [OF m2(3) [unfolded ee]] sub Cons.prems(3,5,7) me2 by auto
  have "?C \<union> (set ts \<union> below m2 (set ts)) = set (t # ts) \<union> below n (set (t # ts))" using b unfolding bs by auto
  then have "gone (set (t # ts) \<union> below n (set (t # ts))) n n'" using gone_trans [OF C n'(2) un] by simp
  then show ?case using m1(1) m2(1) n' by auto
qed

lemma recurse_remove_clients_ok:
  assumes "net_ok k E n" "ranked d n" "s \<in> hubs n" "s \<noteq> me (wd n)" "d s < j" "below n {s} \<inter> E = {}"
  shows "\<exists>n'. recurse_remove_clients j q s n = Some n' \<and> gone (below n {s}) n n' \<and> net_ok k E n'"
  using assms
proof (induction j arbitrary: n s)
  case (Suc j)
  note ok = Suc.prems(1)
  let ?U = "{x \<in> person n. cl_servptr (cl n x) = s}" and ?T = "{t \<in> known n. IsServer (cl n t) \<and> cl_servptr (cl n t) = s}"
  have "hub_ok n s" using ok Suc.prems(3) by (simp add: net_ok_def tree_ok_def)
  then obtain v where v: "pr_serv (peers n s) = Some v" "distinct (sv_users v)" "distinct (sv_servers v)" "set (sv_users v) = ?U" "set (sv_servers v) = ?T"
    by (auto simp: hub_ok_def)
  note sp = below_split [OF ok, of s]
  obtain n1 where n1: "each (exit_one_client q) (sv_users v) n = Some n1" "gone ?U n n1" "net_ok k E n1"
    using exit_users [OF ok v(2), of s q] v(4) Suc.prems(4,6) sp by auto
  have un: "?U \<inter> set (unknown_list n) = {}" using below_remote(1) [OF ok Suc.prems(4)] sp by blast
  have me: "me (wd n) \<notin> ?U" using me_status [OF ok] by (auto simp: person_def)
  note K = gone_known [OF n1(2) un] and F = gone_fields [OF n1(2)]
  have hub_user: "x \<notin> ?U" if "x \<in> hubs n" for x
    using that me_status [OF ok] by (auto simp: hubs_def person_def IsClient_def IsServer_def)
  have "without ?U (pr_serv (peers n s)) (pr_serv (peers n1 s))" using n1(2) hub_user [OF Suc.prems(3)] Suc.prems(3) by (simp add: gone_def)
  moreover have "filter (\<lambda>x. x \<notin> ?U) (sv_servers v) = sv_servers v"
    using v(5) by (intro filter_True) (auto simp: person_def IsClient_def IsServer_def)
  ultimately obtain v1 where v1: "pr_serv (peers n1 s) = Some v1" "sv_servers v1 = sv_servers v" using v(1) by (auto simp: without_def)
  have cl: "closed n ?U" unfolding closed_def using up_hub [OF ok] hub_user by blast
  have b: "?U \<union> below n1 ?T = ?U \<union> below n ?T" by (rule behind_gone [OF n1(2) un cl])
  have me1: "me (wd n1) = me (wd n)" using n1(2) by (simp add: gone_def)
  have "\<exists>n'. each (exit_subtree j q) (sv_servers v) n1 = Some n' \<and> gone (set (sv_servers v) \<union> below n1 (set (sv_servers v))) n1 n' \<and> net_ok k E n'"
  proof (rule exit_subtrees [where s = s and d = d])
    show "ranked d n1" by (rule gone_ranked [OF n1(2) un me Suc.prems(2)])
    show "set (sv_servers v) \<subseteq> {t \<in> known n1. IsServer (cl n1 t) \<and> cl_servptr (cl n1 t) = s}"
      using v(5) by (auto simp: K(1) F person_def IsClient_def IsServer_def)
    show "(set (sv_servers v) \<union> below n1 (set (sv_servers v))) \<inter> E = {}" unfolding v(5) using b sp Suc.prems(6) by blast
  qed (use Suc.IH n1(3) v(3) Suc.prems(4,5) me1 in auto)
  then obtain n' where n': "each (exit_subtree j q) (sv_servers v1) n1 = Some n'" "gone (?T \<union> below n1 ?T) n1 n'" "net_ok k E n'"
    unfolding v1(2) v(5) by blast
  have "?U \<union> (?T \<union> below n1 ?T) = below n {s}" using b sp by blast
  then have "gone (below n {s}) n n'" using gone_trans [OF n1(2) n'(2) un] by simp
  then show ?case using v(1) n1(1) v1(1) n' by simp
qed simp

end
