(* ===== verification/Exit_Client.thy ===== *)
theory Exit_Client
  imports Exit_Net
begin

section \<open>Clients and servers that leave the network\<close>

text \<open>\<open>exit_client\<close> as a whole.\<close>

subsection \<open>The messages to the other links\<close>

lemma same_fold: "(\<And>x n. same n (f x n)) \<Longrightarrow> same n (fold f xs n)"
  by (induction xs arbitrary: n) (auto intro: same_trans)

lemma same_hub: "same n m \<Longrightarrow> cl m = cl n \<and> peers m = peers n \<and> hubs m = hubs n \<and> known m = known n \<and> me (wd m) = me (wd n)"
  using same_fields [of n m] by (simp add: same_def)

lemma each_same:
  assumes "\<And>x m. x \<in> set xs \<Longrightarrow> same n m \<Longrightarrow> \<exists>m'. f x m = Some m' \<and> same m m'"
  shows "\<exists>n'. each f xs n = Some n' \<and> same n n'"
  using assms
proof (induction xs arbitrary: n)
  case (Cons x xs)
  obtain m where m: "f x n = Some m" "same n m" using Cons.prems [of x n] by auto
  have "\<exists>n'. each f xs m = Some n' \<and> same m n'"
    by (rule Cons.IH) (use Cons.prems same_trans [OF m(2)] in auto)
  then show ?case using m same_trans by auto
qed simp

lemma recurse_send_quits_same:
  assumes "net_ok k E n" "ranked d n" "s \<in> hubs n" "d s < j" "cstr myname"
  shows "\<exists>n'. recurse_send_quits j orig fr t comment splitstr myname s n = Some n' \<and> same n n'"
  using assms
proof (induction j arbitrary: n s)
  case (Suc j)
  have N: "names_ok E n" and "hub_ok n s" using Suc.prems(1,3) by (simp_all add: net_ok_def tree_ok_def)
  then obtain v where v: "pr_serv (peers n s) = Some v" "set (sv_servers v) = {t \<in> known n. IsServer (cl n t) \<and> cl_servptr (cl n t) = s}"
    by (auto simp: hub_ok_def)
  have "s \<in> known n" using Suc.prems(3) by (simp add: hubs_def)
  then have nm: "match myname (cl_name (cl n s)) = Some (glob myname (cl_name (cl n s)))"
    using N Suc.prems(5) by (intro match_is_glob) (auto simp: names_ok_def)
  let ?h = "glob myname (cl_name (cl n s))"
  define n1 where "n1 = (if ?h \<or> \<not> IsCapable n t CAP_QS
      then fold (\<lambda>u n. notify (To_one t '':%s QUIT :%s'' [cl_name (cl n u), splitstr]) n) (sv_users v) n else n)"
  have s1: "same n n1" by (simp add: n1_def same_fold)
  have "\<exists>n2. each (recurse_send_quits j orig fr t comment splitstr myname) (sv_servers v) n1 = Some n2 \<and> same n1 n2"
  proof (rule each_same)
    fix x m assume x: "x \<in> set (sv_servers v)" and "same n1 m"
    then have m: "same n m" using same_trans [OF s1] by blast
    note S = same_hub [OF m]
    have xs: "x \<in> hubs n" "IsServer (cl n x)" "cl_servptr (cl n x) = s" using x v(2) by (auto simp: hubs_def)
    then have "d x < j" using Suc.prems(2,4) by (fastforce simp: ranked_def)
    moreover have "net_ok k E m" using Suc.prems(1) same_net_ok [OF m] by simp
    moreover have "ranked d m" using Suc.prems(2) S by (simp add: ranked_def)
    ultimately show "\<exists>m'. recurse_send_quits j orig fr t comment splitstr myname x m = Some m' \<and> same m m'"
      using Suc.IH [of m x] xs(1) S Suc.prems(5) by simp
  qed
  then obtain n2 where n2: "each (recurse_send_quits j orig fr t comment splitstr myname) (sv_servers v) n1 = Some n2" "same n1 n2" by blast
  have "same n n2" using same_trans [OF s1 n2(2)] .
  then have "same n (notify e n2)" for e using same_trans by (metis same_notify)
  with \<open>same n n2\<close> show ?case using n2(1) by (simp add: nm v(1) n1_def [symmetric] Let_def)
qed simp

lemma cstr_link_name:
  assumes "net_ok k E n"
  shows "cstr (link_name n t)"
proof -
  have N: "names_ok E n" and L: "lists_ok E n" using assms by (simp_all add: net_ok_def)
  then have "global_client_list n \<noteq> []" "last (global_client_list n) = me (wd n)" unfolding lists_ok_def by blast+
  then have "me (wd n) \<in> known n" unfolding known_def by (metis UnI1 last_in_set)
  then have "cstr (cl_name (cl n (me (wd n))))" using N by (auto simp: names_ok_def)
  then show ?thesis using N unfolding link_name_def by (intro cstr_take) (auto simp: names_ok_def split: option.split)
qed

lemma remove_dependents_ok:
  assumes "net_ok k E n" "s \<in> hubs n" "s \<noteq> me (wd n)" "below n {s} \<inter> E = {}"
  shows "\<exists>n'. remove_dependents k s fr comment splitstr n = Some n' \<and> gone (below n {s}) n n' \<and> net_ok k E n'"
proof -
  obtain d where d: "ranked d n" "\<forall>s\<in>hubs n. d s < k" using assms(1) by (auto simp: net_ok_def tree_ok_def ranked_def)
  have "\<exists>n1. each (\<lambda>t n. recurse_send_quits k s fr t comment splitstr (link_name n t) s n) (serv_list n) n = Some n1 \<and> same n n1"
  proof (rule each_same)
    fix t m assume m: "same n m"
    note S = same_hub [OF m]
    have ok: "net_ok k E m" using assms(1) same_net_ok [OF m] by simp
    show "\<exists>m'. recurse_send_quits k s fr t comment splitstr (link_name m t) s m = Some m' \<and> same m m'"
    proof (rule recurse_send_quits_same [OF ok _ _ _ cstr_link_name [OF ok]])
      show "ranked d m" "s \<in> hubs m" using d(1) assms(2) S by (simp_all add: ranked_def)
      show "d s < k" using d(2) assms(2) by blast
    qed
  qed
  then obtain n1 where n1: "each (\<lambda>t n. recurse_send_quits k s fr t comment splitstr (link_name n t) s n) (serv_list n) n = Some n1" "same n n1" by blast
  note S = same_hub [OF n1(2)]
  have b: "below n1 {s} = below n {s}"
    using behind_gone [OF same_gone [OF n1(2)], of "{s}"] by (simp add: closed_def)
  obtain n' where n': "recurse_remove_clients k splitstr s n1 = Some n'" "gone (below n1 {s}) n1 n'" "net_ok k E n'"
    using recurse_remove_clients_ok [of k E n1 d s k splitstr] assms d S b same_net_ok [OF n1(2)] by (auto simp: ranked_def)
  have "gone ({} \<union> below n {s}) n n'" by (rule gone_trans [OF same_gone [OF n1(2)] n'(2) [unfolded b]]) simp
  then show ?thesis using n1(1) n' by (simp add: remove_dependents_def)
qed

subsection \<open>The local part\<close>

lemma bump_combo_eq:
  "bump_combo caps f ks = (let i = first_combo caps ks in
     if i < length ks then map_option (\<lambda>m. ks[i := (ks ! i)\<lparr>cc_count := m\<rparr>]) (f (cc_count (ks ! i))) else None)"
proof (induction ks)
  case (Cons k ks)
  show ?case
  proof (cases "caps_fit caps k")
    case True then show ?thesis by (simp add: first_combo_def)
  next
    case False
    then have "first_combo caps (k # ks) = Suc (first_combo caps ks)" by (simp add: first_combo_def)
    with False Cons show ?thesis by (auto simp: Let_def option.map_comp comp_def)
  qed
qed (simp add: first_combo_def)

lemma first_combo_update:
  assumes "cap_yes y = cap_yes (ks ! i)" "cap_no y = cap_no (ks ! i)"
  shows "first_combo caps (ks[i := y]) = first_combo caps ks"
proof (cases "i < length ks")
  case True
  then have ks: "ks = take i ks @ ks ! i # drop (Suc i) ks" by (rule id_take_nth_drop)
  have "caps_fit caps y = caps_fit caps (ks ! i)" using assms by (simp add: caps_fit_def)
  then have "first_combo caps (take i ks @ y # drop (Suc i) ks) = first_combo caps (take i ks @ ks ! i # drop (Suc i) ks)"
    unfolding first_combo_def by (simp add: takeWhile_append)
  then show ?thesis using True ks by (simp add: upd_conv_take_nth_drop)
qed (simp add: list_update_beyond)

lemma length_filter_remove1:
  "c \<in> set xs \<Longrightarrow> distinct xs \<Longrightarrow> length (filter P xs) = length (filter P (remove1 c xs)) + (if P c then 1 else 0)"
  by (induction xs) auto

lemma leave_serv_list_ok:
  assumes "combos_ok n" "distinct (serv_list n)" "c \<in> set (serv_list n) \<Longrightarrow> cl_status (cl n c) \<in> {STAT_SERVER, STAT_CONNECTING, STAT_HANDSHAKE}"
  shows "\<exists>ks. leave_serv_list c n = Some (n\<lparr>serv_list := remove1 c (serv_list n), chcap_combos := ks\<rparr>) \<and>
    combos_ok (n\<lparr>serv_list := remove1 c (serv_list n), chcap_combos := ks\<rparr>)"
proof (cases "c \<in> set (serv_list n)")
  case False
  then have "n\<lparr>serv_list := remove1 c (serv_list n), chcap_combos := chcap_combos n\<rparr> = n" by (simp add: remove1_idem)
  then show ?thesis using False assms(1) by (intro exI [of _ "chcap_combos n"]) (simp add: leave_serv_list_def)
next
  case True
  let ?ks = "chcap_combos n" and ?fc = "\<lambda>s. first_combo (pr_caps (peers n s)) (chcap_combos n)"
  let ?i = "?fc c"
  have i: "?i < length ?ks" using assms(1) True by (simp add: combos_ok_def)
  have cnt: "cc_count (?ks ! j) = length (filter (\<lambda>s. ?fc s = j) (serv_list n))" if "j < length ?ks" for j
    using assms(1) that by (simp add: combos_ok_def)
  have "0 < length (filter (\<lambda>s. ?fc s = ?i) (serv_list n))" using True by (auto simp: filter_empty_conv)
  then have pos: "cc_count (?ks ! ?i) \<noteq> 0" using cnt [OF i] by linarith
  let ?y = "(?ks ! ?i)\<lparr>cc_count := cc_count (?ks ! ?i) - 1\<rparr>"
  define ks' where "ks' = ?ks[?i := ?y]"
  have l: "leave_serv_list c n = Some (n\<lparr>serv_list := remove1 c (serv_list n), chcap_combos := ks'\<rparr>)"
    using True assms(3) i pos by (simp add: leave_serv_list_def unset_chcap_usage_counts_def bump_combo_eq Let_def ks'_def)
  have fc: "first_combo caps ks' = first_combo caps ?ks" "length ks' = length ?ks" for caps
    unfolding ks'_def by (rule first_combo_update) simp_all
  have "cc_count (ks' ! j) = length (filter (\<lambda>s. ?fc s = j) (remove1 c (serv_list n)))" if "j < length ?ks" for j
    using cnt [OF that] that length_filter_remove1 [OF True assms(2), of "\<lambda>s. ?fc s = j"] i
    by (cases "?i = j") (simp_all add: ks'_def)
  moreover have "?fc s < length ?ks" if "s \<in> set (remove1 c (serv_list n))" for s
    using assms(1) that notin_set_remove1 [of s] by (auto simp: combos_ok_def)
  ultimately have "combos_ok (n\<lparr>serv_list := remove1 c (serv_list n), chcap_combos := ks'\<rparr>)"
    unfolding combos_ok_def by (simp add: fc)
  then show ?thesis using l by blast
qed

text \<open>What the local part changes besides the lists of connections: nothing the invariant looks at but the client itself.\<close>

definition loc :: "cid \<Rightarrow> net \<Rightarrow> net \<Rightarrow> bool" where
  "loc c n n' \<longleftrightarrow> clients (wd n') = clients (wd n) \<and> chans (wd n') = chans (wd n) \<and> mships (wd n') = mships (wd n) \<and>
     client_names (wd n') = client_names (wd n) \<and> id_names (wd n') = id_names (wd n) \<and> me (wd n') = me (wd n) \<and>
     cfg (wd n') = cfg (wd n) \<and> hist n' = hist n \<and> uhosts n' = uhosts n \<and> global_serv_list n' = global_serv_list n \<and>
     global_client_list n' = global_client_list n \<and> dead_list n' = dead_list n \<and>
     (\<forall>x. pr_serv (peers n' x) = pr_serv (peers n x) \<and> pr_allow_list (peers n' x) = pr_allow_list (peers n x) \<and>
       pr_on_allow_list (peers n' x) = pr_on_allow_list (peers n x) \<and> pr_caps (peers n' x) = pr_caps (peers n x) \<and>
       (x \<noteq> c \<longrightarrow> pr_from (peers n' x) = pr_from (peers n x) \<and> pr_closing (peers n' x) = pr_closing (peers n x)) \<and>
       (pr_closing (peers n x) \<longrightarrow> pr_closing (peers n' x)))"

lemma loc_refl [simp]: "loc c n n" by (simp add: loc_def)

lemma loc_trans: "loc c n m \<Longrightarrow> loc c m l \<Longrightarrow> loc c n l" by (simp add: loc_def)

lemma loc_notify [simp]: "loc c n (notify e n)" by (simp add: loc_def notify_def)

lemma loc_drop_link: "loc c n (drop_link c n)"
  by (simp add: loc_def drop_link_def Let_def remove_lazylink_flags_def)

lemma loc_local_lists: "loc c n (leave_local_lists c comment n)"
  by (simp add: loc_def leave_local_lists_def Let_def notify_def)

lemma loc_close: "loc c n (close_local c fr comment n)"
  by (simp add: loc_def close_local_def Let_def notify_def)

lemma local_lists_result:
  assumes L: "c \<in> set (unknown_list n) \<Longrightarrow> cl_status (cl n c) \<in> {STAT_CONNECTING, STAT_HANDSHAKE, STAT_UNKNOWN}"
    "c \<in> set (local_client_list n) \<Longrightarrow> IsClient (cl n c)" "c \<in> set (oper_list n) \<Longrightarrow> IsClient (cl n c) \<and> cl_oper (cl n c)"
  shows "unknown_list (leave_local_lists c comment n) = remove1 c (unknown_list n) \<and>
    local_client_list (leave_local_lists c comment n) = remove1 c (local_client_list n) \<and>
    oper_list (leave_local_lists c comment n) = remove1 c (oper_list n) \<and>
    serv_list (leave_local_lists c comment n) = serv_list n \<and> chcap_combos (leave_local_lists c comment n) = chcap_combos n"
proof (cases "cl_status (cl n c) \<in> {STAT_CONNECTING, STAT_HANDSHAKE, STAT_ME, STAT_UNKNOWN}")
  case True
  then have "\<not> IsClient (cl n c)" by (auto simp: IsClient_def)
  then have "c \<notin> set (local_client_list n)" "c \<notin> set (oper_list n)" using L(2,3) by blast+
  with True show ?thesis by (simp add: leave_local_lists_def remove1_idem)
next
  case False
  then have u: "c \<notin> set (unknown_list n)" using L(1) by auto
  show ?thesis
  proof (cases "IsClient (cl n c)")
    case True
    then have "\<not> cl_oper (cl n c) \<Longrightarrow> c \<notin> set (oper_list n)" using L(3) by blast
    with True False u show ?thesis by (cases "cl_oper (cl n c)") (simp_all add: leave_local_lists_def Let_def notify_def remove1_idem)
  next
    case False
    then have "c \<notin> set (local_client_list n)" "c \<notin> set (oper_list n)" using L(2,3) by blast+
    with False \<open>cl_status (cl n c) \<notin> _\<close> u show ?thesis by (simp add: leave_local_lists_def remove1_idem)
  qed
qed

lemma link_and_close_lists:
  "unknown_list (drop_link c n) = unknown_list n" "local_client_list (drop_link c n) = local_client_list n"
  "oper_list (drop_link c n) = oper_list n" "serv_list (drop_link c n) = serv_list n" "chcap_combos (drop_link c n) = chcap_combos n"
  "unknown_list (close_local c fr q n) = unknown_list n" "local_client_list (close_local c fr q n) = local_client_list n"
  "oper_list (close_local c fr q n) = oper_list n" "serv_list (close_local c fr q n) = serv_list n"
  "chcap_combos (close_local c fr q n) = chcap_combos n"
  by (simp_all add: drop_link_def close_local_def Let_def notify_def remove_lazylink_flags_def)

lemma combos_cong:
  "combos_ok n \<Longrightarrow> serv_list m = serv_list n \<Longrightarrow> chcap_combos m = chcap_combos n \<Longrightarrow>
    (\<And>x. pr_caps (peers m x) = pr_caps (peers n x)) \<Longrightarrow> combos_ok m"
  by (simp add: combos_ok_def)

lemma exit_local_result:
  assumes "net_ok k E n" "c \<noteq> me (wd n)"
  shows "\<exists>m. exit_local c fr comment n = Some m \<and> loc c n m \<and> combos_ok m \<and> unknown_list m = remove1 c (unknown_list n) \<and>
    local_client_list m = remove1 c (local_client_list n) \<and> oper_list m = remove1 c (oper_list n) \<and> serv_list m = remove1 c (serv_list n) \<and>
    pr_closing (peers m c)"
proof -
  have L: "lists_ok E n" and B: "combos_ok n" using assms(1) by (simp_all add: net_ok_def)
  define n1 where "n1 = upd_peer c (\<lambda>p. p\<lparr>pr_closing := True\<rparr>) n"
  define n2 where "n2 = notify (Calls ''delete_auth'' c) (if pr_iphash (peers n1 c) then notify (Calls ''remove_one_ip'' c) n1 else n1)"
  have l2: "loc c n n2" by (simp add: n1_def n2_def loc_def notify_def)
  have f2: "unknown_list n2 = unknown_list n" "local_client_list n2 = local_client_list n" "oper_list n2 = oper_list n" "serv_list n2 = serv_list n"
    "chcap_combos n2 = chcap_combos n"
    by (simp_all add: n1_def n2_def notify_def)
  have cl2: "cl n2 = cl n" using l2 by (simp add: loc_def cl_def fun_eq_iff)
  let ?n3 = "leave_local_lists c comment n2"
  have st: "c \<in> set (unknown_list n) \<Longrightarrow> cl_status (cl n c) \<in> {STAT_CONNECTING, STAT_HANDSHAKE, STAT_UNKNOWN}"
    "c \<in> set (local_client_list n) \<Longrightarrow> IsClient (cl n c)" "c \<in> set (oper_list n) \<Longrightarrow> IsClient (cl n c) \<and> cl_oper (cl n c)"
    "c \<in> set (serv_list n) \<Longrightarrow> cl_status (cl n c) \<in> {STAT_SERVER, STAT_CONNECTING, STAT_HANDSHAKE}" "distinct (serv_list n)"
    using L by (auto simp: lists_ok_def person_def)
  have f3: "unknown_list ?n3 = remove1 c (unknown_list n)" "local_client_list ?n3 = remove1 c (local_client_list n)"
    "oper_list ?n3 = remove1 c (oper_list n)" "serv_list ?n3 = serv_list n" "chcap_combos ?n3 = chcap_combos n"
    using local_lists_result [of c n2 comment] st(1-3) unfolding f2 cl2 by auto
  have l3: "loc c n ?n3" using loc_trans [OF l2 loc_local_lists] .
  then have cl3: "cl ?n3 = cl n" "\<And>x. pr_caps (peers ?n3 x) = pr_caps (peers n x)" by (simp_all add: loc_def cl_def fun_eq_iff)
  have "combos_ok ?n3" using combos_cong [OF B f3(4,5) cl3(2)] .
  then obtain ks where ks: "leave_serv_list c ?n3 = Some (?n3\<lparr>serv_list := remove1 c (serv_list ?n3), chcap_combos := ks\<rparr>)"
      "combos_ok (?n3\<lparr>serv_list := remove1 c (serv_list ?n3), chcap_combos := ks\<rparr>)"
    using leave_serv_list_ok [of ?n3 c] st(4,5) f3(4) cl3(1) by auto
  let ?n4 = "?n3\<lparr>serv_list := remove1 c (serv_list ?n3), chcap_combos := ks\<rparr>"
  let ?m = "close_local c fr comment (drop_link c ?n4)"
  have e: "exit_local c fr comment n = Some ?m" using ks(1) by (simp add: exit_local_def n1_def [symmetric] n2_def [symmetric] Let_def)
  have l4: "loc c n ?n4" using l3 by (simp add: loc_def)
  have lm: "loc c n ?m" using loc_trans [OF loc_trans [OF l4 loc_drop_link] loc_close] .
  have "loc c ?n4 ?m" by (rule loc_trans [OF loc_drop_link loc_close])
  then have "combos_ok ?m" by (intro combos_cong [OF ks(2)]) (simp_all add: link_and_close_lists loc_def)
  moreover have "loc c n2 ?m"
    by (rule loc_trans [OF loc_local_lists [of c n2 comment]], rule loc_trans [OF _ \<open>loc c ?n4 ?m\<close>]) (simp add: loc_def)
  then have "pr_closing (peers ?m c)" by (simp add: loc_def n2_def n1_def notify_def)
  ultimately show ?thesis using e lm f3 by (intro exI [of _ ?m]) (simp add: link_and_close_lists)
qed

lemma lists_okD:
  assumes "lists_ok E n"
  shows "global_client_list n \<noteq> []" "last (global_client_list n) = me (wd n)" "cl_status (cl n (me (wd n))) = STAT_ME"
    "distinct (unknown_list n)" "distinct (local_client_list n)" "distinct (oper_list n)" "distinct (serv_list n)"
    "set (global_client_list n) \<inter> set (unknown_list n) = {}" "set (dead_list n) \<inter> (known n \<union> E) = {}"
    "\<forall>c\<in>set (global_client_list n). c = me (wd n) \<or> IsClient (cl n c) \<or> IsServer (cl n c)"
    "\<forall>c\<in>known n. cl_local (cl n c) \<and> (IsClient (cl n c) \<or> IsServer (cl n c)) \<longrightarrow> cl_servptr (cl n c) = me (wd n)"
    "\<forall>c\<in>set (unknown_list n). cl_local (cl n c) \<and> cl_status (cl n c) \<in> {STAT_CONNECTING, STAT_HANDSHAKE, STAT_UNKNOWN}"
    "set (local_client_list n) \<subseteq> {c \<in> person n. cl_local (cl n c)}"
    "set (oper_list n) \<subseteq> {c \<in> person n. cl_local (cl n c) \<and> cl_oper (cl n c)}"
    "set (serv_list n) \<subseteq> {c \<in> known n. cl_local (cl n c) \<and> cl_status (cl n c) \<in> {STAT_SERVER, STAT_CONNECTING, STAT_HANDSHAKE}}"
    "set (client_names (wd n)) \<subseteq> {c \<in> known n \<union> E. cl_name (cl n c) \<noteq> []}"
    "set (id_names (wd n)) \<subseteq> {c \<in> known n \<union> E. cl_id (cl n c) \<noteq> []}"
    "\<forall>c\<in>known n. pr_closing (peers n c) \<longrightarrow> c \<in> E"
  by (insert assms, unfold lists_ok_def, elim conjE, assumption)+

lemma exit_local_ok:
  assumes ok: "net_ok k {} n" and c: "c \<in> known n" "c \<noteq> me (wd n)" "cl_local (cl n c)"
  shows "\<exists>m. exit_local c fr comment n = Some m \<and> net_ok k {c} m \<and> unlisted m c \<and> loc c n m \<and>
    known m = known n - (if IsClient (cl n c) \<or> IsServer (cl n c) then {} else {c}) \<and> pr_closing (peers m c)"
proof -
  have L: "lists_ok {} n" and T: "tree_ok k n" and R: "refs_ok n" and N: "names_ok {} n" using ok by (simp_all add: net_ok_def)
  obtain m where m: "exit_local c fr comment n = Some m" "loc c n m" "combos_ok m" "unknown_list m = remove1 c (unknown_list n)"
    "local_client_list m = remove1 c (local_client_list n)" "oper_list m = remove1 c (oper_list n)" "serv_list m = remove1 c (serv_list n)"
    "pr_closing (peers m c)"
    using exit_local_result [OF ok c(2)] by blast
  have cl: "cl m = cl n" using m(2) by (simp add: loc_def cl_def fun_eq_iff)
  have w: "me (wd m) = me (wd n)" "cfg (wd m) = cfg (wd n)" "client_names (wd m) = client_names (wd n)" "id_names (wd m) = id_names (wd n)"
    "mships (wd m) = mships (wd n)" "hist m = hist n" "uhosts m = uhosts n" "global_serv_list m = global_serv_list n"
    "global_client_list m = global_client_list n" "dead_list m = dead_list n" using m(2) by (simp_all add: loc_def)
  have p: "pr_serv (peers m x) = pr_serv (peers n x)" "pr_allow_list (peers m x) = pr_allow_list (peers n x)"
    "pr_on_allow_list (peers m x) = pr_on_allow_list (peers n x)" for x using m(2) by (simp_all add: loc_def)
  have p': "x \<noteq> c \<Longrightarrow> pr_from (peers m x) = pr_from (peers n x)" "x \<noteq> c \<Longrightarrow> pr_closing (peers m x) = pr_closing (peers n x)" for x
    using m(2) by (simp_all add: loc_def)
  have lk: "links_ok (wd m)" "invites_ok (wd m)" "accepts_ok m"
    using R m(2) same_accepts [of m n] p by (simp_all add: refs_ok_def loc_def links_ok_def invites_ok_def)
  have d: "distinct (unknown_list n)" "distinct (local_client_list n)" "distinct (oper_list n)" "distinct (serv_list n)"
    "set (global_client_list n) \<inter> set (unknown_list n) = {}" using L unfolding lists_ok_def by blast+
  have g: "c \<in> set (global_client_list n) \<longleftrightarrow> IsClient (cl n c) \<or> IsServer (cl n c)"
  proof
    assume "c \<in> set (global_client_list n)" then show "IsClient (cl n c) \<or> IsServer (cl n c)" using L c(2) unfolding lists_ok_def by blast
  next
    assume "IsClient (cl n c) \<or> IsServer (cl n c)"
    then have "c \<notin> set (unknown_list n)" using L unfolding lists_ok_def IsClient_def IsServer_def by auto
    then show "c \<in> set (global_client_list n)" using c(1) by (simp add: known_def)
  qed
  have kn: "known m = known n - (if IsClient (cl n c) \<or> IsServer (cl n c) then {} else {c})"
    unfolding known_def w m(4) using d g c(1) by (auto simp: known_def)
  have reg: "{x \<in> known m. IsClient (cl n x)} = {x \<in> known n. IsClient (cl n x)}" "{x \<in> known m. IsServer (cl n x) \<and> P x} = {x \<in> known n. IsServer (cl n x) \<and> P x}"
    "{x \<in> known m. IsServer (cl n x) \<or> x = me (wd n)} = {x \<in> known n. IsServer (cl n x) \<or> x = me (wd n)}" for P
    unfolding kn using c(2) by auto
  have pe: "person m = person n" "hubs m = hubs n" using reg(1,3) by (simp_all add: person_def hubs_def cl w)
  have un: "unlisted m c" using d by (simp add: unlisted_def m(4-7))
  have hb: "hub_ok m s = hub_ok n s" for s
    unfolding hub_ok_def pe cl p reg(2) [of "\<lambda>t. cl_servptr (cl n t) = s"] ..
  have "tree_ok k m"
    unfolding tree_ok_def pe cl p hb
  proof (intro conjI ballI impI)
    fix x assume x: "x \<in> known m" "IsClient (cl n x) \<or> IsServer (cl n x)"
    then have kx: "x \<in> known n" using kn by auto
    have t: "cl_servptr (cl n x) \<in> hubs n \<and> (cl_local (cl n x) \<or> (\<exists>f v. pr_from (peers n x) = Some f \<and> pr_serv (peers n f) = Some v))"
      using T kx x(2) unfolding tree_ok_def by blast
    show "cl_servptr (cl n x) \<in> hubs n" using t by blast
    show "cl_local (cl n x) \<or> (\<exists>f v. pr_from (peers m x) = Some f \<and> pr_serv (peers n f) = Some v)"
      using t c(3) p'(1) [of x] by (cases "x = c") auto
  next
    fix s assume "s \<in> hubs n" then show "hub_ok n s" using T unfolding tree_ok_def by blast
  next
    show "\<exists>d. \<forall>s\<in>hubs n. d s < k \<and> (IsServer (cl n s) \<longrightarrow> d s < d (cl_servptr (cl n s)))"
      by (rule conjunct2 [OF conjunct2 [OF T [unfolded tree_ok_def]]])
  qed
  moreover have "lists_ok {c} m"
  proof -
    have kn': "known m \<union> {c} = known n" "known m \<subseteq> known n" using kn c(1) by auto
    have sub: "c \<notin> known m \<Longrightarrow> c \<notin> person n \<and> c \<notin> hubs n" using kn c(2) by (auto simp: person_def hubs_def split: if_splits)
    note D = lists_okD [OF L]
    have sl: "set (serv_list n) - {c} \<subseteq> {x \<in> known m. cl_local (cl n x) \<and> cl_status (cl n x) \<in> {STAT_SERVER, STAT_CONNECTING, STAT_HANDSHAKE}}"
      using D(15) kn' by blast
    have cls: "\<forall>x\<in>known m. pr_closing (peers m x) \<longrightarrow> x \<in> {c}" using D(18) kn' p'(2) by blast
    have dd: "set (dead_list n) \<inter> (known m \<union> {c}) = {}" using D(9) kn' by auto
    have nm: "set (client_names (wd n)) \<subseteq> {x \<in> known m \<union> {c}. cl_name (cl n x) \<noteq> []}" "set (id_names (wd n)) \<subseteq> {x \<in> known m \<union> {c}. cl_id (cl n x) \<noteq> []}"
      using D(16,17) unfolding kn' by simp_all
    have loc: "\<forall>x\<in>known m. cl_local (cl n x) \<and> (IsClient (cl n x) \<or> IsServer (cl n x)) \<longrightarrow> cl_servptr (cl n x) = me (wd n)"
      using D(11) kn' by blast
    have l3: "set (local_client_list n) - {c} \<subseteq> {c \<in> person n. cl_local (cl n c)}" "set (oper_list n) - {c} \<subseteq> {c \<in> person n. cl_local (cl n c) \<and> cl_oper (cl n c)}"
      "set (global_client_list n) \<inter> (set (unknown_list n) - {c}) = {}"
      "\<forall>c\<in>set (unknown_list n) - {c}. cl_local (cl n c) \<and> cl_status (cl n c) \<in> {STAT_CONNECTING, STAT_HANDSHAKE, STAT_UNKNOWN}"
      using D(8,12,13,14) by blast+
    have r1: "distinct (remove1 c (unknown_list n))" "distinct (remove1 c (local_client_list n))" "distinct (remove1 c (oper_list n))"
      "distinct (remove1 c (serv_list n))" using d by simp_all
    have rm: "set (remove1 c xs) = set xs - {c}" if "distinct xs" for xs :: "cid list" using that by simp
    show ?thesis
      unfolding lists_ok_def pe cl w m(4-7) rm [OF d(1)] rm [OF d(2)] rm [OF d(3)] rm [OF d(4)]
      by (insert sl cls dd nm loc l3 r1 L [unfolded lists_ok_def], elim conjE, intro conjI; assumption)
  qed
  moreover have "refs_ok m" using R lk unfolding refs_ok_def pe cl w p by blast
  moreover have "names_ok {c} m"
  proof -
    have "known m \<union> {c} = known n" using kn c(1) by auto
    then show ?thesis using N unfolding names_ok_def pe cl w p by simp
  qed
  ultimately show ?thesis using m(1-3,8) un kn by (auto simp: net_ok_def)
qed

subsection \<open>The whole exit\<close>

lemma behind_cong:
  assumes "cl m = cl n" "\<And>x. IsClient (cl n x) \<or> IsServer (cl n x) \<Longrightarrow> x \<in> known m \<longleftrightarrow> x \<in> known n"
  shows "below m S = below n S"
proof -
  have "behind n s x" if "behind m s x" for s x
    using that by (induction rule: behind.induct) (use assms in \<open>auto intro: behind.intros\<close>)
  moreover have "behind m s x" if "behind n s x" for s x
    using that by (induction rule: behind.induct) (use assms in \<open>auto intro: behind.intros\<close>)
  ultimately show ?thesis unfolding below_def by blast
qed

lemma behind_hub:
  assumes "behind n c x" "net_ok k E n"
  shows "c \<in> hubs n" "c \<noteq> me (wd n) \<Longrightarrow> IsServer (cl n c)"
proof -
  show h: "c \<in> hubs n" using assms(1) by (induction rule: behind.induct) (use up_hub [OF assms(2)] in auto)
  then show "c \<noteq> me (wd n) \<Longrightarrow> IsServer (cl n c)" by (simp add: hubs_def)
qed

lemma not_behind_itself:
  assumes "net_ok k E n"
  shows "c \<notin> below n {c}"
proof
  assume "c \<in> below n {c}"
  then have b: "behind n c c" by (simp add: below_def)
  obtain d where d: "ranked d n" using assms(1) by (auto simp: net_ok_def tree_ok_def ranked_def)
  have "c \<noteq> me (wd n)" using behind_known [OF b] me_status [OF assms(1)] by metis
  then show False using behind_rank [OF b assms(1) d] behind_hub(2) [OF b assms] by simp
qed

lemma exit_one_after:
  assumes "net_ok k E m" "c \<in> known m \<union> E" "E \<subseteq> {c}" "c \<noteq> me (wd m)" "unlisted m c"
    "c \<notin> known m \<Longrightarrow> \<not> IsClient (cl m c) \<and> \<not> IsServer (cl m c)"
    "gone C m n2" "net_ok k E n2" "C = below m {c}" "c \<notin> C" "C \<inter> set (unknown_list m) = {}"
  shows "\<exists>n'. exit_one_client q c n2 = Some n' \<and> gone (C \<union> {c}) m n' \<and> net_ok k {} n'"
proof -
  note K = gone_known [OF assms(7,11)] and F = gone_fields [OF assms(7)]
  have st: "IsServer (cl n2 x) = IsServer (cl m x)" "IsClient (cl n2 x) = IsClient (cl m x)" for x by (simp_all add: IsServer_def IsClient_def F)
  have "leaf n2 c"
    unfolding leaf_def K(1) st F(5) using behind.direct [of _ m c] by (auto simp: assms(9) below_def)
  moreover have "unlisted n2 c" using assms(5,7) by (simp add: unlisted_def gone_def)
  moreover have "c \<noteq> me (wd n2)" using assms(4,7) by (simp add: gone_def)
  moreover have "c \<in> known n2 \<union> E" using assms(2,10) by (auto simp: K(1))
  moreover have "c \<notin> known n2 \<Longrightarrow> \<not> IsClient (cl n2 c) \<and> \<not> IsServer (cl n2 c)" using assms(6,10) by (auto simp: K(1) st)
  ultimately obtain n' where n': "exit_one_client q c n2 = Some n'" "gone {c} n2 n'" "net_ok k (E - {c}) n'"
    using exit_one_client_ok [OF assms(8), of c q] by blast
  have "E - {c} = {}" using assms(3) by blast
  then have "net_ok k {} n'" using n'(3) by metis
  then show ?thesis using n'(1) gone_trans [OF assms(7) n'(2) assms(11)] by blast
qed

lemma exit_client_ok:
  assumes ok: "net_ok k {} n" and c: "c \<in> known n" "c \<noteq> me (wd n)"
  shows "\<exists>n'. exit_client k c fr comment n = Some n' \<and> net_ok k {} n' \<and> known n' = known n - ({c} \<union> below n {c}) \<and>
    set (dead_list n') = set (dead_list n) \<union> ({c} \<union> below n {c}) \<and>
    (\<forall>m. mships (wd n') m = (case mships (wd n) m of Some x \<Rightarrow> if ms_client x \<in> {c} \<union> below n {c} then None else Some x | None \<Rightarrow> None)) \<and>
    (\<forall>x. plain (cl n' x) = plain (cl n x)) \<and> (cl_local (cl n c) \<longrightarrow> pr_closing (peers n' c))"
proof -
  note D = lists_okD [OF conjunct1 [OF conjunct2 [OF ok [unfolded net_ok_def]]]]
  have open_c: "\<not> pr_closing (peers n c)" using D(18) c(1) by blast
  obtain m E where m: "(if cl_local (cl n c) then exit_local c fr comment n else Some n) = Some m" "net_ok k E m" "E \<subseteq> {c}" "unlisted m c"
      "cl m = cl n" "mships (wd m) = mships (wd n)" "me (wd m) = me (wd n)" "dead_list m = dead_list n" "c \<in> known m \<union> E"
      "known m = known n - (if IsClient (cl n c) \<or> IsServer (cl n c) then {} else {c})" "cl_local (cl n c) \<Longrightarrow> pr_closing (peers m c)"
  proof (cases "cl_local (cl n c)")
    case True
    then obtain m where m: "exit_local c fr comment n = Some m" "net_ok k {c} m" "unlisted m c" "loc c n m"
      "known m = known n - (if IsClient (cl n c) \<or> IsServer (cl n c) then {} else {c})" "pr_closing (peers m c)"
      using exit_local_ok [OF ok c] by blast
    moreover have "cl m = cl n" "mships (wd m) = mships (wd n)" "me (wd m) = me (wd n)" "dead_list m = dead_list n"
      using m(4) by (simp_all add: loc_def cl_def fun_eq_iff)
    ultimately show thesis using that [of m "{c}"] True by simp
  next
    case False
    then have "unlisted n c" using D(12,13,14,15) by (auto simp: unlisted_def)
    moreover have "IsClient (cl n c) \<or> IsServer (cl n c)" using D(10,12) c False by (auto simp: known_def)
    ultimately show thesis using that [of n "{}"] ok c False by simp
  qed
  have b: "below m {c} = below n {c}" by (rule behind_cong [OF m(5)]) (auto simp: m(10))
  let ?B = "below n {c}"
  have reg: "c \<notin> known m \<Longrightarrow> \<not> IsClient (cl m c) \<and> \<not> IsServer (cl m c)" using m(10) c(1) by (auto simp: m(5) split: if_splits)
  have nb: "c \<notin> ?B" by (rule not_behind_itself [OF ok])
  have un: "?B \<inter> set (unknown_list m) = {}" using below_remote(1) [OF m(2), of c] c(2) m(7) b by simp
  let ?mid = "if IsServer (cl m c)
     then (let splitstr = (if hide_servers m then ''*.net *.split'' else take (2 * HOSTLEN + 1) (cl_name (cl m (cl_servptr (cl m c))) @ '' '' @ cl_name (cl m c))) in
           do { a \<leftarrow> remove_dependents k c (pr_from (peers m fr)) comment splitstr m;
                Some (if cl_servptr (cl a c) = me (wd a) then notify (Calls ''ilog'' c) (notify (To_ops ''%s was connected for %d seconds'' [cl_name (cl a c)]) a) else a) })
     else Some (if IsClient (cl m c) \<and> \<not> pr_killed (peers m c)
       then notify (To_network (pr_from (peers m fr)) c 0 CAP_TS6 ('':'' @ cl_name (cl m c) @ '' QUIT :'' @ comment))
             (notify (To_network (pr_from (peers m fr)) c CAP_TS6 0
               ('':'' @ (if cl_id (cl m c) \<noteq> [] then cl_id (cl m c) else cl_name (cl m c)) @ '' QUIT :'' @ comment)) m)
       else m)"
  have "\<exists>n2. ?mid = Some n2 \<and> gone ?B m n2 \<and> net_ok k E n2"
  proof (cases "IsServer (cl m c)")
    case True
    then have h: "c \<in> hubs m" using reg by (auto simp: hubs_def)
    let ?split = "if hide_servers m then ''*.net *.split'' else take (2 * HOSTLEN + 1) (cl_name (cl m (cl_servptr (cl m c))) @ '' '' @ cl_name (cl m c))"
    obtain a where a: "remove_dependents k c (pr_from (peers m fr)) comment ?split m = Some a" "gone ?B m a" "net_ok k E a"
      using remove_dependents_ok [OF m(2) h, of "pr_from (peers m fr)" comment ?split] c(2) m(3,7) nb b by auto
    let ?n2 = "if cl_servptr (cl a c) = me (wd a) then notify (Calls ''ilog'' c) (notify (To_ops ''%s was connected for %d seconds'' [cl_name (cl a c)]) a) else a"
    have s: "same a ?n2" using same_trans [OF same_notify same_notify] by simp
    have "?mid = Some ?n2" using True a(1) by (simp add: Let_def)
    moreover have "gone ?B m ?n2" using gone_trans [OF a(2) same_gone [OF s] un] by simp
    moreover have "net_ok k E ?n2" using same_net_ok [OF s] a(3) by blast
    ultimately show ?thesis by blast
  next
    case False
    let ?n2 = "if IsClient (cl m c) \<and> \<not> pr_killed (peers m c)
       then notify (To_network (pr_from (peers m fr)) c 0 CAP_TS6 ('':'' @ cl_name (cl m c) @ '' QUIT :'' @ comment))
             (notify (To_network (pr_from (peers m fr)) c CAP_TS6 0
               ('':'' @ (if cl_id (cl m c) \<noteq> [] then cl_id (cl m c) else cl_name (cl m c)) @ '' QUIT :'' @ comment)) m)
       else m"
    have s: "same m ?n2" using same_trans [OF same_notify same_notify] by simp
    have "?B = {}" using behind_hub(2) [OF _ ok, of c] c(2) False m(5) by (auto simp: below_def)
    then have "gone ?B m ?n2" using same_gone [OF s] by simp
    moreover have "net_ok k E ?n2" using same_net_ok [OF s] m(2) by blast
    ultimately show ?thesis using False by auto
  qed
  then obtain n2 where n2: "?mid = Some n2" "gone ?B m n2" "net_ok k E n2" by blast
  obtain n' where n': "exit_one_client comment c n2 = Some n'" "gone (?B \<union> {c}) m n'" "net_ok k {} n'"
    using exit_one_after [OF m(2,9,3) _ m(4) reg n2(2,3) b [symmetric] nb un] c(2) m(7) by auto
  have e: "exit_client k c fr comment n = Some n'"
    using open_c n2(1) n'(1) by (simp add: exit_client_def m(1) del: if_splits)
  have "(?B \<union> {c}) \<inter> set (unknown_list m) = {}" using un m(4) by (auto simp: unlisted_def)
  note K = gone_known(1) [OF n'(2) this]
  have "known n' = known n - ({c} \<union> ?B)" using K m(10) by auto
  moreover have "set (dead_list n') = set (dead_list n) \<union> ({c} \<union> ?B)" using n'(2) m(8) by (auto simp: gone_def)
  moreover have "mships (wd n') i = (case mships (wd n) i of Some x \<Rightarrow> if ms_client x \<in> {c} \<union> ?B then None else Some x | None \<Rightarrow> None)" for i
    using n'(2) m(6) unfolding gone_def Un_commute [of "{c}"] by metis
  moreover have "plain (cl n' x) = plain (cl n x)" for x using n'(2) m(5) by (simp add: gone_def)
  moreover have "cl_local (cl n c) \<longrightarrow> pr_closing (peers n' c)" using m(11) gone_fields(11) [OF n'(2)] by simp
  ultimately show ?thesis using e n'(3) by blast
qed

subsection \<open>What it means\<close>

text \<open>
  C4: A client that exits, and every client and server behind it when it is a server, leaves no trace: no list of the server, no
  hash table, no membership, no invitation, no list of accepted clients, no list of a server and no entry of the nickname history leads to
  it any more, it is on the list of clients to be freed, and the invariant of all those structures holds as before.  The exit always
  returns, whichever connection it came from, and an exit of a local client that is already closing changes nothing.
\<close>

theorem exit_leaves_no_trace:
  assumes "net_ok k {} n" "c \<in> known n" "c \<noteq> me (wd n)"
  shows "\<exists>n'. exit_client k c fr comment n = Some n' \<and> net_ok k {} n' \<and>
    (\<forall>x. x = c \<or> behind n c x \<longrightarrow> forgotten n' x \<and> x \<in> set (dead_list n')) \<and>
    (cl_local (cl n c) \<longrightarrow> exit_client k c fr2 comment2 n' = Some n')"
proof -
  obtain n' where n': "exit_client k c fr comment n = Some n'" "net_ok k {} n'" "known n' = known n - ({c} \<union> below n {c})"
    "set (dead_list n') = set (dead_list n) \<union> ({c} \<union> below n {c})" "\<forall>x. plain (cl n' x) = plain (cl n x)"
    "cl_local (cl n c) \<longrightarrow> pr_closing (peers n' c)"
    using exit_client_ok [OF assms] by blast
  have "forgotten n' x \<and> x \<in> set (dead_list n')" if "x = c \<or> behind n c x" for x
  proof -
    have "x \<in> {c} \<union> below n {c}" using that by (auto simp: below_def)
    then show ?thesis using unknown_forgotten [OF n'(2)] n'(3,4) by auto
  qed
  moreover have "cl_local (cl n' c) = cl_local (cl n c)"
    using arg_cong [OF n'(5) [rule_format, of c], of cl_local] by (simp add: plain_def)
  then have "cl_local (cl n c) \<longrightarrow> exit_client k c fr2 comment2 n' = Some n'" using n'(6) by (simp add: exit_client_def)
  ultimately show ?thesis using n'(1,2) by blast
qed

text \<open>
  C9: A split takes exactly the subtree: the clients and servers that are left are those that are not behind the one that exits, with the
  same names, and on every channel the members that are left are those of before that have not gone.
\<close>

theorem split_takes_the_subtree:
  assumes "net_ok k {} n" "c \<in> known n" "c \<noteq> me (wd n)"
  shows "\<exists>n'. exit_client k c fr comment n = Some n' \<and> (\<forall>x. x \<in> known n' \<longleftrightarrow> x \<in> known n \<and> x \<noteq> c \<and> \<not> behind n c x) \<and>
    (\<forall>x. cl_name (cl n' x) = cl_name (cl n x)) \<and>
    (\<forall>x ch. is_member (wd n') x ch \<longleftrightarrow> is_member (wd n) x ch \<and> x \<noteq> c \<and> \<not> behind n c x)"
proof -
  let ?C = "{c} \<union> below n {c}"
  obtain n' where n': "exit_client k c fr comment n = Some n'" "known n' = known n - ?C" "\<forall>x. plain (cl n' x) = plain (cl n x)"
    "\<forall>m. mships (wd n') m = (case mships (wd n) m of Some x \<Rightarrow> if ms_client x \<in> ?C then None else Some x | None \<Rightarrow> None)"
    using exit_client_ok [OF assms] by blast
  have C: "x \<in> ?C \<longleftrightarrow> x = c \<or> behind n c x" for x by (simp add: below_def)
  have "cl_name (cl n' x) = cl_name (cl n x)" for x using arg_cong [OF n'(3) [rule_format, of x], of cl_name] by (simp add: plain_def)
  moreover have "is_member (wd n') x ch \<longleftrightarrow> is_member (wd n) x ch \<and> x \<notin> ?C" for x ch
    unfolding is_member_def n'(4) [rule_format] by (auto split: option.splits if_splits)
  ultimately show ?thesis using n'(1,2) C by blast
qed


subsection \<open>A small network\<close>

text \<open>This server 0, a leaf 1 linked to it, and a user 2 of the leaf on channel 1.\<close>

definition split_world :: world where
  "split_world = a_world
    \<lparr>clients := (\<lambda>c. if c = 0 then a_client\<lparr>cl_status := STAT_ME, cl_name := ''hub.example''\<rparr>
       else if c = 1 then a_client\<lparr>cl_status := STAT_SERVER, cl_name := ''leaf.example''\<rparr>
       else a_client\<lparr>cl_local := False, cl_servptr := 1, cl_channel := if c = 2 then [7] else []\<rparr>),
     chans := (\<lambda>ch. if ch = 1 then a_channel\<lparr>ch_members := [7]\<rparr> else a_channel),
     mships := [7 \<mapsto> \<lparr>ms_chptr = 1, ms_client = 2, ms_flags = 0, ms_lmsg = None, ms_nmsg = 0, ms_lsize = 0, ms_lmsg_time = 0\<rparr>],
     client_names := [2, 1, 0], id_names := [2]\<rparr>"

definition a_peer :: peer where
  "a_peer = \<lparr>pr_from = Some 1, pr_serv = None, pr_killed = False, pr_closing = False, pr_dead = False, pr_iphash = False,
     pr_userhost = False, pr_flooddone = False, pr_zombie = False, pr_listing = False, pr_ipspoof = False, pr_allow_list = [], pr_on_allow_list = [],
     pr_caps = 0, pr_serverMask = 0, pr_lazy = 0, pr_info = [], pr_tsinfo = 1000, pr_umodes = 0, pr_hopcount = 1,
     pr_servicestamp = 0, pr_registration = 0, pr_llname = [], pr_last_nick_change = 0, pr_nick_changes = 0\<rparr>"

definition a_split :: net where
  "a_split = \<lparr>wd = split_world,
     peers = (\<lambda>c. if c = 0 then a_peer\<lparr>pr_from := Some 0,
           pr_serv := Some \<lparr>sv_servers = [1], sv_users = [], sv_dep_servers = 2, sv_dep_users = 0, sv_link_name = None\<rparr>\<rparr>
       else if c = 1 then a_peer\<lparr>pr_serv := Some \<lparr>sv_servers = [], sv_users = [2], sv_dep_servers = 1, sv_dep_users = 1, sv_link_name = None\<rparr>\<rparr>
       else a_peer),
     hist = a_history, uhosts = sample, unknown_list = [], local_client_list = [], oper_list = [], serv_list = [1],
     global_serv_list = [1, 0], global_client_list = [2, 1, 0], dead_list = [], uplink = None,
     chcap_combos = (combo 0)\<lparr>cc_count := 1\<rparr> # map combo [1..<8], freeMask = 0, lazyLinkChannelExists = (\<lambda>_. 0),
     Count_total = 1, Count_oper = 0, Count_invisi = 0, Count_local = 0, Count_myserver = 1, splitchecking = True,
     splitmode = False, split_servers = 1, split_users = 0, no_join_on_split = True, no_create_on_split = False, hide_servers = False, hide_spoof_ips = False\<rparr>"

lemma a_split_clients:
  "cl a_split c = (if c = 0 then a_client\<lparr>cl_status := STAT_ME, cl_name := ''hub.example''\<rparr>
     else if c = 1 then a_client\<lparr>cl_status := STAT_SERVER, cl_name := ''leaf.example''\<rparr>
     else a_client\<lparr>cl_local := False, cl_servptr := 1, cl_channel := if c = 2 then [7] else []\<rparr>)"
  "known a_split = {0, 1, 2}" "me (wd a_split) = 0"
  by (auto simp: cl_def a_split_def split_world_def known_def a_world_def)

lemma a_split_status:
  "IsServer (cl a_split c) \<longleftrightarrow> c = 1" "IsClient (cl a_split c) \<longleftrightarrow> c \<noteq> 0 \<and> c \<noteq> 1" "cl_servptr (cl a_split c) = (if c = 0 \<or> c = 1 then 0 else 1)"
  "person a_split = {2}" "hubs a_split = {0, 1}"
  by (auto simp: a_split_clients IsServer_def IsClient_def a_client_def person_def hubs_def)

lemma a_split_fields:
  "cl_local (cl a_split c) \<longleftrightarrow> c = 0 \<or> c = 1" "cl_name (cl a_split c) \<noteq> []" "cl_id (cl a_split c) \<noteq> []"
  "cl_status (cl a_split 0) = STAT_ME" "cl_status (cl a_split 1) = STAT_SERVER" "pr_closing (peers a_split c) = False"
proof -
  show "pr_closing (peers a_split c) = False" by (simp add: a_split_def a_peer_def)
qed (simp_all add: a_split_clients a_client_def)

lemma a_split_lists:
  "global_client_list a_split = [2, 1, 0]" "unknown_list a_split = []" "local_client_list a_split = []" "oper_list a_split = []"
  "serv_list a_split = [1]" "global_serv_list a_split = [1, 0]" "dead_list a_split = []" "client_names (wd a_split) = [2, 1, 0]"
  "id_names (wd a_split) = [2]"
  by (simp_all add: a_split_def split_world_def)

lemma a_split_combos: "combos_ok a_split"
proof -
  have "cap_yes (combo 0) = 0" by (simp add: combo_def upt_rec)
  then have f: "first_combo 0 (chcap_combos a_split) = 0" by (simp add: first_combo_def a_split_def caps_fit_def)
  have c: "cc_count (chcap_combos a_split ! i) = (if i = 0 then 1 else 0)" if "i < 8" for i
    using that by (cases i) (simp_all add: a_split_def combo_def del: upt_Suc)
  have "length (chcap_combos a_split) = 8" "serv_list a_split = [1]" "pr_caps (peers a_split 1) = 0" by (simp_all add: a_split_def a_peer_def)
  then show ?thesis using f c by (auto simp: combos_ok_def)
qed

lemma a_split_ok: "net_ok 2 {} a_split"
proof -
  have "tree_ok 2 a_split"
    unfolding tree_ok_def hub_ok_def a_split_status a_split_clients(2)
  proof (intro conjI)
    show "\<exists>d. \<forall>s\<in>{0, 1::cid}. d s < (2::nat) \<and> (s = 1 \<longrightarrow> d s < d (if s = 0 \<or> s = 1 then 0 else 1))"
      by (rule exI [of _ "\<lambda>c. if c = 0 then 1 else 0"]) auto
  qed (auto simp: a_split_def a_peer_def a_split_clients(1) a_client_def)
  moreover have "lists_ok {} a_split"
    unfolding lists_ok_def a_split_status a_split_clients(2,3) a_split_lists using a_split_fields by simp
  moreover have "refs_ok a_split"
  proof -
    have "links_ok (wd a_split)" by (auto simp: links_ok_def a_split_def split_world_def a_channel_def a_client_def)
    moreover have "invites_ok (wd a_split)" by (auto simp: invites_ok_def a_split_def split_world_def a_channel_def a_client_def)
    moreover have "accepts_ok a_split" by (auto simp: accepts_ok_def a_split_def a_peer_def)
    ultimately show ?thesis
      using a_history_ok(1,2) unfolding refs_ok_def a_split_status a_split_clients
      by (auto simp: a_split_def split_world_def a_client_def a_peer_def split: if_splits)
  qed
  moreover have "names_ok {} a_split"
  proof -
    have "hosts_ok sample" using sample_tables(3) by (auto simp: hosts_ok_def unique_names_def)
    then show ?thesis
      unfolding names_ok_def a_split_status a_split_clients
      by (auto simp: a_split_def split_world_def a_client_def a_peer_def a_world_def a_config_def split: if_splits)
  qed
  ultimately show ?thesis using a_split_combos by (simp add: net_ok_def)
qed

theorem exit_leaves_no_trace_witness:
  "\<exists>n'. exit_client 2 1 0 ''gone'' a_split = Some n' \<and> net_ok 2 {} n' \<and> forgotten n' 2 \<and> 2 \<in> set (dead_list n')"
proof -
  have "behind a_split 1 2" by (rule behind.direct) (simp_all add: a_split_clients(2) a_split_status)
  moreover have "1 \<in> known a_split" "1 \<noteq> me (wd a_split)" by (simp_all add: a_split_clients)
  ultimately show ?thesis using exit_leaves_no_trace [OF a_split_ok, of 1 0 "''gone''" 0 "[]"] by auto
qed

theorem split_takes_the_subtree_witness:
  "\<exists>n'. exit_client 2 1 0 ''gone'' a_split = Some n' \<and> 0 \<in> known n' \<and> 2 \<notin> known n' \<and> \<not> is_member (wd n') 2 1 \<and> is_member (wd a_split) 2 1"
proof -
  have b: "behind a_split 1 2" by (rule behind.direct) (simp_all add: a_split_clients(2) a_split_status)
  have "\<not> behind a_split 1 0" using behind_known [of a_split 1 0] by (auto simp: a_split_status)
  moreover have "1 \<in> known a_split" "1 \<noteq> me (wd a_split)" "0 \<in> known a_split" by (simp_all add: a_split_clients)
  moreover have "is_member (wd a_split) 2 1" by (auto simp: is_member_def a_split_def split_world_def)
  ultimately show ?thesis using b split_takes_the_subtree [OF a_split_ok, of 1 0 "''gone''"] by auto
qed


end
