(* ===== verification/Send_Queue.thy ===== *)
theory Send_Queue
  imports Exit_Client Recv_Queue Channel_Mode
begin

section \<open>Send queues\<close>

text \<open>
  src/send.c: lines are appended to the send queue of a connection, the dbuf of theory \<open>Recv_Queue\<close>, and written to its socket when
  there is enough of them or the next turn of the main loop comes; a connection that is too slow or broken is written off
  (\<^verbatim>\<open>dead_link_on_write\<close> of src/client.c).  With \<^verbatim>\<open>get_sendq\<close> of src/s_conf.c and \<^verbatim>\<open>ignoreErrno\<close> of src/s_bsd.c.
\<close>

subsection \<open>Connections and the kernel\<close>

datatype errno = EINPROGRESS | EWOULDBLOCK | EAGAIN | EALREADY | EINTR | ERESTART | Errno nat

datatype ssl_error = SSL_ERROR_WANT_READ | SSL_ERROR_WANT_WRITE | SSL_ERROR_SYSCALL | SSL_ERROR_SSL | SSL_ERROR_OTHER

text \<open>
  What \<^verbatim>\<open>send\<close> or \<^verbatim>\<open>SSL_write\<close> answers: how much it took, or a negative number with what \<^verbatim>\<open>SSL_get_error\<close> (of a connection with
  SSL) and \<^verbatim>\<open>errno\<close> say.  The kernel is a function of the connection, of how often it was asked before and of the data.
\<close>

datatype answer = Wrote nat | Failed ssl_error errno

type_synonym kernel = "cid \<Rightarrow> nat \<Rightarrow> string \<Rightarrow> answer"

definition ignoreErrno :: "errno \<Rightarrow> bool" where
  "ignoreErrno e \<longleftrightarrow> (case e of Errno _ \<Rightarrow> False | _ \<Rightarrow> True)"

datatype conf_type = OPER_TYPE | CLIENT_TYPE | SERVER_TYPE | OTHER_TYPE

text \<open>
  The parts of a client only sending looks at.  \<open>so_hidden_admin\<close> is a bit of its \<^verbatim>\<open>operflags\<close>, \<open>so_away_burst\<close> one of the connect block of a
  link.  \<open>so_confs\<close> is \<^verbatim>\<open>confs\<close>, each with the \<^verbatim>\<open>MaxSendq\<close> of its class, if it has one; \<open>so_wire\<close> is
  what the kernel has taken and \<open>so_calls\<close> how often it was asked.
\<close>

record out =
  buf_sendq :: dbuf_queue
  so_recvq :: dbuf_queue
  so_blocked :: bool
  so_exceeded :: bool
  so_ssl :: bool
  so_pending_read :: bool
  so_confs :: "(conf_type \<times> nat option) list"
  so_messages :: "32 word"
  so_bytes :: "64 word"
  so_serial :: "64 word"
  so_away :: "string option"
  so_last :: int
  so_vlink_nome :: "string option"
  so_hidden_admin :: bool
  so_away_burst :: bool
  so_calls :: nat
  so_wire :: string

record io =
  nt :: net
  outs :: "cid \<Rightarrow> out"
  abort_list :: "cid list"
  current_serial :: "64 word"
  hide_server_ips :: bool
  warn_last :: int
  warn_count :: int

definition upd_out :: "cid \<Rightarrow> (out \<Rightarrow> out) \<Rightarrow> io \<Rightarrow> io" where
  "upd_out c f s = s\<lparr>outs := (outs s)(c := f (outs s c))\<rparr>"

definition in_net :: "(net \<Rightarrow> net) \<Rightarrow> io \<Rightarrow> io" where
  "in_net f s = s\<lparr>nt := f (nt s)\<rparr>"

abbreviation cli :: "io \<Rightarrow> cid \<Rightarrow> client" where "cli s c \<equiv> cl (nt s) c"
abbreviation peer_of :: "io \<Rightarrow> cid \<Rightarrow> peer" where "peer_of s c \<equiv> peers (nt s) c"
abbreviation me_of :: "io \<Rightarrow> cid" where "me_of s \<equiv> me (wd (nt s))"

definition IsDefunct :: "peer \<Rightarrow> bool" where
  "IsDefunct p \<longleftrightarrow> pr_dead p \<or> pr_closing p \<or> pr_killed p"

subsection \<open>Formatting\<close>

abbreviation IRCD_BUFSIZE :: nat where "IRCD_BUFSIZE \<equiv> 512"

text \<open>
  \<open>formatted\<close> is the whole text the pattern stands for; \<^verbatim>\<open>vsnprintf\<close> writes as much of it as there is room for before its NUL.  \<^verbatim>\<open>None\<close>: with
  less than two bytes the line end is written outside of them.
\<close>

definition send_format :: "nat \<Rightarrow> string \<Rightarrow> string option" where
  "send_format bufsize formatted =
    (if bufsize < 2 then None else Some (take (bufsize - 2) formatted @ [CHR 0x0D, CHR 0x0A]))"

text \<open>A line with a prefix that \<^verbatim>\<open>ircsprintf\<close> has written to the buffer before, without looking at its size.\<close>

definition prefixed :: "string \<Rightarrow> string \<Rightarrow> string option" where
  "prefixed pre formatted =
    (if IRCD_BUFSIZE \<le> length pre then None else map_option ((@) pre) (send_format (IRCD_BUFSIZE - length pre) formatted))"

datatype showip = HIDE_IP | SHOW_IP | MASK_IP | HIDE_REALHOST

definition get_client_name :: "io \<Rightarrow> cid \<Rightarrow> showip \<Rightarrow> string" where
  "get_client_name s c showip =
    (let x = cli s c;
         s1 = (if hide_server_ips s \<and> cl_status x \<in> {STAT_SERVER, STAT_CONNECTING, STAT_HANDSHAKE} then MASK_IP else showip);
         s2 = (if hide_spoof_ips (nt s) \<and> s1 = SHOW_IP \<and> pr_ipspoof (peer_of s c) then MASK_IP else s1);
         nu = cl_name x @ ''['' @ cl_username x @ ''@'' in
     if irccmp (cl_name x) (cl_host x) = 0 then cl_name x
     else case s2 of
            SHOW_IP \<Rightarrow> (if cl_local x then nu @ cl_sockhost x @ '']'' else nu @ ''255.255.255.255]'')
          | MASK_IP \<Rightarrow> nu @ ''255.255.255.255]''
          | HIDE_REALHOST \<Rightarrow> nu @ cl_host x @ '']''
          | HIDE_IP \<Rightarrow> nu @ cl_realhost x @ '']'')"

subsection \<open>Writing\<close>

text \<open>How the loop over the blocks ends: the queue is empty, the call is to be tried again later, a negative answer, the end of the connection.\<close>

datatype outcome = Flushed | Try_later | Refused errno | Closed

definition refused :: "bool \<Rightarrow> ssl_error \<Rightarrow> errno \<Rightarrow> outcome" where
  "refused ssl e no =
    (if ssl
     then case e of
            SSL_ERROR_WANT_READ \<Rightarrow> Try_later
          | SSL_ERROR_WANT_WRITE \<Rightarrow> Refused EWOULDBLOCK
          | SSL_ERROR_SYSCALL \<Rightarrow> Refused no
          | SSL_ERROR_SSL \<Rightarrow> (if no = EAGAIN then Refused no else Closed)
          | SSL_ERROR_OTHER \<Rightarrow> Closed
     else Refused no)"

definition wrote :: "string \<Rightarrow> nat \<Rightarrow> dbuf_queue \<Rightarrow> out \<Rightarrow> out" where
  "wrote bs n q u = u\<lparr>buf_sendq := q, so_wire := so_wire u @ take n bs, so_bytes := so_bytes u + of_nat n\<rparr>"

lemma delete_loop_left: "delete_loop n bs l = Some (bs', l') \<Longrightarrow> l' = l - n"
proof (induction n bs l arbitrary: bs' l' rule: delete_loop.induct)
  case (1 n bs l)
  show ?case
  proof (cases bs)
    case Nil with "1.prems" show ?thesis by (auto simp: delete_loop.simps [of n] split: if_splits)
  next
    case (Cons b cs)
    with 1 show ?thesis by (auto simp: delete_loop.simps [of n] split: if_splits)
  qed
qed

lemma dbuf_delete_size: "dbuf_delete q n = Some q' \<Longrightarrow> n \<le> total_size q \<and> total_size q' = total_size q - n"
  by (auto simp: dbuf_delete_def dest: delete_loop_left split: if_splits)

text \<open>Reading through the head of an empty list of blocks is \<^verbatim>\<open>None\<close>.\<close>

function write_loop :: "(nat \<Rightarrow> string \<Rightarrow> answer) \<Rightarrow> bool \<Rightarrow> out \<Rightarrow> (out \<times> outcome) option" where
  "write_loop kern ssl u =
    (case blocks (buf_sendq u) of
       [] \<Rightarrow> None
     | first # rest \<Rightarrow>
         (let u1 = u\<lparr>so_calls := so_calls u + 1\<rparr> in
          case kern (so_calls u) first of
            Failed e no \<Rightarrow> Some (u1, refused ssl e no)
          | Wrote n \<Rightarrow>
              (if n = 0 then Some (u1, Closed)
               else case dbuf_delete (buf_sendq u1) n of
                      None \<Rightarrow> None
                    | Some q \<Rightarrow> (if dbuf_length q = 0 then Some (wrote first n q u1, Flushed) else write_loop kern ssl (wrote first n q u1)))))"
  by pat_completeness auto
termination
  by (relation "measure (\<lambda>(kern, ssl, u). total_size (buf_sendq u))") (auto simp: wrote_def dest!: dbuf_delete_size)

declare write_loop.simps [simp del]

subsection \<open>dead_link_on_write\<close>

text \<open>\<^verbatim>\<open>None\<close> is the failed assertion that the client is not on the list yet.\<close>

definition dead_link_on_write :: "cid \<Rightarrow> io \<Rightarrow> io option" where
  "dead_link_on_write c s =
    (if IsDefunct (peer_of s c) then Some s
     else do {
       r \<leftarrow> dbuf_clear (so_recvq (outs s c));
       q \<leftarrow> dbuf_clear (buf_sendq (outs s c));
       if c \<in> set (abort_list s) then None
       else Some (in_net (upd_peer c (\<lambda>p. p\<lparr>pr_dead := True\<rparr>))
         (upd_out c (\<lambda>u. u\<lparr>so_recvq := r, buf_sendq := q\<rparr>) (s\<lparr>abort_list := abort_list s @ [c]\<rparr>))) })"

definition after_write :: "cid \<Rightarrow> outcome \<Rightarrow> io \<Rightarrow> io option" where
  "after_write c r s =
    (case r of
       Flushed \<Rightarrow> Some s
     | Try_later \<Rightarrow> Some s
     | Refused e \<Rightarrow>
         (if ignoreErrno e then Some (in_net (notify (Calls ''comm_setselect'' c)) (upd_out c (\<lambda>u. u\<lparr>so_blocked := True\<rparr>) s))
          else dead_link_on_write c s)
     | Closed \<Rightarrow> dead_link_on_write c s)"

definition send_queued_write :: "kernel \<Rightarrow> cid \<Rightarrow> io \<Rightarrow> io option" where
  "send_queued_write kern c s =
    (if pr_dead (peer_of s c) \<or> so_blocked (outs s c) \<or> dbuf_length (buf_sendq (outs s c)) = 0 then Some s
     else do {
       (u, r) \<leftarrow> write_loop (kern c) (HAVE_LIBCRYPTO (cfg (wd (nt s))) \<and> so_ssl (outs s c)) (outs s c);
       let sent = so_bytes u - so_bytes (outs s c);
       after_write c r (upd_out (me_of s) (\<lambda>m. m\<lparr>so_bytes := so_bytes m + sent\<rparr>) (upd_out c (\<lambda>_. u) s)) })"

definition sendq_unblocked :: "cid \<Rightarrow> io \<Rightarrow> io" where
  "sendq_unblocked c s =
    (let s1 = upd_out c (\<lambda>u. u\<lparr>so_blocked := False\<rparr>) s in
     if HAVE_LIBCRYPTO (cfg (wd (nt s))) \<and> so_pending_read (outs s1 c)
     then in_net (notify (Calls ''read_packet'' c)) (upd_out c (\<lambda>u. u\<lparr>so_pending_read := False\<rparr>) s1)
     else s1)"

definition send_queued_all :: "kernel \<Rightarrow> io \<Rightarrow> io option" where
  "send_queued_all kern s = do {
     s1 \<leftarrow> each (send_queued_write kern) (serv_list (nt s)) s;
     s2 \<leftarrow> each (send_queued_write kern) (unknown_list (nt s1)) s1;
     each (send_queued_write kern) (local_client_list (nt s2)) s2 }"

subsection \<open>send_message\<close>

abbreviation UMODE_SERVNOTICE :: "32 word" where "UMODE_SERVNOTICE \<equiv> 0x1"
abbreviation UMODE_ALL :: "32 word" where "UMODE_ALL \<equiv> UMODE_SERVNOTICE"
abbreviation DEFAULT_SENDQ :: nat where "DEFAULT_SENDQ \<equiv> 9000000"

datatype oper_level = L_ALL | L_ADMIN | L_OPER

fun conf_sendq :: "(conf_type \<times> nat option) list \<Rightarrow> nat" where
  "conf_sendq [] = DEFAULT_SENDQ"
| "conf_sendq ((t, class) # cs) =
    (if t \<in> {SERVER_TYPE, OPER_TYPE, CLIENT_TYPE}
     then (case class of None \<Rightarrow> conf_sendq cs | Some max_sendq \<Rightarrow> max_sendq)
     else conf_sendq cs)"

definition get_sendq :: "io \<Rightarrow> cid \<Rightarrow> nat" where
  "get_sendq s c = (if cl_status (cli s c) = STAT_ME then DEFAULT_SENDQ else conf_sendq (so_confs (outs s c)))"

text \<open>The line fits: it is queued, and a long queue is written.\<close>

definition queue_line :: "kernel \<Rightarrow> cid \<Rightarrow> string \<Rightarrow> io \<Rightarrow> io option" where
  "queue_line kern c line s = do {
     q \<leftarrow> dbuf_put (buf_sendq (outs s c)) line;
     let s1 = upd_out (me_of s) (\<lambda>m. m\<lparr>so_messages := so_messages m + 1\<rparr>)
                (upd_out c (\<lambda>u. u\<lparr>buf_sendq := q, so_messages := so_messages u + 1\<rparr>) s);
     if (if IsServer (cli s c) then 1024 else 4096) < dbuf_length q then send_queued_write kern c s1 else Some s1 }"

text \<open>\<open>sm\<close> is \<^verbatim>\<open>send_message\<close>, which comes back here to tell the operators of a link that is too slow.\<close>

type_synonym sender = "cid \<Rightarrow> string \<Rightarrow> io \<Rightarrow> io option"

definition sendto_one_by :: "sender \<Rightarrow> cid \<Rightarrow> string \<Rightarrow> io \<Rightarrow> io option" where
  "sendto_one_by sm c text s =
    (let to = (case pr_from (peer_of s c) of None \<Rightarrow> c | Some f \<Rightarrow> f) in
     if pr_dead (peer_of s to) then Some s
     else do { line \<leftarrow> send_format IRCD_BUFSIZE text; sm to line s })"

definition notice_text :: "io \<Rightarrow> cid \<Rightarrow> string \<Rightarrow> string" where
  "notice_text s c text =
    '':'' @ cl_name (cli s (me_of s)) @ '' NOTICE '' @ cl_name (cli s c) @ '' :*** Notice -- '' @ take (IRCD_BUFSIZE - 1) text"

text \<open>\<^verbatim>\<open>None\<close> is the failed assertion that who is on the list is an operator.\<close>

definition notice_oper :: "sender \<Rightarrow> 32 word \<Rightarrow> oper_level \<Rightarrow> string \<Rightarrow> cid \<Rightarrow> io \<Rightarrow> io option" where
  "notice_oper sm flags level text c s =
    (if \<not> cl_oper (cli s c) then None
     else if level = L_ADMIN \<and> \<not> cl_admin (cli s c) \<or> level = L_OPER \<and> cl_admin (cli s c) then Some s
     else if has (pr_umodes (peer_of s c)) flags then sendto_one_by sm c (notice_text s c text) s
     else Some s)"

definition realops_by :: "sender \<Rightarrow> 32 word \<Rightarrow> oper_level \<Rightarrow> string \<Rightarrow> io \<Rightarrow> io option" where
  "realops_by sm flags level text s = each (notice_oper sm flags level text) (oper_list (nt s)) s"

definition sendq_notice :: "io \<Rightarrow> cid \<Rightarrow> string \<Rightarrow> string" where
  "sendq_notice s c line = ''Max SendQ limit exceeded for '' @ get_client_name s c HIDE_IP @ '': '' @
     dec_text (dbuf_length (buf_sendq (outs s c)) + length line) @ '' > '' @ dec_text (get_sendq s c)"

text \<open>
  \<open>k\<close> bounds how deep \<^verbatim>\<open>send_message\<close> calls itself: once, when it tells the operators of a server, who are no servers.  \<^verbatim>\<open>None\<close> is also a
  failed assertion that it does not send to itself, or a client without a connection.
\<close>

fun send_message :: "nat \<Rightarrow> kernel \<Rightarrow> sender" where
  "send_message 0 kern c line s = None"
| "send_message (Suc k) kern c line s =
    (if cl_status (cli s c) = STAT_ME \<or> c = me_of s \<or> \<not> cl_local (cli s c) then None
     else if get_sendq s c < dbuf_length (buf_sendq (outs s c)) + length line
     then do {
       s1 \<leftarrow> (if IsServer (cli s c) then realops_by (send_message k kern) UMODE_ALL L_ALL (sendq_notice s c line) s else Some s);
       dead_link_on_write c (if IsClient (cli s1 c) then upd_out c (\<lambda>u. u\<lparr>so_exceeded := True\<rparr>) s1 else s1) }
     else queue_line kern c line s)"

definition sendto_one :: "kernel \<Rightarrow> cid \<Rightarrow> string \<Rightarrow> io \<Rightarrow> io option" where
  "sendto_one kern = sendto_one_by (send_message 2 kern)"

definition sendto_realops_flags :: "kernel \<Rightarrow> 32 word \<Rightarrow> oper_level \<Rightarrow> string \<Rightarrow> io \<Rightarrow> io option" where
  "sendto_realops_flags kern = realops_by (send_message 2 kern)"

end
