(* ===== verification/Send_Flow.thy ===== *)
theory Send_Flow
  imports Send_Queue
begin

section \<open>What the connections are given\<close>

text \<open>
  Lemmas on theory \<open>Send_Queue\<close>: the queue of a connection as a string behind what was already written, what a message adds to it, that
  no queue outgrows its limit, and that everything queued is written in the end.
\<close>

subsection \<open>What a connection has been given\<close>

definition stream :: "out \<Rightarrow> string" where
  "stream u = so_wire u @ content (buf_sendq u)"

text \<open>Sockets never take more than they are offered.\<close>

definition kern_ok :: "kernel \<Rightarrow> bool" where
  "kern_ok kern \<longleftrightarrow> (\<forall>c i bs n. kern c i bs = Wrote n \<longrightarrow> n \<le> length bs)"

lemma queue_head: "queue_ok q \<Longrightarrow> content q \<noteq> [] \<Longrightarrow> \<exists>b bs. blocks q = b # bs \<and> b \<noteq> [] \<and> content q = b @ concat bs"
  by (cases "blocks q") (auto simp: queue_ok_def content_def)

lemma queue_length [simp]: "queue_ok q \<Longrightarrow> dbuf_length q = length (content q)"
  by (simp add: queue_ok_def dbuf_length_def)

lemma write_loop_ok:
  assumes "\<And>i bs n. kern i bs = Wrote n \<Longrightarrow> n \<le> length bs" "queue_ok (buf_sendq u)" "content (buf_sendq u) \<noteq> []"
  shows "\<exists>q calls r new. write_loop kern ssl u = Some (u\<lparr>buf_sendq := q, so_wire := so_wire u @ new, so_bytes := so_bytes u + of_nat (length new), so_calls := calls\<rparr>, r) \<and>
    queue_ok q \<and> new @ content q = content (buf_sendq u) \<and> so_calls u < calls \<and> (r = Flushed \<longleftrightarrow> content q = [])"
  using assms
proof (induction kern ssl u rule: write_loop.induct)
  case (1 kern ssl u)
  obtain first rest where b: "blocks (buf_sendq u) = first # rest" "first \<noteq> []" "content (buf_sendq u) = first @ concat rest"
    using queue_head "1.prems" by blast
  let ?u1 = "u\<lparr>so_calls := so_calls u + 1\<rparr>"
  show ?case
  proof (cases "kern (so_calls u) first")
    case (Failed e no)
    have "write_loop kern ssl u = Some (?u1, refused ssl e no)" using b(1) Failed by (simp add: write_loop.simps [of kern ssl u])
    then show ?thesis using "1.prems" apply -  by (rule exI [of _ "buf_sendq u"], rule exI [of _ "so_calls u + 1"], rule exI [of _ "refused ssl e no"], rule exI [of _ "[]"]) (auto simp: refused_def split: ssl_error.splits if_splits)
  next
    case (Wrote n)
    then have le: "n \<le> length first" using "1.prems"(1) by blast
    show ?thesis
    proof (cases "n = 0")
      case True
      then have "write_loop kern ssl u = Some (?u1, Closed)" using b(1) Wrote by (simp add: write_loop.simps [of kern ssl u])
      then show ?thesis using "1.prems"
        by (intro exI [of _ "buf_sendq u"] exI [of _ "so_calls u + 1"] exI [of _ Closed] exI [of _ "[]"]) auto
    next
      case False
      obtain q where q: "dbuf_delete (buf_sendq u) n = Some q" "queue_ok q" "content q = drop n (content (buf_sendq u))"
        using dbuf_delete_refines [OF "1.prems"(2), of n] le b(3) by auto
      let ?u2 = "wrote first n q ?u1"
      have c: "take n first @ content q = content (buf_sendq u)" using q(3) b(3) le by simp
      have len: "length (take n first) = n" using le by simp
      show ?thesis
      proof (cases "content q = []")
        case True
        then have "write_loop kern ssl u = Some (?u2, Flushed)"
          using b(1) Wrote False q(1,2) by (simp add: write_loop.simps [of kern ssl u])
        then show ?thesis using True q c len
          by (intro exI [of _ q] exI [of _ "so_calls u + 1"] exI [of _ Flushed] exI [of _ "take n first"]) (auto simp: wrote_def)
      next
        case F: False
        have e: "write_loop kern ssl u = write_loop kern ssl ?u2"
          using b(1) Wrote False q(1,2) F by (simp add: write_loop.simps [of kern ssl u])
        have "buf_sendq ?u2 = q" by (simp add: wrote_def)
        then obtain q2 calls r new where
          r: "write_loop kern ssl ?u2 = Some (?u2\<lparr>buf_sendq := q2, so_wire := so_wire ?u2 @ new, so_bytes := so_bytes ?u2 + of_nat (length new), so_calls := calls\<rparr>, r)"
            "queue_ok q2" "new @ content q2 = content q" "so_calls ?u2 < calls" "r = Flushed \<longleftrightarrow> content q2 = []"
          using "1.IH" [OF b(1) refl Wrote False, of q] q(1,2) F "1.prems"(1) by auto
        have "take n first @ new @ content q2 = content (buf_sendq u)" using c r(3) by simp
        then show ?thesis using e r len
          by (intro exI [of _ q2] exI [of _ calls] exI [of _ r] exI [of _ "take n first @ new"]) (auto simp: wrote_def)
      qed
    qed
  qed
qed

text \<open>Nothing changes in the rest of the server but which connections are dead, and the log.\<close>

definition only_deaths :: "net \<Rightarrow> net \<Rightarrow> bool" where
  "only_deaths n n' \<longleftrightarrow> (\<exists>D L. n' = n\<lparr>wd := (wd n)\<lparr>log := L\<rparr>, peers := (\<lambda>c. (peers n c)\<lparr>pr_dead := D c\<rparr>)\<rparr>)"

lemma only_deathsI: "n' = n\<lparr>wd := (wd n)\<lparr>log := L\<rparr>, peers := (\<lambda>c. (peers n c)\<lparr>pr_dead := D c\<rparr>)\<rparr> \<Longrightarrow> only_deaths n n'"
  unfolding only_deaths_def by blast

lemma only_deaths_refl: "only_deaths n n"
proof -
  have "n = n\<lparr>wd := (wd n)\<lparr>log := log (wd n)\<rparr>, peers := (\<lambda>c. (peers n c)\<lparr>pr_dead := pr_dead (peers n c)\<rparr>)\<rparr>" by simp
  then show ?thesis by (rule only_deathsI)
qed

lemma only_deaths_trans:
  assumes "only_deaths a b" "only_deaths b c"
  shows "only_deaths a c"
proof -
  obtain D L E M where "b = a\<lparr>wd := (wd a)\<lparr>log := L\<rparr>, peers := (\<lambda>c. (peers a c)\<lparr>pr_dead := D c\<rparr>)\<rparr>"
    "c = b\<lparr>wd := (wd b)\<lparr>log := M\<rparr>, peers := (\<lambda>c. (peers b c)\<lparr>pr_dead := E c\<rparr>)\<rparr>"
    using assms by (auto simp: only_deaths_def)
  then have "c = a\<lparr>wd := (wd a)\<lparr>log := M\<rparr>, peers := (\<lambda>c. (peers a c)\<lparr>pr_dead := E c\<rparr>)\<rparr>" by simp
  then show ?thesis by (rule only_deathsI)
qed

lemma only_deaths_notify: "only_deaths n (notify e n)"
proof -
  have "notify e n = n\<lparr>wd := (wd n)\<lparr>log := log (wd n) @ [e]\<rparr>, peers := (\<lambda>c. (peers n c)\<lparr>pr_dead := pr_dead (peers n c)\<rparr>)\<rparr>"
    by (simp add: notify_def in_world_def send_def)
  then show ?thesis by (rule only_deathsI)
qed

lemma only_deaths_dead: "only_deaths n (upd_peer c (\<lambda>p. p\<lparr>pr_dead := d\<rparr>) n)"
proof -
  have "upd_peer c (\<lambda>p. p\<lparr>pr_dead := d\<rparr>) n =
      n\<lparr>wd := (wd n)\<lparr>log := log (wd n)\<rparr>, peers := (\<lambda>x. (peers n x)\<lparr>pr_dead := (if x = c then d else pr_dead (peers n x))\<rparr>)\<rparr>"
    by (auto simp: upd_peer_def fun_eq_iff intro!: net.equality)
  then show ?thesis by (rule only_deathsI)
qed

lemma only_deathsD:
  assumes "only_deaths n n'"
  shows "cl n' = cl n" "me (wd n') = me (wd n)" "cfg (wd n') = cfg (wd n)" "oper_list n' = oper_list n" "serv_list n' = serv_list n"
    "unknown_list n' = unknown_list n" "local_client_list n' = local_client_list n" "global_client_list n' = global_client_list n"
    "global_serv_list n' = global_serv_list n"
    "chans (wd n') = chans (wd n)" "mships (wd n') = mships (wd n)" "CurrentTime (wd n') = CurrentTime (wd n)"
    "lazyLinkChannelExists n' = lazyLinkChannelExists n" "hide_spoof_ips n' = hide_spoof_ips n"
    "pr_from (peers n' c) = pr_from (peers n c)" "pr_umodes (peers n' c) = pr_umodes (peers n c)"
    "pr_caps (peers n' c) = pr_caps (peers n c)" "pr_closing (peers n' c) = pr_closing (peers n c)"
    "pr_killed (peers n' c) = pr_killed (peers n c)" "pr_serverMask (peers n' c) = pr_serverMask (peers n c)"
    "pr_lazy (peers n' c) = pr_lazy (peers n c)" "pr_ipspoof (peers n' c) = pr_ipspoof (peers n c)"
  using assms by (auto simp: only_deaths_def cl_def fun_eq_iff)

text \<open>The invariant of the queues.\<close>

definition io_ok :: "io \<Rightarrow> bool" where
  "io_ok s \<longleftrightarrow> (\<forall>c. queue_ok (buf_sendq (outs s c)) \<and> queue_ok (so_recvq (outs s c))) \<and>
     distinct (abort_list s) \<and> (\<forall>c\<in>set (abort_list s). pr_dead (peer_of s c)) \<and>
     cl_status (cli s (me_of s)) = STAT_ME \<and>
     (\<forall>c\<in>set (oper_list (nt s)). cl_local (cli s c) \<and> IsClient (cli s c) \<and> cl_oper (cli s c)) \<and>
     (\<forall>c. cl_local (cli s c) \<longrightarrow> pr_from (peer_of s c) \<in> {None, Some c})"

lemma io_okD:
  assumes "io_ok s"
  shows "queue_ok (buf_sendq (outs s c))" "queue_ok (so_recvq (outs s c))" "distinct (abort_list s)"
    "c \<in> set (abort_list s) \<Longrightarrow> pr_dead (peer_of s c)" "cl_status (cli s (me_of s)) = STAT_ME"
    "c \<in> set (oper_list (nt s)) \<Longrightarrow> cl_local (cli s c)" "c \<in> set (oper_list (nt s)) \<Longrightarrow> IsClient (cli s c)"
    "c \<in> set (oper_list (nt s)) \<Longrightarrow> cl_oper (cli s c)" "cl_local (cli s c) \<Longrightarrow> pr_from (peer_of s c) \<in> {None, Some c}"
  using assms unfolding io_ok_def by blast+

definition steady_out :: "out \<Rightarrow> out \<Rightarrow> bool" where
  "steady_out u u' \<longleftrightarrow> so_confs u' = so_confs u \<and> so_ssl u' = so_ssl u \<and> so_away u' = so_away u \<and> so_last u' = so_last u \<and>
     so_vlink_nome u' = so_vlink_nome u \<and> so_hidden_admin u' = so_hidden_admin u \<and> so_away_burst u' = so_away_burst u"

text \<open>
  Between the two states the connections are given the bytes \<open>g\<close>.  Who is alive has them behind all that it was given before, written or
  queued; who has died was written no more than the beginning of that; who was dead is written nothing.  Of a connection whose client
  is already being exited nothing more is said.
\<close>

definition going :: "peer \<Rightarrow> bool" where
  "going p \<longleftrightarrow> pr_closing p \<or> pr_killed p"

definition dealt :: "string \<Rightarrow> out \<Rightarrow> out \<Rightarrow> peer \<Rightarrow> peer \<Rightarrow> bool" where
  "dealt bs u u' p p' \<longleftrightarrow> steady_out u u' \<and>
     (\<not> going p \<longrightarrow> (\<exists>rest. so_wire u' @ rest = stream u @ bs) \<and> (\<not> pr_dead p' \<longrightarrow> stream u' = stream u @ bs)) \<and>
     (pr_dead p \<longrightarrow> pr_dead p' \<and> so_wire u' = so_wire u)"

definition delivered :: "(cid \<Rightarrow> string) \<Rightarrow> io \<Rightarrow> io \<Rightarrow> bool" where
  "delivered g s s' \<longleftrightarrow> io_ok s' \<and> only_deaths (nt s) (nt s') \<and> hide_server_ips s' = hide_server_ips s \<and>
     (\<forall>c. dealt (g c) (outs s c) (outs s' c) (peer_of s c) (peer_of s' c))"

abbreviation nothing :: "cid \<Rightarrow> string" where "nothing \<equiv> \<lambda>_. []"

lemma dealt_trans:
  assumes "dealt a u v p q" "dealt b v w q r" "going q = going p"
  shows "dealt (a @ b) u w p r"
proof -
  have "\<exists>rest. so_wire w @ rest = stream u @ a @ b" if g: "\<not> going p"
  proof (cases "pr_dead q")
    case True
    obtain r where "so_wire v @ r = stream u @ a" using assms(1) g by (auto simp: dealt_def)
    moreover have "so_wire w = so_wire v" using assms(2) True by (simp add: dealt_def)
    ultimately show ?thesis by (metis append_assoc)
  next
    case False
    then show ?thesis using assms g by (auto simp: dealt_def)
  qed
  then show ?thesis using assms by (auto simp: dealt_def steady_out_def)
qed

lemma dealt_refl: "dealt [] u u p p"
  by (simp add: dealt_def steady_out_def stream_def)

lemma only_deaths_going: "only_deaths n n' \<Longrightarrow> going (peers n' c) = going (peers n c)"
  by (simp add: going_def only_deathsD)

lemma delivered_refl: "io_ok s \<Longrightarrow> delivered nothing s s"
  by (simp add: delivered_def only_deaths_refl dealt_refl)

lemma delivered_trans:
  assumes "delivered f a b" "delivered g b c"
  shows "delivered (\<lambda>x. f x @ g x) a c"
proof -
  have "dealt (f x @ g x) (outs a x) (outs c x) (peer_of a x) (peer_of c x)" for x
    using dealt_trans [of "f x" "outs a x" "outs b x" "peer_of a x" "peer_of b x" "g x" "outs c x" "peer_of c x"]
      only_deaths_going [of "nt a" "nt b" x] assms by (simp add: delivered_def)
  then show ?thesis using assms only_deaths_trans unfolding delivered_def by fastforce
qed

lemmas delivered_net = only_deathsD [of "nt s" "nt s'" for s s']

lemma deliveredD:
  assumes "delivered g s s'"
  shows "io_ok s'" "only_deaths (nt s) (nt s')" "pr_dead (peer_of s c) \<Longrightarrow> pr_dead (peer_of s' c)"
    "\<not> pr_dead (peer_of s' c) \<Longrightarrow> \<not> going (peer_of s c) \<Longrightarrow> stream (outs s' c) = stream (outs s c) @ g c" "steady_out (outs s c) (outs s' c)"
  using assms by (auto simp: delivered_def dealt_def)

lemma upd_out_simps [simp]:
  "nt (upd_out c f s) = nt s" "outs (upd_out c f s) = (outs s)(c := f (outs s c))" "abort_list (upd_out c f s) = abort_list s"
  "current_serial (upd_out c f s) = current_serial s" "hide_server_ips (upd_out c f s) = hide_server_ips s"
  "nt (in_net g s) = g (nt s)" "outs (in_net g s) = outs s" "abort_list (in_net g s) = abort_list s"
  "current_serial (in_net g s) = current_serial s" "hide_server_ips (in_net g s) = hide_server_ips s"
  by (simp_all add: upd_out_def in_net_def)

text \<open>A step of one connection \<open>c\<close>: what has to be checked.\<close>

lemma io_ok_same:
  assumes "io_ok s" "only_deaths (nt s) (nt s')" "abort_list s' = abort_list s"
    "\<And>c. pr_dead (peer_of s c) \<Longrightarrow> pr_dead (peer_of s' c)" "\<And>c. queue_ok (buf_sendq (outs s' c)) \<and> queue_ok (so_recvq (outs s' c))"
  shows "io_ok s'"
  using assms(1,3-) unfolding io_ok_def only_deathsD [OF assms(2)] by auto

lemma dead_link_on_write_ok:
  assumes "io_ok s"
  shows "\<exists>s'. dead_link_on_write c s = Some s' \<and> delivered nothing s s' \<and> IsDefunct (peer_of s' c) \<and>
    (\<forall>x. x \<noteq> c \<longrightarrow> outs s' x = outs s x \<and> peer_of s' x = peer_of s x)"
proof (cases "IsDefunct (peer_of s c)")
  case True
  then show ?thesis using delivered_refl assms by (simp add: dead_link_on_write_def)
next
  case False
  have nd: "\<not> pr_dead (peer_of s c)" using False by (simp add: IsDefunct_def)
  have cl: "\<exists>r. dbuf_clear q = Some r \<and> queue_ok r \<and> content r = []" if "queue_ok q" for q
    using dbuf_delete_refines [OF that, of "dbuf_length q"] that by (auto simp: dbuf_clear_def)
  obtain r q where rq: "dbuf_clear (so_recvq (outs s c)) = Some r" "queue_ok r" "dbuf_clear (buf_sendq (outs s c)) = Some q" "queue_ok q" "content q = []"
    using cl io_okD(1,2) [OF assms] by blast
  have "c \<notin> set (abort_list s)" using nd io_okD(4) [OF assms] by blast
  let ?s = "in_net (upd_peer c (\<lambda>p. p\<lparr>pr_dead := True\<rparr>)) (upd_out c (\<lambda>u. u\<lparr>so_recvq := r, buf_sendq := q\<rparr>) (s\<lparr>abort_list := abort_list s @ [c]\<rparr>))"
  have e: "dead_link_on_write c s = Some ?s" using False rq(1,3) \<open>c \<notin> set (abort_list s)\<close> by (simp add: dead_link_on_write_def)
  have od: "only_deaths (nt s) (nt ?s)" by (simp add: only_deaths_dead)
  have "io_ok ?s"
    using assms rq \<open>c \<notin> set (abort_list s)\<close> unfolding io_ok_def only_deathsD [OF od] by auto
  moreover have "dealt [] (outs s x) (outs ?s x) (peer_of s x) (peer_of ?s x)" for x
    by (auto simp: dealt_def steady_out_def stream_def)
  ultimately have "delivered nothing s ?s" using od by (simp add: delivered_def)
  then show ?thesis using e by (auto simp: IsDefunct_def)
qed

lemma after_write_ok:
  assumes "io_ok s"
  shows "\<exists>s'. after_write c r s = Some s' \<and> delivered nothing s s' \<and> (\<forall>x. x \<noteq> c \<longrightarrow> outs s' x = outs s x \<and> peer_of s' x = peer_of s x) \<and>
    (case r of Flushed \<Rightarrow> s' = s | Try_later \<Rightarrow> s' = s
     | Refused e \<Rightarrow> (if ignoreErrno e then outs s' c = (outs s c)\<lparr>so_blocked := True\<rparr> \<and> peer_of s' c = peer_of s c else IsDefunct (peer_of s' c))
     | Closed \<Rightarrow> IsDefunct (peer_of s' c))"
proof -
  have d: "\<exists>s'. dead_link_on_write c s = Some s' \<and> delivered nothing s s' \<and> (\<forall>x. x \<noteq> c \<longrightarrow> outs s' x = outs s x \<and> peer_of s' x = peer_of s x) \<and> IsDefunct (peer_of s' c)"
    using dead_link_on_write_ok [OF assms] by blast
  let ?b = "in_net (notify (Calls ''comm_setselect'' c)) (upd_out c (\<lambda>u. u\<lparr>so_blocked := True\<rparr>) s)"
  have od: "only_deaths (nt s) (nt ?b)" by (simp add: only_deaths_notify)
  have p: "peer_of ?b x = peer_of s x" for x by (simp add: notify_def in_world_def)
  have "io_ok ?b" by (rule io_ok_same [OF assms od]) (use io_okD(1,2) [OF assms] p in auto)
  moreover have "dealt [] (outs s x) (outs ?b x) (peer_of s x) (peer_of ?b x)" for x
    using p by (auto simp: dealt_def steady_out_def stream_def)
  ultimately have "delivered nothing s ?b" using od by (simp add: delivered_def)
  then show ?thesis using d delivered_refl [OF assms] p
    by (cases r) (simp_all add: after_write_def)
qed

text \<open>The invariant of one connection in the state before the outcome is looked at.\<close>

lemma delivered_local:
  assumes "io_ok s" "\<And>x. stream (g x) = stream (outs s x) @ b x" "\<And>x. queue_ok (buf_sendq (g x)) \<and> so_recvq (g x) = so_recvq (outs s x)"
    "\<And>x. steady_out (outs s x) (g x)" "\<And>x. pr_dead (peer_of s x) \<Longrightarrow> so_wire (g x) = so_wire (outs s x)"
  shows "delivered b s (s\<lparr>outs := g\<rparr>)"
proof -
  have od: "only_deaths (nt s) (nt (s\<lparr>outs := g\<rparr>))" by (simp add: only_deaths_refl)
  have "io_ok (s\<lparr>outs := g\<rparr>)" by (rule io_ok_same [OF assms(1) od]) (use assms(3) io_okD(2) [OF assms(1)] in auto)
  moreover have "dealt (b x) (outs s x) (g x) (peer_of s x) (peer_of s x)" for x
    using assms(2,4,5) [of x] by (auto simp: dealt_def stream_def)
  ultimately show ?thesis using od by (simp add: delivered_def)
qed

definition taken :: "out \<Rightarrow> dbuf_queue \<Rightarrow> string \<Rightarrow> nat \<Rightarrow> out" where
  "taken u q new calls = u\<lparr>buf_sendq := q, so_wire := so_wire u @ new, so_bytes := so_bytes u + of_nat (length new), so_calls := calls\<rparr>"

lemma send_queued_write_ok:
  assumes "io_ok s" "kern_ok kern"
  shows "\<exists>s'. send_queued_write kern c s = Some s' \<and> delivered nothing s s' \<and>
    (\<forall>x. x \<noteq> c \<longrightarrow> peer_of s' x = peer_of s x \<and> (x \<noteq> me_of s \<longrightarrow> outs s' x = outs s x)) \<and>
    (\<not> pr_dead (peer_of s c) \<and> \<not> so_blocked (outs s c) \<and> content (buf_sendq (outs s c)) \<noteq> [] \<and> c \<noteq> me_of s \<longrightarrow>
     (\<exists>q new calls r. queue_ok q \<and> new @ content q = content (buf_sendq (outs s c)) \<and> so_calls (outs s c) < calls \<and> (r = Flushed \<longleftrightarrow> content q = []) \<and>
       write_loop (kern c) (HAVE_LIBCRYPTO (cfg (wd (nt s))) \<and> so_ssl (outs s c)) (outs s c) = Some (taken (outs s c) q new calls, r) \<and>
       (case r of
          Refused e \<Rightarrow> (if ignoreErrno e then outs s' c = (taken (outs s c) q new calls)\<lparr>so_blocked := True\<rparr> \<and> peer_of s' c = peer_of s c
                       else IsDefunct (peer_of s' c))
        | Closed \<Rightarrow> IsDefunct (peer_of s' c)
        | _ \<Rightarrow> outs s' c = taken (outs s c) q new calls \<and> peer_of s' c = peer_of s c)))"
proof (cases "pr_dead (peer_of s c) \<or> so_blocked (outs s c) \<or> dbuf_length (buf_sendq (outs s c)) = 0")
  case True
  then have "send_queued_write kern c s = Some s" by (simp add: send_queued_write_def)
  then show ?thesis using True io_okD(1) [OF assms(1), of c] delivered_refl [OF assms(1)] by auto
next
  case False
  let ?u = "outs s c" and ?ssl = "HAVE_LIBCRYPTO (cfg (wd (nt s))) \<and> so_ssl (outs s c)"
  have ne: "content (buf_sendq ?u) \<noteq> []" using False io_okD(1) [OF assms(1), of c] by auto
  obtain q calls r new where w: "write_loop (kern c) ?ssl ?u = Some (taken ?u q new calls, r)" "queue_ok q" "new @ content q = content (buf_sendq ?u)"
      "so_calls ?u < calls" "r = Flushed \<longleftrightarrow> content q = []"
    using write_loop_ok [of "kern c" ?u ?ssl] assms(2) io_okD(1) [OF assms(1), of c] ne unfolding kern_ok_def taken_def by blast
  define sent where "sent = so_bytes (taken ?u q new calls) - so_bytes ?u"
  define g where "g = ((outs s)(c := taken ?u q new calls))(me_of s := (if me_of s = c then taken ?u q new calls else outs s (me_of s))\<lparr>so_bytes :=
      so_bytes (if me_of s = c then taken ?u q new calls else outs s (me_of s)) + sent\<rparr>)"
  define s1 where "s1 = upd_out (me_of s) (\<lambda>m. m\<lparr>so_bytes := so_bytes m + sent\<rparr>) (upd_out c (\<lambda>_. taken ?u q new calls) s)"
  have s1: "s1 = s\<lparr>outs := g\<rparr>" by (auto simp: s1_def g_def upd_out_def fun_eq_iff)
  have st: "stream (taken ?u q new calls) = stream ?u" using w(3) by (simp add: stream_def taken_def)
  have "delivered nothing s (s\<lparr>outs := g\<rparr>)"
  proof (rule delivered_local [OF assms(1)])
    fix x
    show "stream (g x) = stream (outs s x) @ []" using st by (auto simp: g_def stream_def)
    show "queue_ok (buf_sendq (g x)) \<and> so_recvq (g x) = so_recvq (outs s x)"
      using w(2) io_okD(1) [OF assms(1)] by (auto simp: g_def taken_def)
    show "steady_out (outs s x) (g x)" by (auto simp: g_def taken_def steady_out_def)
    show "so_wire (g x) = so_wire (outs s x)" if "pr_dead (peer_of s x)" using that False by (auto simp: g_def)
  qed
  then have d1: "delivered nothing s s1" by (simp add: s1)
  have p1: "peer_of s1 = peer_of s" "nt s1 = nt s" by (simp_all add: s1_def)
  have o1: "outs s1 c = taken ?u q new calls" if "c \<noteq> me_of s" using that by (simp add: s1_def)
  have o2: "outs s1 x = outs s x" if "x \<noteq> c" "x \<noteq> me_of s" for x using that by (simp add: s1_def)
  obtain s' where s': "after_write c r s1 = Some s'" "delivered nothing s1 s'" "\<forall>x. x \<noteq> c \<longrightarrow> outs s' x = outs s1 x \<and> peer_of s' x = peer_of s1 x"
    "case r of Flushed \<Rightarrow> s' = s1 | Try_later \<Rightarrow> s' = s1
     | Refused e \<Rightarrow> (if ignoreErrno e then outs s' c = (outs s1 c)\<lparr>so_blocked := True\<rparr> \<and> peer_of s' c = peer_of s1 c else IsDefunct (peer_of s' c))
     | Closed \<Rightarrow> IsDefunct (peer_of s' c)"
    using after_write_ok [OF deliveredD(1) [OF d1], of c r] by blast
  have e: "send_queued_write kern c s = Some s'"
    using False w(1) s'(1) by (simp add: send_queued_write_def s1_def sent_def)
  have d: "delivered nothing s s'" using delivered_trans [OF d1 s'(2)] by simp
  have fr: "\<forall>x. x \<noteq> c \<longrightarrow> peer_of s' x = peer_of s x \<and> (x \<noteq> me_of s \<longrightarrow> outs s' x = outs s x)" using s'(3) p1(1) o2 by simp
  have "c \<noteq> me_of s \<longrightarrow> (case r of
          Refused e \<Rightarrow> (if ignoreErrno e then outs s' c = (taken ?u q new calls)\<lparr>so_blocked := True\<rparr> \<and> peer_of s' c = peer_of s c
                       else IsDefunct (peer_of s' c))
        | Closed \<Rightarrow> IsDefunct (peer_of s' c)
        | _ \<Rightarrow> outs s' c = taken ?u q new calls \<and> peer_of s' c = peer_of s c)"
    using s'(4) o1 p1(1) by (cases r) auto
  then show ?thesis using e d fr w by blast
qed

definition single :: "cid \<Rightarrow> string \<Rightarrow> cid \<Rightarrow> string" where
  "single c line = (\<lambda>x. if x = c then line else [])"

lemma queue_line_ok:
  assumes "io_ok s" "kern_ok kern" "line \<noteq> []" "c \<noteq> me_of s"
  shows "\<exists>s'. queue_line kern c line s = Some s' \<and> delivered (single c line) s s' \<and>
    (\<forall>x. x \<noteq> c \<longrightarrow> peer_of s' x = peer_of s x \<and> (x \<noteq> me_of s \<longrightarrow> outs s' x = outs s x))"
proof -
  obtain q where q: "dbuf_put (buf_sendq (outs s c)) line = Some q" "queue_ok q" "content q = content (buf_sendq (outs s c)) @ line"
    using dbuf_put_refines [OF io_okD(1) [OF assms(1)] assms(3)] by blast
  define g where "g = ((outs s)(c := (outs s c)\<lparr>buf_sendq := q, so_messages := so_messages (outs s c) + 1\<rparr>))
    (me_of s := (outs s (me_of s))\<lparr>so_messages := so_messages (outs s (me_of s)) + 1\<rparr>)"
  define s1 where "s1 = upd_out (me_of s) (\<lambda>m. m\<lparr>so_messages := so_messages m + 1\<rparr>)
                (upd_out c (\<lambda>u. u\<lparr>buf_sendq := q, so_messages := so_messages u + 1\<rparr>) s)"
  have s1: "s1 = s\<lparr>outs := g\<rparr>" using assms(4) by (auto simp: s1_def g_def upd_out_def fun_eq_iff)
  have "delivered (single c line) s (s\<lparr>outs := g\<rparr>)"
  proof (rule delivered_local [OF assms(1)])
    fix x
    show "stream (g x) = stream (outs s x) @ single c line x" using q(3) assms(4) by (auto simp: g_def stream_def single_def)
    show "queue_ok (buf_sendq (g x)) \<and> so_recvq (g x) = so_recvq (outs s x)"
      using q(2) io_okD(1) [OF assms(1)] by (auto simp: g_def)
    show "steady_out (outs s x) (g x)" by (auto simp: g_def steady_out_def)
    show "so_wire (g x) = so_wire (outs s x)" by (auto simp: g_def)
  qed
  then have d1: "delivered (single c line) s s1" by (simp add: s1)
  have f1: "\<forall>x. x \<noteq> c \<longrightarrow> peer_of s1 x = peer_of s x \<and> (x \<noteq> me_of s \<longrightarrow> outs s1 x = outs s x)" by (auto simp: s1_def)
  have me1: "me_of s1 = me_of s" by (simp add: s1_def)
  show ?thesis
  proof (cases "(if IsServer (cli s c) then 1024 else 4096) < dbuf_length q")
    case True
    obtain s' where s': "send_queued_write kern c s1 = Some s'" "delivered nothing s1 s'"
        "\<forall>x. x \<noteq> c \<longrightarrow> peer_of s' x = peer_of s1 x \<and> (x \<noteq> me_of s1 \<longrightarrow> outs s' x = outs s1 x)"
      using send_queued_write_ok [OF deliveredD(1) [OF d1] assms(2), of c] by blast
    have "queue_line kern c line s = Some s'" using q(1) True s'(1) by (simp add: queue_line_def s1_def)
    then show ?thesis using delivered_trans [OF d1 s'(2)] s'(3) f1 me1 by auto
  next
    case False
    then have "queue_line kern c line s = Some s1" using q(1) by (simp add: queue_line_def s1_def)
    then show ?thesis using d1 f1 by blast
  qed
qed

text \<open>A client that is written off in the same step gets what it got.\<close>

lemma written_off:
  assumes "io_ok s" "delivered g s s1" "\<And>x. x \<noteq> c \<Longrightarrow> g x = b x"
  shows "\<exists>s'. dead_link_on_write c s1 = Some s' \<and> delivered (b(c := g c @ line)) s s' \<and>
    (\<forall>x. x \<noteq> c \<longrightarrow> outs s' x = outs s1 x \<and> peer_of s' x = peer_of s1 x) \<and> IsDefunct (peer_of s' c)"
proof -
  obtain s' where s': "dead_link_on_write c s1 = Some s'" "delivered nothing s1 s'" "IsDefunct (peer_of s' c)"
      "\<forall>x. x \<noteq> c \<longrightarrow> outs s' x = outs s1 x \<and> peer_of s' x = peer_of s1 x"
    using dead_link_on_write_ok [OF deliveredD(1) [OF assms(2)]] by blast
  have d: "delivered g s s'" using delivered_trans [OF assms(2) s'(2)] by simp
  have "dealt ((b(c := g c @ line)) x) (outs s x) (outs s' x) (peer_of s x) (peer_of s' x)" for x
  proof (cases "x = c")
    case True
    have v: "dealt (g c) (outs s c) (outs s' c) (peer_of s c) (peer_of s' c)" using d by (simp add: delivered_def)
    have "\<exists>rest. so_wire (outs s' c) @ rest = stream (outs s c) @ g c @ line" if "\<not> going (peer_of s c)"
    proof -
      obtain rest where "so_wire (outs s' c) @ rest = stream (outs s c) @ g c" using v \<open>\<not> going (peer_of s c)\<close> by (auto simp: dealt_def)
      then have "so_wire (outs s' c) @ (rest @ line) = stream (outs s c) @ g c @ line" by (metis append_assoc)
      then show ?thesis by blast
    qed
    moreover have "pr_dead (peer_of s' c)" if "\<not> going (peer_of s c)"
      using s'(3) that only_deaths_going [OF deliveredD(2) [OF d], of c] by (auto simp: IsDefunct_def going_def)
    ultimately show ?thesis using True v by (simp add: dealt_def)
  next
    case False
    have "dealt (g x) (outs s x) (outs s' x) (peer_of s x) (peer_of s' x)" using d by (simp add: delivered_def)
    then show ?thesis using False assms(3) [of x] by simp
  qed
  then show ?thesis using d s' by (auto simp: delivered_def)
qed

lemma send_client_ok:
  assumes "io_ok s" "kern_ok kern" "line \<noteq> []" "cl_local (cli s c)" "c \<noteq> me_of s" "cl_status (cli s c) \<noteq> STAT_ME" "\<not> IsServer (cli s c)"
  shows "\<exists>s'. send_message (Suc k) kern c line s = Some s' \<and> delivered (single c line) s s' \<and>
    (\<forall>x. x \<noteq> c \<longrightarrow> peer_of s' x = peer_of s x \<and> (x \<noteq> me_of s \<longrightarrow> outs s' x = outs s x))"
proof (cases "get_sendq s c < dbuf_length (buf_sendq (outs s c)) + length line")
  case True
  define s1 where "s1 = (if IsClient (cli s c) then upd_out c (\<lambda>u. u\<lparr>so_exceeded := True\<rparr>) s else s)"
  have "delivered nothing s s1"
  proof (cases "IsClient (cli s c)")
    case True
    have "delivered nothing s (s\<lparr>outs := (outs s)(c := (outs s c)\<lparr>so_exceeded := True\<rparr>)\<rparr>)"
      by (rule delivered_local [OF assms(1)]) (use io_okD(1) [OF assms(1)] in \<open>auto simp: stream_def steady_out_def\<close>)
    then show ?thesis using True by (simp add: s1_def upd_out_def)
  next
    case False then show ?thesis using delivered_refl [OF assms(1)] by (simp add: s1_def)
  qed
  then obtain s' where s': "dead_link_on_write c s1 = Some s'" "delivered ((\<lambda>_. [])(c := [] @ line)) s s'"
      "\<forall>x. x \<noteq> c \<longrightarrow> outs s' x = outs s1 x \<and> peer_of s' x = peer_of s1 x"
    using written_off [OF assms(1), of nothing s1 c nothing line] by auto
  have "single c line = (\<lambda>_. [])(c := [] @ line)" by (auto simp: single_def)
  moreover have "send_message (Suc k) kern c line s = Some s'" using True assms(4-7) s'(1) by (simp add: s1_def IsServer_def)
  ultimately show ?thesis using s'(2,3) by (auto simp: s1_def)
next
  case False
  then show ?thesis using queue_line_ok [OF assms(1-3,5)] assms(4-7) by simp
qed

definition only_touched :: "cid set \<Rightarrow> io \<Rightarrow> io \<Rightarrow> bool" where
  "only_touched T s s' \<longleftrightarrow> (\<forall>x. x \<notin> T \<longrightarrow> peer_of s' x = peer_of s x \<and> (x \<noteq> me_of s \<longrightarrow> outs s' x = outs s x))"

lemma only_touched_refl [simp]: "only_touched T s s"
  by (simp add: only_touched_def)

lemma only_touched_trans: "only_touched T a b \<Longrightarrow> only_touched U b c \<Longrightarrow> me_of b = me_of a \<Longrightarrow> only_touched (T \<union> U) a c"
  by (simp add: only_touched_def)

lemma only_touched_mono: "only_touched T a b \<Longrightarrow> T \<subseteq> U \<Longrightarrow> only_touched U a b"
  by (auto simp: only_touched_def)

text \<open>What a handler may rely on while a message goes to one client after another.\<close>

definition during :: "io \<Rightarrow> io \<Rightarrow> bool" where
  "during s t \<longleftrightarrow> io_ok t \<and> only_deaths (nt s) (nt t) \<and> hide_server_ips t = hide_server_ips s \<and> (\<forall>x. steady_out (outs s x) (outs t x))"

lemma during_refl: "io_ok s \<Longrightarrow> during s s"
  by (simp add: during_def only_deaths_refl steady_out_def)

lemma during_delivered: "during s t \<Longrightarrow> delivered g t t' \<Longrightarrow> during s t'"
  by (auto simp: during_def delivered_def dealt_def steady_out_def intro: only_deaths_trans)

lemma delivered_during: "delivered g s s' \<Longrightarrow> during s s'"
  by (auto simp: during_def delivered_def dealt_def)

lemma each_delivered:
  assumes "during s0 s" "\<And>c t. c \<in> set cs \<Longrightarrow> during s0 t \<Longrightarrow> \<exists>t'. f c t = Some t' \<and> delivered (h c) t t' \<and> only_touched (T c) t t'"
  shows "\<exists>s'. each f cs s = Some s' \<and> delivered (\<lambda>x. concat (map (\<lambda>c. h c x) cs)) s s' \<and> only_touched (\<Union>c\<in>set cs. T c) s s'"
  using assms
proof (induction cs arbitrary: s)
  case Nil
  then show ?case using delivered_refl by (simp add: during_def)
next
  case (Cons c cs)
  obtain t where t: "f c s = Some t" "delivered (h c) s t" "only_touched (T c) s t" using Cons.prems by auto
  have d: "during s0 t" using during_delivered Cons.prems(1) t(2) by blast
  obtain s' where s': "each f cs t = Some s'" "delivered (\<lambda>x. concat (map (\<lambda>c. h c x) cs)) t s'" "only_touched (\<Union>c\<in>set cs. T c) t s'"
    using Cons.IH [OF d] Cons.prems(2) by auto
  have "only_touched (T c \<union> (\<Union>c\<in>set cs. T c)) s s'"
    using only_touched_trans [OF t(3) s'(3)] only_deathsD(2) [OF deliveredD(2) [OF t(2)]] by simp
  then show ?case using t(1) s'(1) delivered_trans [OF t(2) s'(2)] by simp
qed

text \<open>The line of a text.\<close>

definition line_of :: "string \<Rightarrow> string" where
  "line_of text = take (IRCD_BUFSIZE - 2) text @ [CHR 0x0D, CHR 0x0A]"

lemma send_format_line: "send_format IRCD_BUFSIZE text = Some (line_of text)"
  by (simp add: send_format_def line_of_def)

lemma line_of_nonempty [simp]: "line_of text \<noteq> []"
  by (simp add: line_of_def)

text \<open>Who is dead needs nothing to be sent.\<close>

lemma delivered_to_dead: "io_ok s \<Longrightarrow> pr_dead (peer_of s c) \<Longrightarrow> delivered (single c line) s s"
  by (auto simp: delivered_def only_deaths_refl dealt_def steady_out_def single_def stream_def)

lemma sendto_one_client:
  assumes "io_ok s" "kern_ok kern" "cl_local (cli s c)" "IsClient (cli s c)"
  shows "\<exists>s'. sendto_one_by (send_message (Suc k) kern) c text s = Some s' \<and> delivered (single c (line_of text)) s s' \<and> only_touched {c} s s'"
proof -
  have own: "(case pr_from (peer_of s c) of None \<Rightarrow> c | Some f \<Rightarrow> f) = c" using io_okD(9) [OF assms(1,3)] by auto
  have c: "c \<noteq> me_of s" "cl_status (cli s c) \<noteq> STAT_ME" "\<not> IsServer (cli s c)"
    using assms(4) io_okD(5) [OF assms(1)] by (auto simp: IsClient_def IsServer_def)
  show ?thesis
  proof (cases "pr_dead (peer_of s c)")
    case True
    then show ?thesis using delivered_to_dead [OF assms(1)] own by (simp add: sendto_one_by_def)
  next
    case False
    then show ?thesis using send_client_ok [OF assms(1,2) line_of_nonempty [of "text"] assms(3) c(1,2,3), of k] own
      by (auto simp: sendto_one_by_def send_format_line only_touched_def)
  qed
qed

text \<open>The notices to the operators.\<close>

definition notice_for :: "io \<Rightarrow> 32 word \<Rightarrow> oper_level \<Rightarrow> string \<Rightarrow> cid \<Rightarrow> string" where
  "notice_for s flags level text c =
    (if (level = L_ADMIN \<longrightarrow> cl_admin (cli s c)) \<and> (level = L_OPER \<longrightarrow> \<not> cl_admin (cli s c)) \<and> has (pr_umodes (peer_of s c)) flags
     then line_of (notice_text s c text) else [])"

definition notices :: "io \<Rightarrow> 32 word \<Rightarrow> oper_level \<Rightarrow> string \<Rightarrow> cid \<Rightarrow> string" where
  "notices s flags level text x = concat (map (\<lambda>c. single c (notice_for s flags level text c) x) (oper_list (nt s)))"

lemma during_same:
  assumes "during s t"
  shows "cli t c = cli s c" "me_of t = me_of s" "oper_list (nt t) = oper_list (nt s)" "pr_umodes (peer_of t c) = pr_umodes (peer_of s c)"
    "pr_from (peer_of t c) = pr_from (peer_of s c)" "io_ok t" "pr_caps (peer_of t c) = pr_caps (peer_of s c)"
    "chans (wd (nt t)) = chans (wd (nt s))" "mships (wd (nt t)) = mships (wd (nt s))" "cfg (wd (nt t)) = cfg (wd (nt s))"
    "so_away (outs t c) = so_away (outs s c)" "so_last (outs t c) = so_last (outs s c)" "so_confs (outs t c) = so_confs (outs s c)"
    "CurrentTime (wd (nt t)) = CurrentTime (wd (nt s))" "serv_list (nt t) = serv_list (nt s)"
    "pr_closing (peer_of t c) = pr_closing (peer_of s c)" "pr_killed (peer_of t c) = pr_killed (peer_of s c)"
    "pr_serverMask (peer_of t c) = pr_serverMask (peer_of s c)" "pr_lazy (peer_of t c) = pr_lazy (peer_of s c)"
    "lazyLinkChannelExists (nt t) = lazyLinkChannelExists (nt s)"
  using assms only_deathsD [of "nt s" "nt t"] by (auto simp: during_def steady_out_def)

lemma realops_ok:
  assumes "io_ok s" "kern_ok kern"
  shows "\<exists>s'. realops_by (send_message (Suc k) kern) flags level text s = Some s' \<and> delivered (notices s flags level text) s s' \<and>
    only_touched (set (oper_list (nt s))) s s'"
proof -
  have step: "\<exists>t'. notice_oper (send_message (Suc k) kern) flags level text c t = Some t' \<and>
      delivered (single c (notice_for s flags level text c)) t t' \<and> only_touched {c} t t'" if "c \<in> set (oper_list (nt s))" "during s t" for c t
  proof -
    note same = during_same [OF that(2)]
    have c: "cl_local (cli t c)" "IsClient (cli t c)" "cl_oper (cli t c)" using io_okD(6-8) [OF assms(1) that(1)] same(1) by simp_all
    have nx: "notice_text t c text = notice_text s c text" using same by (simp add: notice_text_def)
    have n0: "single c [] = nothing" by (simp add: single_def)
    show ?thesis
    proof (cases "(level = L_ADMIN \<longrightarrow> cl_admin (cli s c)) \<and> (level = L_OPER \<longrightarrow> \<not> cl_admin (cli s c)) \<and> has (pr_umodes (peer_of s c)) flags")
      case True
      then have "notice_oper (send_message (Suc k) kern) flags level text c t = sendto_one_by (send_message (Suc k) kern) c (notice_text s c text) t"
        using c(3) same(1,4) nx by (auto simp: notice_oper_def)
      then show ?thesis using sendto_one_client [OF same(6) assms(2) c(1,2), of k "notice_text s c text"] True by (simp add: notice_for_def)
    next
      case False
      then have "notice_oper (send_message (Suc k) kern) flags level text c t = Some t"
        using c(3) same(1,4) by (auto simp: notice_oper_def)
      then show ?thesis using delivered_refl [OF same(6)] False n0 unfolding notice_for_def by (simp only: if_False simp_thms) auto
    qed
  qed
  have "\<exists>s'. each (notice_oper (send_message (Suc k) kern) flags level text) (oper_list (nt s)) s = Some s' \<and>
      delivered (\<lambda>x. concat (map (\<lambda>c. single c (notice_for s flags level text c) x) (oper_list (nt s)))) s s' \<and>
      only_touched (\<Union>c\<in>set (oper_list (nt s)). {c}) s s'"
    by (rule each_delivered [OF during_refl [OF assms(1)]], rule step)
  moreover have "notices s flags level text = (\<lambda>x. concat (map (\<lambda>c. single c (notice_for s flags level text c) x) (oper_list (nt s))))"
    by (simp add: notices_def fun_eq_iff)
  ultimately show ?thesis by (simp add: realops_by_def)
qed

definition too_long :: "io \<Rightarrow> cid \<Rightarrow> string \<Rightarrow> bool" where
  "too_long s c line \<longleftrightarrow> get_sendq s c < dbuf_length (buf_sendq (outs s c)) + length line"

definition sent :: "io \<Rightarrow> cid \<Rightarrow> string \<Rightarrow> cid \<Rightarrow> string" where
  "sent s c line x =
    (if IsServer (cli s c) \<and> too_long s c line then notices s UMODE_ALL L_ALL (sendq_notice s c line) x else []) @ single c line x"

definition heard_by :: "io \<Rightarrow> cid \<Rightarrow> cid set" where
  "heard_by s c = (if IsServer (cli s c) then insert c (set (oper_list (nt s))) else {c})"

lemma notices_others: "x \<notin> set (oper_list (nt s)) \<Longrightarrow> notices s flags level text x = []"
  by (auto simp: notices_def single_def)

lemma send_message_ok:
  assumes "io_ok s" "kern_ok kern" "line \<noteq> []" "cl_local (cli s c)" "cl_status (cli s c) \<noteq> STAT_ME"
  shows "\<exists>s'. send_message (Suc (Suc k)) kern c line s = Some s' \<and> delivered (sent s c line) s s' \<and> only_touched (heard_by s c) s s'"
proof -
  have me: "c \<noteq> me_of s" using assms(5) io_okD(5) [OF assms(1)] by auto
  show ?thesis
  proof (cases "IsServer (cli s c)")
    case False
    then have "sent s c line = single c line" by (simp add: sent_def fun_eq_iff)
    then show ?thesis using send_client_ok [OF assms(1-4) me assms(5) False, of "Suc k"] False
      by (auto simp: only_touched_def heard_by_def)
  next
    case True
    have nc: "\<not> IsClient (cli s c)" using True by (simp add: IsServer_def IsClient_def)
    then have no: "c \<notin> set (oper_list (nt s))" using io_okD(7) [OF assms(1)] by blast
    show ?thesis
    proof (cases "too_long s c line")
      case F: False
      then have "sent s c line = single c line" by (simp add: sent_def fun_eq_iff)
      then show ?thesis using queue_line_ok [OF assms(1-3) me] F me assms(4,5)
        by (auto simp: too_long_def only_touched_def heard_by_def)
    next
      case T: True
      let ?n = "notices s UMODE_ALL L_ALL (sendq_notice s c line)"
      obtain s1 where s1: "realops_by (send_message (Suc k) kern) UMODE_ALL L_ALL (sendq_notice s c line) s = Some s1"
          "delivered ?n s s1" "only_touched (set (oper_list (nt s))) s s1"
        using realops_ok [OF assms(1,2)] by blast
      obtain s' where s': "dead_link_on_write c s1 = Some s'" "delivered (?n(c := ?n c @ line)) s s'"
          "\<forall>x. x \<noteq> c \<longrightarrow> outs s' x = outs s1 x \<and> peer_of s' x = peer_of s1 x"
        using written_off [OF assms(1) s1(2), of c ?n line] by auto
      have "sent s c line = ?n(c := ?n c @ line)" using T True notices_others [OF no] by (auto simp: sent_def single_def fun_eq_iff)
      moreover have "\<not> IsClient (cli s1 c)" using nc only_deathsD(1) [OF deliveredD(2) [OF s1(2)]] by simp
      then have "send_message (Suc (Suc k)) kern c line s = Some s'"
        using T True s1(1) s'(1) me assms(4,5) by (simp add: too_long_def)
      moreover have "only_touched (heard_by s c) s s'" using s1(3) s'(3) True by (auto simp: only_touched_def heard_by_def)
      ultimately show ?thesis using s'(2) by simp
    qed
  qed
qed

subsection \<open>The length of a queue\<close>

definition queued :: "io \<Rightarrow> cid \<Rightarrow> nat" where
  "queued s c = length (content (buf_sendq (outs s c)))"

definition shrunk :: "io \<Rightarrow> io \<Rightarrow> bool" where
  "shrunk s s' \<longleftrightarrow> (\<forall>c. queued s' c \<le> queued s c)"

lemma shrunk_refl [simp]: "shrunk s s" by (simp add: shrunk_def)

lemma shrunk_trans: "shrunk a b \<Longrightarrow> shrunk b c \<Longrightarrow> shrunk a c"
  by (meson shrunk_def le_trans)

lemma dead_link_shrinks:
  assumes "io_ok s" "dead_link_on_write c s = Some s'"
  shows "shrunk s s'"
proof -
  have "\<exists>r. dbuf_clear q = Some r \<and> queue_ok r \<and> content r = []" if "queue_ok q" for q
    using dbuf_delete_refines [OF that, of "dbuf_length q"] that by (auto simp: dbuf_clear_def)
  then obtain q where "dbuf_clear (buf_sendq (outs s c)) = Some q" "content q = []" using io_okD(1) [OF assms(1)] by blast
  then show ?thesis using assms(2)
    by (auto simp: dead_link_on_write_def shrunk_def queued_def bind_eq_Some_conv split: if_splits)
qed

lemma after_write_shrinks:
  assumes "io_ok s" "after_write c r s = Some s'"
  shows "shrunk s s'"
proof -
  have "shrunk s (in_net (notify (Calls ''comm_setselect'' c)) (upd_out c (\<lambda>u. u\<lparr>so_blocked := True\<rparr>) s))"
    by (simp add: shrunk_def queued_def)
  then show ?thesis using assms(2) dead_link_shrinks [OF assms(1), of c s'] unfolding after_write_def
    by (cases r) (auto split: if_splits)
qed

lemma send_queued_write_shrinks:
  assumes "io_ok s" "kern_ok kern" "send_queued_write kern c s = Some s'"
  shows "shrunk s s'"
proof (cases "pr_dead (peer_of s c) \<or> so_blocked (outs s c) \<or> dbuf_length (buf_sendq (outs s c)) = 0")
  case True
  then show ?thesis using assms(3) by (simp add: send_queued_write_def)
next
  case False
  let ?u = "outs s c" and ?ssl = "HAVE_LIBCRYPTO (cfg (wd (nt s))) \<and> so_ssl (outs s c)"
  have "content (buf_sendq ?u) \<noteq> []" using False io_okD(1) [OF assms(1), of c] by auto
  then obtain q calls r new where w: "write_loop (kern c) ?ssl ?u = Some (taken ?u q new calls, r)" "queue_ok q" "new @ content q = content (buf_sendq ?u)"
    using write_loop_ok [of "kern c" ?u ?ssl] assms(2) io_okD(1) [OF assms(1), of c] unfolding kern_ok_def taken_def by blast
  let ?s1 = "upd_out (me_of s) (\<lambda>m. m\<lparr>so_bytes := so_bytes m + (so_bytes (taken ?u q new calls) - so_bytes ?u)\<rparr>) (upd_out c (\<lambda>_. taken ?u q new calls) s)"
  have a: "after_write c r ?s1 = Some s'" using assms(3) False w(1) by (simp add: send_queued_write_def Let_def)
  have "length (content q) \<le> queued s c" using arg_cong [OF w(3), of length] by (simp add: queued_def)
  then have s1: "shrunk s ?s1" by (auto simp: shrunk_def queued_def taken_def)
  have ok: "io_ok ?s1"
    by (rule io_ok_same [OF assms(1)]) (use w(2) io_okD(1,2) [OF assms(1)] in \<open>auto simp: only_deaths_refl taken_def\<close>)
  show ?thesis using shrunk_trans [OF s1 after_write_shrinks [OF ok a]] .
qed

definition in_bounds :: "io \<Rightarrow> bool" where
  "in_bounds s \<longleftrightarrow> (\<forall>c. c \<noteq> me_of s \<longrightarrow> queued s c \<le> get_sendq s c)"

lemma get_sendq_during: "during s t \<Longrightarrow> get_sendq t c = get_sendq s c"
  by (simp add: get_sendq_def during_same)

lemma in_bounds_shrunk: "in_bounds s \<Longrightarrow> during s t \<Longrightarrow> shrunk s t \<Longrightarrow> in_bounds t"
  unfolding in_bounds_def shrunk_def using get_sendq_during during_same(2) by (metis le_trans)

lemma each_inv:
  assumes "each f cs s = Some s'" "P s" "\<And>c t t'. c \<in> set cs \<Longrightarrow> P t \<Longrightarrow> f c t = Some t' \<Longrightarrow> P t'"
  shows "P s'"
  using assms
proof (induction cs arbitrary: s)
  case (Cons c cs)
  then obtain t where t: "f c s = Some t" "each f cs t = Some s'" by (auto split: option.splits)
  have "P t" using Cons.prems(2) Cons.prems(3) [of c s t] t(1) by simp
  show ?case by (rule Cons.IH [OF t(2) \<open>P t\<close>], rule Cons.prems(3)) auto
qed simp

lemma queue_line_in_bounds:
  assumes "io_ok s" "kern_ok kern" "in_bounds s" "line \<noteq> []" "c \<noteq> me_of s" "\<not> too_long s c line" "queue_line kern c line s = Some s'"
  shows "during s s' \<and> in_bounds s'"
proof -
  obtain q where q: "dbuf_put (buf_sendq (outs s c)) line = Some q" "queue_ok q" "content q = content (buf_sendq (outs s c)) @ line"
    using dbuf_put_refines [OF io_okD(1) [OF assms(1)] assms(4)] by blast
  let ?s1 = "upd_out (me_of s) (\<lambda>m. m\<lparr>so_messages := so_messages m + 1\<rparr>) (upd_out c (\<lambda>u. u\<lparr>buf_sendq := q, so_messages := so_messages u + 1\<rparr>) s)"
  have ok: "io_ok ?s1"
    by (rule io_ok_same [OF assms(1)]) (use q(2) io_okD(1,2) [OF assms(1)] in \<open>auto simp: only_deaths_refl\<close>)
  have d1: "during s ?s1" using ok by (auto simp: during_def only_deaths_refl steady_out_def)
  have "queued ?s1 c \<le> get_sendq s c"
    using assms(5,6) q(3) io_okD(1) [OF assms(1), of c] by (simp add: too_long_def queued_def)
  moreover have "queued ?s1 x = queued s x" if "x \<noteq> c" for x using that by (auto simp: queued_def)
  ultimately have w1: "in_bounds ?s1"
    using assms(3) get_sendq_during [OF d1] during_same(2) [OF d1] unfolding in_bounds_def by (metis (no_types))
  show ?thesis
  proof (cases "(if IsServer (cli s c) then 1024 else 4096) < dbuf_length q")
    case True
    then have e: "send_queued_write kern c ?s1 = Some s'" using assms(7) q(1) by (simp add: queue_line_def)
    then have "during ?s1 s'" using send_queued_write_ok [OF ok assms(2), of c] delivered_during by force
    then have "in_bounds s'" using in_bounds_shrunk [OF w1] send_queued_write_shrinks [OF ok assms(2) e] by blast
    moreover have "during s s'" using \<open>during ?s1 s'\<close> d1 send_queued_write_ok [OF ok assms(2), of c] e during_delivered by fastforce
    ultimately show ?thesis by blast
  next
    case False
    then have "s' = ?s1" using assms(7) q(1) by (simp add: queue_line_def)
    then show ?thesis using d1 w1 by blast
  qed
qed

lemma dead_link_in_bounds:
  assumes "during s0 s" "in_bounds s" "dead_link_on_write c s = Some s'"
  shows "during s0 s' \<and> in_bounds s'"
proof -
  have ok: "io_ok s" using assms(1) by (simp add: during_def)
  have d: "delivered nothing s s'" using dead_link_on_write_ok [OF ok, of c] assms(3) by auto
  then show ?thesis
    using during_delivered [OF assms(1) d] in_bounds_shrunk [OF assms(2) delivered_during [OF d]] dead_link_shrinks [OF ok assms(3)] by blast
qed

text \<open>A notice is one call or nothing.\<close>

lemma notice_oper_cases:
  assumes "notice_oper sm fl lv x b t = Some t'"
  obtains "t' = t" | to line where "line \<noteq> []" "sm to line t = Some t'"
proof -
  have one: "t' = t \<or> (\<exists>to. sm to (line_of y) t = Some t')" if "sendto_one_by sm b y t = Some t'" for y
    using that unfolding sendto_one_by_def send_format_line Let_def by (auto split: if_splits)
  have "t' = t \<or> (\<exists>y. sendto_one_by sm b y t = Some t')" using assms unfolding notice_oper_def by (metis option.distinct(1) option.inject)
  then show thesis using one that line_of_nonempty by metis
qed

lemma send_message_inv:
  assumes "send_message k kern c line s = Some s'" "P s" "line \<noteq> []"
    and queue: "\<And>c line t t'. P t \<Longrightarrow> line \<noteq> [] \<Longrightarrow> c \<noteq> me_of t \<Longrightarrow> \<not> too_long t c line \<Longrightarrow> queue_line kern c line t = Some t' \<Longrightarrow> P t'"
    and dead: "\<And>c t t'. P t \<Longrightarrow> dead_link_on_write c t = Some t' \<Longrightarrow> P t'"
    and exceeded: "\<And>c t. P t \<Longrightarrow> P (upd_out c (\<lambda>u. u\<lparr>so_exceeded := True\<rparr>) t)"
  shows "P s'"
  using assms(1-3)
proof (induction k arbitrary: c line s s')
  case (Suc k)
  have g: "cl_status (cli s c) \<noteq> STAT_ME" "c \<noteq> me_of s" "cl_local (cli s c)" using Suc.prems(1) by (auto split: if_splits)
  show ?case
  proof (cases "too_long s c line")
    case False
    then have "queue_line kern c line s = Some s'" using Suc.prems(1) g by (simp add: too_long_def)
    then show ?thesis using queue Suc.prems(2,3) g(2) False by blast
  next
    case True
    obtain s1 where s1: "(if IsServer (cli s c) then realops_by (send_message k kern) UMODE_ALL L_ALL (sendq_notice s c line) s else Some s) = Some s1"
        "dead_link_on_write c (if IsClient (cli s1 c) then upd_out c (\<lambda>u. u\<lparr>so_exceeded := True\<rparr>) s1 else s1) = Some s'"
      using Suc.prems(1) g True by (auto simp: too_long_def bind_eq_Some_conv)
    have told: "P t'" if "P t" "notice_oper (send_message k kern) fl lv x b t = Some t'" for fl lv x b t t'
      using that(2)
    proof (cases rule: notice_oper_cases)
      case 1 then show ?thesis using that(1) by simp
    next
      case (2 d l) then show ?thesis using Suc.IH [OF 2(2) that(1) 2(1)] by blast
    qed
    have "P s1"
    proof (cases "IsServer (cli s c)")
      case True
      have e: "each (notice_oper (send_message k kern) UMODE_ALL L_ALL (sendq_notice s c line)) (oper_list (nt s)) s = Some s1"
        using True s1(1) by (simp add: realops_by_def)
      show ?thesis by (rule each_inv [OF e, where P = P]) (use Suc.prems(2) told in blast)+
    next
      case False then show ?thesis using s1(1) Suc.prems(2) by simp
    qed
    then have "P (if IsClient (cli s1 c) then upd_out c (\<lambda>u. u\<lparr>so_exceeded := True\<rparr>) s1 else s1)" using exceeded by simp
    then show ?thesis using dead s1(2) by blast
  qed
qed simp

lemma send_message_in_bounds:
  assumes "send_message k kern c line s = Some s'" "kern_ok kern" "line \<noteq> []" "during s0 s" "in_bounds s"
  shows "during s0 s' \<and> in_bounds s'"
proof (rule send_message_inv [OF assms(1) _ assms(3), where P = "\<lambda>t. during s0 t \<and> in_bounds t"])
  show "during s0 s \<and> in_bounds s" using assms by simp
next
  fix c line t t' assume a: "during s0 t \<and> in_bounds t" "line \<noteq> []" "c \<noteq> me_of t" "\<not> too_long t c line" "queue_line kern c line t = Some t'"
  then have "io_ok t" by (simp add: during_def)
  from queue_line_in_bounds [OF this assms(2) _ a(2-5)] a(1) have *: "during t t' \<and> in_bounds t'" by blast
  then have "during s0 t'" using a(1) unfolding during_def steady_out_def by (auto intro: only_deaths_trans)
  with * show "during s0 t' \<and> in_bounds t'" by blast
next
  fix c t t' assume "during s0 t \<and> in_bounds t" "dead_link_on_write c t = Some t'"
  then show "during s0 t' \<and> in_bounds t'" using dead_link_in_bounds by blast
next
  fix c t assume "during s0 t \<and> in_bounds t"
  then show "during s0 (upd_out c (\<lambda>u. u\<lparr>so_exceeded := True\<rparr>) t) \<and> in_bounds (upd_out c (\<lambda>u. u\<lparr>so_exceeded := True\<rparr>) t)"
    by (auto simp: during_def io_ok_def steady_out_def in_bounds_def queued_def get_sendq_def)
qed

subsection \<open>Everything queued is written in the end\<close>

text \<open>A call the kernel answers by taking something.\<close>

definition takes :: "kernel \<Rightarrow> cid \<Rightarrow> nat \<Rightarrow> bool" where
  "takes kern c i \<longleftrightarrow> (\<forall>bs. bs \<noteq> [] \<longrightarrow> (\<exists>n. kern c i bs = Wrote n \<and> 0 < n))"

text \<open>How a connection moves on: its stream and what was written of it only grow, and the answers of the kernel are used one after another.\<close>

definition moves_on :: "kernel \<Rightarrow> cid \<Rightarrow> out \<Rightarrow> out \<Rightarrow> bool" where
  "moves_on kern c u u' \<longleftrightarrow> (\<exists>new. so_wire u' = so_wire u @ new) \<and> (\<exists>bs. stream u' = stream u @ bs) \<and> so_calls u \<le> so_calls u' \<and>
     ((\<exists>i. takes kern c i \<and> so_calls u \<le> i \<and> i < so_calls u') \<longrightarrow> length (so_wire u) < length (so_wire u')) \<and>
     (\<not> so_blocked u \<and> so_blocked u' \<longrightarrow> so_calls u < so_calls u')"

lemma moves_on_refl [simp]: "moves_on kern c u u"
  by (simp add: moves_on_def)

lemma moves_on_trans:
  assumes "moves_on kern c u v" "moves_on kern c v w"
  shows "moves_on kern c u w"
proof -
  have "length (so_wire u) \<le> length (so_wire v)" "length (so_wire v) \<le> length (so_wire w)" using assms by (auto simp: moves_on_def)
  then have "length (so_wire u) < length (so_wire w)" if "takes kern c i" "so_calls u \<le> i" "i < so_calls w" for i
    using assms that unfolding moves_on_def by (cases "i < so_calls v") (meson le_less_trans less_le_trans not_le)+
  then show ?thesis using assms unfolding moves_on_def by fastforce
qed

text \<open>The loop over the blocks uses up its answers, and writes something when one of them takes something.\<close>

lemma write_loop_takes:
  assumes "write_loop kern ssl u = Some (u', r)" "queue_ok (buf_sendq u)" "content (buf_sendq u) \<noteq> []" "\<And>i bs n. kern i bs = Wrote n \<Longrightarrow> n \<le> length bs"
    "so_calls u \<le> i" "i < so_calls u'" "\<forall>bs. bs \<noteq> [] \<longrightarrow> (\<exists>n. kern i bs = Wrote n \<and> 0 < n)"
  shows "length (so_wire u) < length (so_wire u')"
  using assms
proof (induction kern ssl u rule: write_loop.induct)
  case (1 kern ssl u)
  obtain first rest where b: "blocks (buf_sendq u) = first # rest" "first \<noteq> []" "content (buf_sendq u) = first @ concat rest"
    using queue_head "1.prems"(2,3) by blast
  let ?u1 = "u\<lparr>so_calls := so_calls u + 1\<rparr>"
  show ?case
  proof (cases "kern (so_calls u) first")
    case (Failed e no)
    then have "u' = ?u1" using "1.prems"(1) b(1) by (simp add: write_loop.simps [of kern ssl u])
    then show ?thesis using "1.prems"(5-7) Failed b(2) by (auto simp: less_Suc_eq_le dest: le_antisym)
  next
    case (Wrote n)
    then have le: "n \<le> length first" using "1.prems"(4) by blast
    show ?thesis
    proof (cases "n = 0")
      case True
      then have "u' = ?u1" using "1.prems"(1) b(1) Wrote by (simp add: write_loop.simps [of kern ssl u])
      then show ?thesis using "1.prems"(5-7) Wrote True b(2) by (auto simp: less_Suc_eq_le dest: le_antisym)
    next
      case False
      obtain q where q: "dbuf_delete (buf_sendq u) n = Some q" "queue_ok q" "content q = drop n (content (buf_sendq u))"
        using dbuf_delete_refines [OF "1.prems"(2), of n] le b(3) by auto
      let ?u2 = "wrote first n q ?u1"
      have l2: "length (so_wire u) < length (so_wire ?u2)" using False b(2) by (simp add: wrote_def)
      show ?thesis
      proof (cases "content q = []")
        case True
        then have "u' = ?u2" using "1.prems"(1) b(1) Wrote False q(1,2) by (simp add: write_loop.simps [of kern ssl u])
        then show ?thesis using l2 by simp
      next
        case F: False
        have e: "write_loop kern ssl ?u2 = Some (u', r)"
          using "1.prems"(1) b(1) Wrote False q(1,2) F by (simp add: write_loop.simps [of kern ssl u])
        have b2: "buf_sendq ?u2 = q" by (simp add: wrote_def)
        obtain new where "so_wire u' = so_wire ?u2 @ new"
          using write_loop_ok [of kern ?u2 ssl] "1.prems"(4) q(2) F e b2 by auto
        then show ?thesis using l2 by simp
      qed
    qed
  qed
qed

definition adv :: "kernel \<Rightarrow> cid \<Rightarrow> io \<Rightarrow> io \<Rightarrow> bool" where
  "adv kern c s s' \<longleftrightarrow> io_ok s' \<and> me_of s' = me_of s \<and> (IsDefunct (peer_of s c) \<longrightarrow> IsDefunct (peer_of s' c)) \<and>
     (IsDefunct (peer_of s' c) \<or> moves_on kern c (outs s c) (outs s' c))"

lemma adv_refl: "io_ok s \<Longrightarrow> adv kern c s s"
  by (simp add: adv_def)

lemma adv_trans: "adv kern c a b \<Longrightarrow> adv kern c b d \<Longrightarrow> adv kern c a d"
  unfolding adv_def using moves_on_trans by metis

lemma defunct_mono: "delivered g s s' \<Longrightarrow> IsDefunct (peer_of s c) \<Longrightarrow> IsDefunct (peer_of s' c)"
  using deliveredD(3) [of g s s' c] only_deathsD(18,19) [of "nt s" "nt s'" c] deliveredD(2) [of g s s'] by (auto simp: IsDefunct_def)

lemma adv_delivered:
  assumes "delivered g s s'" "IsDefunct (peer_of s' c) \<or> moves_on kern c (outs s c) (outs s' c)"
  shows "adv kern c s s'"
  using assms deliveredD(1,2) [OF assms(1)] only_deathsD(2) [of "nt s" "nt s'"] defunct_mono [OF assms(1)] by (simp add: adv_def)

lemma adv_dead_link:
  assumes "io_ok s" "dead_link_on_write x s = Some s'"
  shows "adv kern c s s'"
proof -
  have d: "delivered nothing s s'" "IsDefunct (peer_of s' x)" "x \<noteq> c \<longrightarrow> outs s' c = outs s c" using dead_link_on_write_ok [OF assms(1), of x] assms(2) by auto
  show ?thesis by (rule adv_delivered [OF d(1)]) (use d in \<open>cases "x = c"; simp\<close>)
qed

lemma adv_write:
  assumes "io_ok s" "kern_ok kern" "c \<noteq> me_of s" "send_queued_write kern x s = Some s'"
  shows "adv kern c s s'"
proof -
  have w: "delivered nothing s s'" "x \<noteq> c \<longrightarrow> outs s' c = outs s c" using send_queued_write_ok [OF assms(1,2), of x] assms(3,4) by auto
  have "IsDefunct (peer_of s' c) \<or> moves_on kern c (outs s c) (outs s' c)"
  proof (cases "x = c \<and> \<not> pr_dead (peer_of s c) \<and> \<not> so_blocked (outs s c) \<and> content (buf_sendq (outs s c)) \<noteq> []")
    case False
    then have "outs s' c = outs s c"
      using w(2) assms(4) io_okD(1) [OF assms(1), of c] by (cases "x = c") (auto simp: send_queued_write_def)
    then show ?thesis by simp
  next
    case True
    let ?u = "outs s c" and ?ssl = "HAVE_LIBCRYPTO (cfg (wd (nt s))) \<and> so_ssl (outs s c)"
    obtain q new calls r where q: "queue_ok q" "new @ content q = content (buf_sendq ?u)" "so_calls ?u < calls"
        "write_loop (kern c) ?ssl ?u = Some (taken ?u q new calls, r)"
        "case r of Refused e \<Rightarrow> (if ignoreErrno e then outs s' c = (taken ?u q new calls)\<lparr>so_blocked := True\<rparr> \<and> peer_of s' c = peer_of s c
                       else IsDefunct (peer_of s' c))
        | Closed \<Rightarrow> IsDefunct (peer_of s' c) | _ \<Rightarrow> outs s' c = taken ?u q new calls \<and> peer_of s' c = peer_of s c"
      using send_queued_write_ok [OF assms(1,2), of c] True assms(3,4) by auto
    have "length (so_wire ?u) < length (so_wire (taken ?u q new calls))" if "takes kern c i" "so_calls ?u \<le> i" "i < calls" for i
      by (rule write_loop_takes [OF q(4) io_okD(1) [OF assms(1)]]) (use True assms(2) that in \<open>auto simp: kern_ok_def takes_def taken_def\<close>)
    then have m: "moves_on kern c ?u (taken ?u q new calls)" "moves_on kern c ?u ((taken ?u q new calls)\<lparr>so_blocked := True\<rparr>)"
      using q(2,3) by (auto simp: moves_on_def taken_def stream_def)
    show ?thesis using q(5) m by (cases r) (auto split: if_splits)
  qed
  then show ?thesis using adv_delivered [OF w(1)] by blast
qed

lemma adv_queue_line:
  assumes "io_ok s" "kern_ok kern" "c \<noteq> me_of s" "line \<noteq> []" "x \<noteq> me_of s" "queue_line kern x line s = Some s'"
  shows "adv kern c s s'"
proof -
  obtain q where q: "dbuf_put (buf_sendq (outs s x)) line = Some q" "queue_ok q" "content q = content (buf_sendq (outs s x)) @ line"
    using dbuf_put_refines [OF io_okD(1) [OF assms(1)] assms(4)] by blast
  let ?s1 = "upd_out (me_of s) (\<lambda>m. m\<lparr>so_messages := so_messages m + 1\<rparr>) (upd_out x (\<lambda>u. u\<lparr>buf_sendq := q, so_messages := so_messages u + 1\<rparr>) s)"
  have ok: "io_ok ?s1"
    by (rule io_ok_same [OF assms(1)]) (use q(2) io_okD(1,2) [OF assms(1)] in \<open>auto simp: only_deaths_refl\<close>)
  have "moves_on kern c (outs s c) (outs ?s1 c)" using q(3) by (auto simp: moves_on_def stream_def)
  then have a: "adv kern c s ?s1" using ok by (simp add: adv_def)
  show ?thesis
  proof (cases "(if IsServer (cli s x) then 1024 else 4096) < dbuf_length q")
    case True
    then have "send_queued_write kern x ?s1 = Some s'" using assms(6) q(1) by (simp add: queue_line_def)
    then have "adv kern c ?s1 s'" by (rule adv_write [OF ok assms(2), rotated]) (use assms(3) in simp)
    then show ?thesis using adv_trans [OF a] by blast
  next
    case False
    then show ?thesis using assms(6) q(1) a by (simp add: queue_line_def)
  qed
qed

lemma adv_message:
  assumes "io_ok s" "kern_ok kern" "c \<noteq> me_of s" "line \<noteq> []" "send_message k kern x line s = Some s'"
  shows "adv kern c s s'"
proof (rule send_message_inv [OF assms(5) _ assms(4), where P = "adv kern c s"])
  show "adv kern c s s" using adv_refl assms(1) by blast
next
  fix x line t t' assume a: "adv kern c s t" "line \<noteq> []" "x \<noteq> me_of t" "queue_line kern x line t = Some t'"
  then have "io_ok t" "c \<noteq> me_of t" using assms(3) by (auto simp: adv_def)
  from adv_queue_line [OF this(1) assms(2) this(2) a(2-4)] show "adv kern c s t'" using adv_trans a(1) by blast
next
  fix x t t' assume a: "adv kern c s t" "dead_link_on_write x t = Some t'"
  then have "io_ok t" by (simp add: adv_def)
  from adv_dead_link [OF this a(2)] show "adv kern c s t'" using adv_trans a(1) by blast
next
  fix x t assume a: "adv kern c s t"
  then have "io_ok t" by (simp add: adv_def)
  then have "io_ok (upd_out x (\<lambda>u. u\<lparr>so_exceeded := True\<rparr>) t)" by (auto simp: io_ok_def)
  then have "adv kern c t (upd_out x (\<lambda>u. u\<lparr>so_exceeded := True\<rparr>) t)" by (auto simp: adv_def moves_on_def stream_def)
  then show "adv kern c s (upd_out x (\<lambda>u. u\<lparr>so_exceeded := True\<rparr>) t)" using adv_trans a by blast
qed

text \<open>
  The steps that touch the queues: a line is sent to a connection, \<^verbatim>\<open>send_queued_all\<close> at the end of a turn of the main loop, a socket that
  can be written again; and whatever else the server does, which revives no connection.
\<close>

datatype io_event = Say cid string | Lap | Ready cid | Rest

inductive io_step :: "kernel \<Rightarrow> io_event \<Rightarrow> io \<Rightarrow> io \<Rightarrow> bool" for kern where
  say: "line \<noteq> [] \<Longrightarrow> send_message 2 kern c line s = Some s' \<Longrightarrow> io_step kern (Say c line) s s'"
| lap: "send_queued_all kern s = Some s' \<Longrightarrow> io_step kern Lap s s'"
| ready: "io_step kern (Ready c) s (sendq_unblocked c s)"
| rest: "io_ok (s\<lparr>nt := n\<rparr>) \<Longrightarrow> me (wd n) = me_of s \<Longrightarrow> \<forall>c. IsDefunct (peer_of s c) \<longrightarrow> IsDefunct (peers n c) \<Longrightarrow>
    io_step kern Rest s (s\<lparr>nt := n\<rparr>)"

inductive_cases io_lapE: "io_step kern Lap s s'"
inductive_cases io_readyE: "io_step kern (Ready c) s s'"

definition listed :: "io \<Rightarrow> cid list" where
  "listed s = serv_list (nt s) @ unknown_list (nt s) @ local_client_list (nt s)"

lemma each_append: "each f (xs @ ys) s = Option.bind (each f xs s) (each f ys)"
  by (induction xs arbitrary: s) (auto split: option.splits)

lemma lap_delivered:
  assumes "io_ok s" "kern_ok kern"
  shows "\<exists>s'. each (send_queued_write kern) cs s = Some s' \<and> delivered nothing s s'"
proof -
  have step: "\<exists>t'. send_queued_write kern c t = Some t' \<and> delivered nothing t t' \<and> only_touched {c} t t'"
    if "c \<in> set cs" "during s t" for c t
    using send_queued_write_ok [of t kern c] that(2) assms(2) by (auto simp: during_def only_touched_def)
  have "\<exists>s'. each (send_queued_write kern) cs s = Some s' \<and> delivered (\<lambda>x. concat (map (\<lambda>c. []) cs)) s s' \<and> only_touched (\<Union>c\<in>set cs. {c}) s s'"
    by (rule each_delivered [OF during_refl [OF assms(1)]]) (rule step)
  moreover have "(\<lambda>x::cid. concat (map (\<lambda>c::cid. []::string) cs)) = nothing" by (simp add: fun_eq_iff)
  ultimately show ?thesis by auto
qed

lemma send_queued_all_listed:
  assumes "io_ok s" "kern_ok kern"
  shows "send_queued_all kern s = each (send_queued_write kern) (listed s) s"
proof -
  obtain s1 where s1: "each (send_queued_write kern) (serv_list (nt s)) s = Some s1" "delivered nothing s s1"
    using lap_delivered [OF assms] by blast
  obtain s2 where s2: "each (send_queued_write kern) (unknown_list (nt s1)) s1 = Some s2" "delivered nothing s1 s2"
    using lap_delivered [OF deliveredD(1) [OF s1(2)] assms(2)] by blast
  have "unknown_list (nt s1) = unknown_list (nt s)" "local_client_list (nt s2) = local_client_list (nt s)"
    using only_deathsD(6,7) deliveredD(2) [OF s1(2)] deliveredD(2) [OF s2(2)] by metis+
  then show ?thesis using s1(1) s2(1) by (simp add: send_queued_all_def listed_def each_append)
qed

lemma adv_each:
  assumes "io_ok s" "kern_ok kern" "c \<noteq> me_of s" "each (send_queued_write kern) cs s = Some s'"
  shows "adv kern c s s' \<and> (c \<notin> set cs \<longrightarrow> outs s' c = outs s c \<and> peer_of s' c = peer_of s c)"
  using assms
proof (induction cs arbitrary: s)
  case Nil then show ?case by (simp add: adv_refl)
next
  case (Cons x cs)
  obtain t where t: "send_queued_write kern x s = Some t" "each (send_queued_write kern) cs t = Some s'"
    using Cons.prems(4) by (auto split: option.splits)
  have a: "adv kern c s t" by (rule adv_write [OF Cons.prems(1-3) t(1)])
  then have "io_ok t" "c \<noteq> me_of t" using Cons.prems(3) by (auto simp: adv_def)
  from Cons.IH [OF this(1) assms(2) this(2) t(2)] have *: "adv kern c t s'" "c \<notin> set cs \<longrightarrow> outs s' c = outs t c \<and> peer_of s' c = peer_of t c" by blast+
  have "outs t c = outs s c \<and> peer_of t c = peer_of s c" if "c \<noteq> x"
    using send_queued_write_ok [OF Cons.prems(1,2), of x] t(1) Cons.prems(3) that by auto
  then show ?case using * adv_trans [OF a] by auto
qed

lemma adv_step:
  assumes "io_step kern e s s'" "io_ok s" "kern_ok kern" "c \<noteq> me_of s"
  shows "adv kern c s s'"
  using assms(1)
proof cases
  case (say line x) then show ?thesis using adv_message [OF assms(2-4)] by blast
next
  case lap then show ?thesis using adv_each [OF assms(2-4)] send_queued_all_listed [OF assms(2,3)] by simp
next
  case (ready x)
  have p: "peer_of (sendq_unblocked x s) y = peer_of s y" for y by (simp add: sendq_unblocked_def Let_def notify_def in_world_def)
  have d: "only_deaths (nt s) (nt (sendq_unblocked x s))" by (simp add: sendq_unblocked_def Let_def only_deaths_refl only_deaths_notify)
  have "io_ok (sendq_unblocked x s)"
    by (rule io_ok_same [OF assms(2) d]) (use p io_okD(1,2) [OF assms(2)] in \<open>auto simp: sendq_unblocked_def Let_def\<close>)
  moreover have "moves_on kern c (outs s c) (outs (sendq_unblocked x s) c)"
    by (auto simp: sendq_unblocked_def Let_def moves_on_def stream_def)
  ultimately show ?thesis using ready p only_deathsD(2) [OF d] by (simp add: adv_def)
next
  case (rest n) then show ?thesis by (simp add: adv_def)
qed

text \<open>A turn of the main loop asks the kernel for every connection that has something to write.\<close>

lemma lap_asks:
  assumes "io_step kern Lap s s'" "io_ok s" "kern_ok kern" "c \<noteq> me_of s" "c \<in> set (listed s)" "\<not> IsDefunct (peer_of s' c)"
    "\<not> so_blocked (outs s c)" "content (buf_sendq (outs s c)) \<noteq> []"
  shows "so_calls (outs s c) < so_calls (outs s' c)"
proof -
  obtain as bs where l: "listed s = as @ c # bs" "c \<notin> set as" using split_list_first [OF assms(5)] by blast
  have "each (send_queued_write kern) (listed s) s = Some s'"
    using assms(1) by (rule io_lapE) (simp add: send_queued_all_listed [OF assms(2,3)])
  then obtain t1 t2 where t: "each (send_queued_write kern) as s = Some t1" "send_queued_write kern c t1 = Some t2" "each (send_queued_write kern) bs t2 = Some s'"
    by (auto simp: l(1) each_append bind_eq_Some_conv split: option.splits)
  have a1: "adv kern c s t1" "outs t1 c = outs s c" "peer_of t1 c = peer_of s c" using adv_each [OF assms(2-4) t(1)] l(2) by auto
  have ok1: "io_ok t1" "c \<noteq> me_of t1" using a1(1) assms(4) by (auto simp: adv_def)
  have a2: "adv kern c t1 t2" by (rule adv_write [OF ok1(1) assms(3) ok1(2) t(2)])
  have ok2: "io_ok t2" "c \<noteq> me_of t2" using a2 ok1 by (auto simp: adv_def)
  have a3: "adv kern c t2 s'" using adv_each [OF ok2(1) assms(3) ok2(2) t(3)] by blast
  have nd: "\<not> IsDefunct (peer_of t2 c)" "\<not> IsDefunct (peer_of t1 c)" using a2 a3 assms(6) by (auto simp: adv_def)
  then have "\<not> pr_dead (peer_of t1 c)" by (simp add: IsDefunct_def)
  then obtain q new calls r where r: "so_calls (outs t1 c) < calls"
      "case r of Refused e \<Rightarrow> (if ignoreErrno e then outs t2 c = (taken (outs t1 c) q new calls)\<lparr>so_blocked := True\<rparr> \<and> peer_of t2 c = peer_of t1 c
                     else IsDefunct (peer_of t2 c))
        | Closed \<Rightarrow> IsDefunct (peer_of t2 c) | _ \<Rightarrow> outs t2 c = taken (outs t1 c) q new calls \<and> peer_of t2 c = peer_of t1 c"
    using send_queued_write_ok [OF ok1(1) assms(3), of c] t(2) assms(7,8) a1(2) ok1(2) by auto
  have "so_calls (outs t1 c) < so_calls (outs t2 c)"
    using r nd(1) by (cases r) (auto simp: taken_def split: if_splits)
  moreover have "so_calls (outs t2 c) \<le> so_calls (outs s' c)" using a3 assms(6) by (auto simp: adv_def moves_on_def)
  ultimately show ?thesis using a1(2) by simp
qed

definition run :: "kernel \<Rightarrow> (nat \<Rightarrow> io) \<Rightarrow> (nat \<Rightarrow> io_event) \<Rightarrow> bool" where
  "run kern st ev \<longleftrightarrow> io_ok (st 0) \<and> (\<forall>i. io_step kern (ev i) (st i) (st (Suc i)))"

text \<open>
  The main loop keeps turning, a blocked socket is reported ready again some time, the connection stays on its list while it is alive, and
  the kernel takes something now and then.
\<close>

definition fair :: "kernel \<Rightarrow> cid \<Rightarrow> (nat \<Rightarrow> io) \<Rightarrow> (nat \<Rightarrow> io_event) \<Rightarrow> bool" where
  "fair kern c st ev \<longleftrightarrow> (\<forall>i. \<exists>j\<ge>i. ev j = Lap) \<and> (\<forall>i. so_blocked (outs (st i) c) \<longrightarrow> (\<exists>j\<ge>i. ev j = Ready c)) \<and>
     (\<forall>i. \<not> IsDefunct (peer_of (st i) c) \<longrightarrow> c \<in> set (listed (st i))) \<and> (\<forall>m. \<exists>i\<ge>m. takes kern c i)"

lemma run_adv:
  assumes "run kern st ev" "kern_ok kern" "c \<noteq> me_of (st 0)"
  shows "io_ok (st i) \<and> c \<noteq> me_of (st i)" "i \<le> j \<Longrightarrow> adv kern c (st i) (st j)"
proof -
  have ok: "io_ok (st i) \<and> c \<noteq> me_of (st i)" for i
  proof (induction i)
    case 0 then show ?case using assms by (simp add: run_def)
  next
    case (Suc i)
    then have "adv kern c (st i) (st (Suc i))" using adv_step assms(1,2) unfolding run_def by blast
    then show ?case using Suc by (simp add: adv_def)
  qed
  show "io_ok (st i) \<and> c \<noteq> me_of (st i)" by (rule ok)
  assume "i \<le> j"
  then show "adv kern c (st i) (st j)"
  proof (induction j rule: dec_induct)
    case base then show ?case using ok adv_refl by blast
  next
    case (step j)
    have "adv kern c (st j) (st (Suc j))" using adv_step assms(1,2) ok unfolding run_def by blast
    then show ?case using step.IH adv_trans by blast
  qed
qed

text \<open>While the connection lives and has something queued, the kernel is asked again and again.\<close>

lemma asked_again:
  assumes "run kern st ev" "fair kern c st ev" "kern_ok kern" "c \<noteq> me_of (st 0)"
    and alive: "\<And>j. i \<le> j \<Longrightarrow> \<not> IsDefunct (peer_of (st j) c)" and busy: "\<And>j. i \<le> j \<Longrightarrow> content (buf_sendq (outs (st j) c)) \<noteq> []"
    and "i \<le> j"
  shows "\<exists>l\<ge>j. so_calls (outs (st j) c) < so_calls (outs (st l) c)"
proof -
  note A = run_adv [OF assms(1,3,4)]
  have mv: "moves_on kern c (outs (st a) c) (outs (st b) c)" if "i \<le> a" "a \<le> b" for a b
    using A(2) [of a b] alive [of b] that by (auto simp: adv_def)
  obtain a where a: "j \<le> a" "\<not> so_blocked (outs (st a) c)"
  proof (cases "so_blocked (outs (st j) c)")
    case True
    then obtain b where b: "j \<le> b" "ev b = Ready c" using assms(2) by (auto simp: fair_def)
    then have "io_step kern (Ready c) (st b) (st (Suc b))" using assms(1) by (metis run_def)
    then have "\<not> so_blocked (outs (st (Suc b)) c)" by (rule io_readyE) (simp add: sendq_unblocked_def Let_def)
    then show ?thesis using that [of "Suc b"] b(1) by simp
  qed (use that in blast)
  obtain b where b: "a \<le> b" "ev b = Lap" using assms(2) unfolding fair_def by blast
  have ia: "i \<le> a" "i \<le> b" using a(1) b(1) assms(7) by simp_all
  have ja: "so_calls (outs (st j) c) \<le> so_calls (outs (st a) c)" "so_calls (outs (st a) c) \<le> so_calls (outs (st b) c)"
    using mv [of j a] mv [of a b] a(1) b(1) assms(7) ia by (auto simp: moves_on_def)
  show ?thesis
  proof (cases "so_blocked (outs (st b) c)")
    case True
    then have "so_calls (outs (st a) c) < so_calls (outs (st b) c)" using mv [of a b] a(2) ia(1) b(1) by (auto simp: moves_on_def)
    then show ?thesis using ja(1) a(1) b(1) by (meson le_less_trans le_trans)
  next
    case False
    have "io_step kern Lap (st b) (st (Suc b))" using assms(1) b(2) by (metis run_def)
    moreover have "c \<in> set (listed (st b))" using assms(2) alive [OF ia(2)] by (auto simp: fair_def)
    ultimately have "so_calls (outs (st b) c) < so_calls (outs (st (Suc b)) c)"
      using lap_asks [of kern "st b" "st (Suc b)" c] A(1) [of b] assms(3) alive [of "Suc b"] busy [of b] ia(2) False by auto
    then have "so_calls (outs (st j) c) < so_calls (outs (st (Suc b)) c)" using ja by linarith
    moreover have "j \<le> Suc b" using a(1) b(1) by simp
    ultimately show ?thesis by blast
  qed
qed

lemma grows_unbounded:
  fixes f :: "nat \<Rightarrow> nat"
  assumes "\<And>j. i \<le> j \<Longrightarrow> \<exists>l\<ge>j. f j < f l"
  shows "\<exists>l\<ge>i. n \<le> f l"
proof (induction n)
  case 0 then show ?case by auto
next
  case (Suc n)
  then obtain l where "i \<le> l" "n \<le> f l" by blast
  moreover obtain l' where "l \<le> l'" "f l < f l'" using assms [OF \<open>i \<le> l\<close>] by blast
  ultimately show ?case by (intro exI [of _ l']) auto
qed

text \<open>
  C0: Everything that is queued for a connection is written in the end: however sends to all connections, turns of the main loop, sockets that
  become ready and everything else the server does are interleaved, if the main loop keeps turning and the kernel takes something from
  time to time, then what was queued at any moment is on the wire later, in order and behind what was there before, or the connection
  is dead or being exited.
\<close>

theorem queued_is_written:
  assumes "run kern st ev" "fair kern c st ev" "kern_ok kern" "c \<noteq> me_of (st 0)"
  shows "\<exists>j\<ge>i. IsDefunct (peer_of (st j) c) \<or> (\<exists>more. so_wire (outs (st j) c) = stream (outs (st i) c) @ more)"
proof (rule ccontr)
  assume not: "\<not> ?thesis"
  then have alive: "\<not> IsDefunct (peer_of (st j) c)" if "i \<le> j" for j using that by blast
  note A = run_adv [OF assms(1,3,4)]
  have mv: "moves_on kern c (outs (st a) c) (outs (st b) c)" if "i \<le> a" "a \<le> b" for a b
    using A(2) [of a b] alive [of b] that by (auto simp: adv_def)
  have behind: "\<exists>bs. so_wire (outs (st j) c) @ content (buf_sendq (outs (st j) c)) = stream (outs (st i) c) @ bs" if "i \<le> j" for j
    using mv [OF order_refl that] by (auto simp: moves_on_def stream_def)
  have busy: "content (buf_sendq (outs (st j) c)) \<noteq> []" if "i \<le> j" for j
  proof
    assume "content (buf_sendq (outs (st j) c)) = []"
    with behind [OF that] not that show False by auto
  qed
  have longer: "\<exists>l\<ge>j. length (so_wire (outs (st j) c)) < length (so_wire (outs (st l) c))" if j: "i \<le> j" for j
  proof -
    obtain m where m: "so_calls (outs (st j) c) \<le> m" "takes kern c m" using assms(2) unfolding fair_def by blast
    have "\<exists>l\<ge>j. Suc m \<le> so_calls (outs (st l) c)"
      by (rule grows_unbounded, rule asked_again [OF assms, of i]) (use alive busy j in auto)
    then obtain l where "j \<le> l" "m < so_calls (outs (st l) c)" by auto
    then show ?thesis using mv [OF j, of l] m by (auto simp: moves_on_def)
  qed
  obtain l where l: "i \<le> l" "length (stream (outs (st i) c)) \<le> length (so_wire (outs (st l) c))"
    using grows_unbounded [of i "\<lambda>j. length (so_wire (outs (st j) c))" "length (stream (outs (st i) c))"] longer by blast
  obtain bs where "so_wire (outs (st l) c) @ content (buf_sendq (outs (st l) c)) = stream (outs (st i) c) @ bs" using behind [OF l(1)] by blast
  then have "take (length (stream (outs (st i) c))) (so_wire (outs (st l) c) @ content (buf_sendq (outs (st l) c))) = stream (outs (st i) c)" by simp
  then have "so_wire (outs (st l) c) = stream (outs (st i) c) @ drop (length (stream (outs (st i) c))) (so_wire (outs (st l) c))"
    using l(2) append_take_drop_id [of "length (stream (outs (st i) c))" "so_wire (outs (st l) c)"] by simp
  then have "\<exists>more. so_wire (outs (st l) c) = stream (outs (st i) c) @ more" by blast
  then show False using not l(1) by blast
qed

text \<open>
  C0: \<^verbatim>\<open>send_message\<close> always returns.  The line is whole and behind everything the connection was given before, written or queued, unless
  the connection is dead or exiting, in which case it was written no more than a beginning of that; no queue is longer than the class
  of its client allows; and besides the client only the operators, who are told of a link that is too slow, notice anything.
\<close>

theorem send_message_delivers:
  assumes "io_ok s" "kern_ok kern" "in_bounds s" "line \<noteq> []" "cl_local (cli s c)" "cl_status (cli s c) \<noteq> STAT_ME"
  shows "\<exists>s'. send_message 2 kern c line s = Some s' \<and> io_ok s' \<and> (\<forall>x. x \<noteq> me_of s \<longrightarrow> length (content (buf_sendq (outs s' x))) \<le> get_sendq s' x) \<and>
    (\<not> IsDefunct (peer_of s' c) \<longrightarrow> stream (outs s' c) = stream (outs s c) @ line) \<and>
    (\<not> going (peer_of s c) \<longrightarrow> (\<exists>rest. so_wire (outs s' c) @ rest = stream (outs s c) @ line)) \<and>
    (\<forall>x. x \<noteq> c \<and> x \<noteq> me_of s \<and> \<not> (IsServer (cli s c) \<and> x \<in> set (oper_list (nt s))) \<longrightarrow> outs s' x = outs s x \<and> peer_of s' x = peer_of s x)"
proof -
  obtain s' where s': "send_message (Suc (Suc 0)) kern c line s = Some s'" "delivered (sent s c line) s s'" "only_touched (heard_by s c) s s'"
    using send_message_ok [OF assms(1,2,4-6)] by blast
  have b: "in_bounds s'" using send_message_in_bounds [OF s'(1) assms(2,4) during_refl [OF assms(1)] assms(3)] by blast
  have "sent s c line c = line"
  proof (cases "IsServer (cli s c)")
    case True
    then have "c \<notin> set (oper_list (nt s))" using io_okD(7) [OF assms(1), of c] by (auto simp: IsServer_def IsClient_def)
    then show ?thesis by (simp add: sent_def notices_others single_def)
  qed (simp add: sent_def single_def)
  then have l: "dealt line (outs s c) (outs s' c) (peer_of s c) (peer_of s' c)" using s'(2) by (metis delivered_def)
  have g: "going (peer_of s' c) = going (peer_of s c)" using only_deaths_going [OF deliveredD(2) [OF s'(2)]] .
  have m: "me_of s' = me_of s" using only_deathsD(2) [OF deliveredD(2) [OF s'(2)]] .
  show ?thesis
    using s'(1,3) deliveredD(1) [OF s'(2)] b l g m
    by (auto simp: numeral_2_eq_2 in_bounds_def queued_def dealt_def only_touched_def heard_by_def IsDefunct_def going_def split: if_splits)
qed

subsection \<open>A link with something to write\<close>

definition a_out :: out where
  "a_out = \<lparr>buf_sendq = \<lparr>blocks = [], total_size = 0\<rparr>, so_recvq = \<lparr>blocks = [], total_size = 0\<rparr>, so_blocked = False, so_exceeded = False,
     so_ssl = False, so_pending_read = False, so_confs = [], so_messages = 0, so_bytes = 0, so_serial = 0, so_away = None, so_last = 0,
     so_vlink_nome = None, so_hidden_admin = False, so_away_burst = False,
     so_calls = 0, so_wire = []\<rparr>"

definition an_io :: io where
  "an_io = \<lparr>nt = a_split, outs = (\<lambda>c. if c = 1 then a_out\<lparr>buf_sendq := \<lparr>blocks = [''PING''], total_size = 4\<rparr>\<rparr> else a_out),
     abort_list = [], current_serial = 0, hide_server_ips = False, warn_last = 0, warn_count = 0\<rparr>"

text \<open>A kernel that takes all it is offered.\<close>

definition eager :: kernel where
  "eager c i bs = Wrote (length bs)"

lemma eager_ok: "kern_ok eager" "takes eager c i"
  by (simp_all add: kern_ok_def eager_def takes_def)

lemma an_io_fields [simp]: "nt an_io = a_split" "abort_list an_io = []" "so_blocked (outs an_io c) = False" "hide_server_ips an_io = False"
  by (simp_all add: an_io_def a_out_def)

lemma a_split_peers: "pr_from (peers a_split c) = Some (if c = 0 then 0 else 1)" "pr_dead (peers a_split c) = False" "pr_killed (peers a_split c) = False"
  by (simp_all add: a_split_def a_peer_def)

lemma an_io_ok: "io_ok an_io" "in_bounds an_io"
proof -
  have q: "queue_ok (buf_sendq (outs an_io c))" "queue_ok (so_recvq (outs an_io c))" "length (content (buf_sendq (outs an_io c))) \<le> 4" for c
    by (simp_all add: an_io_def a_out_def queue_ok_def content_def)
  have g: "get_sendq an_io c = DEFAULT_SENDQ" for c by (simp add: get_sendq_def an_io_def a_out_def)
  have l: "cl_local (cl a_split c) \<Longrightarrow> c = 0 \<or> c = 1" for c by (simp add: a_split_clients(1) split: if_splits)
  show "io_ok an_io" unfolding io_ok_def using q l by (auto simp: a_split_lists a_split_peers a_split_clients)
  have "length (content (buf_sendq (outs an_io c))) \<le> DEFAULT_SENDQ" for c using q(3) [of c] by linarith
  then show "in_bounds an_io" unfolding in_bounds_def queued_def g by blast
qed

theorem send_message_delivers_witness: "\<exists>s'. send_message 2 eager 1 ''PONG'' an_io = Some s' \<and> (IsDefunct (peer_of s' 1) \<or> stream (outs s' 1) = ''PINGPONG'')"
proof -
  have "cl_local (cli an_io 1)" "cl_status (cli an_io 1) \<noteq> STAT_ME" by (simp_all add: a_split_clients a_client_def)
  moreover have "stream (outs an_io 1) = ''PING''" by (simp add: stream_def an_io_def a_out_def content_def)
  ultimately show ?thesis using send_message_delivers [OF an_io_ok(1) eager_ok(1) an_io_ok(2), of "''PONG''" 1] by auto
qed

definition flushed_io :: io where
  "flushed_io = upd_out 0 (\<lambda>m. m\<lparr>so_bytes := so_bytes m + 4\<rparr>) (upd_out 1 (\<lambda>_. a_out\<lparr>so_wire := ''PING'', so_bytes := 4, so_calls := 1\<rparr>) an_io)"

lemma flushed_laps: "io_step eager Lap an_io flushed_io" "io_step eager Lap flushed_io flushed_io"
proof -
  have f: "dbuf_length (buf_sendq (outs flushed_io 1)) = 0" "nt flushed_io = a_split" by (simp_all add: flushed_io_def a_out_def dbuf_length_def)
  have "send_queued_all eager flushed_io = Some flushed_io" using f by (simp add: send_queued_all_def a_split_lists send_queued_write_def)
  then show "io_step eager Lap flushed_io flushed_io" by (rule lap)
  have w: "write_loop (eager 1) False (outs an_io 1) = Some (a_out\<lparr>so_wire := ''PING'', so_bytes := 4, so_calls := 1\<rparr>, Flushed)"
    by (simp add: write_loop.simps an_io_def a_out_def eager_def dbuf_delete_def delete_loop.simps dbuf_length_def wrote_def)
  have u: "dbuf_length (buf_sendq (outs an_io 1)) = 4" "so_ssl (outs an_io 1) = False" "so_bytes (outs an_io 1) = 0"
    by (simp_all add: an_io_def a_out_def dbuf_length_def)
  have "send_queued_write eager 1 an_io = Some flushed_io"
    using w [unfolded One_nat_def] u by (simp add: send_queued_write_def a_split_peers after_write_def flushed_io_def a_split_clients(3))
  then have "send_queued_all eager an_io = Some flushed_io" using f(2) by (simp add: send_queued_all_def a_split_lists)
  then show "io_step eager Lap an_io flushed_io" by (rule lap)
qed

theorem queued_is_written_witness:
  "\<exists>st j. st 0 = an_io \<and> run eager st (\<lambda>_. Lap) \<and> (IsDefunct (peer_of (st j) 1) \<or> (\<exists>more. so_wire (outs (st j) 1) = ''PING'' @ more))"
proof -
  define st where "st i = (if i = 0 then an_io else flushed_io)" for i :: nat
  have r: "run eager st (\<lambda>_. Lap)" using an_io_ok(1) flushed_laps by (simp add: run_def st_def)
  have l: "1 \<in> set (listed (st i))" "\<not> so_blocked (outs (st i) 1)" for i
    by (auto simp: st_def listed_def flushed_io_def a_split_lists a_out_def)
  have f: "fair eager 1 st (\<lambda>_. Lap)" unfolding fair_def using l eager_ok(2) by blast
  have "stream (outs (st 0) 1) = ''PING''" by (simp add: st_def stream_def an_io_def a_out_def content_def)
  moreover have "1 \<noteq> me_of (st 0)" by (simp add: st_def a_split_clients(3))
  ultimately show ?thesis using queued_is_written [OF r f eager_ok(1), of 0] r st_def by (metis (full_types))
qed

end
