(* ===== verification/Burst.thy ===== *)
theory Burst
  imports Send_Flow
begin

section \<open>Bursts\<close>

text \<open>
  What a server tells a link about a client or a channel: \<^verbatim>\<open>sendnick_TS\<close>, \<^verbatim>\<open>burst_channel\<close> and the bookkeeping of lazy links (src/s_serv.c),
  \<^verbatim>\<open>send_umode\<close> (src/s_user.c), and \<^verbatim>\<open>send_channel_modes\<close> (src/channel.c) with the lines it splits members and masks into.
\<close>

subsection \<open>User modes\<close>

abbreviation UMODE_REJ :: "32 word" where "UMODE_REJ \<equiv> 0x2"
abbreviation UMODE_SKILL :: "32 word" where "UMODE_SKILL \<equiv> 0x4"
abbreviation UMODE_FULL :: "32 word" where "UMODE_FULL \<equiv> 0x8"
abbreviation UMODE_SPY :: "32 word" where "UMODE_SPY \<equiv> 0x10"
abbreviation UMODE_DEBUG :: "32 word" where "UMODE_DEBUG \<equiv> 0x20"
abbreviation UMODE_NCHANGE :: "32 word" where "UMODE_NCHANGE \<equiv> 0x40"
abbreviation UMODE_WALLOP :: "32 word" where "UMODE_WALLOP \<equiv> 0x80"
abbreviation UMODE_OPERWALL :: "32 word" where "UMODE_OPERWALL \<equiv> 0x100"
abbreviation UMODE_INVISIBLE :: "32 word" where "UMODE_INVISIBLE \<equiv> 0x200"
abbreviation UMODE_BOTS :: "32 word" where "UMODE_BOTS \<equiv> 0x400"
abbreviation UMODE_UNAUTH :: "32 word" where "UMODE_UNAUTH \<equiv> 0x800"
abbreviation UMODE_LOCOPS :: "32 word" where "UMODE_LOCOPS \<equiv> 0x1000"
abbreviation UMODE_DEAF :: "32 word" where "UMODE_DEAF \<equiv> 0x2000"
abbreviation UMODE_CLOAK :: "32 word" where "UMODE_CLOAK \<equiv> 0x4000"
abbreviation UMODE_SSL :: "32 word" where "UMODE_SSL \<equiv> 0x8000"
abbreviation UMODE_REGNICK :: "32 word" where "UMODE_REGNICK \<equiv> 0x10000"
abbreviation UMODE_REGONLY :: "32 word" where "UMODE_REGONLY \<equiv> 0x20000"
abbreviation UMODE_CCONN :: "32 word" where "UMODE_CCONN \<equiv> 0x40000"
abbreviation UMODE_HIDECHANNELS :: "32 word" where "UMODE_HIDECHANNELS \<equiv> 0x80000"
abbreviation UMODE_GRINGO :: "32 word" where "UMODE_GRINGO \<equiv> 0x100000"
abbreviation UMODE_ZOMBIE :: "32 word" where "UMODE_ZOMBIE \<equiv> 0x200000"
abbreviation UMODE_OPER :: "32 word" where "UMODE_OPER \<equiv> 0x400000"
abbreviation UMODE_ADMIN :: "32 word" where "UMODE_ADMIN \<equiv> 0x800000"
abbreviation UMODE_NETADMIN :: "32 word" where "UMODE_NETADMIN \<equiv> 0x1000000"
abbreviation UMODE_SADMIN :: "32 word" where "UMODE_SADMIN \<equiv> 0x2000000"
abbreviation UMODE_SOPER :: "32 word" where "UMODE_SOPER \<equiv> 0x4000000"
abbreviation UMODE_HELPER :: "32 word" where "UMODE_HELPER \<equiv> 0x8000000"
abbreviation UMODE_VADMIN :: "32 word" where "UMODE_VADMIN \<equiv> 0x10000000"
abbreviation UMODE_VOPER :: "32 word" where "UMODE_VOPER \<equiv> 0x20000000"

definition SEND_UMODES :: "32 word" where
  "SEND_UMODES = UMODE_INVISIBLE OR UMODE_OPER OR UMODE_WALLOP OR UMODE_SPY OR UMODE_ADMIN OR UMODE_CLOAK OR UMODE_SSL OR UMODE_REGNICK OR
     UMODE_REGONLY OR UMODE_NETADMIN OR UMODE_HIDECHANNELS OR UMODE_GRINGO OR UMODE_ZOMBIE OR UMODE_HELPER OR UMODE_SADMIN OR UMODE_SOPER OR
     UMODE_CCONN OR UMODE_VADMIN OR UMODE_VOPER"

text \<open>The entries of the table that are not 0, by character.\<close>

definition user_modes :: "(char \<times> 32 word) list" where
  "user_modes =
    [(CHR ''A'', UMODE_ADMIN), (CHR ''B'', UMODE_GRINGO), (CHR ''D'', UMODE_DEAF), (CHR ''N'', UMODE_NETADMIN), (CHR ''O'', UMODE_SOPER),
     (CHR ''R'', UMODE_REGONLY), (CHR ''S'', UMODE_SSL), (CHR ''V'', UMODE_VADMIN), (CHR ''Z'', UMODE_ZOMBIE), (CHR ''a'', UMODE_SADMIN),
     (CHR ''b'', UMODE_BOTS), (CHR ''c'', UMODE_CCONN), (CHR ''d'', UMODE_DEBUG), (CHR ''f'', UMODE_FULL), (CHR ''h'', UMODE_HELPER),
     (CHR ''i'', UMODE_INVISIBLE), (CHR ''j'', UMODE_REJ), (CHR ''k'', UMODE_SKILL), (CHR ''l'', UMODE_LOCOPS), (CHR ''n'', UMODE_NCHANGE),
     (CHR ''o'', UMODE_OPER), (CHR ''p'', UMODE_HIDECHANNELS), (CHR ''r'', UMODE_REGNICK), (CHR ''s'', UMODE_SERVNOTICE), (CHR ''u'', UMODE_UNAUTH),
     (CHR ''v'', UMODE_VOPER), (CHR ''w'', UMODE_WALLOP), (CHR ''x'', UMODE_CLOAK), (CHR ''y'', UMODE_SPY), (CHR ''z'', UMODE_OPERWALL)]"

text \<open>\<open>sign\<close> is \<^verbatim>\<open>what\<close>, the sign of the letter before; NUL is 0.\<close>

fun umode_loop :: "(char \<times> 32 word) list \<Rightarrow> bool \<Rightarrow> 32 word \<Rightarrow> 32 word \<Rightarrow> 32 word \<Rightarrow> char \<Rightarrow> string" where
  "umode_loop [] mine umodes old sendmask sign = []"
| "umode_loop ((i, flag) # ms) mine umodes old sendmask sign =
    (if mine \<and> \<not> has flag sendmask then umode_loop ms mine umodes old sendmask sign
     else if has flag old \<and> \<not> has umodes flag
     then (if sign = CHR ''-'' then [i] else [CHR ''-'', i]) @ umode_loop ms mine umodes old sendmask CHR ''-''
     else if \<not> has flag old \<and> has umodes flag
     then (if sign = CHR ''+'' then [i] else [CHR ''+'', i]) @ umode_loop ms mine umodes old sendmask CHR ''+''
     else umode_loop ms mine umodes old sendmask sign)"

definition send_umode :: "io \<Rightarrow> cid \<Rightarrow> 32 word \<Rightarrow> 32 word \<Rightarrow> string" where
  "send_umode s t old sendmask = umode_loop user_modes (MyClient (cli s t)) (pr_umodes (peer_of s t)) old sendmask NUL"

subsection \<open>Introducing a client\<close>

definition ID_of :: "client \<Rightarrow> string" where
  "ID_of c = (if cl_id c \<noteq> [] then cl_id c else cl_name c)"

text \<open>\<^verbatim>\<open>%lu\<close> of a time.\<close>

definition time_text :: "int \<Rightarrow> string" where
  "time_text i = dec_text (nat (i mod 2 ^ 64))"

definition words :: "string list \<Rightarrow> string" where
  "words ws = concat (map (\<lambda>x. x @ '' '') ws)"

text \<open>
  The lines of \<^verbatim>\<open>sendnick_TS\<close>.  \<^verbatim>\<open>None\<close>: the user modes are written to \<^verbatim>\<open>ubuf\<close>, which has twelve bytes, without looking at their number; or the
  link has no \<^verbatim>\<open>serv\<close>.
\<close>

definition nick_lines :: "io \<Rightarrow> cid \<Rightarrow> cid \<Rightarrow> string list option" where
  "nick_lines s lnk t =
    (let c = cli s t; p = peer_of s t; u = outs s t; srv = cli s (cl_servptr c);
         ub = send_umode s t 0 (if cl_local c \<and> so_hidden_admin u then SEND_UMODES AND NOT UMODE_ADMIN else SEND_UMODES);
         ub1 = (if ub = [] then ''+'' else ub);
         vlink = (case so_vlink_nome u of Some v \<Rightarrow> v | None \<Rightarrow> cl_name (cli s (me_of s)));
         stamp = dec_text (unat (pr_servicestamp p));
         line = (if cl_id c \<noteq> [] \<and> IsCapable (nt s) lnk CAP_TS6
           then '':'' @ words [cl_id srv, ''UID'', cl_name c, int_text (pr_hopcount p + 1), time_text (pr_tsinfo p), ub1, cl_username c, cl_host c,
                  (if pr_ipspoof p then ''0'' else cl_sockhost c), cl_id c, stamp, cl_realhost c, vlink] @ '':'' @ pr_info p
           else words [''NICK'', cl_name c, int_text (pr_hopcount p + 1), time_text (pr_tsinfo p), ub1, cl_username c, cl_host c,
                  cl_name srv, stamp, cl_realhost c, vlink] @ '':'' @ pr_info p) in
     if \<not> IsClient c then Some []
     else if 11 < length ub \<or> pr_serv (peer_of s lnk) = None then None
     else Some (line # (case so_away u of
         Some a \<Rightarrow> (if so_away_burst (outs s lnk) \<and> a \<noteq> [] then ['':'' @ cl_name c @ '' AWAY :'' @ a] else [])
       | None \<Rightarrow> [])))"

definition sendnick_TS :: "kernel \<Rightarrow> cid \<Rightarrow> cid \<Rightarrow> io \<Rightarrow> io option" where
  "sendnick_TS kern lnk t s = do { ls \<leftarrow> nick_lines s lnk t; each (sendto_one kern lnk) ls s }"

text \<open>Lazy links: who is known on which link is a bit of \<^verbatim>\<open>lazyLinkClientExists\<close>.\<close>

definition add_lazylinkclient :: "cid \<Rightarrow> cid \<Rightarrow> io \<Rightarrow> io option" where
  "add_lazylinkclient lnk t s =
    (if \<not> cl_local (cli s lnk) then None
     else Some (in_net (upd_peer t (\<lambda>p. p\<lparr>pr_lazy := pr_lazy p OR pr_serverMask (peer_of s lnk)\<rparr>)) s))"

definition unknown_on :: "io \<Rightarrow> cid \<Rightarrow> cid \<Rightarrow> bool" where
  "unknown_on s lnk t \<longleftrightarrow> pr_lazy (peer_of s t) AND pr_serverMask (peer_of s lnk) = 0"

definition client_burst_if_needed :: "kernel \<Rightarrow> cid \<Rightarrow> cid \<Rightarrow> io \<Rightarrow> io option" where
  "client_burst_if_needed kern lnk t s =
    (if \<not> hub (cfg (wd (nt s))) \<or> \<not> cl_local (cli s lnk) \<or> \<not> IsCapable (nt s) lnk CAP_LL then Some s
     else if unknown_on s lnk t then do { s1 \<leftarrow> sendnick_TS kern lnk t s; add_lazylinkclient lnk t s1 }
     else Some s)"

definition burst_ll_member :: "kernel \<Rightarrow> cid \<Rightarrow> mid \<Rightarrow> io \<Rightarrow> io option" where
  "burst_ll_member kern lnk m s =
    (case mships (wd (nt s)) m of
       None \<Rightarrow> None
     | Some x \<Rightarrow>
         (let t = ms_client x in
          if unknown_on s lnk t \<and> pr_from (peer_of s t) \<noteq> Some lnk
          then do { s1 \<leftarrow> add_lazylinkclient lnk t s; sendnick_TS kern lnk t s1 }
          else Some s))"

definition burst_ll_members :: "kernel \<Rightarrow> cid \<Rightarrow> chid \<Rightarrow> io \<Rightarrow> io option" where
  "burst_ll_members kern lnk ch s = each (burst_ll_member kern lnk) (ch_members (chans (wd (nt s)) ch)) s"

subsection \<open>Members\<close>

definition status_count :: "config \<Rightarrow> 32 word \<Rightarrow> nat" where
  "status_count c fl =
    (if CHANAQ c \<and> has fl CHFL_OWNER then 1 else 0) + (if CHANAQ c \<and> has fl CHFL_PROTECTED then 1 else 0) +
    (if has fl CHFL_CHANOP then 1 else 0) + (if HALFOPS c \<and> has fl CHFL_HALFOP then 1 else 0) + (if has fl CHFL_VOICE then 1 else 0)"

definition member_name :: "bool \<Rightarrow> client \<Rightarrow> string" where
  "member_name ts6 c = (if ts6 then ID_of c else cl_name c)"

text \<open>
  The loop of \<^verbatim>\<open>send_members\<close>: \<open>acc\<close> is what \<^verbatim>\<open>buf\<close> holds before \<^verbatim>\<open>t\<close>, \<open>hdr\<close> what it holds before \<^verbatim>\<open>start\<close>.  A line that is sent loses the space
  at its end.  \<^verbatim>\<open>None\<close> is a write behind \<^verbatim>\<open>buf\<close>.
\<close>

fun member_loop :: "world \<Rightarrow> bool \<Rightarrow> string \<Rightarrow> bool \<Rightarrow> string \<Rightarrow> mid list \<Rightarrow> string list option" where
  "member_loop w ts6 hdr some acc [] = Some [if some then butlast acc else acc]"
| "member_loop w ts6 hdr some acc (m # ms) =
    (case mships w m of
       None \<Rightarrow> None
     | Some x \<Rightarrow>
         (let who = member_name ts6 (clients w (ms_client x));
              full = (IRCD_BUFSIZE - 1 < length acc + (length who + 1 + status_count (cfg w) (ms_flags x)));
              acc1 = (if full then hdr else acc) @ get_member_status (cfg w) (Some x) True False @ who @ '' '' in
          if IRCD_BUFSIZE < length acc1 then None
          else map_option (\<lambda>ls. if full then butlast acc # ls else ls) (member_loop w ts6 hdr True acc1 ms)))"

definition members_header :: "string \<Rightarrow> world \<Rightarrow> chid \<Rightarrow> string \<Rightarrow> string \<Rightarrow> string" where
  "members_header who w ch mb pb =
    '':'' @ who @ '' SJOIN '' @ time_text (ch_channelts (chans w ch)) @ '' '' @ ch_name (chans w ch) @ '' '' @ mb @ '' '' @ pb @ '':''"

definition send_members :: "string \<Rightarrow> bool \<Rightarrow> world \<Rightarrow> chid \<Rightarrow> string \<Rightarrow> string \<Rightarrow> string list option" where
  "send_members who ts6 w ch mb pb =
    (let hdr = members_header who w ch mb pb in
     if IRCD_BUFSIZE \<le> length hdr then None else member_loop w ts6 hdr False hdr (ch_members (chans w ch)))"

subsection \<open>Masks\<close>

text \<open>
  The loop of \<^verbatim>\<open>send_mode_list\<close>: \<open>letters\<close> is what \<^verbatim>\<open>buf\<close> holds behind the header, \<open>pb\<close> what \<^verbatim>\<open>pbuf\<close> holds, \<open>cur\<close> is \<^verbatim>\<open>cur_len\<close>.  \<^verbatim>\<open>None\<close> is a write
  outside of one of the buffers.
\<close>

definition mask_line :: "bool \<Rightarrow> string \<Rightarrow> string \<Rightarrow> string \<Rightarrow> string" where
  "mask_line ts5 hdr letters pb = hdr @ letters @ (if ts5 then '' '' else []) @ butlast pb"

fun mask_loop :: "bool \<Rightarrow> char \<Rightarrow> string \<Rightarrow> string \<Rightarrow> string \<Rightarrow> nat \<Rightarrow> nat \<Rightarrow> ban list \<Rightarrow> string list option" where
  "mask_loop ts5 flag hdr letters pb cur count [] = (if pb = [] then None else Some [mask_line ts5 hdr letters pb])"
| "mask_loop ts5 flag hdr letters pb cur count (b # bs) =
    (let tlen = bn_len b + 3 + (if ts5 then 1 else 0);
         full = (IRCD_BUFSIZE - 2 < cur + (tlen - 1) \<or> ts5 \<and> (MAXMODEPARAMS \<le> count \<or> MODEBUFLEN \<le> length pb));
         letters1 = (if full then [] else letters) @ (if ts5 then [flag] else []);
         pb1 = (if full then [] else pb) @ nuh_text (bn_name b) (bn_username b) (bn_host b) @ '' '' in
     if full \<and> pb = [] \<or> IRCD_BUFSIZE \<le> length hdr + length letters1 \<or> IRCD_BUFSIZE \<le> length pb1 then None
     else map_option (\<lambda>ls. if full then mask_line ts5 hdr letters pb # ls else ls)
       (mask_loop ts5 flag hdr letters1 pb1 ((if full then length hdr + (if ts5 then 1 else 0) else cur) + tlen) (if full then 1 else count + 1) bs))"

definition send_mode_list :: "client \<Rightarrow> bool \<Rightarrow> channel \<Rightarrow> ban list \<Rightarrow> char \<Rightarrow> string list option" where
  "send_mode_list server ts6 x bs flag =
    (let hdr = (if \<not> ts6 then '':'' @ cl_name server @ '' MODE '' @ ch_name x @ '' +''
                else '':'' @ cl_id server @ '' BMASK '' @ time_text (ch_channelts x) @ '' '' @ ch_name x @ '' '' @ [flag] @ '' :'') in
     if bs = [] then Some []
     else if IRCD_BUFSIZE \<le> length hdr then None
     else mask_loop (\<not> ts6) flag hdr [] [] (length hdr + (if ts6 then 0 else 1)) 0 bs)"

subsection \<open>A channel\<close>

text \<open>All the lines \<^verbatim>\<open>send_channel_modes\<close> sends.\<close>

definition channel_lines :: "io \<Rightarrow> cid \<Rightarrow> chid \<Rightarrow> string list option" where
  "channel_lines s lnk ch =
    (let w = wd (nt s); x = chans w ch; ts6 = IsCapable (nt s) lnk CAP_TS6; (mb, pb) = channel_modes ch lnk w; server = clients w (me w) in
     if rd (ch_name x) 0 \<noteq> CHR ''#'' then Some []
     else do {
       members \<leftarrow> send_members (ID_or_name (nt s) (me w) lnk) ts6 w ch mb pb;
       bans \<leftarrow> send_mode_list server ts6 x (ch_banlist x) CHR ''b'';
       exceptions \<leftarrow> (if IsCapable (nt s) lnk CAP_EX then send_mode_list server ts6 x (ch_exceptlist x) CHR ''e'' else Some []);
       invexes \<leftarrow> (if IsCapable (nt s) lnk CAP_IE then send_mode_list server ts6 x (ch_invexlist x) CHR ''I'' else Some []);
       Some (members @ bans @ exceptions @ invexes) })"

definition send_channel_modes :: "kernel \<Rightarrow> cid \<Rightarrow> chid \<Rightarrow> io \<Rightarrow> io option" where
  "send_channel_modes kern lnk ch s = do { ls \<leftarrow> channel_lines s lnk ch; each (sendto_one kern lnk) ls s }"

definition add_lazylinkchannel :: "cid \<Rightarrow> chid \<Rightarrow> io \<Rightarrow> io option" where
  "add_lazylinkchannel lnk ch s =
    (if \<not> cl_local (cli s lnk) then None
     else Some (in_net (\<lambda>n. n\<lparr>lazyLinkChannelExists := (lazyLinkChannelExists n)(ch := lazyLinkChannelExists n ch OR pr_serverMask (peers n lnk)),
       wd := (wd n)\<lparr>lazylink_channels := ch # lazylink_channels (wd n)\<rparr>\<rparr>) s))"

definition burst_topic :: "kernel \<Rightarrow> cid \<Rightarrow> chid \<Rightarrow> io \<Rightarrow> io option" where
  "burst_topic kern lnk ch s =
    (let x = chans (wd (nt s)) ch in
     case (ch_topic x, ch_topic_info x) of
       (Some topic, Some info) \<Rightarrow>
         sendto_one kern lnk ('':'' @ words [cl_name (cli s (me_of s)), ''TOPIC'', ch_name x, info, time_text (ch_topic_time x)] @ '':'' @ topic) s
     | _ \<Rightarrow> Some s)"

definition burst_channel :: "kernel \<Rightarrow> cid \<Rightarrow> chid \<Rightarrow> io \<Rightarrow> io option" where
  "burst_channel kern lnk ch s = do {
     s1 \<leftarrow> burst_ll_members kern lnk ch s;
     s2 \<leftarrow> send_channel_modes kern lnk ch s1;
     s3 \<leftarrow> add_lazylinkchannel lnk ch s2;
     burst_topic kern lnk ch s3 }"

end
