(* ===== verification/Send_To.thy ===== *)
theory Send_To
  imports Burst
begin

section \<open>Who hears a message\<close>

text \<open>
  The functions of src/send.c that send one line to many: to a channel, to the channels a user shares with others, to the servers, to the
  operators, to whom a mask matches.  A serial number that is stamped on a client, or on the link it is behind, keeps a line from
  going there twice.  With \<^verbatim>\<open>is_bwsave\<close> of src/channel.c.  The texts are the formatted patterns.
\<close>

definition IsDeaf :: "peer \<Rightarrow> bool" where
  "IsDeaf p \<longleftrightarrow> has (pr_umodes p) UMODE_DEAF"

definition is_bwsave :: "io \<Rightarrow> chid \<Rightarrow> cid \<Rightarrow> bool" where
  "is_bwsave s ch c \<longleftrightarrow> MyClient (cli s c) \<and> has (md_mode (ch_mode (chans (wd (nt s)) ch))) MODE_BWSAVER \<and>
     (so_away (outs s c) \<noteq> None \<or> 1800 < CurrentTime (wd (nt s)) - so_last (outs s c))"

definition stamp :: "cid \<Rightarrow> io \<Rightarrow> io" where
  "stamp c s = upd_out c (\<lambda>u. u\<lparr>so_serial := current_serial s\<rparr>) s"

definition next_serial :: "io \<Rightarrow> io" where
  "next_serial s = s\<lparr>current_serial := current_serial s + 1\<rparr>"

definition stamped :: "io \<Rightarrow> cid \<Rightarrow> bool" where
  "stamped s c \<longleftrightarrow> so_serial (outs s c) = current_serial s"

text \<open>The member of a membership, which must not have been freed.\<close>

definition for_member :: "(membership \<Rightarrow> io \<Rightarrow> io option) \<Rightarrow> mid \<Rightarrow> io \<Rightarrow> io option" where
  "for_member f m s = (case mships (wd (nt s)) m of None \<Rightarrow> None | Some x \<Rightarrow> f x s)"

abbreviation say_to :: "kernel \<Rightarrow> sender" where "say_to kern \<equiv> send_message 2 kern"

subsection \<open>Members of a channel\<close>

definition local_one :: "kernel \<Rightarrow> cid option \<Rightarrow> 32 word \<Rightarrow> bool \<Rightarrow> chid \<Rightarrow> string \<Rightarrow> membership \<Rightarrow> io \<Rightarrow> io option" where
  "local_one kern one type nodeaf ch line x s =
    (let t = ms_client x in
     if type \<noteq> 0 \<and> \<not> has (ms_flags x) type then Some s
     else if \<not> cl_local (cli s t) \<or> one = Some t \<or> IsDefunct (peer_of s t) \<or> nodeaf \<and> (IsDeaf (peer_of s t) \<or> is_bwsave s ch t) then Some s
     else say_to kern t line s)"

definition sendto_channel_local :: "kernel \<Rightarrow> 32 word \<Rightarrow> bool \<Rightarrow> chid \<Rightarrow> string \<Rightarrow> io \<Rightarrow> io option" where
  "sendto_channel_local kern type nodeaf ch text s = do {
     line \<leftarrow> send_format IRCD_BUFSIZE text;
     each (for_member (local_one kern None type nodeaf ch line)) (ch_members (chans (wd (nt s)) ch)) s }"

definition sendto_channel_local_butone :: "kernel \<Rightarrow> cid option \<Rightarrow> 32 word \<Rightarrow> bool \<Rightarrow> chid \<Rightarrow> string \<Rightarrow> io \<Rightarrow> io option" where
  "sendto_channel_local_butone kern one type nodeaf ch text s = do {
     line \<leftarrow> send_format IRCD_BUFSIZE text;
     each (for_member (local_one kern one type nodeaf ch line)) (ch_members (chans (wd (nt s)) ch)) s }"

text \<open>A null \<^verbatim>\<open>from\<close> is \<^verbatim>\<open>None\<close>.\<close>

definition remote_one :: "kernel \<Rightarrow> cid \<Rightarrow> 32 word \<Rightarrow> 32 word \<Rightarrow> 32 word \<Rightarrow> string \<Rightarrow> membership \<Rightarrow> io \<Rightarrow> io option" where
  "remote_one kern one type caps nocaps line x s =
    (if type \<noteq> 0 \<and> \<not> has (ms_flags x) type \<or> cl_local (cli s (ms_client x)) then Some s
     else do {
       t \<leftarrow> pr_from (peer_of s (ms_client x));
       if pr_from (peer_of s one) = Some t then Some s
       else do {
         f \<leftarrow> pr_from (peer_of s t);
         if \<not> cl_local (cli s f) then None
         else if pr_caps (peer_of s f) AND caps \<noteq> caps \<or> has (pr_caps (peer_of s f)) nocaps then Some s
         else if stamped s f then Some s
         else map_option (stamp f) (say_to kern t line s) } })"

definition sendto_channel_remote :: "kernel \<Rightarrow> cid \<Rightarrow> 32 word \<Rightarrow> 32 word \<Rightarrow> 32 word \<Rightarrow> chid \<Rightarrow> string \<Rightarrow> io \<Rightarrow> io option" where
  "sendto_channel_remote kern one type caps nocaps ch text s = do {
     line \<leftarrow> send_format IRCD_BUFSIZE text;
     each (for_member (remote_one kern one type caps nocaps line)) (ch_members (chans (wd (nt s)) ch)) (next_serial s) }"

subsection \<open>Everybody a user shares a channel with\<close>

definition common_one :: "kernel \<Rightarrow> cid \<Rightarrow> string \<Rightarrow> membership \<Rightarrow> io \<Rightarrow> io option" where
  "common_one kern user line x s =
    (let t = ms_client x in
     if \<not> cl_local (cli s t) \<or> t = user \<or> IsDefunct (peer_of s t) \<or> stamped s t then Some s
     else say_to kern t line (stamp t s))"

definition common_channel :: "kernel \<Rightarrow> cid \<Rightarrow> string \<Rightarrow> membership \<Rightarrow> io \<Rightarrow> io option" where
  "common_channel kern user line x s = each (for_member (common_one kern user line)) (ch_members (chans (wd (nt s)) (ms_chptr x))) s"

definition sendto_common_channels_local :: "kernel \<Rightarrow> cid \<Rightarrow> bool \<Rightarrow> string \<Rightarrow> io \<Rightarrow> io option" where
  "sendto_common_channels_local kern user touser text s = do {
     line \<leftarrow> send_format IRCD_BUFSIZE text;
     s1 \<leftarrow> each (for_member (common_channel kern user line)) (cl_channel (cli s user)) (next_serial s);
     if touser \<and> cl_local (cli s1 user) \<and> \<not> pr_dead (peer_of s1 user) \<and> \<not> stamped s1 user then say_to kern user line s1 else Some s1 }"

subsection \<open>Servers\<close>

text \<open>The tests for lazy links: whether the line may go to the link, and the state after what had to be introduced there.\<close>

definition lazy_source :: "kernel \<Rightarrow> cid option \<Rightarrow> bool \<Rightarrow> cid \<Rightarrow> io \<Rightarrow> (bool \<times> io) option" where
  "lazy_source kern origin iclient c s =
    (case origin of
       Some x \<Rightarrow> (if unknown_on s c x
         then (if iclient then map_option (Pair True) (client_burst_if_needed kern c x s) else Some (False, s)) else Some (True, s))
     | None \<Rightarrow> Some (True, s))"

definition lazy_pass :: "kernel \<Rightarrow> cid option \<Rightarrow> chid option \<Rightarrow> bool \<Rightarrow> bool \<Rightarrow> cid \<Rightarrow> io \<Rightarrow> (bool \<times> io) option" where
  "lazy_pass kern origin ch iclient ichan c s =
    (if \<not> (hub (cfg (wd (nt s))) \<and> IsCapable (nt s) c CAP_LL) then Some (True, s)
     else case ch of
       Some h \<Rightarrow>
         (if lazyLinkChannelExists (nt s) h AND pr_serverMask (peer_of s c) = 0
          then if \<not> iclient \<and> (\<exists>x. origin = Some x \<and> unknown_on s c x) then Some (False, s)
               else if ichan then do { s1 \<leftarrow> burst_channel kern c h s; lazy_source kern origin iclient c s1 }
               else Some (False, s)
          else lazy_source kern origin iclient c s)
     | None \<Rightarrow> lazy_source kern origin iclient c s)"

definition eligible :: "cid option \<Rightarrow> 32 word \<Rightarrow> 32 word \<Rightarrow> io \<Rightarrow> cid \<Rightarrow> bool" where
  "eligible one caps nocaps s c \<longleftrightarrow> \<not> pr_dead (peer_of s c) \<and> \<not> (\<exists>x. one = Some x \<and> pr_from (peer_of s x) = Some c) \<and>
     pr_caps (peer_of s c) AND caps = caps \<and> \<not> has (pr_caps (peer_of s c)) nocaps"

definition server_one :: "kernel \<Rightarrow> cid option \<Rightarrow> cid option \<Rightarrow> chid option \<Rightarrow> 32 word \<Rightarrow> 32 word \<Rightarrow> bool \<Rightarrow> bool \<Rightarrow> string \<Rightarrow> cid \<Rightarrow> io \<Rightarrow> io option" where
  "server_one kern one origin ch caps nocaps iclient ichan line c s =
    (if \<not> eligible one caps nocaps s c then Some s
     else do {
       (go, s1) \<leftarrow> lazy_pass kern origin ch iclient ichan c s;
       if go then say_to kern c line s1 else Some s1 })"

definition sendto_server :: "kernel \<Rightarrow> cid option \<Rightarrow> cid option \<Rightarrow> chid option \<Rightarrow> 32 word \<Rightarrow> 32 word \<Rightarrow> bool \<Rightarrow> bool \<Rightarrow> string \<Rightarrow> io \<Rightarrow> io option" where
  "sendto_server kern one origin ch caps nocaps iclient ichan text s =
    (if (\<exists>h. ch = Some h \<and> rd (ch_name (chans (wd (nt s)) h)) 0 \<noteq> CHR ''#'') then Some s
     else do {
       line \<leftarrow> send_format IRCD_BUFSIZE text;
       each (server_one kern one origin ch caps nocaps iclient ichan line) (serv_list (nt s)) s })"

subsection \<open>send_message_remote\<close>

definition user_text :: "client \<Rightarrow> string" where
  "user_text c = cl_name c @ ''['' @ cl_username c @ ''@'' @ cl_host c @ '']''"

text \<open>
  A message that would go back to the client it came from, though that is no server: the client is killed.  \<open>k\<close> bounds the depth of the
  tree of servers, as in \<^verbatim>\<open>exit_client\<close>; what the exit sends is in the log.
\<close>

definition ghosted :: "kernel \<Rightarrow> nat \<Rightarrow> cid \<Rightarrow> cid \<Rightarrow> io \<Rightarrow> io option" where
  "ghosted kern k c from s =
    (let x = cli s c; y = cli s from; m = cli s (me_of s); own = cl_name (cli s (the (pr_from (peer_of s c))));
         why = '' :'' @ cl_name m @ '' ('' @ user_text x @ '' Ghosted '' @ own @ '')'' in
     if pr_from (peer_of s c) = None then None
     else do {
       s1 \<leftarrow> sendto_realops_flags kern UMODE_ALL L_ALL (''Ghosted: '' @ user_text x @ '' from '' @ user_text y @ '' ('' @ own @ '')'') s;
       s2 \<leftarrow> sendto_server kern None (Some c) None CAP_TS6 0 False False ('':'' @ cl_id m @ '' KILL '' @ cl_name x @ why) s1;
       s3 \<leftarrow> sendto_server kern None (Some c) None 0 CAP_TS6 False False ('':'' @ cl_name m @ '' KILL '' @ cl_name x @ why) s2;
       let s4 = in_net (upd_peer c (\<lambda>p. p\<lparr>pr_killed := True\<rparr>)) s3;
       s5 \<leftarrow> (if IsClient y
               then sendto_one kern from ('':'' @ cl_name m @ '' 503 '' @ cl_name y @ '' :Message could not be delivered to '' @ cl_name x) s4
               else Some s4);
       n \<leftarrow> exit_client k c (me_of s5) ''Ghosted client'' (nt s5);
       Some (s5\<lparr>nt := n\<rparr>) })"

definition send_message_remote :: "kernel \<Rightarrow> nat \<Rightarrow> cid \<Rightarrow> cid \<Rightarrow> string \<Rightarrow> io \<Rightarrow> io option" where
  "send_message_remote kern k c from line s =
    (let own = (case pr_from (peer_of s c) of None \<Rightarrow> [] | Some f \<Rightarrow> cl_name (cli s f)) in
     if \<not> cl_local (cli s c)
     then (if pr_from (peer_of s c) = None then None
           else sendto_realops_flags kern UMODE_ALL L_ALL (''server send message to '' @ cl_name (cli s c) @ '' ['' @ own @ ''] dropped from '' @
             cl_name (cli s from) @ ''(Not local server)'') s)
     else do {
       s1 \<leftarrow> (if hub (cfg (wd (nt s))) \<and> IsCapable (nt s) c CAP_LL \<and> unknown_on s c from then client_burst_if_needed kern c from s else Some s);
       if \<not> MyClient (cli s1 from) \<and> IsClient (cli s1 c) \<and> pr_from (peer_of s1 from) = Some c
       then (if IsServer (cli s1 from)
             then sendto_realops_flags kern UMODE_ALL L_ALL (''Send message to '' @ cl_name (cli s c) @ '' ['' @ own @ ''] dropped from '' @
                    cl_name (cli s from) @ ''(Fake Dir)'') s1
             else ghosted kern k c from s1)
       else say_to kern c line s1 })"

subsection \<open>A channel, here and elsewhere\<close>

definition nuh_prefix :: "client \<Rightarrow> string" where
  "nuh_prefix c = '':'' @ nuh_text (cl_name c) (cl_username c) (cl_host c) @ '' ''"

definition butone_one :: "kernel \<Rightarrow> nat \<Rightarrow> cid option \<Rightarrow> cid \<Rightarrow> chid \<Rightarrow> string \<times> string \<times> string \<Rightarrow> membership \<Rightarrow> io \<Rightarrow> io option" where
  "butone_one kern k one from ch ls x s =
    (let t = ms_client x; (local_line, remote_line, uid_line) = ls in
     if IsDefunct (peer_of s t) \<or> IsDeaf (peer_of s t) \<or> is_bwsave s ch t \<or> pr_from (peer_of s t) = one then Some s
     else if MyClient (cli s t)
     then (if stamped s t then Some s else map_option (stamp t) (say_to kern t local_line s))
     else do {
       f \<leftarrow> pr_from (peer_of s t);
       if stamped s f then Some s
       else do {
         s1 \<leftarrow> send_message_remote kern k f from (if IsCapable (nt s) f CAP_TS6 then uid_line else remote_line) s;
         f1 \<leftarrow> pr_from (peer_of s1 t);
         Some (stamp f1 s1) } })"

text \<open>The line for a local member, for a server, and for a server that knows clients by their ids.\<close>

definition butone_lines :: "io \<Rightarrow> cid \<Rightarrow> chid \<Rightarrow> string \<Rightarrow> string \<Rightarrow> (string \<times> string \<times> string) option" where
  "butone_lines s from ch command text =
    (let y = cli s from; rest = command @ '' '' @ ch_name (chans (wd (nt s)) ch) @ '' '' in
     do {
       local_line \<leftarrow> prefixed ((if IsServer y then '':'' @ cl_name y @ '' '' else nuh_prefix y) @ rest) text;
       remote_line \<leftarrow> prefixed ('':'' @ cl_name y @ '' '' @ rest) text;
       uid_line \<leftarrow> prefixed ('':'' @ ID_of y @ '' '' @ rest) text;
       Some (local_line, remote_line, uid_line) })"

definition sendto_channel_butone :: "kernel \<Rightarrow> nat \<Rightarrow> cid option \<Rightarrow> cid \<Rightarrow> chid \<Rightarrow> string \<Rightarrow> string \<Rightarrow> io \<Rightarrow> io option" where
  "sendto_channel_butone kern k one from ch command text s = do {
     ls \<leftarrow> butone_lines s from ch command text;
     each (for_member (butone_one kern k one from ch ls)) (ch_members (chans (wd (nt s)) ch)) (next_serial s) }"

subsection \<open>One client, wherever it is\<close>

definition sendto_anywhere :: "kernel \<Rightarrow> nat \<Rightarrow> cid \<Rightarrow> cid \<Rightarrow> string \<Rightarrow> io \<Rightarrow> io option" where
  "sendto_anywhere kern k c from text s =
    (let send_to = (case pr_from (peer_of s c) of Some f \<Rightarrow> f | None \<Rightarrow> c); y = cli s from;
         pre = (if MyClient (cli s c)
                then (if IsServer y
                      then (if IsCapable (nt s) c CAP_TS6 \<and> cl_id y \<noteq> [] then '':'' @ cl_id y @ '' '' else '':'' @ cl_name y @ '' '')
                      else nuh_prefix y)
                else '':'' @ ID_or_name (nt s) from send_to @ '' '') in
     if pr_dead (peer_of s send_to) then Some s
     else do {
       line \<leftarrow> prefixed pre text;
       if MyClient (cli s c) then say_to kern send_to line s else send_message_remote kern k send_to from line s })"

text \<open>A KILL towards a client; \<^verbatim>\<open>client_p->from\<close> is dereferenced for the name of this server.\<close>

definition kill_client :: "kernel \<Rightarrow> cid \<Rightarrow> cid \<Rightarrow> string \<Rightarrow> io \<Rightarrow> io option" where
  "kill_client kern c diedie text s =
    (let to = (case pr_from (peer_of s c) of Some f \<Rightarrow> f | None \<Rightarrow> c) in
     if pr_dead (peer_of s to) then Some s
     else do {
       f \<leftarrow> pr_from (peer_of s to);
       line \<leftarrow> prefixed ('':'' @ ID_or_name (nt s) (me_of s) f @ '' KILL '' @ ID_or_name (nt s) diedie to @ '' :'') text;
       say_to kern to line s })"

definition kill_one :: "kernel \<Rightarrow> cid option \<Rightarrow> cid \<Rightarrow> string option \<Rightarrow> string \<Rightarrow> cid \<Rightarrow> io \<Rightarrow> io option" where
  "kill_one kern one origin uid_line nick_line c s =
    (if (\<exists>x. one = Some x \<and> pr_from (peer_of s x) = Some c) \<or> IsDefunct (peer_of s c) then Some s
     else if \<not> cl_local (cli s c) \<or> \<not> IsCapable (nt s) c CAP_LL \<or> \<not> hub (cfg (wd (nt s))) \<or> \<not> unknown_on s c origin
     then (case uid_line of
             Some l \<Rightarrow> say_to kern c (if IsCapable (nt s) c CAP_TS6 then l else nick_line) s
           | None \<Rightarrow> say_to kern c nick_line s)
     else Some s)"

definition kill_client_ll_serv_butone :: "kernel \<Rightarrow> cid option \<Rightarrow> cid \<Rightarrow> string \<Rightarrow> io \<Rightarrow> io option" where
  "kill_client_ll_serv_butone kern one origin text s =
    (let x = cli s origin; m = cli s (me_of s) in
     do {
       uid_line \<leftarrow> (if cl_id x \<noteq> [] \<and> cl_id m \<noteq> [] then map_option Some (prefixed ('':'' @ cl_id m @ '' KILL '' @ ID_of x @ '' :'') text) else Some None);
       nick_line \<leftarrow> prefixed ('':'' @ cl_name m @ '' KILL '' @ cl_name x @ '' :'') text;
       each (kill_one kern one origin uid_line nick_line) (serv_list (nt s)) s })"

subsection \<open>Who a mask matches\<close>

datatype match_what = MATCH_SERVER | MATCH_HOST

definition match_it :: "io \<Rightarrow> cid \<Rightarrow> string \<Rightarrow> match_what \<Rightarrow> bool option" where
  "match_it s one msk what = (if what = MATCH_HOST then match msk (cl_host (cli s one)) else match msk (cl_name (cli s (cl_servptr (cli s one)))))"

definition match_local :: "kernel \<Rightarrow> cid \<Rightarrow> string \<Rightarrow> match_what \<Rightarrow> string \<Rightarrow> cid \<Rightarrow> io \<Rightarrow> io option" where
  "match_local kern one msk what line c s =
    (if c = one \<or> IsDefunct (peer_of s c) then Some s
     else do { b \<leftarrow> match_it s c msk what; if b then say_to kern c line s else Some s })"

definition sendto_match_butone :: "kernel \<Rightarrow> nat \<Rightarrow> cid \<Rightarrow> cid \<Rightarrow> string \<Rightarrow> match_what \<Rightarrow> string \<Rightarrow> io \<Rightarrow> io option" where
  "sendto_match_butone kern k one from msk what text s = do {
     local_line \<leftarrow> prefixed (nuh_prefix (cli s from)) text;
     remote_line \<leftarrow> prefixed ('':'' @ cl_name (cli s from) @ '' '') text;
     s1 \<leftarrow> each (match_local kern one msk what local_line) (local_client_list (nt s)) s;
     each (\<lambda>c s. if c \<noteq> one \<and> \<not> IsDefunct (peer_of s c) then send_message_remote kern k c from remote_line s else Some s) (serv_list (nt s1)) s1 }"

definition match_serv :: "kernel \<Rightarrow> nat \<Rightarrow> cid \<Rightarrow> string \<Rightarrow> 32 word \<Rightarrow> string \<Rightarrow> cid \<Rightarrow> io \<Rightarrow> io option" where
  "match_serv kern k origin msk cap text c s =
    (if cl_status (cli s c) = STAT_ME \<or> pr_from (peer_of s c) = pr_from (peer_of s origin) then Some s
     else do {
       f \<leftarrow> pr_from (peer_of s c);
       if stamped s f then Some s
       else do {
         b \<leftarrow> match msk (cl_name (cli s c));
         if \<not> b then Some s
         else if \<not> IsCapable (nt s) f cap then Some (stamp f s)
         else sendto_anywhere kern k c origin (take (IRCD_BUFSIZE - 1) text) (stamp f s) } })"

definition sendto_match_servs :: "kernel \<Rightarrow> nat \<Rightarrow> cid \<Rightarrow> string \<Rightarrow> 32 word \<Rightarrow> string \<Rightarrow> io \<Rightarrow> io option" where
  "sendto_match_servs kern k origin msk cap text s =
    each (match_serv kern k origin msk cap text) (global_serv_list (nt s)) (next_serial s)"

subsection \<open>Operators\<close>

definition oper_text :: "io \<Rightarrow> cid \<Rightarrow> string \<Rightarrow> string \<Rightarrow> string" where
  "oper_text s c pre text =
    '':'' @ cl_name (cli s (me_of s)) @ '' NOTICE '' @ cl_name (cli s c) @ '' :*** '' @ pre @ take (IRCD_BUFSIZE - 1) text"

definition sendto_ircops :: "kernel \<Rightarrow> string \<Rightarrow> io \<Rightarrow> io option" where
  "sendto_ircops kern text s =
    each (\<lambda>c s. let m = pr_umodes (peer_of s c) in
        if has m UMODE_NETADMIN \<or> has m UMODE_SADMIN \<or> has m UMODE_ADMIN \<or> has m UMODE_OPER then sendto_one kern c (oper_text s c [] text) s else Some s)
      (global_client_list (nt s)) s"

definition sendto_ircops_client_connect :: "kernel \<Rightarrow> string \<Rightarrow> io \<Rightarrow> io option" where
  "sendto_ircops_client_connect kern text s =
    each (\<lambda>c s. if has (pr_umodes (peer_of s c)) UMODE_CCONN then sendto_one kern c (oper_text s c ''Notice -- '' text) s else Some s)
      (global_client_list (nt s)) s"

definition sendto_wallops_flags :: "kernel \<Rightarrow> 32 word \<Rightarrow> cid \<Rightarrow> string \<Rightarrow> io \<Rightarrow> io option" where
  "sendto_wallops_flags kern flags origin text s =
    (let y = cli s origin in
     do {
       line \<leftarrow> prefixed ((if IsClient y then nuh_prefix y else '':'' @ cl_name y @ '' '') @ ''WALLOPS :'') text;
       each (\<lambda>c s. if \<not> cl_oper (cli s c) then None
           else if has (pr_umodes (peer_of s c)) flags \<and> \<not> IsDefunct (peer_of s c) then say_to kern c line s else Some s)
         (oper_list (nt s)) s })"

definition ts_warn :: "kernel \<Rightarrow> string \<Rightarrow> io \<Rightarrow> io option" where
  "ts_warn kern text s =
    (let s1 = (if CurrentTime (wd (nt s)) - warn_last s < 5 then s\<lparr>warn_count := warn_count s + 1\<rparr>
               else s\<lparr>warn_last := CurrentTime (wd (nt s)), warn_count := 0\<rparr>) in
     if CurrentTime (wd (nt s)) - warn_last s < 5 \<and> 5 < warn_count s1 then Some s1
     else map_option (in_net (notify (Calls ''ilog'' (me_of s1)))) (sendto_realops_flags kern UMODE_ALL L_ALL text s1))"

end
