(* ===== verification/Spec2Isabelle.thy ===== *)
theory Spec2Isabelle
  imports Irc_String Irc_Match Hash_Tables Access_Table Mode_Print Recv_Queue Parse Sjoin_Total Exit_Client Send_To
begin

text \<open>
  A model of the core of the IRC daemon under src/: how it matches masks, keeps its names, reads and splits lines,
  and what joining, speaking, modes, bans and the bursts between servers do to the state of the channels.

  \<^bold>\<open>The program.\<close>  The server reads bytes from a connection into a receive queue (src/dbuf.c, src/packet.c), cuts lines
  out of it as fast as flood control allows, splits a line into a prefix, a command and parameters and calls the
  handler of the command (src/parse.c).  The handlers look names up in hash tables (src/hash.c), and change clients,
  channels, memberships and lists of masks (src/channel.c, src/channel_mode.c, src/client.c, modules/).  Masks are
  compared with the routines of src/match.c and src/hostmask.c.

  \<^bold>\<open>The theories.\<close>
  \<^item> \<open>Ircd_Prelude\<close>: C strings as lists, reads past the terminator, facts the components share.
  \<^item> \<open>Char_Tables\<close>: \<^verbatim>\<open>ToLowerTab\<close>, \<^verbatim>\<open>ToUpperTab\<close> and \<^verbatim>\<open>CharAttrs\<close> entry by entry, and the macros over them
    (include/irc_string.h).
  \<^item> \<open>Irc_Match\<close>: \<^verbatim>\<open>match\<close>, \<^verbatim>\<open>match_esc\<close>, \<^verbatim>\<open>match_chan\<close>, \<^verbatim>\<open>collapse\<close>, \<^verbatim>\<open>collapse_esc\<close>, \<^verbatim>\<open>irccmp\<close>, \<^verbatim>\<open>ircncmp\<close> (src/match.c),
    against a recursive definition of what a glob matches.
  \<^item> \<open>Irc_String\<close>: the copying, cleaning and printing routines of src/irc_string.c.
  \<^item> \<open>DLink\<close>: the doubly linked lists of src/tools.c and include/tools.h on a heap of nodes; its lemmas say that the
    pointer operations do what list operations do, and the other theories use lists.
  \<^item> \<open>Hash_Tables\<close>: src/hash.c with the table of hosts (include/userhost.h), with chains of pointers.  The locale
    \<open>name_table\<close> is the contract of a table of names; it is interpreted for the five tables.
  \<^item> \<open>Hostmask\<close> and \<open>Access_Table\<close>: src/hostmask.c, the parsing of addresses and masks and the table of access items,
    with the lookup compared with a search of all items.
  \<^item> \<open>Ircd_State\<close>: the records of include/client.h and include/channel.h, the configuration, the log of what is sent.
  \<^item> \<open>Ban_List\<close>: \<^verbatim>\<open>split_nuh\<close> and the lists of masks, with the cache of bans.
  \<^item> \<open>Channel\<close>: src/channel.c: memberships, invitations, topics, \<^verbatim>\<open>can_join\<close>, \<^verbatim>\<open>can_send\<close>, the flood counters.
  \<^item> \<open>Channel_Mode\<close>, \<open>Mode_Line\<close>, \<open>Mode_Print\<close>: src/channel_mode.c: the handler of each letter and the invariants of a
    whole line, and the lines a change is printed as.
  \<^item> \<open>Recv_Queue\<close>: src/dbuf.c and src/packet.c: the queue in blocks of 1024 bytes, lines, flood control.
  \<^item> \<open>Parse\<close>: src/parse.c: the tree of commands, parameters, prefixes and the dispatch to a handler.
  \<^item> \<open>Sjoin\<close>, \<open>Sjoin_Agree\<close>, \<open>Sjoin_Total\<close>: modules/core/m_sjoin.c, what a line of a burst does to a channel, that the
    order of such lines does not matter, and that the handler always returns within the sizes of its buffers.
  \<^item> \<open>Whowas\<close>: src/whowas.c and modules/m_whowas.c: the ring of past nicknames with its two kinds of linked lists.  The locale \<open>intrusive\<close> is
    the contract of a list whose pointers live in its elements.
  \<^item> \<open>Client_Exit\<close>, \<open>Exit_Net\<close>, \<open>Exit_Client\<close>: the exit of clients and the splits of servers (src/client.c, with \<^verbatim>\<open>remove_lazylink_flags\<close> of
    src/s_serv.c and \<^verbatim>\<open>check_splitmode\<close> of src/channel.c).  \<open>net_ok\<close> is the invariant of the lists a client hangs in; the recursion
    over the tree of servers has its depth as fuel, and \<open>net_ok\<close> says that the depth is enough.  Calls into parts that are
    not modelled (closing the socket, the authentication query, freeing the memory) are recorded in the log.
  This theory holds the properties that span components.

  \<^bold>\<open>Conventions.\<close>  An object is a number, as a pointer is; a membership hangs in two lists and is kept once.  A read or
  write outside an object, a use of a null pointer, or a loop that does not end is the value \<^verbatim>\<open>None\<close>, so a theorem that
  the result is \<^verbatim>\<open>Some\<close> says that the code returns and stays inside its memory.  Loops whose end needs an argument are
  \<^verbatim>\<open>partial_function (option)\<close>.  Unsigned integers of C that may wrap are words.  \<^verbatim>\<open>time_t\<close> and counters that only
  grow are integers.  What is sent is recorded in the log in order.

  \<^bold>\<open>What the lemmas show.\<close>  Each component has its invariant (the two sides of memberships and invitations, chains of the
  tables, the ring of the history, the cache of bans) and lemmas that every operation keeps it; a functional
  description of the operations, errors included; and, where the code is an efficient form of something simple, the
  simple form with a proof that they agree.

  \<^bold>\<open>Parameters.\<close>  The results of parts outside the model are arguments with named hypotheses: the rounding of C's
  floating point numbers, the hash key chosen at start, whether a channel is hidden on a link, which client a lazy link
  knows, the clock of \<^verbatim>\<open>hunt_server\<close>, the text of a time.

  \<^bold>\<open>Not modelled.\<close>  The configuration parser and what is generated for it (ircd_parser.y, ircd_lexer.l, y.tab.c,
  lex.yy.c) and most of s_conf.c, which only fill the configuration record; the registration of users and servers and
  the bursts to a new link (s_user.c, s_auth.c, s_serv.c); sockets, name resolution, logs and formatted printing, where
  the contents of the state do not change; cryptography; the handlers that only print the state; modules, hooks and
  contributed commands; the vendored regular expressions.
\<close>

section \<open>Across the components\<close>


text \<open>A \<open>+b\<close> line with a new mask puts the mask on the list and clears the cache of the channel.\<close>

lemma ban_line:
  assumes "set_channel_mode hidden combos s s ch member [''+b'', banid] name w = Some w'"
    "MyClient (clients w s)" "has_member_flags member CHFL_CHANOP w" "num_mask (chans w ch) < max_bans (cfg w)"
    "split_id (cfg w) (collapse banid) = (n, u, h)" "parse_netmask h = Some a"
    "\<forall>b\<in>set (ch_banlist (chans w ch)). \<not> same_id (n, u, h) b"
  shows "\<exists>b. bn_name b = n \<and> bn_username b = u \<and> bn_host b = h \<and> bn_addr b = a \<and>
    wsame (upd_chan ch (upd_id_list CHFL_BAN (\<lambda>bs. b # bs)) (clear_ban_cache ch w)) w'"
proof -
  let ?e = "start_env s s ch member [''+b'', banid] name w"
  have al: "CHACCESS_HALFOP \<le> alev ?e"
    using assms(2,3) by (cases member) (auto simp: start_env_def get_channel_access_def has_member_flags_def)
  have sv: "\<not> IsServer (clients w s)" using assms(2) by (simp add: MyClient_def IsClient_def IsServer_def)
  have new: "\<not> (\<exists>b\<in>set (id_list CHFL_BAN (chans w ch)). same_id (n, u, h) b)" using assms(7) by (simp add: id_list_def)
  have roomy: "\<not> (MyClient (clients w s) \<and> max_bans (cfg w) \<le> num_mask (chans w ch))" using assms(4) by simp
  have sp: "split_id (cfg w) (if MyClient (clients w s) then collapse banid else banid) = (n, u, h)" using assms(2,5) by simp
  obtain b where b: "bn_name b = n" "bn_username b = u" "bn_host b = h" "bn_addr b = a"
    and add: "add_id s ch banid CHFL_BAN w = Some (True, nuh_text n u h,
      upd_chan ch (upd_id_list CHFL_BAN (\<lambda>bs. b # bs)) (clear_ban_cache ch w))"
    using add_id_new [OF roomy sp new assms(6)] by auto
  obtain r where r: "mode_letters ?e MODE_ADD ''+b'' (start_run w) = Some r"
      "wld r = upd_chan ch (upd_id_list CHFL_BAN (\<lambda>bs. b # bs)) (clear_ban_cache ch w)"
    using al sv add assms(2)
    by (simp add: ModeTable_def chm_ban_def has_param_def over_limit_def src_def start_run_def change_def start_env_def Let_def)
  have "send_mode_changes hidden combos ?e (mode_changes r) (wld r) = Some w'"
    using assms(1) r(1) by (simp add: set_channel_mode_def del: mode_letters.simps)
  from send_mode_changes_frame [OF this] b show ?thesis unfolding r(2) by blast
qed

text \<open>A banned member without status is silenced, whatever the cache held.\<close>

lemma banned_member_silent:
  assumes "is_banned ch v w = Some True" "cache_ok ch w" "mships w m = Some x" "ms_chptr x = ch" "ms_client x = v"
    "\<not> has (ms_flags x) ANY_STATUS" "quiet_on_ban (cfg w)" "MyClient (clients w v)"
  shows "\<exists>w2. member_may_speak ch v m w = Some (Some CAN_SEND_NO, w2)"
proof -
  have "\<not> (has (ms_flags x) CHFL_BAN_CHECKED \<and> \<not> has (ms_flags x) CHFL_BAN_SILENCED)"
  proof
    assume "has (ms_flags x) CHFL_BAN_CHECKED \<and> \<not> has (ms_flags x) CHFL_BAN_SILENCED"
    moreover have "cl_local (clients w (ms_client x))" using assms(5,8) by (simp add: MyClient_def)
    ultimately have "is_banned ch v w = Some False" using assms(2-5) unfolding cache_ok_def by blast
    with assms(1) show False by simp
  qed
  then show ?thesis using assms by (auto simp: member_may_speak_def)
qed

text \<open>
  C1: A ban takes effect at once, across the components it passes through: after an operator's \<open>+b\<close> with a new mask,
  every local client the mask covers and no exception covers is refused by \<open>can_join\<close>, and where bans
  silence, \<open>can_send\<close> lets none of them speak who is on the channel without a status, even one whom
  the ban cache had cleared before.
\<close>

theorem ban_takes_effect:
  assumes "set_channel_mode hidden combos s s ch member [''+b'', banid] name w = Some w'"
    "MyClient (clients w s)" "has_member_flags member CHFL_CHANOP w" "num_mask (chans w ch) < max_bans (cfg w)"
    "split_id (cfg w) (collapse banid) = (n, u, h)" "parse_netmask h = Some a" "2 \<le> NICKLEN (cfg w)" "cstr banid"
    "\<forall>b\<in>set (ch_banlist (chans w ch)). usable b \<and> \<not> same_id (n, u, h) b" "links_ok w"
    "MyClient (clients w v)" "\<not> cl_services (clients w v)" "client_strings_ok (clients w v)" "netmask_ok a" "covers (a_ban n u h a) (clients w v)"
    "\<forall>x\<in>set (ch_exceptlist (chans w ch)). usable x \<and> \<not> covers x (clients w v)"
  shows "can_join v ch key w' = Some ERR_BANNEDFROMCHAN \<and>
    (quiet_on_ban (cfg w) \<longrightarrow> (\<forall>m x. mships w' m = Some x \<and> ms_chptr x = ch \<and> ms_client x = v \<and> \<not> has (ms_flags x) ANY_STATUS \<longrightarrow>
       (\<exists>w2. can_send ch v (Some m) text notice w' = Some (CAN_SEND_NO, w2))))"
proof -
  have fresh: "\<forall>b\<in>set (ch_banlist (chans w ch)). \<not> same_id (n, u, h) b" using assms(9) by blast
  from ban_line [OF assms(1-6) fresh] obtain b where b: "bn_name b = n" "bn_username b = u" "bn_host b = h" "bn_addr b = a"
    and ws: "wsame (upd_chan ch (upd_id_list CHFL_BAN (\<lambda>bs. b # bs)) (clear_ban_cache ch w)) w'" by blast
  have w': "clients w' = clients w" "cfg w' = cfg w" "mships w' = mships (clear_ban_cache ch w)"
      "ch_banlist (chans w' ch) = b # ch_banlist (chans w ch)" "ch_exceptlist (chans w' ch) = ch_exceptlist (chans w ch)"
    using ws by (auto simp: wsame_def upd_id_list_def)
  have "cstr n" "cstr u" "cstr h" using split_id_parts [OF assms(5,7)] assms(8) by simp_all
  then have u: "usable b" using b assms(14) by (simp add: usable_def)
  have c: "covers b (clients w v)" using assms(15) b by (simp add: covers_def a_ban_def)
  have l: "cl_local (clients w v)" using assms(11) by (simp add: MyClient_def)
  have bans: "find_bmask (clients w v) (b # ch_banlist (chans w ch)) = Some True"
    using find_bmask_correct [of "b # ch_banlist (chans w ch)", OF _ assms(13) l] u c assms(9) by simp
  have exc: "find_bmask (clients w v) (ch_exceptlist (chans w ch)) = Some False"
    using find_bmask_correct [of "ch_exceptlist (chans w ch)", OF _ assms(13) l] assms(16) by simp
  have banned: "is_banned ch v w' = Some True"
    unfolding is_banned_def w' bans exc by simp
  have ok: "cache_ok ch w'" by (rule cache_ok_cleared [OF assms(10) w'(3,1)])
  have "\<exists>w2. can_send ch v (Some m) text notice w' = Some (CAN_SEND_NO, w2)"
    if m: "quiet_on_ban (cfg w)" "mships w' m = Some x" "ms_chptr x = ch" "ms_client x = v" "\<not> has (ms_flags x) ANY_STATUS" for m x
  proof -
    obtain w3 where "member_may_speak ch v m w' = Some (Some CAN_SEND_NO, w3)"
      using banned_member_silent [OF banned ok m(2-5)] m(1) w'(1,2) assms(11) by auto
    then show ?thesis
      using assms(11,12) w'(1) by (auto simp: can_send_def Let_def MyClient_def IsClient_def IsServer_def)
  qed
  then show ?thesis using banned by (auto simp: can_join_def Let_def)
qed


text \<open>The operator of \<open>duel\<close> bans the hosts of \<open>home*\<close>; client 5 is on one of them.\<close>

theorem ban_takes_effect_witness:
  "\<exists>w'. set_channel_mode False [] 1 1 1 (Some 10) [''+b'', ''*!*@home*''] ''#isabelle'' duel = Some w' \<and>
     can_join 5 1 None w' = Some ERR_BANNEDFROMCHAN"
proof -
  have cs: "check_string (collapse ''*!*@home*'') = ''*!*@home*''" by (simp add: check_string_def rd_def char_class)
  have "split_nuh (Some 31) 11 64 ''*!*@home*'' = (Some ''*'', ''*'', ''home*'')" by code_simp
  with cs have sp: "split_id (cfg duel) (collapse ''*!*@home*'') = (''*'', ''*'', ''home*'')"
    by (simp add: split_id_def duel_def a_config_def)
  have pn: "parse_netmask ''home*'' = Some HM_HOST" by (simp add: parse_netmask_def)
  have d: "MyClient (clients duel 1)" "has_member_flags (Some 10) CHFL_CHANOP duel" "num_mask (chans duel 1) < max_bans (cfg duel)"
      "2 \<le> NICKLEN (cfg duel)" "MyClient (clients duel 5)" "\<not> cl_services (clients duel 5)" "client_strings_ok (clients duel 5)"
      "ch_banlist (chans duel 1) = []" "ch_exceptlist (chans duel 1) = []" "id_list CHFL_BAN (chans duel 1) = []"
    by (simp_all add: duel_def MyClient_def IsClient_def a_client_def has_member_flags_def has_def a_channel_def a_config_def
        num_mask_def client_strings_ok_def id_list_def)
  obtain b where add: "add_id 1 1 ''*!*@home*'' CHFL_BAN duel = Some (True, ''*!*@home*'',
      upd_chan 1 (upd_id_list CHFL_BAN (\<lambda>bs. b # bs)) (clear_ban_cache 1 duel))"
    using add_id_new [of duel 1 1 "''*!*@home*''" "''*''" "''*''" "''home*''" CHFL_BAN HM_HOST] sp pn d
    by (auto simp: nuh_text_def)
  have al: "alev (start_env 1 1 1 (Some 10) [''+b'', ''*!*@home*''] ''#isabelle'' duel) = CHACCESS_CHANOP"
    by (simp add: start_env_def get_channel_access_def has_member_flags_def duel_def MyClient_def IsClient_def a_client_def has_def a_config_def)
  have c: "\<not> IsServer (clients duel 1)" "clients duel 1 = a_client\<lparr>cl_channel := [10]\<rparr>"
    by (simp_all add: duel_def a_client_def IsServer_def)
  have "\<exists>w'. set_channel_mode False [] 1 1 1 (Some 10) [''+b'', ''*!*@home*''] ''#isabelle'' duel = Some w'"
    using al add d(1) c
    by (simp add: set_channel_mode_def ModeTable_def chm_ban_def has_param_def over_limit_def src_def start_run_def change_def start_env_def
        send_mode_changes_def arg_of_def print_lines_def line_full_def put_change_def channel_header_def nuh_text_def a_client_def
        IsServer_def Let_def)
  then obtain w' where w': "set_channel_mode False [] 1 1 1 (Some 10) [''+b'', ''*!*@home*''] ''#isabelle'' duel = Some w'" ..
  have "\<not> char_matches CHR ''r'' CHR ''*''" by (simp add: char_matches_def char_eq_nat_iff of_char_ToLower del: of_char_eq_iff)
  moreover have st: "glob ''*'' s" for s by (induction s) (simp_all add: glob_star_Cons)
  moreover have "char_matches c c" for c by (simp add: char_matches_def)
  ultimately have cov: "covers (a_ban ''*'' ''*'' ''home*'' HM_HOST) (clients duel 5)"
    by (simp add: covers_def a_ban_def duel_def a_client_def glob_char)
  have no: "\<forall>b\<in>set (ch_banlist (chans duel 1)). usable b \<and> \<not> same_id (''*'', ''*'', ''home*'') b"
      "\<forall>x\<in>set (ch_exceptlist (chans duel 1)). usable x \<and> \<not> covers x (clients duel 5)"
    by (simp_all only: d list.set ball_empty)
  have "netmask_ok HM_HOST" "cstr ''*!*@home*''" by (simp_all add: netmask_ok_def cstr_def)
  from ban_takes_effect [OF w' d(1,2,3) sp pn d(4) this(2) no(1) duel_links d(5-7) this(1) cov no(2), of None] w'
  show ?thesis by blast
qed

end
